(* ===== verification/Nulang_Prelude.thy ===== *)
theory Nulang_Prelude
  imports Main "HOL-Library.Word" "HOL-Library.AList"
begin

text \<open>
  Shared vocabulary of the development: machine integers under their Rust names,
  big-endian and little-endian byte encodings, UTF-8, and the lists that stand for Rust's hash
  containers.
\<close>

unbundle bit_operations_syntax

type_synonym u8 = "8 word"
type_synonym u16 = "16 word"
type_synonym u32 = "32 word"
type_synonym u64 = "64 word"
type_synonym usize = "64 word"
type_synonym bytes = "8 word list"

named_theorems layout_defs \<open>definitions of the value layout constants\<close>
named_theorems roundtrip \<open>decoders undo encoders\<close>

subsection \<open>Big-endian byte encodings\<close>

text \<open>\<open>to_be n w\<close> is \<open>to_be_bytes\<close> of an integer of \<open>n\<close> bytes, \<open>from_be\<close> is
  \<open>from_be_bytes\<close>.\<close>

fun to_be :: "nat \<Rightarrow> 'a::len word \<Rightarrow> bytes" where
  "to_be 0 w = []"
| "to_be (Suc n) w = to_be n (drop_bit 8 w) @ [ucast w]"

definition from_be :: "bytes \<Rightarrow> 'a::len word" where
  "from_be bs = foldl (\<lambda>acc b. push_bit 8 acc OR ucast b) 0 bs"

lemma length_to_be [simp]: "length (to_be n w) = n"
  by (induction n arbitrary: w) auto

lemma from_be_snoc: "from_be (bs @ [b]) = push_bit 8 (from_be bs) OR ucast b"
  by (simp add: from_be_def)

lemma from_be_to_be_take: "from_be (to_be n w) = take_bit (8 * n) w"
proof (induction n arbitrary: w)
  case 0
  then show ?case by (simp add: from_be_def)
next
  case (Suc n)
  have "from_be (to_be (Suc n) w) = push_bit 8 (take_bit (8 * n) (drop_bit 8 w)) OR ucast (ucast w :: u8)"
    by (simp add: from_be_snoc Suc.IH)
  also have "\<dots> = take_bit (8 * Suc n) w"
    by (rule bit_eqI) (auto simp: bit_simps bit_or_iff)
  finally show ?case .
qed

lemma from_be_to_be_u64 [simp, roundtrip]: "from_be (to_be 8 w) = (w :: u64)"
  by (simp add: from_be_to_be_take take_bit_word_eq_self)

lemma from_be_to_be_u32 [simp, roundtrip]: "from_be (to_be 4 w) = (w :: u32)"
  by (simp add: from_be_to_be_take take_bit_word_eq_self)

subsection \<open>Little-endian byte encodings\<close>

fun to_le :: "nat \<Rightarrow> 'a::len word \<Rightarrow> bytes" where
  "to_le 0 w = []"
| "to_le (Suc n) w = ucast w # to_le n (drop_bit 8 w)"

definition from_le :: "bytes \<Rightarrow> 'a::len word" where
  "from_le bs = from_be (rev bs)"

lemma length_to_le [simp]: "length (to_le n w) = n"
  by (induction n arbitrary: w) simp_all

lemma rev_to_le: "rev (to_le n w) = to_be n w"
  by (induction n arbitrary: w) simp_all

lemma from_le_to_le [simp, roundtrip]:
  "from_le (to_le 8 w) = (w :: u64)" "from_le (to_le 4 v) = (v :: u32)" "from_le (to_le 2 u) = (u :: u16)"
  by (simp_all add: from_le_def rev_to_le from_be_to_be_take take_bit_word_eq_self)

end
