(* ===== verification/Value_Layout.thy ===== *)
theory Value_Layout
  imports Nulang_Prelude
begin

text \<open>
  The tagged 64-bit value layout of \<^verbatim>\<open>src/value_layout.rs\<close>: the upper 16 bits are the
  type tag, the lower 48 bits the payload. A Rust \<open>f64\<close> is its IEEE-754 bit pattern
  (\<open>f.to_bits()\<close>), an \<open>i64\<close> is a 64-bit word read by \<open>sint\<close>.
\<close>

type_synonym i64 = "64 word"

subsection \<open>Masks, tags and ranges\<close>

definition TAG_MASK :: u64 where [layout_defs]: "TAG_MASK = 0xFFFF000000000000"
definition PAYLOAD_MASK :: u64 where [layout_defs]: "PAYLOAD_MASK = 0x0000FFFFFFFFFFFF"
definition SIGN_BIT :: u64 where [layout_defs]: "SIGN_BIT = 0x0000800000000000"
definition TAG_SHIFT :: nat where [layout_defs]: "TAG_SHIFT = 48"

definition TAG_NIL :: u64 where [layout_defs]: "TAG_NIL = 0x7FF8000000000000"
definition TAG_UNIT :: u64 where [layout_defs]: "TAG_UNIT = 0x7FF9000000000000"
definition TAG_BOOL :: u64 where [layout_defs]: "TAG_BOOL = 0x7FFA000000000000"
definition TAG_INT :: u64 where [layout_defs]: "TAG_INT = 0x7FFB000000000000"
definition TAG_PTR :: u64 where [layout_defs]: "TAG_PTR = 0x7FFC000000000000"
definition TAG_ACTOR :: u64 where [layout_defs]: "TAG_ACTOR = 0x7FFD000000000000"
definition TAG_STRING :: u64 where [layout_defs]: "TAG_STRING = 0x7FFE000000000000"
definition TAG_CLOSURE :: u64 where [layout_defs]: "TAG_CLOSURE = 0x7FF7000000000000"
definition TAG_OBJECT :: u64 where [layout_defs]: "TAG_OBJECT = 0x7FF5000000000000"

definition INT48_MAX :: i64 where [layout_defs]: "INT48_MAX = 0x00007FFFFFFFFFFF"
definition INT48_MIN :: i64 where [layout_defs]: "INT48_MIN = - 0x0000800000000000"

definition int48_in_range :: "i64 \<Rightarrow> bool" where
  "int48_in_range n \<longleftrightarrow> sint INT48_MIN \<le> sint n \<and> sint n \<le> sint INT48_MAX"

definition CANONICAL_NAN_BITS :: u64 where [layout_defs]: "CANONICAL_NAN_BITS = 0xFFF8000000000001"
definition EXPONENT_MASK :: u64 where [layout_defs]: "EXPONENT_MASK = 0x7FF0000000000000"
definition MANTISSA_MASK :: u64 where [layout_defs]: "MANTISSA_MASK = 0x000FFFFFFFFFFFFF"

subsection \<open>Tag extraction, packing and float detection\<close>

definition is_float_raw :: "u64 \<Rightarrow> bool" where
  "is_float_raw raw \<longleftrightarrow> raw AND EXPONENT_MASK \<noteq> EXPONENT_MASK
     \<or> raw AND MANTISSA_MASK = 0 \<or> raw = CANONICAL_NAN_BITS"

definition float_bits :: "u64 \<Rightarrow> u64" where
  "float_bits f_bits = (if is_float_raw f_bits then f_bits else CANONICAL_NAN_BITS)"

definition tag_of :: "u64 \<Rightarrow> u64" where
  "tag_of raw = drop_bit TAG_SHIFT raw"

definition is_int_raw :: "u64 \<Rightarrow> bool" where
  "is_int_raw raw \<longleftrightarrow> raw AND TAG_MASK = TAG_INT"

definition is_ptr_raw :: "u64 \<Rightarrow> bool" where
  "is_ptr_raw raw \<longleftrightarrow> raw AND TAG_MASK = TAG_PTR"

definition sext48 :: "u64 \<Rightarrow> i64" where
  "sext48 bits = (if bits AND SIGN_BIT \<noteq> 0 then bits OR 0xFFFF000000000000 else bits)"

definition as_int_raw :: "u64 \<Rightarrow> i64" where
  "as_int_raw raw = sext48 (raw AND PAYLOAD_MASK)"

definition as_ptr_raw :: "u64 \<Rightarrow> u32" where
  "as_ptr_raw raw = ucast (raw AND 0xFFFFFFFF)"

definition tag_int :: "i64 \<Rightarrow> u64" where
  "tag_int payload = TAG_INT OR (payload AND PAYLOAD_MASK)"

definition tag_bool :: "bool \<Rightarrow> u64" where
  "tag_bool b = TAG_BOOL OR (if b then 1 else 0)"

definition tag_ptr :: "u32 \<Rightarrow> u64" where
  "tag_ptr offset = TAG_PTR OR ucast offset"

definition tag_object :: "u64 \<Rightarrow> u64" where
  "tag_object oid = TAG_OBJECT OR (oid AND PAYLOAD_MASK)"

definition ptr_fits_payload :: "u64 \<Rightarrow> bool" where
  "ptr_fits_payload addr \<longleftrightarrow> addr AND NOT PAYLOAD_MASK = 0"

definition tag_closure :: "u64 \<Rightarrow> u64" where
  "tag_closure payload = TAG_CLOSURE OR (payload AND PAYLOAD_MASK)"

subsection \<open>Bit-level facts\<close>

lemma payload_mask_eq: "PAYLOAD_MASK = mask 48"
  by (simp add: PAYLOAD_MASK_def mask_eq_exp_minus_1)

lemma tag_mask_eq: "TAG_MASK = NOT (mask 48)"
  by (simp add: TAG_MASK_def mask_eq_exp_minus_1)

lemma and_payload: "x AND PAYLOAD_MASK = take_bit 48 x"
  by (simp add: payload_mask_eq take_bit_eq_mask)

lemma and_tag: "x AND TAG_MASK = push_bit 48 (drop_bit 48 x)"
  by (rule bit_eqI) (auto simp: tag_mask_eq bit_simps)


lemma and_sign_bit: "x AND SIGN_BIT = 0 \<longleftrightarrow> \<not> bit x 47"
proof -
  have sb: "SIGN_BIT = 2 ^ 47" by (simp add: SIGN_BIT_def)
  show ?thesis unfolding sb by (rule and_exp_eq_0_iff_not_bit)
qed

lemma high_bits_eq: "(0xFFFF000000000000 :: 64 word) = NOT (mask 48)"
  by (simp add: mask_eq_exp_minus_1)

lemma bit_at_47: "47 \<le> n \<Longrightarrow> n < 48 \<Longrightarrow> bit x n = bit x 47"
  by (subgoal_tac "n = 47") simp_all

lemma sext48_take_bit: "sext48 (take_bit 48 x) = signed_take_bit 47 x"
  unfolding sext48_def and_sign_bit high_bits_eq
  by (rule bit_eqI) (auto simp: bit_simps min_def not_less not_le dest: bit_at_47)

text \<open>A word whose low 48 bits are clear can be split again from any payload ored in.\<close>

lemma tagged_payload:
  assumes "take_bit 48 t = 0"
  shows "(t OR take_bit 48 p) AND PAYLOAD_MASK = take_bit 48 p"
  using assms by (simp add: and_payload take_bit_or)

lemma tagged_tag:
  assumes "take_bit 48 t = (0 :: 64 word)"
  shows "(t OR take_bit 48 p) AND TAG_MASK = t"
proof -
  have "push_bit 48 (drop_bit 48 (t OR take_bit 48 p)) = push_bit 48 (drop_bit 48 t) + take_bit 48 t"
    using assms by (simp add: drop_bit_or drop_bit_take_bit)
  also have "\<dots> = t" by (simp add: bits_ident)
  finally show ?thesis by (simp add: and_tag)
qed

lemma tags_low_bits_clear [simp]:
  "take_bit 48 TAG_NIL = 0" "take_bit 48 TAG_UNIT = 0" "take_bit 48 TAG_BOOL = 0"
  "take_bit 48 TAG_INT = 0" "take_bit 48 TAG_PTR = 0" "take_bit 48 TAG_ACTOR = 0"
  "take_bit 48 TAG_STRING = 0" "take_bit 48 TAG_CLOSURE = 0" "take_bit 48 TAG_OBJECT = 0"
  by (simp_all add: layout_defs)

lemma tag_int_eq: "tag_int p = TAG_INT OR take_bit 48 p"
  by (simp add: tag_int_def and_payload)

lemma tag_closure_eq: "tag_closure p = TAG_CLOSURE OR take_bit 48 p"
  by (simp add: tag_closure_def and_payload)

lemma tag_object_eq: "tag_object p = TAG_OBJECT OR take_bit 48 p"
  by (simp add: tag_object_def and_payload)

lemma tag_bool_eq: "tag_bool b = TAG_BOOL OR take_bit 48 (of_bool b)"
  by (simp add: tag_bool_def)

lemma tag_ptr_eq: "tag_ptr off = TAG_PTR OR take_bit 48 (ucast off)"
proof -
  have "take_bit 48 (ucast off :: 64 word) = ucast off"
    by (rule bit_eqI) (auto simp: bit_simps dest: bit_imp_le_length)
  then show ?thesis by (simp add: tag_ptr_def)
qed

lemma pack_tag [simp]:
  "tag_int p AND TAG_MASK = TAG_INT"
  "tag_bool b AND TAG_MASK = TAG_BOOL"
  "tag_closure q AND TAG_MASK = TAG_CLOSURE"
  "tag_object q AND TAG_MASK = TAG_OBJECT"
  "tag_ptr off AND TAG_MASK = TAG_PTR"
  unfolding tag_int_eq tag_bool_eq tag_closure_eq tag_object_eq tag_ptr_eq
  by (rule tagged_tag; simp)+

lemma pack_payload [simp]:
  "tag_int p AND PAYLOAD_MASK = take_bit 48 p"
  "tag_closure q AND PAYLOAD_MASK = take_bit 48 q"
  "tag_object q AND PAYLOAD_MASK = take_bit 48 q"
  "tag_bool b AND PAYLOAD_MASK = of_bool b"
  unfolding tag_int_eq tag_closure_eq tag_object_eq tag_bool_eq
  by (subst tagged_payload; simp)+

lemma is_int_raw_tag_int [simp]: "is_int_raw (tag_int p)"
  by (simp add: is_int_raw_def)

lemma as_int_tag_int_wrap: "as_int_raw (tag_int p) = signed_take_bit 47 p"
  by (simp add: as_int_raw_def sext48_take_bit)

lemma sint_as_int_tag_int: "sint (as_int_raw (tag_int p)) = signed_take_bit 47 (sint p)"
proof -
  have "sint (signed_take_bit 47 p) = signed_take_bit 47 (sint p)"
    by transfer (simp add: min_def signed_take_bit_take_bit)
  then show ?thesis by (simp add: as_int_tag_int_wrap)
qed

lemma as_int_raw_range: "int48_in_range (as_int_raw raw)"
proof -
  have *: "as_int_raw raw = signed_take_bit 47 raw"
    by (simp add: as_int_raw_def and_payload sext48_take_bit)
  have "sint (signed_take_bit 47 raw) = signed_take_bit 47 (sint raw)"
    by transfer (simp add: min_def signed_take_bit_take_bit)
  moreover have "- (2 ^ 47) \<le> signed_take_bit 47 (sint raw)" "signed_take_bit 47 (sint raw) < 2 ^ 47"
    by (rule signed_take_bit_int_greater_eq_minus_exp, rule signed_take_bit_int_less_exp)
  ultimately show ?thesis
    by (simp add: * int48_in_range_def layout_defs)
qed

lemma as_int_tag_int [simp, roundtrip]:
  assumes "int48_in_range n"
  shows "as_int_raw (tag_int n) = n"
proof -
  from assms have "- (2 ^ 47) \<le> sint n" "sint n < 2 ^ 47"
    by (simp_all add: int48_in_range_def layout_defs)
  then have "signed_take_bit 47 (sint n) = sint n"
    by (simp add: signed_take_bit_int_eq_self)
  then have "sint (as_int_raw (tag_int n)) = sint n"
    by (simp add: sint_as_int_tag_int)
  then show ?thesis by (simp add: signed_word_eqI)
qed

lemma tag_int_as_int [roundtrip]:
  assumes "is_int_raw raw"
  shows "tag_int (as_int_raw raw) = raw"
proof -
  have "take_bit 48 (signed_take_bit 47 raw) = take_bit 48 raw"
    by (rule bit_eqI) (auto simp: bit_simps min_def dest: bit_at_47)
  then have "tag_int (as_int_raw raw) = (raw AND TAG_MASK) OR take_bit 48 raw"
    using assms by (simp add: tag_int_eq as_int_raw_def and_payload sext48_take_bit is_int_raw_def)
  also have "\<dots> = raw"
    by (rule bit_eqI) (auto simp: and_tag bit_simps)
  finally show ?thesis .
qed


subsection \<open>Floats and tags never collide\<close>

definition all_tags :: "u64 list" where
  "all_tags = [TAG_NIL, TAG_UNIT, TAG_BOOL, TAG_INT, TAG_PTR, TAG_ACTOR, TAG_STRING,
     TAG_CLOSURE, TAG_OBJECT]"

lemma distinct_all_tags: "distinct all_tags"
  by (simp add: all_tags_def layout_defs)

lemma all_tags_shape:
  assumes "t \<in> set all_tags"
  shows "t AND EXPONENT_MASK = EXPONENT_MASK" "t AND MANTISSA_MASK \<noteq> 0"
    "CANONICAL_NAN_BITS AND TAG_MASK \<noteq> t"
  using assms by (auto simp: all_tags_def layout_defs)

lemma tagged_not_float:
  assumes "raw AND TAG_MASK \<in> set all_tags"
  shows "\<not> is_float_raw raw"
proof -
  let ?t = "raw AND TAG_MASK"
  have "TAG_MASK AND EXPONENT_MASK = EXPONENT_MASK" by (simp add: layout_defs)
  then have "raw AND EXPONENT_MASK = ?t AND EXPONENT_MASK" by (simp add: and.assoc)
  with all_tags_shape(1) [OF assms] have "raw AND EXPONENT_MASK = EXPONENT_MASK" by simp
  moreover have "raw AND MANTISSA_MASK \<noteq> 0"
  proof
    assume "raw AND MANTISSA_MASK = 0"
    then have "(raw AND MANTISSA_MASK) AND TAG_MASK = 0" by simp
    then have "?t AND MANTISSA_MASK = 0" by (simp add: ac_simps)
    with all_tags_shape(2) [OF assms] show False by simp
  qed
  moreover have "raw \<noteq> CANONICAL_NAN_BITS"
    using all_tags_shape(3) [OF assms] by auto
  ultimately show ?thesis by (simp add: is_float_raw_def)
qed

lemma is_float_float_bits [simp]: "is_float_raw (float_bits b)"
  by (simp add: float_bits_def) (simp add: is_float_raw_def)

subsection \<open>Properties\<close>

text \<open>C28: packing an \<open>i64\<close> with \<open>tag_int\<close> always gives an integer-tagged value, unpacking it
  with \<open>as_int_raw\<close> gives the two's complement 48-bit reduction of the number, and hence gives
  the number back exactly when \<open>int48_in_range\<close> accepts it; conversely every integer-tagged
  value is the packing of what it unpacks to.\<close>

theorem int_boxing:
  "is_int_raw (tag_int n) \<and>
   sint (as_int_raw (tag_int n)) = (sint n + 2 ^ 47) mod 2 ^ 48 - 2 ^ 47 \<and>
   (as_int_raw (tag_int n) = n \<longleftrightarrow> int48_in_range n) \<and>
   (is_int_raw raw \<longleftrightarrow> tag_int (as_int_raw raw) = raw)"
proof (intro conjI)
  show "sint (as_int_raw (tag_int n)) = (sint n + 2 ^ 47) mod 2 ^ 48 - 2 ^ 47"
    by (simp add: sint_as_int_tag_int signed_take_bit_eq_take_bit_shift take_bit_eq_mod)
  show "as_int_raw (tag_int n) = n \<longleftrightarrow> int48_in_range n"
    using as_int_raw_range [of "tag_int n"] as_int_tag_int by metis
  show "is_int_raw raw \<longleftrightarrow> tag_int (as_int_raw raw) = raw"
    using tag_int_as_int is_int_raw_tag_int by metis
qed simp

text \<open>C29: a stored float never aliases a type tag: for every \<open>f64\<close> bit pattern \<open>float_bits\<close>
  gives a pattern \<open>is_float_raw\<close> accepts and whose upper 16 bits are none of the nine tags, it
  keeps every pattern that is not a NaN, and no packed value of any tag is taken for a float.\<close>

theorem float_tag_separation:
  "is_float_raw (float_bits b) \<and> float_bits b AND TAG_MASK \<notin> set all_tags \<and>
   (b AND EXPONENT_MASK = EXPONENT_MASK \<and> b AND MANTISSA_MASK \<noteq> 0 \<or> float_bits b = b) \<and>
   \<not> is_float_raw (tag_int n) \<and> \<not> is_float_raw (tag_bool p) \<and> \<not> is_float_raw (tag_ptr off) \<and>
   \<not> is_float_raw (tag_object q) \<and> \<not> is_float_raw (tag_closure q)"
proof (intro conjI)
  show "float_bits b AND TAG_MASK \<notin> set all_tags"
    using tagged_not_float is_float_float_bits by blast
  show "b AND EXPONENT_MASK = EXPONENT_MASK \<and> b AND MANTISSA_MASK \<noteq> 0 \<or> float_bits b = b"
    by (auto simp: float_bits_def is_float_raw_def)
qed (auto intro!: tagged_not_float simp: all_tags_def)

end
