(* ===== verification/Bytecode.thy ===== *)
theory Bytecode
  imports Value_Layout
begin

text \<open>
  The instruction set and the module format of \<^verbatim>\<open>src/bytecode.rs\<close>. The enum \<open>OpCode\<close> is one
  datatype per section of the enum (the headings of the source), joined by a datatype with one
  constructor per section; \<open>as_u8\<close> is the discriminant and \<open>from_u8\<close> the match on the byte, arm
  by arm in the source's order.
\<close>

subsection \<open>Opcodes\<close>

datatype special_op = Nop | Halt | Panic | Const0 | Const1 | Const2 | ConstM1 | ConstU | ConstL

datatype locals_op = Load | Store | Move | Pop | Dup | Swap

datatype int_op = IAdd | ISub | IMul | IDiv | IMod | INeg | IInc | IDec | IPow | Xor | Shl | Shr | BitAnd | BitOr

datatype float_op = FAdd | FSub | FMul | FDiv | FNeg | FMod | IToF | FToI | FToS | FPow

datatype cmp_op = ICmpEq | ICmpLt | ICmpGt | ICmpLe | ICmpGe | FCmpEq | FCmpLt | FCmpGt | SCmpEq | Not_op | And | Or

datatype control_op = Jmp | JmpT | JmpF | Switch | Call | TailCall | Ret | RetVal

datatype closure_op = Closure | CapLoad | CapStore | FreeVar | ClosureCall

datatype object_op = Alloc | FieldL | FieldS | ArrAlloc | ArrLoad | ArrStore | ArrLen | TupleMk | TupleL | RecMk | RecL | RecS | IsTag | Unpack | RecCopy | Copy | Drop

datatype actor_op = Spawn | Send | Ask | SelfOp | Receive | Monitor | Demon | Link | Unlink | Exit | Yield | StateGet | StateSet | Emit | SignalWait | ReceiveMatch | ReceiveWait | ReceiveCommit

datatype effect_op = Perform | Handle | Resume | Unwind | PerformDirect | PerformAsync

datatype python_op = PyImport | PyGetAttr | PyCall | PyCallKw | PySetAttr | PyToNu | PyFromNu | PyRelease

datatype ffi_op = FFICall

datatype distribution_op = NodeId | Migrate | RSend | RAsk | RSpawn | Gossip

datatype io_op = SConcat | SPrint | SRead | FOpen | FRead | FWrite | FClose | Print

datatype debug_op = DbgBreak | DbgPrint | DbgStack | MetaType | MetaCap

datatype spill_op = SpillLoad | SpillStore

datatype OpCode =
  Special special_op
| Locals locals_op
| IntArith int_op
| FloatArith float_op
| Compare cmp_op
| Control control_op
| Closures closure_op
| Objects object_op
| Actors actor_op
| Effects effect_op
| Python python_op
| Ffi ffi_op
| Distribution distribution_op
| StringIO io_op
| Debug debug_op
| Spill spill_op

primrec special_op_u8 :: "special_op \<Rightarrow> u8" where
  "special_op_u8 Nop = 0x00"
| "special_op_u8 Halt = 0x01"
| "special_op_u8 Panic = 0x02"
| "special_op_u8 Const0 = 0x03"
| "special_op_u8 Const1 = 0x04"
| "special_op_u8 Const2 = 0x05"
| "special_op_u8 ConstM1 = 0x06"
| "special_op_u8 ConstU = 0x07"
| "special_op_u8 ConstL = 0x08"

primrec locals_op_u8 :: "locals_op \<Rightarrow> u8" where
  "locals_op_u8 Load = 0x10"
| "locals_op_u8 Store = 0x11"
| "locals_op_u8 Move = 0x12"
| "locals_op_u8 Pop = 0x13"
| "locals_op_u8 Dup = 0x14"
| "locals_op_u8 Swap = 0x15"

primrec int_op_u8 :: "int_op \<Rightarrow> u8" where
  "int_op_u8 IAdd = 0x20"
| "int_op_u8 ISub = 0x21"
| "int_op_u8 IMul = 0x22"
| "int_op_u8 IDiv = 0x23"
| "int_op_u8 IMod = 0x24"
| "int_op_u8 INeg = 0x25"
| "int_op_u8 IInc = 0x26"
| "int_op_u8 IDec = 0x27"
| "int_op_u8 IPow = 0x28"
| "int_op_u8 Xor = 0x29"
| "int_op_u8 Shl = 0x2A"
| "int_op_u8 Shr = 0x2B"
| "int_op_u8 BitAnd = 0x2C"
| "int_op_u8 BitOr = 0x2D"

primrec float_op_u8 :: "float_op \<Rightarrow> u8" where
  "float_op_u8 FAdd = 0x30"
| "float_op_u8 FSub = 0x31"
| "float_op_u8 FMul = 0x32"
| "float_op_u8 FDiv = 0x33"
| "float_op_u8 FNeg = 0x34"
| "float_op_u8 FMod = 0x35"
| "float_op_u8 IToF = 0x36"
| "float_op_u8 FToI = 0x37"
| "float_op_u8 FToS = 0x38"
| "float_op_u8 FPow = 0x39"

primrec cmp_op_u8 :: "cmp_op \<Rightarrow> u8" where
  "cmp_op_u8 ICmpEq = 0x40"
| "cmp_op_u8 ICmpLt = 0x41"
| "cmp_op_u8 ICmpGt = 0x42"
| "cmp_op_u8 ICmpLe = 0x43"
| "cmp_op_u8 ICmpGe = 0x44"
| "cmp_op_u8 FCmpEq = 0x45"
| "cmp_op_u8 FCmpLt = 0x46"
| "cmp_op_u8 FCmpGt = 0x47"
| "cmp_op_u8 SCmpEq = 0x48"
| "cmp_op_u8 Not_op = 0x49"
| "cmp_op_u8 And = 0x4A"
| "cmp_op_u8 Or = 0x4B"

primrec control_op_u8 :: "control_op \<Rightarrow> u8" where
  "control_op_u8 Jmp = 0x50"
| "control_op_u8 JmpT = 0x51"
| "control_op_u8 JmpF = 0x52"
| "control_op_u8 Switch = 0x53"
| "control_op_u8 Call = 0x54"
| "control_op_u8 TailCall = 0x55"
| "control_op_u8 Ret = 0x56"
| "control_op_u8 RetVal = 0x57"

primrec closure_op_u8 :: "closure_op \<Rightarrow> u8" where
  "closure_op_u8 Closure = 0x60"
| "closure_op_u8 CapLoad = 0x61"
| "closure_op_u8 CapStore = 0x62"
| "closure_op_u8 FreeVar = 0x63"
| "closure_op_u8 ClosureCall = 0x64"

primrec object_op_u8 :: "object_op \<Rightarrow> u8" where
  "object_op_u8 Alloc = 0x70"
| "object_op_u8 FieldL = 0x71"
| "object_op_u8 FieldS = 0x72"
| "object_op_u8 ArrAlloc = 0x73"
| "object_op_u8 ArrLoad = 0x74"
| "object_op_u8 ArrStore = 0x75"
| "object_op_u8 ArrLen = 0x76"
| "object_op_u8 TupleMk = 0x77"
| "object_op_u8 TupleL = 0x78"
| "object_op_u8 RecMk = 0x79"
| "object_op_u8 RecL = 0x7A"
| "object_op_u8 RecS = 0x7B"
| "object_op_u8 IsTag = 0x7C"
| "object_op_u8 Unpack = 0x7D"
| "object_op_u8 RecCopy = 0x9D"
| "object_op_u8 Copy = 0x7E"
| "object_op_u8 Drop = 0x7F"

primrec actor_op_u8 :: "actor_op \<Rightarrow> u8" where
  "actor_op_u8 Spawn = 0x80"
| "actor_op_u8 Send = 0x81"
| "actor_op_u8 Ask = 0x82"
| "actor_op_u8 SelfOp = 0x83"
| "actor_op_u8 Receive = 0x84"
| "actor_op_u8 Monitor = 0x85"
| "actor_op_u8 Demon = 0x86"
| "actor_op_u8 Link = 0x87"
| "actor_op_u8 Unlink = 0x88"
| "actor_op_u8 Exit = 0x89"
| "actor_op_u8 Yield = 0x8A"
| "actor_op_u8 StateGet = 0x8B"
| "actor_op_u8 StateSet = 0x8C"
| "actor_op_u8 Emit = 0x8D"
| "actor_op_u8 SignalWait = 0x8E"
| "actor_op_u8 ReceiveMatch = 0x8F"
| "actor_op_u8 ReceiveWait = 0xA0"
| "actor_op_u8 ReceiveCommit = 0xA1"

primrec effect_op_u8 :: "effect_op \<Rightarrow> u8" where
  "effect_op_u8 Perform = 0x90"
| "effect_op_u8 Handle = 0x91"
| "effect_op_u8 Resume = 0x92"
| "effect_op_u8 Unwind = 0x93"
| "effect_op_u8 PerformDirect = 0x9C"
| "effect_op_u8 PerformAsync = 0xC6"

primrec python_op_u8 :: "python_op \<Rightarrow> u8" where
  "python_op_u8 PyImport = 0x94"
| "python_op_u8 PyGetAttr = 0x95"
| "python_op_u8 PyCall = 0x96"
| "python_op_u8 PyCallKw = 0x97"
| "python_op_u8 PySetAttr = 0x98"
| "python_op_u8 PyToNu = 0x99"
| "python_op_u8 PyFromNu = 0x9A"
| "python_op_u8 PyRelease = 0x9B"

primrec ffi_op_u8 :: "ffi_op \<Rightarrow> u8" where
  "ffi_op_u8 FFICall = 0xB0"

primrec distribution_op_u8 :: "distribution_op \<Rightarrow> u8" where
  "distribution_op_u8 NodeId = 0xD0"
| "distribution_op_u8 Migrate = 0xD1"
| "distribution_op_u8 RSend = 0xD2"
| "distribution_op_u8 RAsk = 0xD3"
| "distribution_op_u8 RSpawn = 0xD4"
| "distribution_op_u8 Gossip = 0xD5"

primrec io_op_u8 :: "io_op \<Rightarrow> u8" where
  "io_op_u8 SConcat = 0xE0"
| "io_op_u8 SPrint = 0xE1"
| "io_op_u8 SRead = 0xE2"
| "io_op_u8 FOpen = 0xE3"
| "io_op_u8 FRead = 0xE4"
| "io_op_u8 FWrite = 0xE5"
| "io_op_u8 FClose = 0xE6"
| "io_op_u8 Print = 0xE7"

primrec debug_op_u8 :: "debug_op \<Rightarrow> u8" where
  "debug_op_u8 DbgBreak = 0xF0"
| "debug_op_u8 DbgPrint = 0xF1"
| "debug_op_u8 DbgStack = 0xF2"
| "debug_op_u8 MetaType = 0xF3"
| "debug_op_u8 MetaCap = 0xF4"

primrec spill_op_u8 :: "spill_op \<Rightarrow> u8" where
  "spill_op_u8 SpillLoad = 0xF5"
| "spill_op_u8 SpillStore = 0xF6"

primrec as_u8 :: "OpCode \<Rightarrow> u8" where
  "as_u8 (Special op) = special_op_u8 op"
| "as_u8 (Locals op) = locals_op_u8 op"
| "as_u8 (IntArith op) = int_op_u8 op"
| "as_u8 (FloatArith op) = float_op_u8 op"
| "as_u8 (Compare op) = cmp_op_u8 op"
| "as_u8 (Control op) = control_op_u8 op"
| "as_u8 (Closures op) = closure_op_u8 op"
| "as_u8 (Objects op) = object_op_u8 op"
| "as_u8 (Actors op) = actor_op_u8 op"
| "as_u8 (Effects op) = effect_op_u8 op"
| "as_u8 (Python op) = python_op_u8 op"
| "as_u8 (Ffi op) = ffi_op_u8 op"
| "as_u8 (Distribution op) = distribution_op_u8 op"
| "as_u8 (StringIO op) = io_op_u8 op"
| "as_u8 (Debug op) = debug_op_u8 op"
| "as_u8 (Spill op) = spill_op_u8 op"

definition opcode_table :: "(u8 \<times> OpCode) list" where
  "opcode_table = [
    (0x00, Special Nop),
    (0x01, Special Halt),
    (0x02, Special Panic),
    (0x03, Special Const0),
    (0x04, Special Const1),
    (0x05, Special Const2),
    (0x06, Special ConstM1),
    (0x07, Special ConstU),
    (0x08, Special ConstL),
    (0x10, Locals Load),
    (0x11, Locals Store),
    (0x12, Locals Move),
    (0x13, Locals Pop),
    (0x14, Locals Dup),
    (0x15, Locals Swap),
    (0x20, IntArith IAdd),
    (0x21, IntArith ISub),
    (0x22, IntArith IMul),
    (0x23, IntArith IDiv),
    (0x24, IntArith IMod),
    (0x25, IntArith INeg),
    (0x26, IntArith IInc),
    (0x27, IntArith IDec),
    (0x28, IntArith IPow),
    (0x29, IntArith Xor),
    (0x2A, IntArith Shl),
    (0x2B, IntArith Shr),
    (0x2C, IntArith BitAnd),
    (0x2D, IntArith BitOr),
    (0x30, FloatArith FAdd),
    (0x31, FloatArith FSub),
    (0x32, FloatArith FMul),
    (0x33, FloatArith FDiv),
    (0x34, FloatArith FNeg),
    (0x35, FloatArith FMod),
    (0x36, FloatArith IToF),
    (0x37, FloatArith FToI),
    (0x38, FloatArith FToS),
    (0x40, Compare ICmpEq),
    (0x39, FloatArith FPow),
    (0x41, Compare ICmpLt),
    (0x42, Compare ICmpGt),
    (0x43, Compare ICmpLe),
    (0x44, Compare ICmpGe),
    (0x45, Compare FCmpEq),
    (0x46, Compare FCmpLt),
    (0x47, Compare FCmpGt),
    (0x48, Compare SCmpEq),
    (0x49, Compare Not_op),
    (0x4A, Compare And),
    (0x4B, Compare Or),
    (0x50, Control Jmp),
    (0x51, Control JmpT),
    (0x52, Control JmpF),
    (0x53, Control Switch),
    (0x54, Control Call),
    (0x55, Control TailCall),
    (0x56, Control Ret),
    (0x57, Control RetVal),
    (0x60, Closures Closure),
    (0x61, Closures CapLoad),
    (0x62, Closures CapStore),
    (0x63, Closures FreeVar),
    (0x64, Closures ClosureCall),
    (0x70, Objects Alloc),
    (0x71, Objects FieldL),
    (0x72, Objects FieldS),
    (0x73, Objects ArrAlloc),
    (0x74, Objects ArrLoad),
    (0x75, Objects ArrStore),
    (0x76, Objects ArrLen),
    (0x77, Objects TupleMk),
    (0x78, Objects TupleL),
    (0x79, Objects RecMk),
    (0x7A, Objects RecL),
    (0x7B, Objects RecS),
    (0x7C, Objects IsTag),
    (0x7D, Objects Unpack),
    (0x7E, Objects Copy),
    (0x7F, Objects Drop),
    (0x80, Actors Spawn),
    (0x81, Actors Send),
    (0x82, Actors Ask),
    (0x83, Actors SelfOp),
    (0x84, Actors Receive),
    (0x85, Actors Monitor),
    (0x86, Actors Demon),
    (0x87, Actors Link),
    (0x88, Actors Unlink),
    (0x89, Actors Exit),
    (0x8A, Actors Yield),
    (0x8B, Actors StateGet),
    (0x8C, Actors StateSet),
    (0x8D, Actors Emit),
    (0x8E, Actors SignalWait),
    (0x8F, Actors ReceiveMatch),
    (0x90, Effects Perform),
    (0x91, Effects Handle),
    (0x92, Effects Resume),
    (0x93, Effects Unwind),
    (0x94, Python PyImport),
    (0x95, Python PyGetAttr),
    (0x96, Python PyCall),
    (0x97, Python PyCallKw),
    (0x98, Python PySetAttr),
    (0x99, Python PyToNu),
    (0x9A, Python PyFromNu),
    (0x9B, Python PyRelease),
    (0x9D, Objects RecCopy),
    (0x9C, Effects PerformDirect),
    (0xA0, Actors ReceiveWait),
    (0xA1, Actors ReceiveCommit),
    (0xB0, Ffi FFICall),
    (0xC6, Effects PerformAsync),
    (0xD0, Distribution NodeId),
    (0xD1, Distribution Migrate),
    (0xD2, Distribution RSend),
    (0xD3, Distribution RAsk),
    (0xD4, Distribution RSpawn),
    (0xD5, Distribution Gossip),
    (0xE0, StringIO SConcat),
    (0xE1, StringIO SPrint),
    (0xE2, StringIO SRead),
    (0xE3, StringIO FOpen),
    (0xE4, StringIO FRead),
    (0xE5, StringIO FWrite),
    (0xE6, StringIO FClose),
    (0xE7, StringIO Print),
    (0xF0, Debug DbgBreak),
    (0xF1, Debug DbgPrint),
    (0xF2, Debug DbgStack),
    (0xF3, Debug MetaType),
    (0xF4, Debug MetaCap),
    (0xF5, Spill SpillLoad),
    (0xF6, Spill SpillStore)]"

definition from_u8 :: "u8 \<Rightarrow> OpCode option" where
  "from_u8 v = map_of opcode_table v"

lemmas opcode_u8_simps = special_op_u8.simps locals_op_u8.simps int_op_u8.simps float_op_u8.simps cmp_op_u8.simps control_op_u8.simps closure_op_u8.simps object_op_u8.simps actor_op_u8.simps effect_op_u8.simps python_op_u8.simps ffi_op_u8.simps distribution_op_u8.simps io_op_u8.simps debug_op_u8.simps spill_op_u8.simps

lemma opcode_table_sound: "(v, c) \<in> set opcode_table \<Longrightarrow> as_u8 c = v"
proof -
  have "list_all (\<lambda>(v, c). as_u8 c = v) opcode_table"
    by (simp add: opcode_table_def)
  then show "(v, c) \<in> set opcode_table \<Longrightarrow> as_u8 c = v"
    by (auto simp: list_all_iff)
qed

lemma distinct_opcode_bytes: "distinct (map fst opcode_table)"
  by (simp add: opcode_table_def)

lemma from_u8_sound: "from_u8 v = Some c \<Longrightarrow> as_u8 c = v"
  by (auto simp: from_u8_def dest: map_of_SomeD opcode_table_sound)

lemma opcode_table_complete: "(as_u8 c, c) \<in> set opcode_table"
proof (cases c)
  case (Special op)
  then show ?thesis by (cases op) (simp_all add: opcode_table_def)
next
  case (Locals op)
  then show ?thesis by (cases op) (simp_all add: opcode_table_def)
next
  case (IntArith op)
  then show ?thesis by (cases op) (simp_all add: opcode_table_def)
next
  case (FloatArith op)
  then show ?thesis by (cases op) (simp_all add: opcode_table_def)
next
  case (Compare op)
  then show ?thesis by (cases op) (simp_all add: opcode_table_def)
next
  case (Control op)
  then show ?thesis by (cases op) (simp_all add: opcode_table_def)
next
  case (Closures op)
  then show ?thesis by (cases op) (simp_all add: opcode_table_def)
next
  case (Objects op)
  then show ?thesis by (cases op) (simp_all add: opcode_table_def)
next
  case (Actors op)
  then show ?thesis by (cases op) (simp_all add: opcode_table_def)
next
  case (Effects op)
  then show ?thesis by (cases op) (simp_all add: opcode_table_def)
next
  case (Python op)
  then show ?thesis by (cases op) (simp_all add: opcode_table_def)
next
  case (Ffi op)
  then show ?thesis by (cases op) (simp_all add: opcode_table_def)
next
  case (Distribution op)
  then show ?thesis by (cases op) (simp_all add: opcode_table_def)
next
  case (StringIO op)
  then show ?thesis by (cases op) (simp_all add: opcode_table_def)
next
  case (Debug op)
  then show ?thesis by (cases op) (simp_all add: opcode_table_def)
next
  case (Spill op)
  then show ?thesis by (cases op) (simp_all add: opcode_table_def)
qed

lemma from_u8_as_u8 [simp, roundtrip]: "from_u8 (as_u8 c) = Some c"
  unfolding from_u8_def by (rule map_of_is_SomeI [OF distinct_opcode_bytes opcode_table_complete])

lemma from_u8_None_iff: "from_u8 v = None \<longleftrightarrow> v \<notin> range as_u8"
proof
  assume "from_u8 v = None"
  then show "v \<notin> range as_u8" by auto
next
  assume v: "v \<notin> range as_u8"
  show "from_u8 v = None"
  proof (cases "from_u8 v")
    case (Some c)
    then have "v = as_u8 c" by (simp add: from_u8_sound)
    with v show ?thesis by simp
  qed simp
qed

lemma as_u8_inject [simp]: "as_u8 c = as_u8 d \<longleftrightarrow> c = d"
  using from_u8_as_u8 by (metis option.inject)

subsection \<open>Instructions\<close>

record Instruction =
  opcode :: OpCode
  op1 :: u8
  op2 :: u8
  op3 :: u8

definition new0 :: "OpCode \<Rightarrow> Instruction" where
  "new0 oc = \<lparr>opcode = oc, op1 = 0, op2 = 0, op3 = 0\<rparr>"

definition new1 :: "OpCode \<Rightarrow> u8 \<Rightarrow> Instruction" where
  "new1 oc a = \<lparr>opcode = oc, op1 = a, op2 = 0, op3 = 0\<rparr>"

definition new2 :: "OpCode \<Rightarrow> u8 \<Rightarrow> u8 \<Rightarrow> Instruction" where
  "new2 oc a b = \<lparr>opcode = oc, op1 = a, op2 = b, op3 = 0\<rparr>"

definition new3 :: "OpCode \<Rightarrow> u8 \<Rightarrow> u8 \<Rightarrow> u8 \<Rightarrow> Instruction" where
  "new3 oc a b c = \<lparr>opcode = oc, op1 = a, op2 = b, op3 = c\<rparr>"

definition encode :: "Instruction \<Rightarrow> u32" where
  "encode i = push_bit 24 (ucast (as_u8 (opcode i))) OR push_bit 16 (ucast (op1 i))
     OR push_bit 8 (ucast (op2 i)) OR ucast (op3 i)"

definition decode :: "u32 \<Rightarrow> Instruction option" where
  "decode encoded =
     (case from_u8 (ucast (drop_bit 24 encoded)) of
        None \<Rightarrow> None
      | Some oc \<Rightarrow> Some \<lparr>opcode = oc,
          op1 = ucast (drop_bit 16 encoded AND 0xFF),
          op2 = ucast (drop_bit 8 encoded AND 0xFF),
          op3 = ucast (encoded AND 0xFF)\<rparr>)"

definition imm16 :: "Instruction \<Rightarrow> u16" where
  "imm16 i = push_bit 8 (ucast (op1 i)) OR ucast (op2 i)"

definition simm16 :: "Instruction \<Rightarrow> int" where
  "simm16 i = sint (imm16 i)"

definition offset16 :: "Instruction \<Rightarrow> int" where
  "offset16 i = sint (push_bit 8 (ucast (op2 i)) OR ucast (op3 i) :: u16)"

lemma low_byte_eq: "(0xFF :: 32 word) = mask 8"
  by (simp add: mask_eq_exp_minus_1)

lemma u8_bit_bound: "bit (x :: u8) n \<Longrightarrow> n < 8"
  by (auto dest: bit_imp_le_length)

lemma encode_fields:
  "ucast (drop_bit 24 (encode i)) = as_u8 (opcode i)"
  "ucast (drop_bit 16 (encode i) AND 0xFF) = op1 i"
  "ucast (drop_bit 8 (encode i) AND 0xFF) = op2 i"
  "ucast (encode i AND 0xFF) = op3 i"
  unfolding encode_def low_byte_eq
  by (rule bit_word_eqI; auto simp: bit_simps dest: u8_bit_bound)+

lemma decode_encode [simp, roundtrip]: "decode (encode i) = Some i"
  by (simp add: decode_def encode_fields)

lemma word_of_four_bytes:
  "push_bit 24 (ucast (ucast (drop_bit 24 w) :: u8))
     OR push_bit 16 (ucast (ucast (drop_bit 16 w AND mask 8) :: u8))
     OR push_bit 8 (ucast (ucast (drop_bit 8 w AND mask 8) :: u8))
     OR ucast (ucast (w AND mask 8) :: u8) = (w :: u32)" (is "?lhs = w")
proof (rule bit_word_eqI)
  fix n
  assume "n < LENGTH(32)"
  then consider "n < 8" | "8 \<le> n" "n < 16" | "16 \<le> n" "n < 24" | "24 \<le> n" "n < 32"
    by fastforce
  then show "bit ?lhs n = bit w n"
    by cases (auto simp: bit_simps)
qed

lemma encode_decode:
  assumes "decode w = Some i"
  shows "encode i = w"
proof -
  from assms have "as_u8 (opcode i) = ucast (drop_bit 24 w)"
    and "op1 i = ucast (drop_bit 16 w AND 0xFF)" "op2 i = ucast (drop_bit 8 w AND 0xFF)"
      "op3 i = ucast (w AND 0xFF)"
    by (auto simp: decode_def split: option.splits dest: from_u8_sound)
  then show ?thesis
    by (simp only: encode_def low_byte_eq word_of_four_bytes)
qed


subsection \<open>Properties\<close>

text \<open>C27: the 32-bit instruction encoding and its decoder are inverse to each other: a word decodes to
  an instruction exactly when it is the encoding of that instruction, and it is rejected exactly when
  its first byte is no opcode's discriminant.\<close>

theorem instruction_codec:
  "(decode w = Some i \<longleftrightarrow> encode i = w) \<and>
   (decode w = None \<longleftrightarrow> ucast (drop_bit 24 w) \<notin> range as_u8)"
proof
  show "decode w = Some i \<longleftrightarrow> encode i = w"
    using encode_decode decode_encode by metis
  have "decode w = None \<longleftrightarrow> from_u8 (ucast (drop_bit 24 w)) = None"
    by (auto simp: decode_def split: option.splits)
  also have "\<dots> \<longleftrightarrow> ucast (drop_bit 24 w) \<notin> range as_u8"
    by (rule from_u8_None_iff)
  finally show "decode w = None \<longleftrightarrow> ucast (drop_bit 24 w) \<notin> range as_u8" .
qed

end
