(* ===== verification/Rust_Std.thy ===== *)
theory Rust_Std
  imports Nulang_Prelude
begin

text \<open>
  What the sources use of Rust's standard library: binary search on slices, the hash
  containers, and UTF-8 strings. A \<open>HashMap\<close> is an association list with distinct keys and a
  \<open>HashSet\<close> a list without duplicates; the order of the list is the iteration order, which the
  library leaves open, so the theorems are stated for every such list and read it through
  \<open>map_of\<close> or \<open>set\<close>. A \<open>String\<close> is the list of its UTF-8 bytes as HOL characters.
\<close>

subsection \<open>Binary search\<close>

text \<open>The loop of \<open>slice::binary_search_by\<close>: \<open>sz\<close> (the size) is halved, \<open>base\<close> moves to the middle
  unless the middle is greater than the target. \<open>Inr i\<close> is \<open>Ok(i)\<close>, \<open>Inl i\<close> is \<open>Err(i)\<close>.\<close>

function bs_loop :: "('a \<Rightarrow> 'k::linorder) \<Rightarrow> 'a list \<Rightarrow> 'k \<Rightarrow> nat \<Rightarrow> nat \<Rightarrow> nat" where
  "bs_loop key xs t base sz =
     (if 1 < sz
      then (let half = sz div 2; mid = base + half
            in bs_loop key xs t (if t < key (xs ! mid) then base else mid) (sz - half))
      else base)"
  by pat_completeness auto
termination
  by (relation "measure (\<lambda>(key, xs, t, base, sz). sz)") auto

declare bs_loop.simps [simp del]

definition binary_search_by_key :: "('a \<Rightarrow> 'k::linorder) \<Rightarrow> 'a list \<Rightarrow> 'k \<Rightarrow> nat + nat" where
  "binary_search_by_key key xs t =
     (if xs = [] then Inl 0
      else let base = bs_loop key xs t 0 (length xs) in
        if key (xs ! base) = t then Inr base
        else Inl (base + (if key (xs ! base) < t then 1 else 0)))"

lemma bs_loop_inv:
  assumes "sorted (map key xs)" "0 < sz" "base + sz \<le> length xs"
    "base = 0 \<or> key (xs ! base) \<le> t"
    "\<And>j. base + sz \<le> j \<Longrightarrow> j < length xs \<Longrightarrow> t < key (xs ! j)"
  shows "bs_loop key xs t base sz < length xs \<and>
    (bs_loop key xs t base sz = 0 \<or> key (xs ! bs_loop key xs t base sz) \<le> t) \<and>
    (\<forall>j. bs_loop key xs t base sz < j \<longrightarrow> j < length xs \<longrightarrow> t < key (xs ! j))"
  using assms
proof (induction key xs t base sz rule: bs_loop.induct)
  case (1 key xs t base sz)
  show ?case
  proof (cases "1 < sz")
    case False
    with "1.prems" have "sz = 1" by simp
    moreover have "bs_loop key xs t base sz = base"
      using False by (simp add: bs_loop.simps [of key xs t base sz])
    ultimately show ?thesis using "1.prems" by auto
  next
    case True
    let ?half = "sz div 2" and ?mid = "base + sz div 2"
    let ?base = "if t < key (xs ! ?mid) then base else ?mid"
    have mid: "?mid < length xs" using True "1.prems" by linarith
    have above: "t < key (xs ! j)"
      if "?base + (sz - ?half) \<le> j" "j < length xs" for j
    proof (cases "t < key (xs ! ?mid)")
      case True
      with that have "?mid \<le> j" by simp
      then have "key (xs ! ?mid) \<le> key (xs ! j)"
        using sorted_nth_mono [OF "1.prems"(1), of ?mid j] that mid by simp
      with True show ?thesis by simp
    next
      case False
      with that have "base + sz \<le> j" by simp
      with that "1.prems"(5) show ?thesis by simp
    qed
    have "?base = 0 \<or> key (xs ! ?base) \<le> t" using "1.prems"(4) by auto
    moreover have "?base + (sz - ?half) \<le> length xs" "0 < sz - ?half"
      using True "1.prems"(3) by auto
    moreover have eq: "bs_loop key xs t base sz = bs_loop key xs t ?base (sz - ?half)"
      using True by (subst bs_loop.simps) (simp add: Let_def)
    ultimately show ?thesis
      unfolding eq using above by (intro "1.IH" [OF True refl refl "1.prems"(1)])
  qed
qed

lemma binary_search_Ok:
  assumes "sorted (map key xs)" "binary_search_by_key key xs t = Inr i"
  shows "i < length xs \<and> key (xs ! i) = t \<and> (\<forall>j. i < j \<longrightarrow> j < length xs \<longrightarrow> t < key (xs ! j))"
  using assms bs_loop_inv [OF assms(1), of "length xs" 0 t]
  by (auto simp: binary_search_by_key_def Let_def split: if_splits)

lemma binary_search_Err:
  assumes "sorted (map key xs)" "binary_search_by_key key xs t = Inl i"
  shows "i \<le> length xs \<and> (\<forall>j < i. key (xs ! j) < t) \<and> (\<forall>j. i \<le> j \<longrightarrow> j < length xs \<longrightarrow> t < key (xs ! j))"
proof (cases "xs = []")
  case True
  with assms show ?thesis by (simp add: binary_search_by_key_def)
next
  case False
  define b where "b = bs_loop key xs t 0 (length xs)"
  have b: "b < length xs" "b = 0 \<or> key (xs ! b) \<le> t" "\<forall>j. b < j \<longrightarrow> j < length xs \<longrightarrow> t < key (xs ! j)"
    using bs_loop_inv [OF assms(1), of "length xs" 0 t] False by (auto simp: b_def)
  have ne: "key (xs ! b) \<noteq> t" and i: "i = b + (if key (xs ! b) < t then 1 else 0)"
    using assms(2) False by (auto simp: binary_search_by_key_def Let_def b_def split: if_splits)
  show ?thesis
  proof (cases "key (xs ! b) < t")
    case True
    have "key (xs ! j) < t" if "j \<le> b" for j
      using sorted_nth_mono [OF assms(1), of j b] that b(1) True by (simp add: le_less_trans)
    with True i b show ?thesis by (auto simp: less_Suc_eq_le Suc_le_eq)
  next
    case False
    with ne b(2) have "b = 0" by auto
    moreover have "t < key (xs ! j)" if "j < length xs" for j
      using b(3) that False ne \<open>b = 0\<close> by (cases j) auto
    ultimately show ?thesis using False i by simp
  qed
qed


text \<open>\<open>get(i)\<close>\<close>

definition nth_opt :: "'b list \<Rightarrow> nat \<Rightarrow> 'b option" where
  "nth_opt xs i = (if i < length xs then Some (xs ! i) else None)"

text \<open>\<open>iter().position(p)\<close>\<close>

fun position :: "('a \<Rightarrow> bool) \<Rightarrow> 'a list \<Rightarrow> nat option" where
  "position P [] = None"
| "position P (x # xs) = (if P x then Some 0 else map_option Suc (position P xs))"

lemma position_SomeD: "position P xs = Some i \<Longrightarrow> i < length xs \<and> P (xs ! i)"
  by (induction xs arbitrary: i) (auto split: if_splits)

lemma position_None_iff: "position P xs = None \<longleftrightarrow> (\<forall>x \<in> set xs. \<not> P x)"
  by (induction xs) auto

subsection \<open>Hash maps and hash sets\<close>

type_synonym ('k, 'v) hashmap = "('k \<times> 'v) list"
type_synonym 'a hashset = "'a list"

abbreviation hm_wf :: "('k, 'v) hashmap \<Rightarrow> bool" where
  "hm_wf m \<equiv> distinct (map fst m)"

abbreviation hm_insert :: "'k \<Rightarrow> 'v \<Rightarrow> ('k, 'v) hashmap \<Rightarrow> ('k, 'v) hashmap" where
  "hm_insert \<equiv> AList.update"

abbreviation hm_remove :: "'k \<Rightarrow> ('k, 'v) hashmap \<Rightarrow> ('k, 'v) hashmap" where
  "hm_remove \<equiv> AList.delete"

text \<open>\<open>get(k).copied().unwrap_or(d)\<close>\<close>

definition hm_get_or :: "'v \<Rightarrow> ('k, 'v) hashmap \<Rightarrow> 'k \<Rightarrow> 'v" where
  "hm_get_or d m k = (case map_of m k of None \<Rightarrow> d | Some v \<Rightarrow> v)"

text \<open>\<open>*m.entry(k).or_insert(d) = f(old)\<close>\<close>

definition hm_upsert :: "'v \<Rightarrow> ('v \<Rightarrow> 'v) \<Rightarrow> 'k \<Rightarrow> ('k, 'v) hashmap \<Rightarrow> ('k, 'v) hashmap" where
  "hm_upsert d f k m = hm_insert k (f (hm_get_or d m k)) m"

definition hs_insert :: "'a \<Rightarrow> 'a hashset \<Rightarrow> 'a hashset" where
  "hs_insert x xs = (if x \<in> set xs then xs else xs @ [x])"

definition hs_extend :: "'a hashset \<Rightarrow> 'a list \<Rightarrow> 'a hashset" where
  "hs_extend xs ys = fold hs_insert ys xs"

lemma hm_wf_insert [simp]: "hm_wf m \<Longrightarrow> hm_wf (hm_insert k v m)"
  by (rule distinct_update)

lemma map_of_insert [simp]: "map_of (hm_insert k v m) = (map_of m)(k \<mapsto> v)"
  by (rule update_conv')

lemma hm_wf_upsert [simp]: "hm_wf m \<Longrightarrow> hm_wf (hm_upsert d f k m)"
  by (simp add: hm_upsert_def)

lemma map_of_upsert [simp]: "map_of (hm_upsert d f k m) = (map_of m)(k \<mapsto> f (hm_get_or d m k))"
  by (simp add: hm_upsert_def)

lemma hm_get_or_upsert: "hm_get_or d (hm_upsert d f k m) j = (if j = k then f (hm_get_or d m k) else hm_get_or d m j)"
  by (simp add: hm_get_or_def hm_upsert_def)

lemma hm_insert_fresh: "k \<notin> fst ` set m \<Longrightarrow> hm_insert k v m = m @ [(k, v)]"
  by (induction m) auto

text \<open>Rebuilding a hash map entry by entry in its iteration order gives it back.\<close>

lemma fold_hm_insert:
  assumes "hm_wf (acc @ m)"
  shows "fold (\<lambda>(k, v). hm_insert k v) m acc = acc @ m"
  using assms by (induction m arbitrary: acc) (auto simp: hm_insert_fresh image_iff)

lemma set_hs_insert [simp]: "set (hs_insert x xs) = insert x (set xs)"
  by (auto simp: hs_insert_def)

lemma distinct_hs_insert [simp]: "distinct xs \<Longrightarrow> distinct (hs_insert x xs)"
  by (auto simp: hs_insert_def)

lemma set_hs_extend [simp]: "set (hs_extend xs ys) = set xs \<union> set ys"
  unfolding hs_extend_def by (induction ys arbitrary: xs) auto

lemma distinct_hs_extend [simp]: "distinct xs \<Longrightarrow> distinct (hs_extend xs ys)"
  unfolding hs_extend_def by (induction ys arbitrary: xs) auto

lemma hs_extend_fresh: "distinct (acc @ ys) \<Longrightarrow> hs_extend acc ys = acc @ ys"
  unfolding hs_extend_def by (induction ys arbitrary: acc) (auto simp: hs_insert_def)

subsection \<open>UTF-8\<close>

definition utf8_cont :: "nat \<Rightarrow> bool" where
  "utf8_cont b \<longleftrightarrow> 0x80 \<le> b \<and> b < 0xC0"

definition utf8_scalar :: "nat \<Rightarrow> bool" where
  "utf8_scalar c \<longleftrightarrow> c < 0xD800 \<or> 0xE000 \<le> c \<and> c < 0x110000"

text \<open>The well-formed sequences \<open>str::from_utf8\<close> accepts, as code points.\<close>

fun utf8_decode :: "nat list \<Rightarrow> nat list option" where
  "utf8_decode [] = Some []"
| "utf8_decode (b0 # bs) =
     (if b0 < 0x80 then map_option ((#) b0) (utf8_decode bs)
      else if 0xC2 \<le> b0 \<and> b0 < 0xE0 then
        (case bs of b1 # r \<Rightarrow>
           if utf8_cont b1 then map_option ((#) ((b0 - 0xC0) * 0x40 + (b1 - 0x80))) (utf8_decode r) else None
         | _ \<Rightarrow> None)
      else if 0xE0 \<le> b0 \<and> b0 < 0xF0 then
        (case bs of b1 # b2 # r \<Rightarrow>
           if utf8_cont b1 \<and> utf8_cont b2 \<and> (b0 = 0xE0 \<longrightarrow> 0xA0 \<le> b1) \<and> (b0 = 0xED \<longrightarrow> b1 < 0xA0)
           then map_option ((#) ((b0 - 0xE0) * 0x1000 + (b1 - 0x80) * 0x40 + (b2 - 0x80))) (utf8_decode r)
           else None
         | _ \<Rightarrow> None)
      else if 0xF0 \<le> b0 \<and> b0 < 0xF5 then
        (case bs of b1 # b2 # b3 # r \<Rightarrow>
           if utf8_cont b1 \<and> utf8_cont b2 \<and> utf8_cont b3 \<and> (b0 = 0xF0 \<longrightarrow> 0x90 \<le> b1) \<and> (b0 = 0xF4 \<longrightarrow> b1 < 0x90)
           then map_option ((#) ((b0 - 0xF0) * 0x40000 + (b1 - 0x80) * 0x1000 + (b2 - 0x80) * 0x40 + (b3 - 0x80)))
             (utf8_decode r)
           else None
         | _ \<Rightarrow> None)
      else None)"

definition utf8_encode_char :: "nat \<Rightarrow> nat list" where
  "utf8_encode_char c =
     (if c < 0x80 then [c]
      else if c < 0x800 then [0xC0 + c div 0x40, 0x80 + c mod 0x40]
      else if c < 0x10000 then [0xE0 + c div 0x1000, 0x80 + c div 0x40 mod 0x40, 0x80 + c mod 0x40]
      else [0xF0 + c div 0x40000, 0x80 + c div 0x1000 mod 0x40, 0x80 + c div 0x40 mod 0x40, 0x80 + c mod 0x40])"

definition str_bytes :: "string \<Rightarrow> nat list" where
  "str_bytes s = map of_char s"

text \<open>\<open>String::from_utf8(v).ok()\<close>, the characters of a \<open>str\<close>, and \<open>char::to_string\<close>.\<close>

definition str_wf :: "string \<Rightarrow> bool" where
  "str_wf s \<longleftrightarrow> utf8_decode (str_bytes s) \<noteq> None"

definition from_utf8 :: "bytes \<Rightarrow> string option" where
  "from_utf8 bs = (let s = map (\<lambda>b. char_of (unat b)) bs in if str_wf s then Some s else None)"

definition as_bytes :: "string \<Rightarrow> bytes" where
  "as_bytes s = map of_char s"

definition str_chars :: "string \<Rightarrow> nat list" where
  "str_chars s = (case utf8_decode (str_bytes s) of None \<Rightarrow> [] | Some cs \<Rightarrow> cs)"

definition char_to_string :: "nat \<Rightarrow> string" where
  "char_to_string c = map char_of (utf8_encode_char c)"

lemma utf8_split:
  fixes c :: nat
  obtains a b d p where "c mod 0x40 = a" "c div 0x40 mod 0x40 = b" "c div 0x1000 mod 0x40 = d"
    "c div 0x40000 = p" "c div 0x40 = p * 0x1000 + d * 0x40 + b" "c div 0x1000 = p * 0x40 + d"
    "c = p * 0x40000 + d * 0x1000 + b * 0x40 + a" "a < 0x40" "b < 0x40" "d < 0x40"
proof -
  have q: "c div 0x1000 = c div 0x40 div 0x40" "c div 0x40000 = c div 0x1000 div 0x40"
    by (simp_all add: div_mult2_eq [symmetric])
  have "c = c div 0x40 * 0x40 + c mod 0x40" by simp
  moreover have "c div 0x40 = c div 0x1000 * 0x40 + c div 0x40 mod 0x40" unfolding q(1) by simp
  moreover have "c div 0x1000 = c div 0x40000 * 0x40 + c div 0x1000 mod 0x40" unfolding q(2) by simp
  ultimately show thesis
    by (intro that [of "c mod 0x40" "c div 0x40 mod 0x40" "c div 0x1000 mod 0x40" "c div 0x40000"]) linarith+
qed

lemma utf8_roundtrip_char:
  assumes "utf8_scalar c"
  shows "utf8_decode (utf8_encode_char c @ r) = map_option ((#) c) (utf8_decode r)"
proof -
  obtain a b d p where s: "c mod 0x40 = a" "c div 0x40 mod 0x40 = b" "c div 0x1000 mod 0x40 = d"
    "c div 0x40000 = p"
    and u: "c div 0x40 = p * 0x1000 + d * 0x40 + b" and v: "c div 0x1000 = p * 0x40 + d"
    and c: "c = p * 0x40000 + d * 0x1000 + b * 0x40 + a" and l: "a < 0x40" "b < 0x40" "d < 0x40"
    by (rule utf8_split)
  consider "c < 0x80" | "0x80 \<le> c" "c < 0x800" | "0x800 \<le> c" "c < 0x10000"
    | "0x10000 \<le> c" "c < 0x110000"
    using assms by (force simp: utf8_scalar_def)
  then show ?thesis
  proof cases
    case 1
    then show ?thesis by (simp add: utf8_encode_char_def)
  next
    case 2
    have z: "p = 0" using 2 c l by linarith
    have "d = 0" using 2 c l z by linarith
    moreover have "2 \<le> b" "b < 0x20" using 2 c l z \<open>d = 0\<close> by simp_all
    moreover have "b * 0x40 + a = c" using c z \<open>d = 0\<close> by simp
    ultimately show ?thesis using 2 l z by (simp add: utf8_encode_char_def utf8_cont_def s u)
  next
    case 3
    have z: "p = 0" using 3 c l by linarith
    have "d < 0x10" using 3 c l z by linarith
    moreover have "d = 0 \<longrightarrow> 0x20 \<le> b" using 3 c l z by auto
    moreover have "d = 0xD \<longrightarrow> b < 0x20" using 3 c l z assms unfolding utf8_scalar_def by auto
    moreover have "d * 0x1000 + b * 0x40 + a = c" using c z by simp
    ultimately show ?thesis using 3 l z by (simp add: utf8_encode_char_def utf8_cont_def s v)
  next
    case 4
    have "p < 5" using 4 c l by linarith
    moreover have "p = 0 \<longrightarrow> 0x10 \<le> d" using 4 c l by auto
    moreover have "p = 4 \<longrightarrow> d < 0x10" using 4 c l by auto
    moreover have "p * 0x40000 + d * 0x1000 + b * 0x40 + a = c" using c by simp
    ultimately show ?thesis using 4 l by (simp add: utf8_encode_char_def utf8_cont_def s)
  qed
qed

lemma char_of_unat_of_char [simp]: "char_of (unat (of_char c :: u8)) = c"
proof -
  have "(of_char c :: u8) = of_nat (of_char c)" by (simp only: of_nat_of_char)
  then have "unat (of_char c :: u8) = of_char c mod 256" by (simp only: unat_of_nat) simp
  then show ?thesis by simp
qed

lemma from_utf8_as_bytes [simp, roundtrip]: "str_wf s \<Longrightarrow> from_utf8 (as_bytes s) = Some s"
proof -
  assume "str_wf s"
  moreover have "map (\<lambda>b. char_of (unat b)) (as_bytes s) = s"
    by (simp add: as_bytes_def comp_def)
  ultimately show ?thesis by (simp add: from_utf8_def Let_def)
qed


subsection \<open>Formatting integers\<close>

definition digit_char :: "nat \<Rightarrow> char" where
  "digit_char d = char_of (if d < 10 then 48 + d else 87 + d)"

fun show_base :: "nat \<Rightarrow> nat \<Rightarrow> string" where
  "show_base b n = (if n < b \<or> b < 2 then [digit_char n] else show_base b (n div b) @ [digit_char (n mod b)])"

declare show_base.simps [simp del]

text \<open>\<open>i64::to_string\<close> and the format \<open>{:#x}\<close>.\<close>

definition show_int :: "int \<Rightarrow> string" where
  "show_int i = (if i < 0 then ''-'' @ show_base 10 (nat (- i)) else show_base 10 (nat i))"

definition show_hex :: "64 word \<Rightarrow> string" where
  "show_hex w = ''0x'' @ show_base 16 (unat w)"

end
