(* ===== verification/Code_Module.thy ===== *)
theory Code_Module
  imports Bytecode Rust_Std
begin

text \<open>
  The module format of \<^verbatim>\<open>src/bytecode.rs\<close>: constants, handler, behaviour and actor tables, and
  the \<open>CodeModule\<close> with the operations that build and query it. A \<open>Vec\<close> is a list, a JSON
  value inside a tool schema is its text, a Rust \<open>f64\<close> its bit pattern.
\<close>

subsection \<open>Tables\<close>

datatype Constant =
    CInt i64
  | CFloat u64
  | CString string
  | CBool bool
  | CNil
  | CUnit
  | CTypeDescriptor string
  | CFunctionRef usize
  | CBehaviorRef usize

record HandlerBinding =
  hb_effect_name :: string
  hb_handler_offset :: usize
  hb_arg_count :: u8
  hb_result_reg :: u8
  hb_single_shot :: bool

record HandlerTable =
  ht_bindings :: "HandlerBinding list"
  ht_fallback_offset :: "usize option"

record BehaviorTableEntry =
  bt_name :: string
  bt_param_count :: usize
  bt_code_offset :: usize
  bt_local_count :: usize
  bt_effect_mask :: u32
  bt_compensate_offset :: "usize option"
  bt_content_hash :: "bytes option"
  bt_source_location :: "(string \<times> u32 \<times> u32) option"
  bt_parallel_branches :: "string list option"

datatype CrdtType = CrdtGCounter | CrdtPNCounter | CrdtGSet | CrdtORSet | CrdtAWORSet | CrdtLWWRegister | CrdtMVRegister | CrdtRGA

datatype StateModel = SMLocal | SMDurable | SMEventSourced | SMCrdt CrdtType

datatype ActorBackendKind = Native | WasmComponent

record ToolSchema =
  ts_name :: string
  ts_description :: string
  ts_parameters :: string

record ActorMeta =
  am_name :: string
  am_persistent :: bool
  am_state_models :: "(string \<times> StateModel) list"
  am_state_defaults :: "(string \<times> Constant) list"
  am_behavior_indices :: "usize list"
  am_is_workflow :: bool
  am_is_agent :: bool
  am_is_organization :: bool
  am_is_virtual :: bool
  am_tools :: "ToolSchema list"
  am_semantic_memory_dimensions :: "usize option"
  am_procedural_memory_namespace :: "string option"
  am_backend :: ActorBackendKind
  am_fallback_config :: string
  am_retry_config :: string
  am_type_hash :: "bytes option"
  am_version :: u32
  am_migrations :: string

definition default_version :: u32 where
  "default_version = 1"

definition ActorMeta_new :: "string \<Rightarrow> ActorMeta" where
  "ActorMeta_new name = \<lparr>am_name = name, am_persistent = False, am_state_models = [],
     am_state_defaults = [], am_behavior_indices = [], am_is_workflow = False, am_is_agent = False,
     am_is_organization = False, am_is_virtual = False, am_tools = [],
     am_semantic_memory_dimensions = None, am_procedural_memory_namespace = None,
     am_backend = Native, am_fallback_config = [], am_retry_config = [], am_type_hash = None,
     am_version = 1, am_migrations = []\<rparr>"

datatype FfiType = FInt | FFloat | FBool | FString | FUnit | FPointer | FValue

record ForeignFunctionDef =
  ff_library :: string
  ff_symbol :: string
  ff_params :: "FfiType list"
  ff_ret :: FfiType

record DebugFunctionInfo =
  df_name :: string
  df_code_offset :: usize
  df_code_len :: usize
  df_params :: "usize list"
  df_locals :: "(usize \<times> string option) list"

record ExportTableEntry =
  et_name :: string
  et_kind :: string
  et_index :: usize
  et_type_sig :: string

record EffectSiteMetadata =
  es_pc :: usize
  es_id :: bytes
  es_effect_operation :: string

record CodeModule =
  cm_name :: string
  cm_constants :: "Constant list"
  cm_instructions :: "Instruction list"
  cm_behaviors :: "BehaviorTableEntry list"
  cm_function_table :: "usize list"
  cm_function_local_counts :: "usize list"
  cm_exports :: "(string \<times> usize) list"
  cm_entry_point :: "usize option"
  cm_handler_tables :: "HandlerTable list"
  cm_actor_metadata :: "ActorMeta list"
  cm_foreign_functions :: "ForeignFunctionDef list"
  cm_tools :: "ToolSchema list"
  cm_spawn_init_overrides :: "(usize \<times> (string \<times> Constant) list) list"
  cm_spawn_capability_grants :: "(usize \<times> string list) list"
  cm_remote_spawn_init_fields :: "(usize \<times> string list) list"
  cm_line_table :: "(usize \<times> u32) list"
  cm_debug_functions :: "DebugFunctionInfo list"
  cm_export_table :: "ExportTableEntry list"
  cm_effect_sites :: "EffectSiteMetadata list"

subsection \<open>Building and querying a module\<close>

definition CodeModule_new :: "string \<Rightarrow> CodeModule" where
  "CodeModule_new name = \<lparr>cm_name = name, cm_constants = [], cm_instructions = [],
     cm_behaviors = [], cm_function_table = [], cm_function_local_counts = [], cm_exports = [],
     cm_entry_point = None, cm_handler_tables = [], cm_actor_metadata = [],
     cm_foreign_functions = [], cm_tools = [], cm_spawn_init_overrides = [],
     cm_spawn_capability_grants = [], cm_remote_spawn_init_fields = [], cm_line_table = [],
     cm_debug_functions = [], cm_export_table = [], cm_effect_sites = []\<rparr>"

definition add_actor_meta :: "ActorMeta \<Rightarrow> CodeModule \<Rightarrow> nat \<times> CodeModule" where
  "add_actor_meta meta m =
     (length (cm_actor_metadata m), m\<lparr>cm_actor_metadata := cm_actor_metadata m @ [meta]\<rparr>)"

definition emit :: "Instruction \<Rightarrow> CodeModule \<Rightarrow> nat \<times> CodeModule" where
  "emit instr m =
     (length (cm_instructions m), m\<lparr>cm_instructions := cm_instructions m @ [instr]\<rparr>)"

definition patch_jump :: "nat \<Rightarrow> int \<Rightarrow> CodeModule \<Rightarrow> CodeModule" where
  "patch_jump instr_idx target_offset m =
     (if instr_idx < length (cm_instructions m) then
        let instr = cm_instructions m ! instr_idx;
            abs_offset = (word_of_int (int instr_idx + target_offset) :: u16)
        in m\<lparr>cm_instructions := (cm_instructions m)[instr_idx :=
              instr\<lparr>op1 := ucast (drop_bit 8 abs_offset), op2 := ucast (abs_offset AND 0xFF)\<rparr>]\<rparr>
      else m)"

definition line_at :: "CodeModule \<Rightarrow> usize \<Rightarrow> u32 option" where
  "line_at m pc =
     (case binary_search_by_key fst (cm_line_table m) pc of
        Inr i \<Rightarrow> Some (snd (cm_line_table m ! i))
      | Inl i \<Rightarrow> (if i = 0 then None else Some (snd (cm_line_table m ! (i - 1)))))"

definition resolve_line :: "CodeModule \<Rightarrow> u32 \<Rightarrow> (usize \<times> u32) option" where
  "resolve_line m line = find (\<lambda>(_, l). line \<le> l) (cm_line_table m)"

definition effect_site_at :: "CodeModule \<Rightarrow> usize \<Rightarrow> EffectSiteMetadata option" where
  "effect_site_at m pc =
     (case binary_search_by_key es_pc (cm_effect_sites m) pc of
        Inr i \<Rightarrow> Some (cm_effect_sites m ! i)
      | Inl _ \<Rightarrow> None)"

definition add_constant :: "Constant \<Rightarrow> CodeModule \<Rightarrow> nat \<times> CodeModule" where
  "add_constant c m = (length (cm_constants m), m\<lparr>cm_constants := cm_constants m @ [c]\<rparr>)"

definition add_string_constant :: "string \<Rightarrow> CodeModule \<Rightarrow> nat \<times> CodeModule" where
  "add_string_constant s m = add_constant (CString s) m"

definition function_offset_by_name :: "CodeModule \<Rightarrow> string \<Rightarrow> usize option" where
  "function_offset_by_name m name =
     (case find (\<lambda>d. df_name d = name) (cm_debug_functions m) of
        None \<Rightarrow> None
      | Some info \<Rightarrow> if df_code_offset info \<in> set (cm_function_table m)
                      then Some (df_code_offset info) else None)"

definition add_behavior :: "BehaviorTableEntry \<Rightarrow> CodeModule \<Rightarrow> nat \<times> CodeModule" where
  "add_behavior b m = (length (cm_behaviors m), m\<lparr>cm_behaviors := cm_behaviors m @ [b]\<rparr>)"

definition add_handler_table :: "HandlerTable \<Rightarrow> CodeModule \<Rightarrow> nat \<times> CodeModule" where
  "add_handler_table ht m =
     (length (cm_handler_tables m), m\<lparr>cm_handler_tables := cm_handler_tables m @ [ht]\<rparr>)"

definition current_offset :: "CodeModule \<Rightarrow> nat" where
  "current_offset m = length (cm_instructions m)"

subsection \<open>The tables are searched correctly\<close>

lemma find_sorted_key:
  assumes "distinct (map key xs)" "i < length xs" "key (xs ! i) = t"
  shows "find (\<lambda>x. key x = t) xs = Some (xs ! i)"
  using assms
proof (induction xs arbitrary: i)
  case (Cons x xs)
  show ?case
  proof (cases i)
    case 0
    with Cons.prems show ?thesis by simp
  next
    case (Suc j)
    with Cons.prems have "key x \<noteq> t"
      by (auto simp: image_iff)
    with Suc Cons show ?thesis by auto
  qed
qed simp

text \<open>The last entry at or before a key, read off a prefix of a sorted table.\<close>

lemma filter_le_prefix:
  fixes key :: "'a \<Rightarrow> 'k::linorder"
  assumes "i \<le> length xs" "\<forall>j < i. key (xs ! j) \<le> t" "\<forall>j. i \<le> j \<longrightarrow> j < length xs \<longrightarrow> t < key (xs ! j)"
  shows "filter (\<lambda>x. key x \<le> t) xs = take i xs"
proof -
  have "filter (\<lambda>x. key x \<le> t) (take i xs) = take i xs"
    using assms by (auto simp: filter_id_conv in_set_conv_nth)
  moreover have "filter (\<lambda>x. key x \<le> t) (drop i xs) = []"
    using assms by (auto simp: filter_empty_conv in_set_conv_nth not_le)
  ultimately show ?thesis
    by (metis append_Nil2 append_take_drop_id filter_append)
qed

definition line_at_spec :: "CodeModule \<Rightarrow> usize \<Rightarrow> u32 option" where
  "line_at_spec m pc =
     (let before = filter (\<lambda>e. fst e \<le> pc) (cm_line_table m)
      in if before = [] then None else Some (snd (last before)))"

lemma line_at_eq_spec:
  assumes "sorted (map fst (cm_line_table m))"
  shows "line_at m pc = line_at_spec m pc"
proof (cases "binary_search_by_key fst (cm_line_table m) pc")
  case (Inl i)
  note e = binary_search_Err [OF assms Inl]
  then have "filter (\<lambda>e. fst e \<le> pc) (cm_line_table m) = take i (cm_line_table m)"
    by (intro filter_le_prefix) (auto simp: less_imp_le)
  with e Inl show ?thesis
    by (cases i) (auto simp: line_at_def line_at_spec_def Let_def take_Suc_conv_app_nth)
next
  case (Inr i)
  note e = binary_search_Ok [OF assms Inr]
  have "filter (\<lambda>e. fst e \<le> pc) (cm_line_table m) = take (Suc i) (cm_line_table m)"
  proof (rule filter_le_prefix)
    show "\<forall>j < Suc i. fst (cm_line_table m ! j) \<le> pc"
      using e sorted_nth_mono [OF assms, of _ i] by (auto simp: less_Suc_eq_le)
  qed (use e in auto)
  with e Inr show ?thesis
    by (simp add: line_at_def line_at_spec_def Let_def take_Suc_conv_app_nth)
qed

lemma effect_site_at_eq_find:
  assumes "sorted_wrt (<) (map es_pc (cm_effect_sites m))"
  shows "effect_site_at m pc = find (\<lambda>s. es_pc s = pc) (cm_effect_sites m)"
proof (cases "binary_search_by_key es_pc (cm_effect_sites m) pc")
  case (Inl i)
  note e = binary_search_Err [OF strict_sorted_imp_sorted [OF assms] Inl]
  have "es_pc s \<noteq> pc" if s: "s \<in> set (cm_effect_sites m)" for s
  proof -
    from s obtain j where "j < length (cm_effect_sites m)" "s = cm_effect_sites m ! j"
      by (auto simp: in_set_conv_nth)
    with e show ?thesis by (metis less_irrefl not_le)
  qed
  then have "find (\<lambda>s. es_pc s = pc) (cm_effect_sites m) = None" by (auto simp: find_None_iff)
  with Inl show ?thesis by (simp add: effect_site_at_def)
next
  case (Inr i)
  note e = binary_search_Ok [OF strict_sorted_imp_sorted [OF assms] Inr]
  have "distinct (map es_pc (cm_effect_sites m))" using assms strict_sorted_iff by blast
  with e Inr show ?thesis
    using find_sorted_key [of es_pc "cm_effect_sites m" i pc] by (simp add: effect_site_at_def)
qed


subsection \<open>Properties\<close>

text \<open>on a line table sorted by program counter the binary search of \<open>line_at\<close> returns the line
  of the last entry at or before the program counter, and nothing when there is no such entry.\<close>

theorem line_at_correct:
  assumes "sorted (map fst (cm_line_table m))"
  shows "line_at m pc = line_at_spec m pc"
  using assms by (rule line_at_eq_spec)

theorem line_at_correct_witness:
  "line_at ((CodeModule_new ''m'')\<lparr>cm_line_table := [(0, 1), (3, 2), (7, 5)]\<rparr>) 5 = Some 2"
  by (subst line_at_correct) (simp_all add: CodeModule_new_def line_at_spec_def)

text \<open>on a site table with strictly increasing program counters \<open>effect_site_at\<close> returns the
  entry recorded for exactly that program counter, and nothing otherwise.\<close>

theorem effect_site_at_correct:
  assumes "sorted_wrt (<) (map es_pc (cm_effect_sites m))"
  shows "effect_site_at m pc = find (\<lambda>s. es_pc s = pc) (cm_effect_sites m)"
  using assms by (rule effect_site_at_eq_find)

theorem effect_site_at_correct_witness:
  "effect_site_at ((CodeModule_new ''m'')\<lparr>cm_effect_sites :=
     [\<lparr>es_pc = 2, es_id = [], es_effect_operation = ''A''\<rparr>,
      \<lparr>es_pc = 9, es_id = [], es_effect_operation = ''B''\<rparr>]\<rparr>) 9
   = Some \<lparr>es_pc = 9, es_id = [], es_effect_operation = ''B''\<rparr>"
  by (subst effect_site_at_correct) (simp_all add: CodeModule_new_def)

end
