(* ===== verification/Core_VM.thy ===== *)
theory Core_VM
  imports Code_Module "HOL-Library.Signed_Division"
begin

text \<open>
  The core virtual machine of \<^verbatim>\<open>src/core_vm/mod.rs\<close>: frames, closures, the string pool, the step
  function over the instruction set and the run loop. The 256 registers of a frame are a function on
  bytes. A step gives an error value: \<open>VmErr\<close> for the \<open>Err\<close> the code returns and \<open>VmPanic\<close> where an
  index out of range panics. Arithmetic on \<open>usize\<close> and \<open>i64\<close> wraps, as the release profile does.
  Printed text goes to \<open>vm_output\<close>; \<open>vm_input\<close> holds the outcomes of the successive calls of
  \<open>read_line\<close>, which reads an empty line at the end of the input.
\<close>

subsection \<open>State\<close>

record ClosureEnv =
  ce_func_idx :: usize
  ce_captures :: "u64 list"

record Frame =
  fr_regs :: "u8 \<Rightarrow> u64"
  fr_pc :: usize
  fr_module_idx :: nat
  fr_return_dst :: u8
  fr_caller_idx :: "nat option"
  fr_closure_env :: "u64 option"

definition Frame_new :: "nat option \<Rightarrow> nat \<Rightarrow> Frame" where
  "Frame_new caller_idx module_idx = \<lparr>fr_regs = (\<lambda>_. TAG_UNIT), fr_pc = 0,
     fr_module_idx = module_idx, fr_return_dst = 0, fr_caller_idx = caller_idx, fr_closure_env = None\<rparr>"

record HandlerFrame =
  hf_handler_table_idx :: nat
  hf_module_idx :: nat
  hf_resume_pc :: usize
  hf_resume_dst :: u8
  hf_saved_regs :: "(u8 \<Rightarrow> u64) option"
  hf_saved_pc :: "usize option"

datatype BuiltinEffect = IOPrint | IORead

definition BuiltinEffect_from_name :: "string \<Rightarrow> BuiltinEffect option" where
  "BuiltinEffect_from_name name =
     (if name = ''IO.print'' then Some IOPrint else if name = ''IO.read'' then Some IORead else None)"

record CoreVM =
  vm_modules :: "CodeModule list"
  vm_frames :: "Frame list"
  vm_handler_stack :: "HandlerFrame list"
  vm_closure_envs :: "ClosureEnv list"
  vm_strings :: "string list"
  vm_halted :: bool
  vm_exit_code :: i64
  vm_output :: string
  vm_input :: "(string + string) list"

definition CoreVM_new :: "(string + string) list \<Rightarrow> CoreVM" where
  "CoreVM_new inp = \<lparr>vm_modules = [], vm_frames = [], vm_handler_stack = [], vm_closure_envs = [],
     vm_strings = [], vm_halted = False, vm_exit_code = 0, vm_output = [], vm_input = inp\<rparr>"

datatype fail = VmErr string | VmPanic

definition CLOSURE_ENV_FLAG :: u64 where [layout_defs]: "CLOSURE_ENV_FLAG = 0x0000400000000000"
definition CLOSURE_ENV_IDX_MASK :: u64 where "CLOSURE_ENV_IDX_MASK = CLOSURE_ENV_FLAG - 1"

definition emit_print :: "string \<Rightarrow> CoreVM \<Rightarrow> CoreVM" where
  "emit_print line vm = vm\<lparr>vm_output := vm_output vm @ line @ [CHR 0x0A]\<rparr>"

definition load_module_from_code :: "CodeModule \<Rightarrow> CoreVM \<Rightarrow> nat \<times> CoreVM" where
  "load_module_from_code m vm = (length (vm_modules vm), vm\<lparr>vm_modules := vm_modules vm @ [m]\<rparr>)"

subsection \<open>The string pool\<close>

definition intern_string :: "string \<Rightarrow> CoreVM \<Rightarrow> u64 \<times> CoreVM" where
  "intern_string s vm =
     (let (idx, vm') =
        (case position (\<lambda>e. e = s) (vm_strings vm) of
           Some i \<Rightarrow> (i, vm)
         | None \<Rightarrow> (length (vm_strings vm), vm\<lparr>vm_strings := vm_strings vm @ [s]\<rparr>))
      in (TAG_STRING OR (of_nat idx AND PAYLOAD_MASK), vm'))"

definition resolve_string :: "CoreVM \<Rightarrow> u64 \<Rightarrow> string option" where
  "resolve_string vm value =
     (if value AND TAG_MASK \<noteq> TAG_STRING then None
      else let idx = unat (value AND PAYLOAD_MASK) in
        if idx < length (vm_strings vm) then Some (vm_strings vm ! idx) else None)"

subsection \<open>Registers\<close>

definition reg :: "CoreVM \<Rightarrow> nat \<Rightarrow> u8 \<Rightarrow> u64" where
  "reg vm f r = fr_regs (vm_frames vm ! f) r"

definition upd_frame :: "nat \<Rightarrow> (Frame \<Rightarrow> Frame) \<Rightarrow> CoreVM \<Rightarrow> CoreVM" where
  "upd_frame f g vm = vm\<lparr>vm_frames := (vm_frames vm)[f := g (vm_frames vm ! f)]\<rparr>"

definition set_reg :: "nat \<Rightarrow> u8 \<Rightarrow> u64 \<Rightarrow> CoreVM \<Rightarrow> CoreVM" where
  "set_reg f r v = upd_frame f (\<lambda>fr. fr\<lparr>fr_regs := (fr_regs fr)(r := v)\<rparr>)"

definition set_pc :: "nat \<Rightarrow> usize \<Rightarrow> CoreVM \<Rightarrow> CoreVM" where
  "set_pc f pc = upd_frame f (\<lambda>fr. fr\<lparr>fr_pc := pc\<rparr>)"

text \<open>\<open>self.modules[i]\<close> and the constant at an index.\<close>

definition module_at :: "CoreVM \<Rightarrow> nat \<Rightarrow> CodeModule option" where
  "module_at vm i = (if i < length (vm_modules vm) then Some (vm_modules vm ! i) else None)"

definition constant_at :: "CodeModule \<Rightarrow> u16 \<Rightarrow> Constant option" where
  "constant_at m idx = (if unat idx < length (cm_constants m) then Some (cm_constants m ! unat idx) else None)"

definition truthy :: "u64 \<Rightarrow> bool" where
  "truthy v \<longleftrightarrow> v AND PAYLOAD_MASK \<noteq> 0"

subsection \<open>Straight-line instructions\<close>

definition step_special :: "nat \<Rightarrow> special_op \<Rightarrow> Instruction \<Rightarrow> CoreVM \<Rightarrow> fail + bool \<times> CoreVM" where
  "step_special f oc instr vm =
     (case oc of
        Halt \<Rightarrow> Inr (False, vm)
      | Const0 \<Rightarrow> Inr (True, set_reg f (op1 instr) (tag_int 0) vm)
      | Const1 \<Rightarrow> Inr (True, set_reg f (op1 instr) (tag_int 1) vm)
      | Const2 \<Rightarrow> Inr (True, set_reg f (op1 instr) (tag_int 2) vm)
      | ConstM1 \<Rightarrow> Inr (True, set_reg f (op1 instr) (tag_int (-1)) vm)
      | ConstU \<Rightarrow>
          (case module_at vm (fr_module_idx (vm_frames vm ! f)) of
             None \<Rightarrow> Inl VmPanic
           | Some m \<Rightarrow>
               let (val, vm') =
                 (case constant_at m (imm16 instr) of
                    Some (CString s) \<Rightarrow> intern_string s vm
                  | Some (CInt n) \<Rightarrow> (tag_int n, vm)
                  | Some (CBool b) \<Rightarrow> (tag_bool b, vm)
                  | Some CNil \<Rightarrow> (TAG_NIL, vm)
                  | Some CUnit \<Rightarrow> (TAG_UNIT, vm)
                  | _ \<Rightarrow> (TAG_NIL, vm))
               in Inr (True, set_reg f (op3 instr) val vm'))
      | _ \<Rightarrow> Inr (True, vm))"

definition step_locals :: "nat \<Rightarrow> locals_op \<Rightarrow> Instruction \<Rightarrow> CoreVM \<Rightarrow> fail + bool \<times> CoreVM" where
  "step_locals f oc instr vm =
     (case oc of
        Pop \<Rightarrow> Inr (True, vm)
      | Swap \<Rightarrow> Inr (True, set_reg f (op2 instr) (reg vm f (op1 instr))
                           (set_reg f (op1 instr) (reg vm f (op2 instr)) vm))
      | _ \<Rightarrow> Inr (True, set_reg f (op2 instr) (reg vm f (op1 instr)) vm))"

definition step_int :: "nat \<Rightarrow> int_op \<Rightarrow> Instruction \<Rightarrow> CoreVM \<Rightarrow> fail + bool \<times> CoreVM" where
  "step_int f oc instr vm =
     (let a = as_int_raw (reg vm f (op1 instr));
          b = as_int_raw (reg vm f (op2 instr));
          shift = min (unat (ucast b :: u32)) 63;
          put = (\<lambda>r v. Inr (True, set_reg f r v vm))
      in case oc of
        IAdd \<Rightarrow> put (op3 instr) (tag_int (a + b))
      | ISub \<Rightarrow> put (op3 instr) (tag_int (a - b))
      | IMul \<Rightarrow> put (op3 instr) (tag_int (a * b))
      | IDiv \<Rightarrow> put (op3 instr) (if b = 0 then TAG_NIL else tag_int (word_of_int (sint a sdiv sint b)))
      | IMod \<Rightarrow> put (op3 instr) (if b = 0 then TAG_NIL else tag_int (word_of_int (sint a smod sint b)))
      | INeg \<Rightarrow> (if a = INT48_MIN
                 then Inl (VmErr (''integer overflow: `neg` on '' @ show_int (sint a)
                        @ '' exceeds the 48-bit range''))
                 else put (op2 instr) (tag_int (- a)))
      | IInc \<Rightarrow> put (op1 instr) (tag_int (a + 1))
      | IDec \<Rightarrow> put (op1 instr) (tag_int (a - 1))
      | Shl \<Rightarrow> put (op3 instr) (tag_int (push_bit shift a))
      | Shr \<Rightarrow> put (op3 instr) (tag_int (signed_drop_bit shift a))
      | _ \<Rightarrow> Inr (True, vm))"

definition step_compare :: "nat \<Rightarrow> cmp_op \<Rightarrow> Instruction \<Rightarrow> CoreVM \<Rightarrow> fail + bool \<times> CoreVM" where
  "step_compare f oc instr vm =
     (let a = sint (as_int_raw (reg vm f (op1 instr)));
          b = sint (as_int_raw (reg vm f (op2 instr)));
          p = truthy (reg vm f (op1 instr));
          q = truthy (reg vm f (op2 instr));
          put = (\<lambda>r v. Inr (True, set_reg f r (tag_bool v) vm))
      in case oc of
        ICmpEq \<Rightarrow> put (op3 instr) (a = b)
      | ICmpLt \<Rightarrow> put (op3 instr) (a < b)
      | ICmpGt \<Rightarrow> put (op3 instr) (a > b)
      | ICmpLe \<Rightarrow> put (op3 instr) (a \<le> b)
      | ICmpGe \<Rightarrow> put (op3 instr) (a \<ge> b)
      | Not_op \<Rightarrow> put (op2 instr) (\<not> p)
      | And \<Rightarrow> put (op3 instr) (p \<and> q)
      | Or \<Rightarrow> put (op3 instr) (p \<or> q)
      | _ \<Rightarrow> Inr (True, vm))"

subsection \<open>Calls, returns and jumps\<close>

definition resolve_function :: "CoreVM \<Rightarrow> u64 \<Rightarrow> fail + usize \<times> u64 option" where
  "resolve_function vm func_val =
     (if is_int_raw func_val then Inr (as_int_raw func_val, None)
      else if func_val AND TAG_MASK = TAG_CLOSURE then
        (let payload = func_val AND PAYLOAD_MASK in
         if payload AND CLOSURE_ENV_FLAG \<noteq> 0 then
           (let env_idx = unat (payload AND CLOSURE_ENV_IDX_MASK) in
            if env_idx < length (vm_closure_envs vm)
            then Inr (ce_func_idx (vm_closure_envs vm ! env_idx), Some func_val)
            else Inl (VmErr (''Dangling closure environment '' @ show_int (int env_idx))))
         else Inr (payload, Some func_val))
      else Inl (VmErr (''Not a function: '' @ show_hex func_val)))"

text \<open>The code offset of a function-table entry of the frame's module.\<close>

definition function_offset :: "CoreVM \<Rightarrow> nat \<Rightarrow> usize \<Rightarrow> fail + usize" where
  "function_offset vm f func_idx =
     (case module_at vm (fr_module_idx (vm_frames vm ! f)) of
        None \<Rightarrow> Inl VmPanic
      | Some m \<Rightarrow>
          if unat func_idx < length (cm_function_table m)
          then Inr (cm_function_table m ! unat func_idx)
          else Inl (VmErr (''Function '' @ show_int (uint func_idx) @ '' not found'')))"

definition step_call :: "nat \<Rightarrow> Instruction \<Rightarrow> CoreVM \<Rightarrow> fail + CoreVM" where
  "step_call f instr vm =
     (case resolve_function vm (reg vm f (op1 instr)) of
        Inl e \<Rightarrow> Inl e
      | Inr (func_idx, closure_env) \<Rightarrow>
          (case function_offset vm f func_idx of
             Inl e \<Rightarrow> Inl e
           | Inr code_offset \<Rightarrow>
               let new_frame = (Frame_new (Some f) (fr_module_idx (vm_frames vm ! f)))
                 \<lparr>fr_pc := code_offset,
                  fr_regs := (\<lambda>r. if unat r < unat (op2 instr) then reg vm f r else TAG_UNIT),
                  fr_return_dst := op3 instr,
                  fr_closure_env := closure_env\<rparr>
               in Inr (vm\<lparr>vm_frames := vm_frames vm @ [new_frame]\<rparr>)))"

definition step_ret :: "nat \<Rightarrow> u64 \<Rightarrow> CoreVM \<Rightarrow> fail + bool \<times> CoreVM" where
  "step_ret f ret_val vm =
     (case fr_caller_idx (vm_frames vm ! f) of
        Some caller_idx \<Rightarrow>
          if caller_idx < length (vm_frames vm)
          then let vm' = set_reg caller_idx (fr_return_dst (vm_frames vm ! f)) ret_val vm
               in Inr (True, vm'\<lparr>vm_frames := butlast (vm_frames vm')\<rparr>)
          else Inl VmPanic
      | None \<Rightarrow> Inr (False, set_reg f 0 ret_val vm))"

definition jump :: "nat \<Rightarrow> int \<Rightarrow> CoreVM \<Rightarrow> CoreVM" where
  "jump f offset vm = set_pc f (word_of_int (sint (fr_pc (vm_frames vm ! f)) + offset - 1)) vm"

definition step_control :: "nat \<Rightarrow> control_op \<Rightarrow> Instruction \<Rightarrow> CoreVM \<Rightarrow> fail + bool \<times> CoreVM" where
  "step_control f oc instr vm =
     (case oc of
        Jmp \<Rightarrow> Inr (True, jump f (sint (imm16 instr)) vm)
      | JmpT \<Rightarrow> Inr (True, if truthy (reg vm f (op1 instr)) then jump f (offset16 instr) vm else vm)
      | JmpF \<Rightarrow> Inr (True, if truthy (reg vm f (op1 instr)) then vm else jump f (offset16 instr) vm)
      | Call \<Rightarrow> (case step_call f instr vm of Inl e \<Rightarrow> Inl e | Inr vm' \<Rightarrow> Inr (True, vm'))
      | RetVal \<Rightarrow> step_ret f (reg vm f (op1 instr)) vm
      | Ret \<Rightarrow> step_ret f (reg vm f 0) vm
      | _ \<Rightarrow> Inr (True, vm))"

subsection \<open>Closures\<close>

definition resize_nil :: "nat \<Rightarrow> u64 list \<Rightarrow> u64 list" where
  "resize_nil n xs = xs @ replicate (n - length xs) TAG_NIL"

definition step_cap_store :: "nat \<Rightarrow> Instruction \<Rightarrow> CoreVM \<Rightarrow> fail + bool \<times> CoreVM" where
  "step_cap_store f instr vm =
     (let closure_val = reg vm f (op1 instr);
          slot = unat (op2 instr);
          src = reg vm f (op3 instr)
      in if closure_val AND TAG_MASK \<noteq> TAG_CLOSURE then Inl (VmErr ''CapStore target is not a closure'')
      else let payload = closure_val AND PAYLOAD_MASK;
          (env_idx, vm') =
            (if payload AND CLOSURE_ENV_FLAG \<noteq> 0 then (unat (payload AND CLOSURE_ENV_IDX_MASK), vm)
             else let idx = length (vm_closure_envs vm) in
               (idx, set_reg f (op1 instr)
                       (tag_closure (CLOSURE_ENV_FLAG OR (of_nat idx AND CLOSURE_ENV_IDX_MASK)))
                       (vm\<lparr>vm_closure_envs := vm_closure_envs vm @
                             [\<lparr>ce_func_idx = payload, ce_captures = []\<rparr>]\<rparr>)))
      in if env_idx < length (vm_closure_envs vm') then
           let env = vm_closure_envs vm' ! env_idx;
               caps = (if length (ce_captures env) \<le> slot
                       then resize_nil (slot + 1) (ce_captures env) else ce_captures env)
           in Inr (True, vm'\<lparr>vm_closure_envs := (vm_closure_envs vm')[env_idx :=
                             env\<lparr>ce_captures := caps[slot := src]\<rparr>]\<rparr>)
         else Inl VmPanic)"

definition step_cap_load :: "nat \<Rightarrow> Instruction \<Rightarrow> CoreVM \<Rightarrow> fail + bool \<times> CoreVM" where
  "step_cap_load f instr vm =
     (case fr_closure_env (vm_frames vm ! f) of
        None \<Rightarrow> Inl (VmErr ''CapLoad outside a closure call'')
      | Some env_val \<Rightarrow>
          let payload = env_val AND PAYLOAD_MASK; slot = unat (op1 instr) in
          if payload AND CLOSURE_ENV_FLAG = 0 then Inl (VmErr ''CapLoad in a closure without captures'')
          else let env_idx = unat (payload AND CLOSURE_ENV_IDX_MASK) in
            if env_idx < length (vm_closure_envs vm)
              \<and> slot < length (ce_captures (vm_closure_envs vm ! env_idx))
            then Inr (True, set_reg f (op2 instr) (ce_captures (vm_closure_envs vm ! env_idx) ! slot) vm)
            else Inl (VmErr (''CapLoad of missing capture slot '' @ show_int (int slot))))"

definition step_closure_call :: "nat \<Rightarrow> Instruction \<Rightarrow> CoreVM \<Rightarrow> fail + bool \<times> CoreVM" where
  "step_closure_call f instr vm =
     (case resolve_function vm (reg vm f (op1 instr)) of
        Inl e \<Rightarrow> Inl e
      | Inr (func_idx, closure_env) \<Rightarrow>
          (case function_offset vm f func_idx of
             Inl e \<Rightarrow> Inl e
           | Inr code_offset \<Rightarrow>
               let new_frame = (Frame_new (Some f) (fr_module_idx (vm_frames vm ! f)))
                 \<lparr>fr_pc := code_offset,
                  fr_regs := fr_regs (vm_frames vm ! f),
                  fr_return_dst := op3 instr,
                  fr_closure_env := closure_env\<rparr>
               in Inr (True, vm\<lparr>vm_frames := vm_frames vm @ [new_frame]\<rparr>)))"

definition step_closures :: "nat \<Rightarrow> closure_op \<Rightarrow> Instruction \<Rightarrow> CoreVM \<Rightarrow> fail + bool \<times> CoreVM" where
  "step_closures f oc instr vm =
     (case oc of
        Closure \<Rightarrow> Inr (True, set_reg f (op3 instr) (tag_closure (ucast (imm16 instr))) vm)
      | CapStore \<Rightarrow> step_cap_store f instr vm
      | CapLoad \<Rightarrow> step_cap_load f instr vm
      | ClosureCall \<Rightarrow> step_closure_call f instr vm
      | FreeVar \<Rightarrow> Inr (True, vm))"

subsection \<open>Effects\<close>

text \<open>The effect name of a \<open>Perform\<close> (a string constant) or a \<open>PerformDirect\<close> (a handler binding).\<close>

definition effect_name :: "nat \<Rightarrow> effect_op \<Rightarrow> Instruction \<Rightarrow> CoreVM \<Rightarrow> fail + string" where
  "effect_name f oc instr vm =
     (case module_at vm (fr_module_idx (vm_frames vm ! f)) of
        None \<Rightarrow> Inl VmPanic
      | Some m \<Rightarrow>
          if oc = PerformDirect then
            (let table_idx = unat (op1 instr); binding_idx = unat (op2 instr) in
             if table_idx < length (cm_handler_tables m) then
               (let bs = ht_bindings (cm_handler_tables m ! table_idx) in
                if binding_idx < length bs then Inr (hb_effect_name (bs ! binding_idx))
                else Inl (VmErr (''Binding '' @ show_int (int binding_idx) @ '' not found'')))
             else Inl (VmErr (''Handler table '' @ show_int (int table_idx) @ '' not found'')))
          else
            (case constant_at m (imm16 instr) of
               Some (CString s) \<Rightarrow> Inr s
             | _ \<Rightarrow> Inl (VmErr ''Effect name not found in constants'')))"

definition print_text :: "CoreVM \<Rightarrow> u64 \<Rightarrow> string" where
  "print_text vm val =
     (if is_int_raw val then show_int (sint (as_int_raw val))
      else if val = TAG_NIL then ''nil''
      else if val AND TAG_MASK = TAG_BOOL then (if val AND 1 \<noteq> 0 then ''true'' else ''false'')
      else case resolve_string vm val of
             Some s \<Rightarrow> s
           | None \<Rightarrow> ''<value:'' @ show_hex val @ ''>'')"

text \<open>One \<open>pop\<close> of a trailing line feed, then one of a trailing carriage return.\<close>

definition chomp :: "string \<Rightarrow> string" where
  "chomp line =
     (let l1 = (if line \<noteq> [] \<and> last line = CHR 0x0A then butlast line else line)
      in if l1 \<noteq> [] \<and> last l1 = CHR 0x0D then butlast l1 else l1)"

definition put_string :: "nat \<Rightarrow> u8 \<Rightarrow> string \<Rightarrow> CoreVM \<Rightarrow> CoreVM" where
  "put_string f r s vm = (let (v, vm') = intern_string s vm in set_reg f r v vm')"

definition perform_read :: "nat \<Rightarrow> Instruction \<Rightarrow> CoreVM \<Rightarrow> fail + CoreVM" where
  "perform_read f instr vm =
     (case vm_input vm of
        [] \<Rightarrow> Inr (put_string f (op3 instr) [] vm)
      | Inl e # rest \<Rightarrow> Inl (VmErr (''IO.read: '' @ e))
      | Inr line # rest \<Rightarrow> Inr (put_string f (op3 instr) (chomp line) (vm\<lparr>vm_input := rest\<rparr>)))"

definition step_perform :: "nat \<Rightarrow> effect_op \<Rightarrow> Instruction \<Rightarrow> CoreVM \<Rightarrow> fail + CoreVM" where
  "step_perform f oc instr vm =
     (case effect_name f oc instr vm of
        Inl e \<Rightarrow> Inl e
      | Inr eff \<Rightarrow>
          (case BuiltinEffect_from_name eff of
             Some IOPrint \<Rightarrow>
               Inr (set_reg f (op3 instr) TAG_UNIT (emit_print (print_text vm (reg vm f 0)) vm))
           | Some IORead \<Rightarrow> perform_read f instr vm
           | None \<Rightarrow>
               if eff = ''String.charAt'' then
                 (case resolve_string vm (reg vm f 0) of
                    None \<Rightarrow> Inl (VmErr ''String.charAt: string not found'')
                  | Some s \<Rightarrow>
                      let i = unat (as_int_raw (reg vm f 1)); cs = str_chars s;
                          ch = (if i < length cs then cs ! i else 0)
                      in Inr (set_reg f (op3 instr) (tag_int (of_nat ch)) vm))
               else if eff = ''String.length'' then
                 (case resolve_string vm (reg vm f 0) of
                    None \<Rightarrow> Inl (VmErr ''String.length: string not found'')
                  | Some s \<Rightarrow> Inr (set_reg f (op3 instr) (tag_int (of_nat (length s))) vm))
               else if eff = ''Int.to_string'' then
                 Inr (put_string f (op3 instr) (show_int (sint (as_int_raw (reg vm f 0)))) vm)
               else if eff = ''String.from_char'' then
                 (let ch = unat (ucast (as_int_raw (reg vm f 0)) :: u32) in
                  Inr (put_string f (op3 instr) (if utf8_scalar ch then char_to_string ch else []) vm))
               else Inl (VmErr (''Unhandled effect: '' @ eff))))"

text \<open>The innermost handler frame that holds a continuation, searched from the top of the stack.\<close>

fun find_last_idx :: "('a \<Rightarrow> bool) \<Rightarrow> 'a list \<Rightarrow> nat option" where
  "find_last_idx P [] = None"
| "find_last_idx P (x # xs) =
     (case find_last_idx P xs of Some i \<Rightarrow> Some (Suc i) | None \<Rightarrow> if P x then Some 0 else None)"

definition step_resume :: "nat \<Rightarrow> Instruction \<Rightarrow> CoreVM \<Rightarrow> fail + bool \<times> CoreVM" where
  "step_resume f instr vm =
     (let val = reg vm f (op1 instr) in
      case find_last_idx (\<lambda>h. hf_saved_regs h \<noteq> None) (vm_handler_stack vm) of
        None \<Rightarrow> Inl (VmErr ''resume called without a captured continuation'')
      | Some i \<Rightarrow>
          let hf = vm_handler_stack vm ! i; regs = the (hf_saved_regs hf) in
          Inr (True, upd_frame f
             (\<lambda>fr. fr\<lparr>fr_regs := regs(hf_resume_dst hf := val),
                       fr_pc := (case hf_saved_pc hf of Some pc \<Rightarrow> pc | None \<Rightarrow> 0)\<rparr>)
             (vm\<lparr>vm_handler_stack := (vm_handler_stack vm)[i := hf\<lparr>hf_saved_regs := None\<rparr>]\<rparr>)))"

definition step_effects :: "nat \<Rightarrow> effect_op \<Rightarrow> Instruction \<Rightarrow> CoreVM \<Rightarrow> fail + bool \<times> CoreVM" where
  "step_effects f oc instr vm =
     (if oc = Handle then
        Inr (True, vm\<lparr>vm_handler_stack := vm_handler_stack vm @
          [\<lparr>hf_handler_table_idx = unat (op1 instr), hf_module_idx = fr_module_idx (vm_frames vm ! f),
            hf_resume_pc = fr_pc (vm_frames vm ! f), hf_resume_dst = op2 instr,
            hf_saved_regs = None, hf_saved_pc = None\<rparr>]\<rparr>)
      else if oc = Perform \<or> oc = PerformDirect then
        (case step_perform f oc instr vm of Inl e \<Rightarrow> Inl e | Inr vm' \<Rightarrow> Inr (True, vm'))
      else if oc = Resume then step_resume f instr vm
      else Inr (True, vm))"

definition step_io :: "nat \<Rightarrow> io_op \<Rightarrow> Instruction \<Rightarrow> CoreVM \<Rightarrow> fail + bool \<times> CoreVM" where
  "step_io f oc instr vm =
     (if oc = SConcat then
        (let str = (\<lambda>v. case resolve_string vm v of Some s \<Rightarrow> s | None \<Rightarrow> []) in
         Inr (True, put_string f (op3 instr) (str (reg vm f (op1 instr)) @ str (reg vm f (op2 instr))) vm))
      else Inr (True, vm))"

subsection \<open>The step function and the run loop\<close>

text \<open>Opcodes outside the core subset do nothing.\<close>

definition step_inner :: "nat \<Rightarrow> Instruction \<Rightarrow> CoreVM \<Rightarrow> fail + bool \<times> CoreVM" where
  "step_inner f instr vm =
     (case opcode instr of
        Special oc \<Rightarrow> step_special f oc instr vm
      | Locals oc \<Rightarrow> step_locals f oc instr vm
      | IntArith oc \<Rightarrow> step_int f oc instr vm
      | Compare oc \<Rightarrow> step_compare f oc instr vm
      | Control oc \<Rightarrow> step_control f oc instr vm
      | Closures oc \<Rightarrow> step_closures f oc instr vm
      | Effects oc \<Rightarrow> step_effects f oc instr vm
      | StringIO oc \<Rightarrow> step_io f oc instr vm
      | _ \<Rightarrow> Inr (True, vm))"

text \<open>One iteration of the loop of \<open>run_inner\<close>: fetch from the topmost frame, step, and advance that
  frame's program counter when it is still there. \<open>Inr (False, vm)\<close> leaves the loop.\<close>

definition fetch :: "CodeModule \<Rightarrow> usize \<Rightarrow> Instruction" where
  "fetch m pc = (if unat pc < length (cm_instructions m) then cm_instructions m ! unat pc
                 else new0 (Special Halt))"

definition run_step :: "CoreVM \<Rightarrow> fail + bool \<times> CoreVM" where
  "run_step vm =
     (if vm_halted vm \<or> vm_frames vm = [] then Inr (False, vm)
      else let top = length (vm_frames vm) - 1 in
        case module_at vm (fr_module_idx (vm_frames vm ! top)) of
          None \<Rightarrow> Inl VmPanic
        | Some m \<Rightarrow>
            (case step_inner top (fetch m (fr_pc (vm_frames vm ! top))) vm of
               Inl e \<Rightarrow> Inl e
             | Inr (keep_going, vm') \<Rightarrow>
                 if \<not> keep_going then Inr (False, vm'\<lparr>vm_halted := True\<rparr>)
                 else Inr (True, if top < length (vm_frames vm')
                                 then set_pc top (fr_pc (vm_frames vm' ! top) + 1) vm' else vm')))"

fun run_loop :: "nat \<Rightarrow> CoreVM \<Rightarrow> (fail + CoreVM) option" where
  "run_loop 0 vm = None"
| "run_loop (Suc fuel) vm =
     (case run_step vm of
        Inl e \<Rightarrow> Some (Inl e)
      | Inr (False, vm') \<Rightarrow> Some (Inr vm')
      | Inr (True, vm') \<Rightarrow> run_loop fuel vm')"

definition run_result :: "CoreVM \<Rightarrow> u64 \<times> CoreVM" where
  "run_result vm =
     (let result = (if vm_frames vm = [] then TAG_UNIT else fr_regs (last (vm_frames vm)) 0)
      in (result, if is_int_raw result then vm\<lparr>vm_exit_code := as_int_raw result\<rparr> else vm))"

definition run_start :: "nat \<Rightarrow> usize \<Rightarrow> CoreVM \<Rightarrow> CoreVM" where
  "run_start module_idx entry_pc vm =
     vm\<lparr>vm_frames := vm_frames vm @ [(Frame_new None module_idx)\<lparr>fr_pc := entry_pc\<rparr>],
        vm_halted := False\<rparr>"

definition run_inner :: "nat \<Rightarrow> nat \<Rightarrow> usize \<Rightarrow> CoreVM \<Rightarrow> (fail + u64 \<times> CoreVM) option" where
  "run_inner fuel module_idx entry_pc vm =
     (case run_loop fuel (run_start module_idx entry_pc vm) of
        None \<Rightarrow> None
      | Some (Inl e) \<Rightarrow> Some (Inl e)
      | Some (Inr vm') \<Rightarrow> Some (Inr (run_result vm')))"

end
