(* ===== verification/Core_VM_Safety.thy ===== *)
theory Core_VM_Safety
  imports Core_VM
begin

text \<open>
  The core virtual machine never panics: the indices it follows (module of a frame, caller of a frame,
  environment of a closure value) stay in range whatever the bytecode does.
\<close>

subsection \<open>The invariant\<close>

text \<open>An env-carrying closure value refers to one of the \<open>n\<close> environments.\<close>

definition env_ok :: "nat \<Rightarrow> u64 \<Rightarrow> bool" where
  "env_ok n v \<longleftrightarrow> (v AND TAG_MASK = TAG_CLOSURE \<and> (v AND PAYLOAD_MASK) AND CLOSURE_ENV_FLAG \<noteq> 0
     \<longrightarrow> unat ((v AND PAYLOAD_MASK) AND CLOSURE_ENV_IDX_MASK) < n)"

definition wf_frame :: "nat \<Rightarrow> nat \<Rightarrow> nat \<Rightarrow> Frame \<Rightarrow> bool" where
  "wf_frame nmods nenvs i fr \<longleftrightarrow> fr_module_idx fr < nmods
     \<and> (\<forall>j. fr_caller_idx fr = Some j \<longrightarrow> Suc j = i)
     \<and> (\<forall>r. env_ok nenvs (fr_regs fr r))
     \<and> (\<forall>v. fr_closure_env fr = Some v \<longrightarrow> env_ok nenvs v)"

definition wf_vm :: "CoreVM \<Rightarrow> bool" where
  "wf_vm vm \<longleftrightarrow>
     (\<forall>i < length (vm_frames vm).
        wf_frame (length (vm_modules vm)) (length (vm_closure_envs vm)) i (vm_frames vm ! i))
     \<and> (\<forall>e \<in> set (vm_closure_envs vm). \<forall>v \<in> set (ce_captures e). env_ok (length (vm_closure_envs vm)) v)
     \<and> (\<forall>h \<in> set (vm_handler_stack vm). hf_saved_regs h = None)"

definition ok_res :: "fail + bool \<times> CoreVM \<Rightarrow> bool" where
  "ok_res r \<longleftrightarrow> (case r of Inl e \<Rightarrow> e \<noteq> VmPanic | Inr (b, vm) \<Rightarrow> wf_vm vm)"

lemma ok_res_simps [simp]:
  "ok_res (Inl (VmErr s))" "\<not> ok_res (Inl VmPanic)" "ok_res (Inr (b, vm)) \<longleftrightarrow> wf_vm vm"
  by (simp_all add: ok_res_def)

subsection \<open>Values the instructions make\<close>

lemma env_ok_mono: "env_ok n v \<Longrightarrow> n \<le> k \<Longrightarrow> env_ok k v"
  by (auto simp: env_ok_def)

lemma tags_not_closure [simp]:
  "TAG_INT \<noteq> TAG_CLOSURE" "TAG_BOOL \<noteq> TAG_CLOSURE" "TAG_STRING \<noteq> TAG_CLOSURE"
  "TAG_CLOSURE \<noteq> TAG_INT" "TAG_CLOSURE \<noteq> TAG_BOOL" "TAG_CLOSURE \<noteq> TAG_STRING"
  "TAG_NIL AND TAG_MASK \<noteq> TAG_CLOSURE" "TAG_UNIT AND TAG_MASK \<noteq> TAG_CLOSURE"
  by (simp_all add: layout_defs)

lemma env_ok_plain [simp]:
  "env_ok n (tag_int i)" "env_ok n (tag_bool b)" "env_ok n TAG_NIL" "env_ok n TAG_UNIT"
  by (simp_all add: env_ok_def)

lemma tag_string_tag: "(TAG_STRING OR (x AND PAYLOAD_MASK)) AND TAG_MASK = TAG_STRING"
  by (simp add: and_payload tagged_tag)

lemma env_ok_string [simp]: "env_ok n (TAG_STRING OR (x AND PAYLOAD_MASK))"
  by (simp add: env_ok_def tag_string_tag)

lemma closure_flag_bit: "x AND CLOSURE_ENV_FLAG = 0 \<longleftrightarrow> \<not> bit x 46"
proof -
  have f: "CLOSURE_ENV_FLAG = 2 ^ 46" by (simp add: CLOSURE_ENV_FLAG_def)
  show ?thesis unfolding f by (rule and_exp_eq_0_iff_not_bit)
qed

lemma closure_idx_mask: "CLOSURE_ENV_IDX_MASK = mask 46"
  by (simp add: CLOSURE_ENV_IDX_MASK_def CLOSURE_ENV_FLAG_def mask_eq_exp_minus_1)

lemma env_ok_immediate [simp]: "env_ok n (tag_closure (ucast (i :: u16)))"
proof -
  have "\<not> bit (take_bit 48 (ucast i :: u64)) 46"
    by (auto simp: bit_simps dest: bit_imp_le_length)
  then show ?thesis by (simp add: env_ok_def closure_flag_bit)
qed

lemma env_ok_allocated:
  assumes "idx < n"
  shows "env_ok n (tag_closure (CLOSURE_ENV_FLAG OR (of_nat idx AND CLOSURE_ENV_IDX_MASK)))"
proof -
  have z: "CLOSURE_ENV_FLAG AND mask 46 = 0" by (simp add: CLOSURE_ENV_FLAG_def mask_eq_exp_minus_1)
  have "take_bit 48 (CLOSURE_ENV_FLAG OR (of_nat idx AND mask 46)) AND mask 46
      = (CLOSURE_ENV_FLAG AND mask 46) OR (of_nat idx AND mask 46)"
    by (rule bit_eqI) (auto simp: bit_simps)
  also have "\<dots> = of_nat idx AND mask 46" by (simp add: z)
  finally have "take_bit 48 (CLOSURE_ENV_FLAG OR (of_nat idx AND mask 46)) AND mask 46 = of_nat idx AND mask 46" .
  moreover have "unat (of_nat idx AND mask 46 :: u64) \<le> unat (of_nat idx :: u64)"
    using word_and_le2 word_le_nat_alt by blast
  moreover have "unat (of_nat idx :: u64) \<le> idx" by (simp add: unat_of_nat)
  ultimately have "unat (take_bit 48 (CLOSURE_ENV_FLAG OR (of_nat idx AND mask 46)) AND mask 46) \<le> idx"
    by simp
  with assms show ?thesis by (simp add: env_ok_def closure_idx_mask)
qed

subsection \<open>The building blocks keep the invariant\<close>

lemma frames_upd [simp]:
  "vm_frames (upd_frame f g vm) = (vm_frames vm)[f := g (vm_frames vm ! f)]"
  "vm_modules (upd_frame f g vm) = vm_modules vm"
  "vm_closure_envs (upd_frame f g vm) = vm_closure_envs vm"
  "vm_handler_stack (upd_frame f g vm) = vm_handler_stack vm"
  "vm_strings (upd_frame f g vm) = vm_strings vm"
  by (simp_all add: upd_frame_def)

lemma wf_upd_frame:
  assumes "wf_vm vm" "f < length (vm_frames vm)"
    and "wf_frame (length (vm_modules vm)) (length (vm_closure_envs vm)) f (g (vm_frames vm ! f))"
  shows "wf_vm (upd_frame f g vm)"
  using assms by (auto simp: wf_vm_def nth_list_update)

lemma wf_set_reg [intro]:
  assumes "wf_vm vm" "f < length (vm_frames vm)" "env_ok (length (vm_closure_envs vm)) v"
  shows "wf_vm (set_reg f r v vm)"
  unfolding set_reg_def using assms by (intro wf_upd_frame) (auto simp: wf_vm_def wf_frame_def)

lemma wf_set_pc [intro]:
  assumes "wf_vm vm" "f < length (vm_frames vm)"
  shows "wf_vm (set_pc f pc vm)"
  unfolding set_pc_def using assms by (intro wf_upd_frame) (auto simp: wf_vm_def wf_frame_def)

lemma wf_jump [intro]: "wf_vm vm \<Longrightarrow> f < length (vm_frames vm) \<Longrightarrow> wf_vm (jump f k vm)"
  by (auto simp: jump_def)

lemma reg_env_ok [intro]:
  "wf_vm vm \<Longrightarrow> f < length (vm_frames vm) \<Longrightarrow> env_ok (length (vm_closure_envs vm)) (reg vm f r)"
  by (auto simp: wf_vm_def wf_frame_def reg_def)

lemma set_reg_simps [simp]:
  "length (vm_frames (set_reg f r v vm)) = length (vm_frames vm)"
  "vm_closure_envs (set_reg f r v vm) = vm_closure_envs vm"
  "vm_modules (set_reg f r v vm) = vm_modules vm"
  by (simp_all add: set_reg_def)

lemma wf_neutral [simp]:
  "wf_vm (vm\<lparr>vm_strings := x\<rparr>) = wf_vm vm" "wf_vm (vm\<lparr>vm_output := y\<rparr>) = wf_vm vm"
  "wf_vm (vm\<lparr>vm_input := z\<rparr>) = wf_vm vm" "wf_vm (vm\<lparr>vm_halted := b\<rparr>) = wf_vm vm"
  "wf_vm (vm\<lparr>vm_exit_code := c\<rparr>) = wf_vm vm" "wf_vm (emit_print l vm) = wf_vm vm"
  by (simp_all add: wf_vm_def emit_print_def)

lemma intern_string_wf:
  assumes "intern_string s vm = (v, vm')"
  shows "wf_vm vm' = wf_vm vm" "vm_frames vm' = vm_frames vm" "vm_closure_envs vm' = vm_closure_envs vm"
    "env_ok n v"
  using assms by (auto simp: intern_string_def Let_def split: option.splits)

lemma wf_put_string [intro]:
  assumes "wf_vm vm" "f < length (vm_frames vm)"
  shows "wf_vm (put_string f r s vm)"
  using assms intern_string_wf by (fastforce simp: put_string_def split: prod.splits)

lemma wf_push_frame:
  assumes "wf_vm vm"
    and "wf_frame (length (vm_modules vm)) (length (vm_closure_envs vm)) (length (vm_frames vm)) fr"
  shows "wf_vm (vm\<lparr>vm_frames := vm_frames vm @ [fr]\<rparr>)"
  using assms by (auto simp: wf_vm_def nth_append less_Suc_eq)

lemma wf_module:
  assumes "wf_vm vm" "f < length (vm_frames vm)"
  shows "module_at vm (fr_module_idx (vm_frames vm ! f)) = Some (vm_modules vm ! fr_module_idx (vm_frames vm ! f))"
  using assms by (auto simp: wf_vm_def wf_frame_def module_at_def)


subsection \<open>Every instruction keeps the invariant\<close>

lemma step_special_ok:
  assumes "wf_vm vm" "f < length (vm_frames vm)"
  shows "ok_res (step_special f oc instr vm)"
proof (cases oc)
  case ConstU
  have "wf_vm (set_reg f (op3 instr) val vm')"
    if "intern_string s vm = (val, vm')" for s val vm'
    using intern_string_wf [OF that] assms by auto
  with ConstU assms show ?thesis
    by (auto simp: step_special_def wf_module split: option.splits Constant.splits prod.splits)
qed (use assms in \<open>auto simp: step_special_def\<close>)

lemma step_locals_ok:
  assumes "wf_vm vm" "f < length (vm_frames vm)"
  shows "ok_res (step_locals f oc instr vm)"
  using assms by (cases oc) (auto simp: step_locals_def intro!: wf_set_reg reg_env_ok)

lemma step_int_ok:
  assumes "wf_vm vm" "f < length (vm_frames vm)"
  shows "ok_res (step_int f oc instr vm)"
  using assms by (cases oc) (auto simp: step_int_def Let_def intro!: wf_set_reg)

lemma step_compare_ok:
  assumes "wf_vm vm" "f < length (vm_frames vm)"
  shows "ok_res (step_compare f oc instr vm)"
  using assms by (cases oc) (auto simp: step_compare_def Let_def intro!: wf_set_reg)

lemma resolve_function_ok:
  assumes "wf_vm vm" "f < length (vm_frames vm)" "resolve_function vm (reg vm f r) = res"
  shows "res \<noteq> Inl VmPanic \<and> (\<forall>i v. res = Inr (i, Some v) \<longrightarrow> env_ok (length (vm_closure_envs vm)) v)"
  using assms reg_env_ok [OF assms(1,2), of r]
  by (auto simp: resolve_function_def Let_def split: if_splits)

lemma function_offset_ok:
  assumes "wf_vm vm" "f < length (vm_frames vm)"
  shows "function_offset vm f i \<noteq> Inl VmPanic"
  using assms by (auto simp: function_offset_def wf_module)

lemma wf_call_frame:
  assumes "wf_vm vm" "f < length (vm_frames vm)" "Suc f = length (vm_frames vm)"
    and "resolve_function vm (reg vm f r) = Inr (i, env)" and "\<And>k. env_ok (length (vm_closure_envs vm)) (regs k)"
  shows "wf_vm (vm\<lparr>vm_frames := vm_frames vm @
    [(Frame_new (Some f) (fr_module_idx (vm_frames vm ! f)))
       \<lparr>fr_pc := pc, fr_regs := regs, fr_return_dst := d, fr_closure_env := env\<rparr>]\<rparr>)"
proof (rule wf_push_frame [OF assms(1)])
  have "fr_module_idx (vm_frames vm ! f) < length (vm_modules vm)"
    using assms by (auto simp: wf_vm_def wf_frame_def)
  then show "wf_frame (length (vm_modules vm)) (length (vm_closure_envs vm)) (length (vm_frames vm))
     ((Frame_new (Some f) (fr_module_idx (vm_frames vm ! f)))
       \<lparr>fr_pc := pc, fr_regs := regs, fr_return_dst := d, fr_closure_env := env\<rparr>)"
    using resolve_function_ok [OF assms(1,2,4)] assms(3,5)
    by (auto simp: wf_frame_def Frame_new_def)
qed

lemma step_call_ok:
  assumes "wf_vm vm" "Suc f = length (vm_frames vm)"
  shows "step_call f instr vm \<noteq> Inl VmPanic \<and> (\<forall>vm'. step_call f instr vm = Inr vm' \<longrightarrow> wf_vm vm')"
proof -
  have f: "f < length (vm_frames vm)" using assms by simp
  show ?thesis
    using resolve_function_ok [OF assms(1) f refl, of "op1 instr"] function_offset_ok [OF assms(1) f]
      reg_env_ok [OF assms(1) f]
    by (auto simp: step_call_def Let_def split: sum.splits intro!: wf_call_frame [OF assms(1) f assms(2)])
qed

lemma step_closure_call_ok:
  assumes "wf_vm vm" "Suc f = length (vm_frames vm)"
  shows "ok_res (step_closure_call f instr vm)"
proof -
  have f: "f < length (vm_frames vm)" using assms by simp
  have "env_ok (length (vm_closure_envs vm)) (fr_regs (vm_frames vm ! f) k)" for k
    using reg_env_ok [OF assms(1) f] by (simp add: reg_def)
  then show ?thesis
    using resolve_function_ok [OF assms(1) f refl, of "op1 instr"] function_offset_ok [OF assms(1) f]
    by (auto simp: step_closure_call_def Let_def ok_res_def split: sum.splits fail.splits
        intro!: wf_call_frame [OF assms(1) f assms(2)])
qed

lemma wf_pop_frame: "wf_vm vm \<Longrightarrow> wf_vm (vm\<lparr>vm_frames := butlast (vm_frames vm)\<rparr>)"
  by (auto simp: wf_vm_def nth_butlast)

lemma step_ret_ok:
  assumes "wf_vm vm" "Suc f = length (vm_frames vm)" "env_ok (length (vm_closure_envs vm)) v"
  shows "ok_res (step_ret f v vm)"
proof (cases "fr_caller_idx (vm_frames vm ! f)")
  case None
  with assms show ?thesis by (auto simp: step_ret_def)
next
  case (Some j)
  have "wf_frame (length (vm_modules vm)) (length (vm_closure_envs vm)) f (vm_frames vm ! f)"
    using assms(1,2) by (auto simp: wf_vm_def)
  with Some have "Suc j = f" by (simp add: wf_frame_def)
  with assms have "j < length (vm_frames vm)" by simp
  with Some assms wf_pop_frame wf_set_reg show ?thesis by (auto simp: step_ret_def Let_def)
qed

lemma step_control_ok:
  assumes "wf_vm vm" "Suc f = length (vm_frames vm)"
  shows "ok_res (step_control f oc instr vm)"
proof -
  have f: "f < length (vm_frames vm)" using assms by simp
  show ?thesis
    using assms f step_call_ok [OF assms, of instr] step_ret_ok [OF assms] reg_env_ok [OF assms(1) f]
    by (cases oc) (auto simp: step_control_def ok_res_def split: sum.splits fail.splits)
qed

lemma set_resize_update:
  "v \<in> set ((resize_nil n xs)[i := w]) \<Longrightarrow> v = w \<or> v = TAG_NIL \<or> v \<in> set xs"
  using set_update_subset_insert [of "resize_nil n xs" i w] by (auto simp: resize_nil_def)

lemma wf_capture:
  assumes "wf_vm vm" "i < length (vm_closure_envs vm)"
    and "\<And>v. v \<in> set caps \<Longrightarrow> env_ok (length (vm_closure_envs vm)) v"
  shows "wf_vm (vm\<lparr>vm_closure_envs := (vm_closure_envs vm)[i := (vm_closure_envs vm ! i)\<lparr>ce_captures := caps\<rparr>]\<rparr>)"
proof -
  have "env_ok (length (vm_closure_envs vm)) v"
    if "e \<in> set ((vm_closure_envs vm)[i := (vm_closure_envs vm ! i)\<lparr>ce_captures := caps\<rparr>])"
      "v \<in> set (ce_captures e)" for e v
    using set_update_subset_insert [of "vm_closure_envs vm" i] that assms
    by (fastforce simp: wf_vm_def)
  with assms(1) show ?thesis by (auto simp: wf_vm_def)
qed

lemma wf_alloc_env:
  assumes "wf_vm vm" "ce_captures e = []"
  shows "wf_vm (vm\<lparr>vm_closure_envs := vm_closure_envs vm @ [e]\<rparr>)"
proof -
  let ?n = "length (vm_closure_envs vm)"
  have "env_ok (Suc ?n) v" if "env_ok ?n v" for v
    using env_ok_mono [OF that] by simp
  with assms show ?thesis by (auto simp: wf_vm_def wf_frame_def)
qed


lemma wf_store_capture:
  assumes "wf_vm vm" "i < length (vm_closure_envs vm)" "env_ok (length (vm_closure_envs vm)) src"
  shows "wf_vm (vm\<lparr>vm_closure_envs := (vm_closure_envs vm)[i := (vm_closure_envs vm ! i)
     \<lparr>ce_captures := (if length (ce_captures (vm_closure_envs vm ! i)) \<le> slot
        then resize_nil (slot + 1) (ce_captures (vm_closure_envs vm ! i))
        else ce_captures (vm_closure_envs vm ! i))[slot := src]\<rparr>]\<rparr>)"
proof (rule wf_capture [OF assms(1,2)])
  fix v
  assume "v \<in> set ((if length (ce_captures (vm_closure_envs vm ! i)) \<le> slot
        then resize_nil (slot + 1) (ce_captures (vm_closure_envs vm ! i))
        else ce_captures (vm_closure_envs vm ! i))[slot := src])"
  then have "v = src \<or> v = TAG_NIL \<or> v \<in> set (ce_captures (vm_closure_envs vm ! i))"
    by (auto split: if_splits dest: set_resize_update set_update_subset_insert [THEN subsetD])
  moreover have "vm_closure_envs vm ! i \<in> set (vm_closure_envs vm)" using assms(2) by simp
  ultimately show "env_ok (length (vm_closure_envs vm)) v"
    using assms by (auto simp: wf_vm_def)
qed

lemma step_cap_store_ok:
  assumes wf: "wf_vm vm" and f: "f < length (vm_frames vm)"
  shows "ok_res (step_cap_store f instr vm)"
proof -
  let ?c = "reg vm f (op1 instr)" and ?n = "length (vm_closure_envs vm)"
  have c: "env_ok ?n ?c" and src: "env_ok ?n (reg vm f (op3 instr))"
    using wf f by auto
  consider "?c AND TAG_MASK \<noteq> TAG_CLOSURE"
    | "?c AND TAG_MASK = TAG_CLOSURE" "(?c AND PAYLOAD_MASK) AND CLOSURE_ENV_FLAG \<noteq> 0"
    | "?c AND TAG_MASK = TAG_CLOSURE" "(?c AND PAYLOAD_MASK) AND CLOSURE_ENV_FLAG = 0"
    by blast
  then show ?thesis
  proof cases
    case 1
    then show ?thesis by (simp add: step_cap_store_def)
  next
    case 2
    with c have "unat ((?c AND PAYLOAD_MASK) AND CLOSURE_ENV_IDX_MASK) < ?n" by (simp add: env_ok_def)
    with 2 wf_store_capture [OF wf _ src] show ?thesis by (simp add: step_cap_store_def Let_def)
  next
    case 3
    let ?e = "\<lparr>ce_func_idx = ?c AND PAYLOAD_MASK, ce_captures = []\<rparr>"
    let ?vm = "set_reg f (op1 instr) (tag_closure (CLOSURE_ENV_FLAG OR (of_nat ?n AND CLOSURE_ENV_IDX_MASK)))
      (vm\<lparr>vm_closure_envs := vm_closure_envs vm @ [?e]\<rparr>)"
    have "wf_vm (vm\<lparr>vm_closure_envs := vm_closure_envs vm @ [?e]\<rparr>)"
      by (rule wf_alloc_env [OF wf]) simp
    then have "wf_vm ?vm" using f by (intro wf_set_reg env_ok_allocated) auto
    moreover have "env_ok (length (vm_closure_envs ?vm)) (reg vm f (op3 instr))"
      using src by (rule env_ok_mono) simp
    ultimately show ?thesis
      using wf_store_capture [of ?vm ?n "reg vm f (op3 instr)" "unat (op2 instr)"] 3
      by (simp add: step_cap_store_def Let_def)
  qed
qed

lemma step_cap_load_ok:
  assumes wf: "wf_vm vm" and f: "f < length (vm_frames vm)"
  shows "ok_res (step_cap_load f instr vm)"
proof -
  have "env_ok (length (vm_closure_envs vm)) (ce_captures (vm_closure_envs vm ! i) ! k)"
    if "i < length (vm_closure_envs vm)" "k < length (ce_captures (vm_closure_envs vm ! i))" for i k
    using wf nth_mem [OF that(1)] nth_mem [OF that(2)] unfolding wf_vm_def by blast
  with assms show ?thesis
    by (auto simp: step_cap_load_def Let_def split: option.splits)
qed

lemma step_closures_ok:
  assumes "wf_vm vm" "Suc f = length (vm_frames vm)"
  shows "ok_res (step_closures f oc instr vm)"
  using assms step_cap_store_ok step_cap_load_ok step_closure_call_ok
  by (cases oc) (auto simp: step_closures_def)

lemma effect_name_ok:
  "wf_vm vm \<Longrightarrow> f < length (vm_frames vm) \<Longrightarrow> effect_name f oc instr vm \<noteq> Inl VmPanic"
  by (auto simp: effect_name_def wf_module Let_def split: option.splits Constant.splits)

definition perform_ok :: "fail + CoreVM \<Rightarrow> bool" where
  "perform_ok r \<longleftrightarrow> (case r of Inl e \<Rightarrow> e \<noteq> VmPanic | Inr vm \<Rightarrow> wf_vm vm)"

lemma perform_ok_simps [simp]:
  "perform_ok (Inl (VmErr s))" "\<not> perform_ok (Inl VmPanic)" "perform_ok (Inr vm) \<longleftrightarrow> wf_vm vm"
  by (simp_all add: perform_ok_def)

lemma step_perform_ok:
  assumes "wf_vm vm" "f < length (vm_frames vm)"
  shows "perform_ok (step_perform f oc instr vm)"
proof (cases "effect_name f oc instr vm")
  case (Inl e)
  with effect_name_ok [OF assms, of oc instr] show ?thesis by (simp add: step_perform_def perform_ok_def)
next
  case (Inr eff)
  have pr: "wf_vm (set_reg f (op3 instr) TAG_UNIT (emit_print l vm))" for l
    using assms by (intro wf_set_reg) (simp_all add: emit_print_def)
  have rd: "perform_ok (perform_read f instr vm)"
    using assms by (auto simp: perform_read_def split: list.splits sum.splits)
  have ps: "wf_vm (put_string f r s vm)" for r s using assms by blast
  have ti: "wf_vm (set_reg f r (tag_int n) vm)" for r n using assms by auto
  show ?thesis
    unfolding step_perform_def Inr Let_def sum.case
    by (intro option.split [where P = perform_ok, THEN iffD2] BuiltinEffect.split [where P = perform_ok, THEN iffD2]
        if_split [where P = perform_ok, THEN iffD2] conjI impI allI)
      (simp_all only: perform_ok_simps pr rd ps ti)
qed

lemma find_last_idx_SomeD: "find_last_idx P xs = Some i \<Longrightarrow> i < length xs \<and> P (xs ! i)"
  by (induction xs arbitrary: i) (auto split: option.splits if_splits)

lemma step_resume_err:
  assumes "wf_vm vm"
  shows "step_resume f instr vm = Inl (VmErr ''resume called without a captured continuation'')"
proof -
  have "find_last_idx (\<lambda>h. hf_saved_regs h \<noteq> None) (vm_handler_stack vm) = None"
  proof (rule ccontr)
    assume "find_last_idx (\<lambda>h. hf_saved_regs h \<noteq> None) (vm_handler_stack vm) \<noteq> None"
    then obtain i where "i < length (vm_handler_stack vm)" "hf_saved_regs (vm_handler_stack vm ! i) \<noteq> None"
      using find_last_idx_SomeD by blast
    then show False using assms by (auto simp: wf_vm_def)
  qed
  then show ?thesis by (simp add: step_resume_def Let_def)
qed

lemma step_effects_ok:
  assumes "wf_vm vm" "f < length (vm_frames vm)"
  shows "ok_res (step_effects f oc instr vm)"
proof -
  have "wf_vm (vm\<lparr>vm_handler_stack := vm_handler_stack vm @ [h]\<rparr>)" if "hf_saved_regs h = None" for h
    using assms(1) that by (auto simp: wf_vm_def)
  then show ?thesis
    using assms step_perform_ok [OF assms, of oc instr]
    by (auto simp: step_effects_def step_resume_err ok_res_def perform_ok_def split: sum.splits)
qed

lemma step_io_ok:
  assumes "wf_vm vm" "f < length (vm_frames vm)"
  shows "ok_res (step_io f oc instr vm)"
  using assms by (auto simp: step_io_def Let_def)

lemma step_inner_ok:
  assumes "wf_vm vm" "Suc f = length (vm_frames vm)"
  shows "ok_res (step_inner f instr vm)"
proof -
  have "f < length (vm_frames vm)" using assms by simp
  with assms show ?thesis
    by (cases "opcode instr") (simp_all add: step_inner_def step_special_ok step_locals_ok step_int_ok
      step_compare_ok step_control_ok step_closures_ok step_effects_ok step_io_ok)
qed

lemma run_step_ok:
  assumes "wf_vm vm"
  shows "ok_res (run_step vm)"
proof (cases "vm_halted vm \<or> vm_frames vm = []")
  case True
  with assms show ?thesis by (simp add: run_step_def)
next
  case False
  let ?top = "length (vm_frames vm) - 1"
  have top: "Suc ?top = length (vm_frames vm)" "?top < length (vm_frames vm)"
    using False by auto
  let ?instr = "fetch (vm_modules vm ! fr_module_idx (vm_frames vm ! ?top)) (fr_pc (vm_frames vm ! ?top))"
  have eq: "run_step vm = (case step_inner ?top ?instr vm of
               Inl e \<Rightarrow> Inl e
             | Inr (keep_going, vm') \<Rightarrow>
                 if \<not> keep_going then Inr (False, vm'\<lparr>vm_halted := True\<rparr>)
                 else Inr (True, if ?top < length (vm_frames vm')
                                 then set_pc ?top (fr_pc (vm_frames vm' ! ?top) + 1) vm' else vm'))"
    using False wf_module [OF assms top(2)] unfolding run_step_def Let_def by simp
  have ok: "ok_res (step_inner ?top ?instr vm)"
    by (rule step_inner_ok [OF assms top(1)])
  show ?thesis
  proof (cases "step_inner ?top ?instr vm")
    case (Inl e)
    with ok eq show ?thesis by (simp add: ok_res_def)
  next
    case (Inr r)
    obtain k vm' where r: "r = (k, vm')" by force
    with ok Inr have "wf_vm vm'" by (simp add: ok_res_def)
    then have "wf_vm (vm'\<lparr>vm_halted := True\<rparr>)"
      "?top < length (vm_frames vm') \<Longrightarrow> wf_vm (set_pc ?top (fr_pc (vm_frames vm' ! ?top) + 1) vm')"
      by (simp add: wf_vm_def, rule wf_set_pc)
    with \<open>wf_vm vm'\<close> eq Inr r show ?thesis by (simp add: ok_res_def)
  qed
qed

lemma run_loop_ok:
  assumes "wf_vm vm"
  shows "run_loop fuel vm \<noteq> Some (Inl VmPanic) \<and> (\<forall>vm'. run_loop fuel vm = Some (Inr vm') \<longrightarrow> wf_vm vm')"
  using assms
proof (induction fuel arbitrary: vm)
  case (Suc fuel)
  then show ?case
    using run_step_ok [OF Suc.prems] by (auto simp: ok_res_def split: sum.splits bool.splits)
qed simp

lemma wf_run_start: "wf_vm vm \<Longrightarrow> mi < length (vm_modules vm) \<Longrightarrow> wf_vm (run_start mi pc vm)"
  using wf_push_frame [of vm "(Frame_new None mi)\<lparr>fr_pc := pc\<rparr>"]
  by (simp add: run_start_def wf_frame_def Frame_new_def wf_vm_def)

text \<open>A machine with modules and no history.\<close>

lemma wf_fresh: "wf_vm ((CoreVM_new inp)\<lparr>vm_modules := ms\<rparr>)"
  by (simp add: wf_vm_def CoreVM_new_def)

subsection \<open>Properties\<close>

text \<open>C1: running any bytecode on the core virtual machine never panics: from a well-formed machine and
  a loaded module, every run of any length either returns an \<open>Err\<close> or ends in a well-formed machine;
  no instruction sequence can make it index a module, a caller frame or a closure environment out of
  range.\<close>

theorem core_vm_never_panics:
  assumes "wf_vm vm" "module_idx < length (vm_modules vm)"
  shows "run_inner fuel module_idx entry_pc vm \<noteq> Some (Inl VmPanic) \<and>
    (\<forall>v vm'. run_inner fuel module_idx entry_pc vm = Some (Inr (v, vm')) \<longrightarrow> wf_vm vm')"
  using run_loop_ok [OF wf_run_start [OF assms], of fuel entry_pc]
  by (auto simp: run_inner_def run_result_def Let_def split: option.splits sum.splits if_splits)

definition demo_module :: CodeModule where
  "demo_module = (CodeModule_new ''demo'')\<lparr>cm_constants := [CInt 6, CInt 7],
     cm_instructions := [new3 (Special ConstU) 0 0 1, new3 (Special ConstU) 0 1 2,
       new3 (IntArith IMul) 1 2 0, new1 (Control RetVal) 0]\<rparr>"

theorem core_vm_never_panics_witness:
  "run_inner 9 0 0 ((CoreVM_new [])\<lparr>vm_modules := [demo_module]\<rparr>) \<noteq> Some (Inl VmPanic)"
  using core_vm_never_panics [OF wf_fresh, of 0 "[demo_module]" "[]" 9 0] by (simp add: CoreVM_new_def)

end
