(* ===== verification/Core_VM_Frames.thy ===== *)
theory Core_VM_Frames
  imports Core_VM_Safety
begin

text \<open>
  The call discipline of the core virtual machine of \<open>src/core_vm/mod.rs\<close>: what one iteration of the
  run loop may do to the frame stack, and what follows for a whole call. Also the string pool's
  contract and that the fuel of the run loop only bounds the number of iterations.
\<close>

subsection \<open>One step and the frame stack\<close>

text \<open>An instruction leaves the stack as it is but for the running frame, which keeps the fields that
  link it to its caller; or it pushes a frame called by the running one; or it pops the running frame
  and writes one of its registers to the caller's return register.\<close>

definition same_link :: "Frame \<Rightarrow> Frame \<Rightarrow> bool" where
  "same_link a b \<longleftrightarrow> fr_caller_idx a = fr_caller_idx b \<and> fr_return_dst a = fr_return_dst b \<and>
     fr_module_idx a = fr_module_idx b \<and> fr_closure_env a = fr_closure_env b"

lemma same_link_refl [simp]: "same_link a a"
  by (simp add: same_link_def)

lemma same_link_upd [simp]:
  "same_link a (b\<lparr>fr_regs := rs\<rparr>) = same_link a b" "same_link a (b\<lparr>fr_pc := pc\<rparr>) = same_link a b"
  by (simp_all add: same_link_def)

definition stays :: "nat \<Rightarrow> CoreVM \<Rightarrow> CoreVM \<Rightarrow> bool" where
  "stays f vm vm' \<longleftrightarrow> (\<exists>fr. same_link (vm_frames vm ! f) fr \<and> vm_frames vm' = (vm_frames vm)[f := fr])"

definition pushes :: "nat \<Rightarrow> CoreVM \<Rightarrow> CoreVM \<Rightarrow> bool" where
  "pushes f vm vm' \<longleftrightarrow> (\<exists>fr. fr_caller_idx fr = Some f \<and> vm_frames vm' = vm_frames vm @ [fr])"

definition pops :: "nat \<Rightarrow> CoreVM \<Rightarrow> CoreVM \<Rightarrow> bool" where
  "pops f vm vm' \<longleftrightarrow> (\<exists>c r. fr_caller_idx (vm_frames vm ! f) = Some c \<and> c < length (vm_frames vm) \<and>
     vm_frames vm' = butlast (vm_frames (set_reg c (fr_return_dst (vm_frames vm ! f)) (reg vm f r) vm)))"

definition frame_res :: "nat \<Rightarrow> CoreVM \<Rightarrow> fail + bool \<times> CoreVM \<Rightarrow> bool" where
  "frame_res f vm r \<longleftrightarrow> (case r of Inl _ \<Rightarrow> True
     | Inr (k, vm') \<Rightarrow> stays f vm vm' \<or> pushes f vm vm' \<or> pops f vm vm')"

lemma frame_res_simps [simp]:
  "frame_res f vm (Inl e)"
  "frame_res f vm (Inr (k, vm')) \<longleftrightarrow> stays f vm vm' \<or> pushes f vm vm' \<or> pops f vm vm'"
  by (simp_all add: frame_res_def)

lemma stays_refl [simp, intro]: "stays f vm vm"
  unfolding stays_def by (rule exI [of _ "vm_frames vm ! f"]) simp

lemma stays_frames: "vm_frames vm1 = vm_frames vm' \<Longrightarrow> stays f vm vm1 = stays f vm vm'"
  by (simp add: stays_def)

lemma stays_neutral [simp]:
  "stays f vm (vm'\<lparr>vm_handler_stack := hs\<rparr>) = stays f vm vm'"
  "stays f vm (vm'\<lparr>vm_closure_envs := cs\<rparr>) = stays f vm vm'"
  "stays f vm (vm'\<lparr>vm_input := inp\<rparr>) = stays f vm vm'"
  "stays f vm (emit_print l vm') = stays f vm vm'"
  by (simp_all add: stays_def emit_print_def)

lemma stays_upd_frame:
  assumes "stays f vm vm'" and "\<And>a b. same_link a b \<Longrightarrow> same_link a (g b)"
  shows "stays f vm (upd_frame f g vm')"
proof (cases "f < length (vm_frames vm)")
  case True
  obtain fr where "same_link (vm_frames vm ! f) fr" "vm_frames vm' = (vm_frames vm)[f := fr]"
    using assms(1) by (auto simp: stays_def)
  with True assms(2) show ?thesis
    unfolding stays_def by (intro exI [of _ "g fr"]) (simp add: upd_frame_def)
next
  case False
  with assms show ?thesis by (auto simp: stays_def upd_frame_def list_update_beyond)
qed

lemma stays_set_reg [intro]: "stays f vm vm' \<Longrightarrow> stays f vm (set_reg f r v vm')"
  unfolding set_reg_def by (erule stays_upd_frame) simp

lemma stays_set_pc [intro]: "stays f vm vm' \<Longrightarrow> stays f vm (set_pc f pc vm')"
  unfolding set_pc_def by (erule stays_upd_frame) simp

lemma stays_jump [intro]: "stays f vm vm' \<Longrightarrow> stays f vm (jump f k vm')"
  by (auto simp: jump_def)

lemma intern_string_frames [simp]: "vm_frames (snd (intern_string s vm)) = vm_frames vm"
  by (auto simp: intern_string_def split: option.splits)

lemma stays_put_string [intro]: "stays f vm vm' \<Longrightarrow> stays f vm (put_string f r s vm')"
  using stays_frames [OF intern_string_frames, of f vm s vm']
  by (auto simp: put_string_def case_prod_unfold Let_def)

lemma frames_special: "frame_res f vm (step_special f oc instr vm)"
proof (cases "oc = ConstU")
  case True
  have "stays f vm (snd (intern_string s vm))" for s
    by (simp add: stays_frames [OF intern_string_frames])
  then show ?thesis unfolding True
    by (auto simp: step_special_def case_prod_unfold Let_def split: option.splits Constant.splits)
next
  case False
  then show ?thesis by (cases oc) (auto simp: step_special_def)
qed

lemma frames_locals: "frame_res f vm (step_locals f oc instr vm)"
  by (cases oc) (auto simp: step_locals_def)

lemma frames_int: "frame_res f vm (step_int f oc instr vm)"
  by (cases oc) (auto simp: step_int_def Let_def)

lemma frames_compare: "frame_res f vm (step_compare f oc instr vm)"
  by (cases oc) (auto simp: step_compare_def Let_def)

lemma frames_call: "step_call f instr vm = Inr vm' \<Longrightarrow> pushes f vm vm'"
  by (auto simp: step_call_def pushes_def Let_def Frame_new_def split: sum.splits prod.splits)

lemma frames_ret: "frame_res f vm (step_ret f (reg vm f r) vm)"
  by (auto simp: step_ret_def pops_def Let_def split: option.splits)

lemma frames_control: "frame_res f vm (step_control f oc instr vm)"
  using frames_ret by (cases oc) (auto simp: step_control_def dest: frames_call split: sum.splits)

lemma frames_cap_store: "frame_res f vm (step_cap_store f instr vm)"
  by (auto simp: step_cap_store_def Let_def)

lemma frames_closures: "frame_res f vm (step_closures f oc instr vm)"
  using frames_cap_store
  by (cases oc) (auto simp: step_closures_def step_cap_load_def step_closure_call_def pushes_def
      Let_def Frame_new_def split: option.splits sum.splits prod.splits)

lemma frames_resume: "frame_res f vm (step_resume f instr vm)"
  by (auto simp: step_resume_def Let_def split: option.splits intro!: stays_upd_frame)

definition stays_res :: "nat \<Rightarrow> CoreVM \<Rightarrow> fail + CoreVM \<Rightarrow> bool" where
  "stays_res f vm r \<longleftrightarrow> (case r of Inl e \<Rightarrow> True | Inr vm' \<Rightarrow> stays f vm vm')"

lemma stays_res_simps [simp]: "stays_res f vm (Inl e)" "stays_res f vm (Inr vm') = stays f vm vm'"
  by (simp_all add: stays_res_def)

lemma frames_perform: "stays_res f vm (step_perform f oc instr vm)"
proof (cases "effect_name f oc instr vm")
  case (Inr eff)
  have pr: "stays f vm (set_reg f r v (emit_print l vm))" for r v l by auto
  have rd: "stays_res f vm (perform_read f instr vm)"
    by (auto simp: perform_read_def split: list.splits sum.splits)
  have ps: "stays f vm (put_string f r s vm)" for r s by blast
  have ti: "stays f vm (set_reg f r v vm)" for r v by blast
  show ?thesis
    unfolding step_perform_def Inr Let_def sum.case
    by (intro option.split [where P = "stays_res f vm", THEN iffD2]
        BuiltinEffect.split [where P = "stays_res f vm", THEN iffD2]
        if_split [where P = "stays_res f vm", THEN iffD2] conjI impI allI)
      (simp_all only: stays_res_simps pr rd ps ti)
qed (simp add: step_perform_def)

lemma frames_effects: "frame_res f vm (step_effects f oc instr vm)"
  using frames_perform [of f vm oc instr] frames_resume [of f vm instr]
  by (auto simp: step_effects_def stays_res_def split: sum.splits)

lemma frames_io: "frame_res f vm (step_io f oc instr vm)"
  by (auto simp: step_io_def Let_def)

lemmas frames_ops = frames_special frames_locals frames_int frames_compare frames_control
  frames_closures frames_effects frames_io

lemma frames_step: "frame_res f vm (step_inner f instr vm)"
  by (cases "opcode instr") (simp_all add: step_inner_def frames_ops)


lemma run_step_frames:
  assumes wf: "wf_vm vm" and fs: "vm_frames vm = base @ [cur]" and st: "run_step vm = Inr (k, vm')"
  shows "(\<exists>cur' rest. same_link cur cur' \<and> vm_frames vm' = base @ cur' # rest) \<or>
    (\<exists>b caller r. base = b @ [caller] \<and>
      vm_frames vm' = b @ [caller\<lparr>fr_regs := (fr_regs caller)(fr_return_dst cur := fr_regs cur r)\<rparr>])"
proof (cases "vm_halted vm")
  case True
  with st fs show ?thesis by (auto simp: run_step_def)
next
  case False
  let ?f = "length base"
  from False st fs obtain instr vm1 where s1: "step_inner ?f instr vm = Inr (k, vm1)"
    and vm': "vm' = (if \<not> k then vm1\<lparr>vm_halted := True\<rparr> else if ?f < length (vm_frames vm1)
        then set_pc ?f (fr_pc (vm_frames vm1 ! ?f) + 1) vm1 else vm1)"
    by (auto simp: run_step_def Let_def split: option.splits sum.splits if_splits)
  from frames_step [of ?f vm instr] s1
  consider "stays ?f vm vm1" | "pushes ?f vm vm1" | "pops ?f vm vm1" by auto
  then show ?thesis
  proof cases
    case 1
    then show ?thesis using fs by (auto simp: vm' stays_def set_pc_def upd_frame_def)
  next
    case 2
    then show ?thesis using fs by (auto simp: vm' pushes_def set_pc_def upd_frame_def list_update_append)
  next
    case 3
    then obtain c r where c: "fr_caller_idx cur = Some c"
      and f1: "vm_frames vm1 = butlast (vm_frames (set_reg c (fr_return_dst cur) (reg vm ?f r) vm))"
      using fs by (auto simp: pops_def)
    have "wf_frame (length (vm_modules vm)) (length (vm_closure_envs vm)) ?f cur"
      using wf fs by (auto simp: wf_vm_def dest: spec [of _ ?f])
    with c have "Suc c = ?f" by (simp add: wf_frame_def)
    then obtain b caller where b: "base = b @ [caller]" "c = length b"
      by (cases base rule: rev_cases) auto
    then have f1': "vm_frames vm1 = b @ [caller\<lparr>fr_regs := (fr_regs caller)(fr_return_dst cur := fr_regs cur r)\<rparr>]"
      using f1 fs by (simp add: set_reg_def upd_frame_def reg_def nth_append list_update_append butlast_append)
    then have "vm_frames vm' = vm_frames vm1" using b by (simp add: vm')
    with b f1' show ?thesis
      by (intro disjI2 exI [of _ b] exI [of _ caller] exI [of _ r]) simp
  qed
qed

text \<open>The machine runs on without the stack ever getting down to \<open>n\<close> frames.\<close>

inductive running_above :: "nat \<Rightarrow> CoreVM \<Rightarrow> CoreVM \<Rightarrow> bool" for n where
  here: "n < length (vm_frames vm) \<Longrightarrow> running_above n vm vm"
| further: "running_above n vm vm1 \<Longrightarrow> run_step vm1 = Inr (True, vm2) \<Longrightarrow> n < length (vm_frames vm2)
    \<Longrightarrow> running_above n vm vm2"

lemma running_above_frames:
  assumes "running_above (length base) vm vm'" "wf_vm vm" "vm_frames vm = base @ cur # rest"
  shows "wf_vm vm' \<and> (\<exists>cur' rest'. same_link cur cur' \<and> vm_frames vm' = base @ cur' # rest')"
  using assms
proof (induction rule: running_above.induct)
  case (here vm)
  then show ?case by auto
next
  case (further vm vm1 vm2)
  from further.IH [OF further.prems] obtain cur1 rest1
    where wf1: "wf_vm vm1" and l: "same_link cur cur1" and fs: "vm_frames vm1 = base @ cur1 # rest1"
    by auto
  have wf2: "wf_vm vm2" using run_step_ok [OF wf1] further.hyps by simp
  have trans: "same_link cur x" if "same_link cur1 x" for x using l that by (simp add: same_link_def)
  show ?case
  proof (cases rest1 rule: rev_cases)
    case Nil
    with run_step_frames [OF wf1 _ further.hyps(2), of base cur1] fs further.hyps(3) wf2 trans
    show ?thesis by auto
  next
    case (snoc r top)
    have fs': "vm_frames vm1 = (base @ cur1 # r) @ [top]" using fs snoc by simp
    have "\<exists>cur' rest'. same_link cur cur' \<and> vm_frames vm2 = base @ cur' # rest'"
      using run_step_frames [OF wf1 fs' further.hyps(2)]
    proof
      assume "\<exists>cur' rest. same_link top cur' \<and> vm_frames vm2 = (base @ cur1 # r) @ cur' # rest"
      with l show ?thesis by auto
    next
      assume "\<exists>b caller ra. base @ cur1 # r = b @ [caller] \<and> vm_frames vm2 =
        b @ [caller\<lparr>fr_regs := (fr_regs caller)(fr_return_dst top := fr_regs top ra)\<rparr>]"
      with l show ?thesis by (cases r rule: rev_cases) auto
    qed
    with wf2 show ?thesis by simp
  qed
qed

subsection \<open>Fuel\<close>

lemma run_loop_mono: "run_loop fuel vm = Some r \<Longrightarrow> run_loop (fuel + k) vm = Some r"
  by (induction fuel arbitrary: vm) (auto split: sum.splits bool.splits)

subsection \<open>The string pool\<close>

lemma string_index:
  assumes "n < 2 ^ 48"
  shows "(TAG_STRING OR (of_nat n AND PAYLOAD_MASK)) AND TAG_MASK = TAG_STRING"
    and "unat ((TAG_STRING OR (of_nat n AND PAYLOAD_MASK)) AND PAYLOAD_MASK) = n"
proof -
  have "take_bit 48 (of_nat n :: u64) = of_nat n"
    using take_bit_nat_eq_self [OF assms] by (simp add: take_bit_of_nat)
  then show "(TAG_STRING OR (of_nat n AND PAYLOAD_MASK)) AND TAG_MASK = TAG_STRING"
    and "unat ((TAG_STRING OR (of_nat n AND PAYLOAD_MASK)) AND PAYLOAD_MASK) = n"
    using assms tagged_tag [of TAG_STRING "of_nat n"] tagged_payload [of TAG_STRING "of_nat n"]
    by (simp_all add: and_payload unat_of_nat)
qed

subsection \<open>Properties\<close>

text \<open>C2: the calling convention. When a frame calls another and the machine runs the callee, however
  deep the calls it makes in turn, then on the step that returns from it the stack below the caller
  is what it was, and the caller's frame differs from before only in its return register, which holds
  a register of the returning frame.\<close>

theorem call_return_discipline:
  assumes "wf_vm vm" and "vm_frames vm = base @ [caller, callee]"
    and "running_above (Suc (length base)) vm vm1"
    and "run_step vm1 = Inr (True, vm2)" and "length (vm_frames vm2) \<le> Suc (length base)"
  shows "\<exists>r. vm_frames vm2 = base @ [caller\<lparr>fr_regs :=
    (fr_regs caller)(fr_return_dst callee := fr_regs (last (vm_frames vm1)) r)\<rparr>]"
proof -
  have "running_above (length (base @ [caller])) vm vm1" "vm_frames vm = (base @ [caller]) @ callee # []"
    using assms by simp_all
  from running_above_frames [OF this(1) assms(1) this(2)] obtain cur rest
    where wf1: "wf_vm vm1" and l: "same_link callee cur" and fs: "vm_frames vm1 = (base @ [caller]) @ cur # rest"
    by blast
  show ?thesis
  proof (cases rest rule: rev_cases)
    case Nil
    with run_step_frames [OF wf1 _ assms(4), of "base @ [caller]" cur] fs assms(5) l
    show ?thesis by (auto simp: same_link_def)
  next
    case (snoc r top)
    with run_step_frames [OF wf1 _ assms(4), of "base @ caller # cur # r" top] fs assms(5)
    show ?thesis by (auto dest!: arg_cong [where f = length])
  qed
qed

definition demo_call :: CoreVM where
  "demo_call = (CoreVM_new [])\<lparr>vm_modules := [(CodeModule_new ''demo'')\<lparr>cm_instructions :=
       [new1 (Special Const1) 3, new1 (Control RetVal) 3]\<rparr>],
     vm_frames := [Frame_new None 0, (Frame_new (Some 0) 0)\<lparr>fr_return_dst := 5\<rparr>]\<rparr>"

definition demo_next :: "CoreVM \<Rightarrow> CoreVM" where
  "demo_next vm = (case run_step vm of Inr (b, vm') \<Rightarrow> vm' | _ \<Rightarrow> vm)"

lemmas demo_call_eval = demo_call_def demo_next_def run_step_def module_at_def fetch_def step_inner_def
  new1_def Frame_new_def CoreVM_new_def CodeModule_new_def step_special_def step_control_def step_ret_def
  set_reg_def set_pc_def upd_frame_def reg_def Let_def

theorem call_return_discipline_witness:
  "\<exists>r. vm_frames (demo_next (demo_next demo_call)) = [] @ [(Frame_new None 0)\<lparr>fr_regs :=
    (fr_regs (Frame_new None 0))(5 := fr_regs (last (vm_frames (demo_next demo_call))) r)\<rparr>]"
proof -
  have wf: "wf_vm demo_call"
    by (auto simp: demo_call_def wf_vm_def wf_frame_def CoreVM_new_def Frame_new_def less_Suc_eq)
  have fs: "vm_frames demo_call = [] @ [Frame_new None 0, (Frame_new (Some 0) 0)\<lparr>fr_return_dst := 5\<rparr>]"
    by (simp add: demo_call_def)
  have s1: "run_step demo_call = Inr (True, demo_next demo_call)" "2 = length (vm_frames (demo_next demo_call))"
    by (simp_all add: demo_call_eval)
  have s2: "run_step (demo_next demo_call) = Inr (True, demo_next (demo_next demo_call))"
    "length (vm_frames (demo_next (demo_next demo_call))) = 1"
    by (simp_all add: demo_call_eval)
  have "running_above (Suc (length ([] :: Frame list))) demo_call (demo_next demo_call)"
    by (rule further [OF here s1(1)]) (use s1(2) in \<open>simp_all add: demo_call_def\<close>)
  from call_return_discipline [OF wf fs this s2(1)] s2(2) show ?thesis by simp
qed

text \<open>an interned string is found again, and interning another string invalidates none, as long
  as the pool's indices fit the 48-bit payload.\<close>

theorem intern_resolve:
  assumes "intern_string s vm = (v, vm')" "length (vm_strings vm) < 2 ^ 48"
  shows "resolve_string vm' v = Some s \<and>
    (\<forall>w t. resolve_string vm w = Some t \<longrightarrow> resolve_string vm' w = Some t)"
  using assms position_SomeD [of "\<lambda>e. e = s" "vm_strings vm"] string_index
  by (auto simp: intern_string_def resolve_string_def Let_def nth_append split: option.splits if_splits)

theorem intern_resolve_witness:
  "resolve_string (snd (intern_string ''hi'' (CoreVM_new []))) (fst (intern_string ''hi'' (CoreVM_new []))) = Some ''hi''"
  using intern_resolve [of "''hi''" "CoreVM_new []"] by (simp add: CoreVM_new_def)

text \<open>the fuel of the modelled run loop only cuts it off: a run that ends within some number of
  iterations has the same outcome with any larger number.\<close>

theorem run_inner_fuel_irrelevant:
  assumes "run_inner fuel module_idx entry_pc vm = Some r" "fuel \<le> fuel'"
  shows "run_inner fuel' module_idx entry_pc vm = Some r"
proof -
  from assms(1) obtain l where "run_loop fuel (run_start module_idx entry_pc vm) = Some l"
    by (auto simp: run_inner_def split: option.splits)
  with run_loop_mono [OF this, of "fuel' - fuel"] assms show ?thesis
    by (simp add: run_inner_def)
qed

theorem run_inner_fuel_irrelevant_witness:
  "run_inner 1 0 0 (demo_call\<lparr>vm_modules := [CodeModule_new ''x'']\<rparr>) =
   run_inner 7 0 0 (demo_call\<lparr>vm_modules := [CodeModule_new ''x'']\<rparr>)"
proof -
  obtain r where r: "run_inner 1 0 0 (demo_call\<lparr>vm_modules := [CodeModule_new ''x'']\<rparr>) = Some r"
    by (simp add: run_inner_def run_start_def demo_call_eval new0_def)
  from r run_inner_fuel_irrelevant [OF r, of 7] show ?thesis by simp
qed

end
