(* ===== verification/Wire_Codec.thy ===== *)
theory Wire_Codec
  imports Rust_Std
begin

text \<open>
  The serialization helpers of \<open>src/runtime/crdt.rs\<close>: \<open>push_*\<close> append to a buffer, \<open>read_*\<close> read at a
  position and return the position after what was read, or \<open>None\<close> when the input is too short. The
  locale \<open>codec\<close> is the contract between a pair of them; it is established for the primitive pairs
  here and for every entry format of the replicated data types in their own theories, and gives the
  correctness of the count-prefixed loops once for all of them. A position is a \<open>nat\<close>: a slice has at
  most \<open>isize::MAX\<close> bytes, so the \<open>checked_add\<close> of the source cannot fail before the length test does.
\<close>

definition push_u64 :: "u64 \<Rightarrow> bytes \<Rightarrow> bytes" where
  "push_u64 v buf = buf @ to_be 8 v"

definition push_u32 :: "u32 \<Rightarrow> bytes \<Rightarrow> bytes" where
  "push_u32 v buf = buf @ to_be 4 v"

definition slice :: "bytes \<Rightarrow> nat \<Rightarrow> nat \<Rightarrow> bytes" where
  "slice bs a b = take (b - a) (drop a bs)"

definition read_u64 :: "bytes \<Rightarrow> nat \<Rightarrow> (u64 \<times> nat) option" where
  "read_u64 bs pos =
     (let fin = pos + 8 in
      if fin > length bs then None else Some (from_be (slice bs pos fin), fin))"

definition read_u32 :: "bytes \<Rightarrow> nat \<Rightarrow> (u32 \<times> nat) option" where
  "read_u32 bs pos =
     (let fin = pos + 4 in
      if fin > length bs then None else Some (from_be (slice bs pos fin), fin))"

definition push_string :: "string \<Rightarrow> bytes \<Rightarrow> bytes" where
  "push_string s buf = push_u32 (of_nat (length s)) buf @ as_bytes s"

definition read_string :: "bytes \<Rightarrow> nat \<Rightarrow> (string \<times> nat) option" where
  "read_string bs pos =
     (case read_u32 bs pos of
        None \<Rightarrow> None
      | Some (len, pos) \<Rightarrow>
          let fin = pos + unat len in
          if fin > length bs then None
          else (case from_utf8 (slice bs pos fin) of None \<Rightarrow> None | Some s \<Rightarrow> Some (s, fin)))"

text \<open>A loop \<open>for _ in 0..n\<close> that reads an item and adds it to a collection.\<close>

fun read_loop :: "(bytes \<Rightarrow> nat \<Rightarrow> ('a \<times> nat) option) \<Rightarrow> ('a \<Rightarrow> 's \<Rightarrow> 's) \<Rightarrow> nat \<Rightarrow> bytes \<Rightarrow> nat \<Rightarrow> 's
    \<Rightarrow> ('s \<times> nat) option" where
  "read_loop rd ins 0 bs pos acc = Some (acc, pos)"
| "read_loop rd ins (Suc n) bs pos acc =
     (case rd bs pos of None \<Rightarrow> None | Some (x, p) \<Rightarrow> read_loop rd ins n bs p (ins x acc))"

subsection \<open>The contract\<close>

definition holds_at :: "bytes \<Rightarrow> nat \<Rightarrow> bytes \<Rightarrow> bool" where
  "holds_at bs pos chunk \<longleftrightarrow> pos + length chunk \<le> length bs \<and> slice bs pos (pos + length chunk) = chunk"

lemma holds_at_append [simp]:
  "holds_at bs pos (a @ b) \<longleftrightarrow> holds_at bs pos a \<and> holds_at bs (pos + length a) b"
proof -
  have "take (length a + length b) (drop pos bs) = take (length a) (drop pos bs) @ take (length b) (drop (pos + length a) bs)"
    by (simp add: take_add add.commute)
  moreover have "length (take (length a) (drop pos bs)) = length a" if "pos + length a \<le> length bs"
    using that by simp
  ultimately show ?thesis
    unfolding holds_at_def slice_def by (auto simp: append_eq_append_conv)
qed

lemma holds_at_self [simp]: "holds_at bs 0 bs"
  by (simp add: holds_at_def slice_def)

lemma holds_at_prefix: "holds_at (a @ b) 0 a"
  by (simp add: holds_at_def slice_def)

locale codec =
  fixes push :: "'a \<Rightarrow> bytes \<Rightarrow> bytes" and rd :: "bytes \<Rightarrow> nat \<Rightarrow> ('a \<times> nat) option"
    and valid :: "'a \<Rightarrow> bool"
  assumes push_append: "push x buf = buf @ push x []"
    and read_at: "valid x \<Longrightarrow> holds_at bs pos (push x []) \<Longrightarrow> rd bs pos = Some (x, pos + length (push x []))"
begin

lemma fold_push: "fold push xs buf = buf @ concat (map (\<lambda>x. push x []) xs)"
proof (induction xs arbitrary: buf)
  case (Cons x xs)
  have "fold push (x # xs) buf = fold push xs (buf @ push x [])"
    using push_append [of x buf] by simp
  then show ?case by (simp add: Cons.IH)
qed simp

lemma read_loop_at:
  assumes "\<forall>x \<in> set xs. valid x" "holds_at bs pos (concat (map (\<lambda>x. push x []) xs))"
  shows "read_loop rd ins (length xs) bs pos acc =
    Some (fold ins xs acc, pos + length (concat (map (\<lambda>x. push x []) xs)))"
  using assms by (induction xs arbitrary: pos acc) (auto simp: read_at add.assoc)

end

text \<open>A pair written one after the other is read one after the other.\<close>

definition push_pair :: "('a \<Rightarrow> bytes \<Rightarrow> bytes) \<Rightarrow> ('b \<Rightarrow> bytes \<Rightarrow> bytes) \<Rightarrow> 'a \<times> 'b \<Rightarrow> bytes \<Rightarrow> bytes" where
  "push_pair f g x buf = g (snd x) (f (fst x) buf)"

definition read_pair :: "(bytes \<Rightarrow> nat \<Rightarrow> ('a \<times> nat) option) \<Rightarrow> (bytes \<Rightarrow> nat \<Rightarrow> ('b \<times> nat) option) \<Rightarrow>
    bytes \<Rightarrow> nat \<Rightarrow> (('a \<times> 'b) \<times> nat) option" where
  "read_pair f g bs pos =
     (case f bs pos of None \<Rightarrow> None
      | Some (a, p) \<Rightarrow> (case g bs p of None \<Rightarrow> None | Some (b, p) \<Rightarrow> Some ((a, b), p)))"

lemma codec_pair:
  assumes "codec push1 read1 valid1" "codec push2 read2 valid2"
  shows "codec (push_pair push1 push2) (read_pair read1 read2) (\<lambda>x. valid1 (fst x) \<and> valid2 (snd x))"
proof
  fix x buf
  have a: "push_pair push1 push2 x b = b @ push1 (fst x) [] @ push2 (snd x) []" for b
    using codec.push_append [OF assms(2), of "snd x" "push1 (fst x) b"] codec.push_append [OF assms(1), of "fst x" b]
    by (simp add: push_pair_def)
  then show "push_pair push1 push2 x buf = buf @ push_pair push1 push2 x []" by simp
  fix bs pos
  assume "valid1 (fst x) \<and> valid2 (snd x)" "holds_at bs pos (push_pair push1 push2 x [])"
  then show "read_pair read1 read2 bs pos = Some (x, pos + length (push_pair push1 push2 x []))"
    using codec.read_at [OF assms(1), of "fst x" bs pos]
      codec.read_at [OF assms(2), of "snd x" bs "pos + length (push1 (fst x) [])"]
    by (simp add: a read_pair_def)
qed

interpretation u64_codec: codec push_u64 read_u64 "\<lambda>_. True"
  by unfold_locales (auto simp: push_u64_def read_u64_def holds_at_def Let_def)

interpretation u32_codec: codec push_u32 read_u32 "\<lambda>_. True"
  by unfold_locales (auto simp: push_u32_def read_u32_def holds_at_def Let_def)

definition wire_string :: "string \<Rightarrow> bool" where
  "wire_string s \<longleftrightarrow> str_wf s \<and> length s < 2 ^ 32"

lemma unat_len_u32: "n < 2 ^ 32 \<Longrightarrow> unat (of_nat n :: u32) = n"
  by (simp add: unat_of_nat)

interpretation string_codec: codec push_string read_string wire_string
proof
  fix x buf
  show "push_string x buf = buf @ push_string x []"
    by (simp add: push_string_def push_u32_def)
  fix bs pos
  assume v: "wire_string x" and h: "holds_at bs pos (push_string x [])"
  have len: "unat (of_nat (length x) :: u32) = length x" "length (as_bytes x) = length x"
    using v unat_len_u32 by (auto simp: wire_string_def as_bytes_def)
  have h1: "holds_at bs pos (push_u32 (of_nat (length x)) [])" and h2: "holds_at bs (pos + 4) (as_bytes x)"
    using h by (simp_all add: push_string_def push_u32_def)
  have "slice bs (pos + 4) (pos + 4 + length x) = as_bytes x" "pos + 4 + length x \<le> length bs"
    using h2 by (simp_all add: holds_at_def len)
  then show "read_string bs pos = Some (x, pos + length (push_string x []))"
    using u32_codec.read_at [OF TrueI h1] v
    by (simp add: read_string_def len Let_def push_string_def push_u32_def wire_string_def from_utf8_as_bytes)
qed

text \<open>A collection is written as its length, truncated to 32 bits, followed by its items.\<close>

definition push_counted :: "('a \<Rightarrow> bytes \<Rightarrow> bytes) \<Rightarrow> 'a list \<Rightarrow> bytes \<Rightarrow> bytes" where
  "push_counted push xs buf = fold push xs (push_u32 (of_nat (length xs)) buf)"

definition read_counted :: "(bytes \<Rightarrow> nat \<Rightarrow> ('a \<times> nat) option) \<Rightarrow> ('a \<Rightarrow> 's \<Rightarrow> 's) \<Rightarrow> 's \<Rightarrow> bytes \<Rightarrow> nat
    \<Rightarrow> ('s \<times> nat) option" where
  "read_counted rd ins init bs pos =
     (case read_u32 bs pos of None \<Rightarrow> None | Some (n, pos) \<Rightarrow> read_loop rd ins (unat n) bs pos init)"

context codec
begin

lemma push_counted_append: "push_counted push xs buf = buf @ push_counted push xs []"
  by (simp add: push_counted_def fold_push push_u32_def)

lemma read_counted_at:
  assumes "length xs < 2 ^ 32" "\<forall>x \<in> set xs. valid x" "holds_at bs pos (push_counted push xs [])"
  shows "read_counted rd ins init bs pos = Some (fold ins xs init, pos + length (push_counted push xs []))"
proof -
  have h: "holds_at bs pos (push_u32 (of_nat (length xs)) [])"
    "holds_at bs (pos + 4) (concat (map (\<lambda>x. push x []) xs))"
    using assms(3) by (simp_all add: push_counted_def fold_push push_u32_def)
  show ?thesis
    using u32_codec.read_at [OF TrueI h(1)] read_loop_at [OF assms(2) h(2), of ins init] unat_len_u32 [OF assms(1)]
    by (simp add: read_counted_def push_counted_def fold_push push_u32_def add.assoc)
qed

end

text \<open>A collection codec from an item codec, for collections rebuilt by their inserts.\<close>

lemma codec_counted:
  assumes "codec push rd valid"
  shows "codec (push_counted push) (read_counted rd ins init)
    (\<lambda>xs. length xs < 2 ^ 32 \<and> (\<forall>x \<in> set xs. valid x) \<and> fold ins xs init = xs)"
proof
  fix xs buf
  show "push_counted push xs buf = buf @ push_counted push xs []"
    by (rule codec.push_counted_append [OF assms])
  fix bs pos
  assume "length xs < 2 ^ 32 \<and> (\<forall>x \<in> set xs. valid x) \<and> fold ins xs init = xs"
    and "holds_at bs pos (push_counted push xs [])"
  with codec.read_counted_at [OF assms, of xs bs pos ins init]
  show "read_counted rd ins init bs pos = Some (xs, pos + length (push_counted push xs []))" by simp
qed

end
