(* ===== verification/Crdt_Lattice.thy ===== *)
theory Crdt_Lattice
  imports Wire_Codec
begin

text \<open>
  The contract of the trait \<open>Crdt\<close> of \<open>src/runtime/crdt.rs\<close>: \<open>merge\<close> is associative, commutative and
  idempotent on what a replica state stands for, and a delta relative to a base stands for the whole
  state at every replica that contains the base. \<open>abs\<close> reads a state as what the replicas have to agree
  on (the order of a hash map's list and the replica's own node id are not part of it). The locale
  proves the convergence of replicas once; every replicated type interprets it.
\<close>

definition merge_all :: "('s \<Rightarrow> 's \<Rightarrow> 's) \<Rightarrow> 's \<Rightarrow> 's list \<Rightarrow> 's" where
  "merge_all merge s ts = foldl merge s ts"

text \<open>Receiving \<open>delta_since\<close>: \<open>None\<close> is not sent, a delta is merged like a full state.\<close>

definition apply_delta :: "('s \<Rightarrow> 's \<Rightarrow> 's) \<Rightarrow> 's \<Rightarrow> 's option \<Rightarrow> 's" where
  "apply_delta merge r d = (case d of None \<Rightarrow> r | Some d \<Rightarrow> merge r d)"

text \<open>A receiver that is sent, for each further state of a sender, the delta relative to the state
  before.\<close>

fun delta_run :: "('s \<Rightarrow> 's \<Rightarrow> 's) \<Rightarrow> ('s \<Rightarrow> 's \<Rightarrow> 's option) \<Rightarrow> 's \<Rightarrow> 's \<Rightarrow> 's list \<Rightarrow> 's" where
  "delta_run merge delta r base [] = r"
| "delta_run merge delta r base (s # ss) = delta_run merge delta (apply_delta merge r (delta s base)) s ss"

locale crdt =
  fixes inv :: "'s \<Rightarrow> bool" and abs :: "'s \<Rightarrow> 'a" and merge :: "'s \<Rightarrow> 's \<Rightarrow> 's" and join :: "'a \<Rightarrow> 'a \<Rightarrow> 'a"
  assumes inv_merge: "inv s \<Longrightarrow> inv t \<Longrightarrow> inv (merge s t)"
    and abs_merge: "inv s \<Longrightarrow> inv t \<Longrightarrow> abs (merge s t) = join (abs s) (abs t)"
    and join_assoc: "inv s \<Longrightarrow> inv t \<Longrightarrow> inv u \<Longrightarrow>
      join (join (abs s) (abs t)) (abs u) = join (abs s) (join (abs t) (abs u))"
    and join_comm: "inv s \<Longrightarrow> inv t \<Longrightarrow> join (abs s) (abs t) = join (abs t) (abs s)"
    and join_idem: "inv s \<Longrightarrow> join (abs s) (abs s) = abs s"
begin

definition below :: "'s \<Rightarrow> 's \<Rightarrow> bool" where
  "below s t \<longleftrightarrow> join (abs s) (abs t) = abs t"

lemma below_refl: "inv s \<Longrightarrow> below s s"
  by (simp add: below_def join_idem)

lemma below_trans:
  assumes "inv s" "inv t" "inv u" "below s t" "below t u"
  shows "below s u"
proof -
  have "join (abs s) (abs u) = join (abs s) (join (abs t) (abs u))" using assms(5) by (simp add: below_def)
  also have "\<dots> = join (join (abs s) (abs t)) (abs u)" using assms by (simp only: join_assoc)
  also have "\<dots> = abs u" using assms(4,5) by (simp add: below_def)
  finally show ?thesis by (simp add: below_def)
qed

lemma below_antisym:
  assumes "inv s" "inv t" "below s t" "below t s"
  shows "abs s = abs t"
proof -
  have "abs s = join (abs t) (abs s)" using assms(4) by (simp add: below_def)
  also have "\<dots> = join (abs s) (abs t)" using assms(1,2) by (rule join_comm [THEN sym])
  also have "\<dots> = abs t" using assms(3) by (simp add: below_def)
  finally show ?thesis .
qed

lemma below_merge1:
  assumes "inv s" "inv t"
  shows "below s (merge s t)"
proof -
  have "join (abs s) (join (abs s) (abs t)) = join (join (abs s) (abs s)) (abs t)"
    using assms by (simp only: join_assoc)
  with assms show ?thesis by (simp add: below_def abs_merge join_idem)
qed

lemma below_merge2: "inv s \<Longrightarrow> inv t \<Longrightarrow> below t (merge s t)"
  using below_merge1 [of t s] join_comm [of s t] by (simp add: below_def abs_merge)

lemma merge_least: "inv s \<Longrightarrow> inv t \<Longrightarrow> inv u \<Longrightarrow> below s u \<Longrightarrow> below t u \<Longrightarrow> below (merge s t) u"
  by (simp add: below_def abs_merge join_assoc)

lemma inv_merge_all: "inv s \<Longrightarrow> \<forall>t \<in> set ts. inv t \<Longrightarrow> inv (merge_all merge s ts)"
  unfolding merge_all_def by (induction ts arbitrary: s) (auto simp: inv_merge)

lemma merge_all_upper:
  assumes "inv s" "\<forall>t \<in> set ts. inv t" "u \<in> set (s # ts)"
  shows "below u (merge_all merge s ts)"
  using assms
proof (induction ts arbitrary: s u)
  case Nil
  then show ?case by (simp add: merge_all_def below_refl)
next
  case (Cons t ts)
  have i: "inv (merge s t)" "inv (merge_all merge (merge s t) ts)"
    using Cons.prems inv_merge_all [of "merge s t" ts] by (auto simp: inv_merge)
  have top: "below (merge s t) (merge_all merge (merge s t) ts)"
    using Cons.IH [OF i(1)] Cons.prems by simp
  consider "u = s" | "u = t" | "u \<in> set ts" using Cons.prems by auto
  then have "below u (merge_all merge (merge s t) ts)"
  proof cases
    case 1
    with Cons.prems i top below_merge1 [of s t] show ?thesis
      using below_trans [of s "merge s t" "merge_all merge (merge s t) ts"] by simp
  next
    case 2
    with Cons.prems i top below_merge2 [of s t] show ?thesis
      using below_trans [of t "merge s t" "merge_all merge (merge s t) ts"] by simp
  next
    case 3
    with Cons.IH [OF i(1), of u] Cons.prems show ?thesis by simp
  qed
  then show ?case by (simp add: merge_all_def)
qed

lemma merge_all_least:
  assumes "inv s" "\<forall>t \<in> set ts. inv t" "inv u" "\<forall>t \<in> set (s # ts). below t u"
  shows "below (merge_all merge s ts) u"
  using assms
proof (induction ts arbitrary: s)
  case (Cons t ts)
  then have "inv (merge s t)" "below (merge s t) u" by (simp_all add: inv_merge merge_least)
  with Cons.IH [of "merge s t"] Cons.prems show ?case by (simp add: merge_all_def)
qed (simp add: merge_all_def)

lemma merge_all_mono:
  assumes "\<forall>x \<in> set (t # ts). inv x" "set (s # ss) \<subseteq> set (t # ts)"
  shows "below (merge_all merge s ss) (merge_all merge t ts)"
proof (rule merge_all_least)
  show "inv s" "\<forall>x \<in> set ss. inv x" using assms by auto
  show "inv (merge_all merge t ts)" using assms(1) by (simp add: inv_merge_all)
  show "\<forall>x \<in> set (s # ss). below x (merge_all merge t ts)"
    using assms merge_all_upper [of t ts] by (simp add: subset_iff)
qed

lemma convergence:
  assumes "\<forall>x \<in> set (s # ss). inv x" "set (s # ss) = set (t # ts)"
  shows "abs (merge_all merge s ss) = abs (merge_all merge t ts)"
proof (rule below_antisym)
  have t: "\<forall>x \<in> set (t # ts). inv x" unfolding assms(2) [symmetric] by (rule assms(1))
  show "below (merge_all merge s ss) (merge_all merge t ts)"
    by (rule merge_all_mono [OF t]) (simp only: assms(2))
  show "below (merge_all merge t ts) (merge_all merge s ss)"
    by (rule merge_all_mono [OF assms(1)]) (simp only: assms(2))
  show "inv (merge_all merge s ss)" "inv (merge_all merge t ts)"
    using assms(1) t by (simp_all add: inv_merge_all)
qed

lemma merge_assoc: "inv s \<Longrightarrow> inv t \<Longrightarrow> inv u \<Longrightarrow> abs (merge s (merge t u)) = abs (merge (merge s t) u)"
  by (simp add: abs_merge inv_merge join_assoc)

lemma merge_comm: "inv s \<Longrightarrow> inv t \<Longrightarrow> abs (merge s t) = abs (merge t s)"
  by (simp add: abs_merge join_comm)

lemma merge_idem: "inv s \<Longrightarrow> abs (merge s s) = abs s"
  by (simp add: abs_merge join_idem)

end

locale delta_crdt = crdt inv abs merge join
  for inv :: "'s \<Rightarrow> bool" and abs :: "'s \<Rightarrow> 'a" and merge :: "'s \<Rightarrow> 's \<Rightarrow> 's" and join :: "'a \<Rightarrow> 'a \<Rightarrow> 'a" +
  fixes delta :: "'s \<Rightarrow> 's \<Rightarrow> 's option"
  assumes inv_delta: "inv s \<Longrightarrow> inv b \<Longrightarrow> delta s b = Some d \<Longrightarrow> inv d"
    and delta_law: "inv s \<Longrightarrow> inv b \<Longrightarrow> inv r \<Longrightarrow> join (abs b) (abs r) = abs r \<Longrightarrow>
      abs (apply_delta merge r (delta s b)) = join (abs r) (abs s)"
begin

lemma inv_apply_delta: "inv s \<Longrightarrow> inv b \<Longrightarrow> inv r \<Longrightarrow> inv (apply_delta merge r (delta s b))"
  using inv_delta [of s b] by (simp add: apply_delta_def inv_merge split: option.split)

lemma below_last:
  assumes "\<forall>x \<in> set (b # ss). inv x" "successively below (b # ss)"
  shows "below b (last (b # ss))"
  using assms
proof (induction ss arbitrary: b)
  case (Cons s ss)
  then have "below s (last (s # ss))" "below b s" by simp_all
  moreover have "inv (last (s # ss))" using Cons.prems(1) last_in_set [of "s # ss"] by auto
  ultimately show ?case using Cons.prems(1) below_trans [of b s "last (s # ss)"] by simp
qed (simp add: below_refl)

lemma delta_stream:
  assumes "\<forall>x \<in> set (r # b # ss). inv x" "below b r" "successively below (b # ss)"
  shows "abs (delta_run merge delta r b ss) = abs (merge r (last (b # ss)))"
  using assms
proof (induction ss arbitrary: r b)
  case Nil
  then show ?case by (simp add: below_def abs_merge join_comm [of r b])
next
  case (Cons s ss)
  let ?r = "apply_delta merge r (delta s b)" and ?l = "last (s # ss)"
  have i: "inv r" "inv b" "inv s" "inv ?r" "inv ?l"
    using Cons.prems(1) inv_apply_delta last_in_set [of "s # ss"] by auto
  have r: "abs ?r = abs (merge r s)"
    using delta_law [of s b r] i Cons.prems(2) by (simp add: below_def abs_merge)
  have "below s ?r" using below_merge2 [of r s] i r by (simp add: below_def)
  moreover have "\<forall>x \<in> set (?r # s # ss). inv x" using i Cons.prems(1) by simp
  ultimately have "abs (delta_run merge delta r b (s # ss)) = abs (merge ?r ?l)"
    using Cons.IH [of ?r s] Cons.prems(3) by simp
  also have "\<dots> = join (abs r) (join (abs s) (abs ?l))"
    using i r by (simp add: abs_merge join_assoc)
  also have "join (abs s) (abs ?l) = abs ?l"
    using below_last [of s ss] Cons.prems by (simp add: below_def)
  finally show ?case using i by (simp add: abs_merge)
qed

end

subsection \<open>Joins of the concrete states\<close>

text \<open>Maps are joined pointwise, keeping the larger of two values.\<close>

definition max_opt :: "'v::linorder option \<Rightarrow> 'v option \<Rightarrow> 'v option" where
  "max_opt a b = (case a of None \<Rightarrow> b | Some x \<Rightarrow> (case b of None \<Rightarrow> a | Some y \<Rightarrow> Some (max x y)))"

lemma max_opt_assoc: "max_opt (max_opt a b) c = max_opt a (max_opt b c)"
  by (auto simp: max_opt_def max.assoc split: option.splits)

lemma max_opt_comm: "max_opt a b = max_opt b a"
  by (auto simp: max_opt_def max.commute split: option.splits)

lemma max_opt_idem [simp]: "max_opt a a = a"
  by (auto simp: max_opt_def split: option.splits)

lemma max_opt_simps [simp]: "max_opt None b = b" "max_opt a None = a" "max_opt (Some x) (Some y) = Some (max x y)"
  by (auto simp: max_opt_def split: option.splits)

lemmas max_opt_laws = max_opt_assoc max_opt_comm

end
