(* ===== verification/Crdt_Counters.thy ===== *)
theory Crdt_Counters
  imports Crdt_Lattice
begin

text \<open>
  The counters and the grow-only set of \<open>src/runtime/crdt.rs\<close>: \<open>GCounter\<close>, \<open>PNCounter\<close> and \<open>GSet\<close>, with
  their merge, delta and wire format. Counter arithmetic is on 64-bit words, as in a release build.
\<close>

subsection \<open>GCounter\<close>

record GCounter =
  gc_counts :: "(u64, u64) hashmap"
  gc_node_id :: u64

definition GCounter_new :: "u64 \<Rightarrow> GCounter" where
  "GCounter_new node_id = \<lparr>gc_counts = [], gc_node_id = node_id\<rparr>"

definition GCounter_increment_by :: "u64 \<Rightarrow> GCounter \<Rightarrow> GCounter" where
  "GCounter_increment_by delta c =
     c\<lparr>gc_counts := hm_upsert 0 (\<lambda>e. e + delta) (gc_node_id c) (gc_counts c)\<rparr>"

definition GCounter_increment :: "GCounter \<Rightarrow> GCounter" where
  "GCounter_increment c = c\<lparr>gc_counts := hm_upsert 0 (\<lambda>e. e + 1) (gc_node_id c) (gc_counts c)\<rparr>"

definition GCounter_value :: "GCounter \<Rightarrow> u64" where
  "GCounter_value c = sum_list (map snd (gc_counts c))"

definition GCounter_delta_since :: "GCounter \<Rightarrow> GCounter \<Rightarrow> GCounter option" where
  "GCounter_delta_since c base =
     (let counts = filter (\<lambda>(node_id, count). count > hm_get_or 0 (gc_counts base) node_id) (gc_counts c)
      in if counts = [] then None else Some \<lparr>gc_counts = counts, gc_node_id = gc_node_id c\<rparr>)"

definition GCounter_merge :: "GCounter \<Rightarrow> GCounter \<Rightarrow> GCounter" where
  "GCounter_merge c other =
     c\<lparr>gc_counts := fold (\<lambda>(node_id, count). hm_upsert 0 (\<lambda>e. max e count) node_id)
        (gc_counts other) (gc_counts c)\<rparr>"

definition GCounter_to_bytes :: "GCounter \<Rightarrow> bytes" where
  "GCounter_to_bytes c =
     push_counted (push_pair push_u64 push_u64) (gc_counts c) (push_u64 (gc_node_id c) [])"

definition GCounter_from_bytes :: "bytes \<Rightarrow> GCounter option" where
  "GCounter_from_bytes bs =
     (case read_u64 bs 0 of
        None \<Rightarrow> None
      | Some (node_id, pos) \<Rightarrow>
          (case read_counted (read_pair read_u64 read_u64) (\<lambda>(nid, cnt). hm_insert nid cnt) [] bs pos of
             None \<Rightarrow> None
           | Some (counts, pos) \<Rightarrow> Some \<lparr>gc_counts = counts, gc_node_id = node_id\<rparr>))"

subsection \<open>PNCounter\<close>

record PNCounter =
  pn_increments :: GCounter
  pn_decrements :: GCounter

definition PNCounter_new :: "u64 \<Rightarrow> PNCounter" where
  "PNCounter_new node_id = \<lparr>pn_increments = GCounter_new node_id, pn_decrements = GCounter_new node_id\<rparr>"

definition PNCounter_increment :: "PNCounter \<Rightarrow> PNCounter" where
  "PNCounter_increment c = c\<lparr>pn_increments := GCounter_increment (pn_increments c)\<rparr>"

definition PNCounter_decrement :: "PNCounter \<Rightarrow> PNCounter" where
  "PNCounter_decrement c = c\<lparr>pn_decrements := GCounter_increment (pn_decrements c)\<rparr>"

definition PNCounter_increment_by :: "u64 \<Rightarrow> PNCounter \<Rightarrow> PNCounter" where
  "PNCounter_increment_by delta c = c\<lparr>pn_increments := GCounter_increment_by delta (pn_increments c)\<rparr>"

definition PNCounter_decrement_by :: "u64 \<Rightarrow> PNCounter \<Rightarrow> PNCounter" where
  "PNCounter_decrement_by delta c = c\<lparr>pn_decrements := GCounter_increment_by delta (pn_decrements c)\<rparr>"

text \<open>An \<open>i64\<close>: the word is read with \<open>sint\<close>.\<close>

definition PNCounter_value :: "PNCounter \<Rightarrow> 64 word" where
  "PNCounter_value c = GCounter_value (pn_increments c) - GCounter_value (pn_decrements c)"

definition PNCounter_delta_since :: "PNCounter \<Rightarrow> PNCounter \<Rightarrow> PNCounter option" where
  "PNCounter_delta_since c base =
     (let inc = GCounter_delta_since (pn_increments c) (pn_increments base);
          dec = GCounter_delta_since (pn_decrements c) (pn_decrements base)
      in if inc = None \<and> dec = None then None
         else Some \<lparr>pn_increments = (case inc of Some d \<Rightarrow> d | None \<Rightarrow> GCounter_new (gc_node_id (pn_increments c))),
                    pn_decrements = (case dec of Some d \<Rightarrow> d | None \<Rightarrow> GCounter_new (gc_node_id (pn_decrements c)))\<rparr>)"

definition PNCounter_merge :: "PNCounter \<Rightarrow> PNCounter \<Rightarrow> PNCounter" where
  "PNCounter_merge c other =
     \<lparr>pn_increments = GCounter_merge (pn_increments c) (pn_increments other),
      pn_decrements = GCounter_merge (pn_decrements c) (pn_decrements other)\<rparr>"

definition PNCounter_to_bytes :: "PNCounter \<Rightarrow> bytes" where
  "PNCounter_to_bytes c = GCounter_to_bytes (pn_increments c) @ GCounter_to_bytes (pn_decrements c)"

text \<open>The split point is at most \<open>16 * 2 ^ 32 + 12\<close>, so the checked arithmetic does not fail.\<close>

definition PNCounter_from_bytes :: "bytes \<Rightarrow> PNCounter option" where
  "PNCounter_from_bytes bs =
     (case read_u64 bs 0 of
        None \<Rightarrow> None
      | Some (node_id, pos) \<Rightarrow>
          (case read_u32 bs pos of
             None \<Rightarrow> None
           | Some (num_entries, _) \<Rightarrow>
               let increment_len = unat num_entries * 16 + 12 in
               if increment_len > length bs then None
               else (case GCounter_from_bytes (take increment_len bs) of
                       None \<Rightarrow> None
                     | Some increments \<Rightarrow>
                         (case GCounter_from_bytes (drop increment_len bs) of
                            None \<Rightarrow> None
                          | Some decrements \<Rightarrow>
                              if gc_node_id increments \<noteq> node_id \<or> gc_node_id decrements \<noteq> node_id then None
                              else Some \<lparr>pn_increments = increments, pn_decrements = decrements\<rparr>))))"

subsection \<open>GSet\<close>

record 'a GSet =
  gs_elements :: "'a hashset"

definition GSet_new :: "'a GSet" where
  "GSet_new = \<lparr>gs_elements = []\<rparr>"

definition GSet_insert :: "'a \<Rightarrow> 'a GSet \<Rightarrow> bool \<times> 'a GSet" where
  "GSet_insert x s = (x \<notin> set (gs_elements s), s\<lparr>gs_elements := hs_insert x (gs_elements s)\<rparr>)"

definition GSet_contains :: "'a \<Rightarrow> 'a GSet \<Rightarrow> bool" where
  "GSet_contains x s \<longleftrightarrow> x \<in> set (gs_elements s)"

definition GSet_len :: "'a GSet \<Rightarrow> nat" where
  "GSet_len s = length (gs_elements s)"

definition GSet_delta_since :: "'a GSet \<Rightarrow> 'a GSet \<Rightarrow> 'a GSet option" where
  "GSet_delta_since s base =
     (let elements = filter (\<lambda>x. x \<notin> set (gs_elements base)) (gs_elements s)
      in if elements = [] then None else Some \<lparr>gs_elements = elements\<rparr>)"

definition GSet_merge :: "'a GSet \<Rightarrow> 'a GSet \<Rightarrow> 'a GSet" where
  "GSet_merge s other = s\<lparr>gs_elements := hs_extend (gs_elements s) (gs_elements other)\<rparr>"

definition GSet_to_bytes :: "string GSet \<Rightarrow> bytes" where
  "GSet_to_bytes s = push_counted push_string (gs_elements s) []"

definition GSet_from_bytes :: "bytes \<Rightarrow> string GSet option" where
  "GSet_from_bytes bs =
     (case read_counted read_string hs_insert [] bs 0 of
        None \<Rightarrow> None
      | Some (elements, pos) \<Rightarrow> Some \<lparr>gs_elements = elements\<rparr>)"

subsection \<open>Counters as joins\<close>

definition gc_inv :: "GCounter \<Rightarrow> bool" where
  "gc_inv c \<longleftrightarrow> hm_wf (gc_counts c)"

text \<open>A counter stands for the count of every node, an absent one being 0.\<close>

definition gc_abs :: "GCounter \<Rightarrow> u64 \<Rightarrow> u64" where
  "gc_abs c = hm_get_or 0 (gc_counts c)"

definition join_max :: "('k \<Rightarrow> 'v::linorder) \<Rightarrow> ('k \<Rightarrow> 'v) \<Rightarrow> 'k \<Rightarrow> 'v" where
  "join_max f g = (\<lambda>k. max (f k) (g k))"

lemma join_max_laws:
  "join_max (join_max f g) h = join_max f (join_max g h)" "join_max f g = join_max g f"
  "join_max f (join_max g h) = join_max g (join_max f h)" "join_max f f = f"
  by (simp_all add: join_max_def fun_eq_iff ac_simps)

lemma hm_get_or_Nil [simp]: "hm_get_or d [] k = d"
  by (simp add: hm_get_or_def)

lemma hm_get_or_Cons [simp]: "hm_get_or d ((k, v) # m) j = (if j = k then v else hm_get_or d m j)"
  by (simp add: hm_get_or_def)

lemma hm_get_or_fresh: "k \<notin> fst ` set m \<Longrightarrow> hm_get_or d m k = d"
  by (simp add: hm_get_or_def map_of_eq_None_iff [THEN iffD2])

lemma hm_get_or_in: "hm_wf m \<Longrightarrow> (k, v) \<in> set m \<Longrightarrow> hm_get_or d m k = v"
  by (simp add: hm_get_or_def)

lemma fold_upsert_max:
  assumes "hm_wf m"
  shows "hm_get_or 0 (fold (\<lambda>(k, v). hm_upsert 0 (\<lambda>e. max e v) k) m acc) j =
    max (hm_get_or 0 acc j) (hm_get_or (0 :: u64) m j)"
  using assms
proof (induction m arbitrary: acc)
  case (Cons kv m)
  obtain k v where kv: "kv = (k, v)" by force
  then have "hm_get_or 0 m k = (0 :: u64)" using Cons.prems by (intro hm_get_or_fresh) auto
  with Cons kv show ?case by (simp add: hm_get_or_upsert)
qed simp

lemma hm_wf_fold_upsert: "hm_wf acc \<Longrightarrow> hm_wf (fold (\<lambda>(k, v). hm_upsert d (f v) k) m acc)"
  by (induction m arbitrary: acc) (auto simp: case_prod_unfold)

lemma gc_abs_merge: "gc_inv c \<Longrightarrow> gc_inv other \<Longrightarrow> gc_abs (GCounter_merge c other) = join_max (gc_abs c) (gc_abs other)"
  by (rule ext) (simp add: gc_abs_def GCounter_merge_def gc_inv_def fold_upsert_max join_max_def)

lemma gc_inv_merge: "gc_inv c \<Longrightarrow> gc_inv (GCounter_merge c other)"
  using hm_wf_fold_upsert [of "gc_counts c" 0 "\<lambda>v e. max e v" "gc_counts other"]
  by (simp add: gc_inv_def GCounter_merge_def)

lemma hm_wf_filter: "hm_wf m \<Longrightarrow> hm_wf (filter P m)"
  by (metis distinct_map_filter)

lemma hm_get_or_filter:
  assumes "hm_wf m"
  shows "hm_get_or d (filter (\<lambda>(k, v). Q k v) m) j = (if Q j (hm_get_or d m j) then hm_get_or d m j else d)"
  using assms
proof (induction m)
  case (Cons kv m)
  obtain k v where kv: "kv = (k, v)" by force
  then have "hm_get_or d (filter (\<lambda>(k, v). Q k v) m) k = d"
    using Cons.prems by (intro hm_get_or_fresh) auto
  with Cons kv show ?case by auto
qed simp

lemma gc_inv_delta: "gc_inv c \<Longrightarrow> GCounter_delta_since c b = Some d \<Longrightarrow> gc_inv d"
  by (auto simp: GCounter_delta_since_def gc_inv_def Let_def hm_wf_filter split: if_splits)

lemma gc_abs_delta:
  assumes "gc_inv c"
  shows "(case GCounter_delta_since c b of None \<Rightarrow> \<lambda>_. 0 | Some d \<Rightarrow> gc_abs d) =
    (\<lambda>n. if gc_abs c n > gc_abs b n then gc_abs c n else 0)"
proof -
  let ?f = "filter (\<lambda>(node_id, count). count > hm_get_or 0 (gc_counts b) node_id) (gc_counts c)"
  have "hm_get_or 0 ?f n = (if gc_abs c n > gc_abs b n then gc_abs c n else 0)" for n
    using assms hm_get_or_filter [of "gc_counts c" 0 "\<lambda>k v. v > hm_get_or 0 (gc_counts b) k" n]
    by (simp add: gc_inv_def gc_abs_def)
  then have f: "hm_get_or 0 ?f = (\<lambda>n. if gc_abs c n > gc_abs b n then gc_abs c n else 0)" ..
  show ?thesis
  proof (cases "?f = []")
    case True
    then have "GCounter_delta_since c b = None" by (simp add: GCounter_delta_since_def)
    moreover have "hm_get_or 0 ?f = (\<lambda>_. 0)" unfolding True by (simp add: fun_eq_iff)
    ultimately show ?thesis unfolding f by simp
  next
    case False
    then have "GCounter_delta_since c b = Some \<lparr>gc_counts = ?f, gc_node_id = gc_node_id c\<rparr>"
      by (simp add: GCounter_delta_since_def Let_def)
    then show ?thesis unfolding f [symmetric] by (simp add: gc_abs_def)
  qed
qed

lemma gc_delta_law:
  assumes "gc_inv s" "gc_inv b" "gc_inv r" "join_max (gc_abs b) (gc_abs r) = gc_abs r"
  shows "gc_abs (apply_delta GCounter_merge r (GCounter_delta_since s b)) = join_max (gc_abs r) (gc_abs s)"
proof -
  let ?d = "case GCounter_delta_since s b of None \<Rightarrow> \<lambda>_. 0 | Some d \<Rightarrow> gc_abs d"
  have "gc_abs (apply_delta GCounter_merge r (GCounter_delta_since s b)) = join_max (gc_abs r) ?d"
    using assms gc_inv_delta
    by (auto simp: apply_delta_def gc_abs_merge join_max_def split: option.splits)
  also have "\<dots> = join_max (gc_abs r) (gc_abs s)"
  proof
    fix n
    have "gc_abs b n \<le> gc_abs r n" using fun_cong [OF assms(4), of n] by (simp add: join_max_def max_def split: if_splits)
    then show "join_max (gc_abs r) ?d n = join_max (gc_abs r) (gc_abs s) n"
      by (auto simp: gc_abs_delta [OF assms(1)] join_max_def max_def word_gt_0)
  qed
  finally show ?thesis .
qed

interpretation gcounter: delta_crdt gc_inv gc_abs GCounter_merge join_max GCounter_delta_since
  by unfold_locales (simp_all add: gc_abs_merge gc_inv_merge join_max_laws gc_inv_delta gc_delta_law)

lemma sum_counts:
  assumes "hm_wf m"
  shows "sum_list (map snd m) = (\<Sum>n \<in> UNIV. hm_get_or (0 :: u64) m (n :: u64))"
  using assms
proof (induction m)
  case (Cons kv m)
  obtain k v where kv: "kv = (k, v)" by force
  then have fresh: "hm_get_or 0 m k = (0 :: u64)" using Cons.prems by (intro hm_get_or_fresh) auto
  have eq: "hm_get_or 0 ((k, v) # m) n = hm_get_or 0 m n + (if n = k then v else 0)" for n
    using fresh by simp
  have "(\<Sum>n \<in> UNIV. hm_get_or 0 ((k, v) # m) n) =
      (\<Sum>n \<in> UNIV. hm_get_or 0 m n) + (\<Sum>n \<in> UNIV. if n = k then v else 0)"
    unfolding eq by (rule sum.distrib)
  with Cons kv show ?case by (simp add: add.commute)
qed simp

lemma gc_value_abs: "gc_inv c \<Longrightarrow> GCounter_value c = (\<Sum>n \<in> UNIV. gc_abs c n)"
  by (simp add: GCounter_value_def gc_inv_def gc_abs_def sum_counts)

lemma gc_inv_ops [simp]:
  "gc_inv (GCounter_new n)" "gc_inv c \<Longrightarrow> gc_inv (GCounter_increment c)"
  "gc_inv c \<Longrightarrow> gc_inv (GCounter_increment_by d c)"
  by (simp_all add: gc_inv_def GCounter_new_def GCounter_increment_def GCounter_increment_by_def)

lemma gc_value_increment_by: 
  assumes "gc_inv c"
  shows "GCounter_value (GCounter_increment_by d c) = GCounter_value c + d"
proof -
  have "gc_abs (GCounter_increment_by d c) n = gc_abs c n + (if n = gc_node_id c then d else 0)" for n
    by (simp add: gc_abs_def GCounter_increment_by_def hm_get_or_upsert)
  with assms show ?thesis by (simp add: gc_value_abs sum.distrib)
qed

lemma gc_increment_eq: "GCounter_increment c = GCounter_increment_by 1 c"
  by (simp add: GCounter_increment_def GCounter_increment_by_def)

definition pn_inv :: "PNCounter \<Rightarrow> bool" where
  "pn_inv c \<longleftrightarrow> gc_inv (pn_increments c) \<and> gc_inv (pn_decrements c)"

definition pn_abs :: "PNCounter \<Rightarrow> (u64 \<Rightarrow> u64) \<times> (u64 \<Rightarrow> u64)" where
  "pn_abs c = (gc_abs (pn_increments c), gc_abs (pn_decrements c))"

definition pn_join :: "(u64 \<Rightarrow> u64) \<times> (u64 \<Rightarrow> u64) \<Rightarrow> (u64 \<Rightarrow> u64) \<times> (u64 \<Rightarrow> u64) \<Rightarrow> (u64 \<Rightarrow> u64) \<times> (u64 \<Rightarrow> u64)" where
  "pn_join a b = (join_max (fst a) (fst b), join_max (snd a) (snd b))"

lemma gc_abs_new [simp]: "gc_abs (GCounter_new n) = (\<lambda>_. 0)"
  by (simp add: gc_abs_def GCounter_new_def fun_eq_iff)

lemma join_max_zero [simp]: "join_max f (\<lambda>_. 0) = (f :: 'k \<Rightarrow> u64)"
  by (simp add: join_max_def)

text \<open>A side that did not change is sent as an empty counter, which merges like no delta.\<close>

lemma pn_delta_side:
  "gc_inv r \<Longrightarrow> gc_inv s \<Longrightarrow> gc_inv b \<Longrightarrow>
    gc_abs (GCounter_merge r (case GCounter_delta_since s b of Some d \<Rightarrow> d | None \<Rightarrow> GCounter_new n)) =
    gc_abs (apply_delta GCounter_merge r (GCounter_delta_since s b))"
  by (simp add: apply_delta_def gc_abs_merge split: option.splits)

lemma PNCounter_delta_SomeD:
  "PNCounter_delta_since s b = Some d \<Longrightarrow>
    d = \<lparr>pn_increments = (case GCounter_delta_since (pn_increments s) (pn_increments b) of Some d \<Rightarrow> d
          | None \<Rightarrow> GCounter_new (gc_node_id (pn_increments s))),
        pn_decrements = (case GCounter_delta_since (pn_decrements s) (pn_decrements b) of Some d \<Rightarrow> d
          | None \<Rightarrow> GCounter_new (gc_node_id (pn_decrements s)))\<rparr>"
  by (simp add: PNCounter_delta_since_def Let_def split: if_splits)

lemma pn_delta_law:
  assumes "pn_inv s" "pn_inv b" "pn_inv r" "pn_join (pn_abs b) (pn_abs r) = pn_abs r"
  shows "pn_abs (apply_delta PNCounter_merge r (PNCounter_delta_since s b)) = pn_join (pn_abs r) (pn_abs s)"
proof -
  have inc: "gc_abs (apply_delta GCounter_merge (pn_increments r) (GCounter_delta_since (pn_increments s) (pn_increments b)))
      = join_max (gc_abs (pn_increments r)) (gc_abs (pn_increments s))"
    using assms by (intro gc_delta_law) (auto simp: pn_inv_def pn_join_def pn_abs_def)
  have dec: "gc_abs (apply_delta GCounter_merge (pn_decrements r) (GCounter_delta_since (pn_decrements s) (pn_decrements b)))
      = join_max (gc_abs (pn_decrements r)) (gc_abs (pn_decrements s))"
    using assms by (intro gc_delta_law) (auto simp: pn_inv_def pn_join_def pn_abs_def)
  show ?thesis
  proof (cases "PNCounter_delta_since s b")
    case None
    then have "GCounter_delta_since (pn_increments s) (pn_increments b) = None"
      "GCounter_delta_since (pn_decrements s) (pn_decrements b) = None"
      by (auto simp: PNCounter_delta_since_def Let_def split: if_splits)
    with None inc dec show ?thesis by (simp add: apply_delta_def pn_abs_def pn_join_def)
  next
    case (Some d)
    note d = PNCounter_delta_SomeD [OF Some]
    have "pn_abs (PNCounter_merge r d) =
       (gc_abs (apply_delta GCounter_merge (pn_increments r) (GCounter_delta_since (pn_increments s) (pn_increments b))),
        gc_abs (apply_delta GCounter_merge (pn_decrements r) (GCounter_delta_since (pn_decrements s) (pn_decrements b))))"
      using assms(1-3) unfolding d pn_abs_def PNCounter_merge_def pn_inv_def by (simp add: pn_delta_side)
    with Some inc dec show ?thesis by (simp add: apply_delta_def pn_join_def pn_abs_def)
  qed
qed

lemma pn_inv_delta:
  assumes "pn_inv s" "PNCounter_delta_since s b = Some d"
  shows "pn_inv d"
proof -
  have "gc_inv (case GCounter_delta_since c c' of Some d \<Rightarrow> d | None \<Rightarrow> GCounter_new n)" if "gc_inv c" for c c' n
    using that by (auto dest: gc_inv_delta split: option.splits)
  with assms(1) show ?thesis unfolding PNCounter_delta_SomeD [OF assms(2)] pn_inv_def by simp
qed

interpretation pncounter: delta_crdt pn_inv pn_abs PNCounter_merge pn_join PNCounter_delta_since
proof unfold_locales
  fix s b r d
  show "pn_inv s \<Longrightarrow> PNCounter_delta_since s b = Some d \<Longrightarrow> pn_inv d"
    by (rule pn_inv_delta)
  show "pn_inv s \<Longrightarrow> pn_inv b \<Longrightarrow> pn_inv r \<Longrightarrow> pn_join (pn_abs b) (pn_abs r) = pn_abs r \<Longrightarrow>
      pn_abs (apply_delta PNCounter_merge r (PNCounter_delta_since s b)) = pn_join (pn_abs r) (pn_abs s)"
    by (rule pn_delta_law)
qed (simp_all add: pn_inv_def pn_abs_def pn_join_def PNCounter_merge_def gc_inv_merge gc_abs_merge join_max_laws)

lemma pn_value_abs: "pn_inv c \<Longrightarrow> PNCounter_value c = (\<Sum>n \<in> UNIV. fst (pn_abs c) n) - (\<Sum>n \<in> UNIV. snd (pn_abs c) n)"
  by (simp add: PNCounter_value_def pn_inv_def pn_abs_def gc_value_abs)

subsection \<open>Grow-only sets as joins\<close>

definition gs_inv :: "'a GSet \<Rightarrow> bool" where
  "gs_inv s \<longleftrightarrow> distinct (gs_elements s)"

definition gs_abs :: "'a GSet \<Rightarrow> 'a set" where
  "gs_abs s = set (gs_elements s)"

interpretation gset: delta_crdt gs_inv gs_abs GSet_merge "(\<union>)" GSet_delta_since
proof unfold_locales
  fix s b r :: "'a GSet"
  assume "gs_abs b \<union> gs_abs r = gs_abs r"
  then show "gs_abs (apply_delta GSet_merge r (GSet_delta_since s b)) = gs_abs r \<union> gs_abs s"
    by (auto simp: apply_delta_def GSet_delta_since_def gs_abs_def GSet_merge_def Let_def filter_empty_conv)
next
  fix s b d :: "'a GSet"
  assume "gs_inv s" "GSet_delta_since s b = Some d"
  then show "gs_inv d" by (auto simp: GSet_delta_since_def gs_inv_def Let_def split: if_splits)
qed (auto simp: gs_inv_def gs_abs_def GSet_merge_def)

subsection \<open>Wire formats\<close>

interpretation u64_pair: codec "push_pair push_u64 push_u64" "read_pair read_u64 read_u64" "\<lambda>x. True \<and> True"
  by (rule codec_pair [OF u64_codec.codec_axioms u64_codec.codec_axioms])

lemma length_push_u64_pair [simp]: "length (push_pair push_u64 push_u64 x []) = 16"
  by (simp add: push_pair_def push_u64_def)

definition gc_wire :: "GCounter \<Rightarrow> bool" where
  "gc_wire c \<longleftrightarrow> gc_inv c \<and> length (gc_counts c) < 2 ^ 32"

lemma GCounter_to_bytes_eq:
  "GCounter_to_bytes c = push_u64 (gc_node_id c) [] @ push_counted (push_pair push_u64 push_u64) (gc_counts c) []"
  unfolding GCounter_to_bytes_def by (rule u64_pair.push_counted_append)

lemma GCounter_roundtrip:
  assumes "gc_wire c"
  shows "GCounter_from_bytes (GCounter_to_bytes c) = Some c"
proof -
  let ?bs = "GCounter_to_bytes c"
  have h: "holds_at ?bs 0 (push_u64 (gc_node_id c) [])"
    "holds_at ?bs 8 (push_counted (push_pair push_u64 push_u64) (gc_counts c) [])"
    using holds_at_self [of ?bs] unfolding GCounter_to_bytes_eq by (simp_all add: push_u64_def)
  have "fold (\<lambda>(nid, cnt). hm_insert nid cnt) (gc_counts c) [] = gc_counts c"
    using assms fold_hm_insert [of "[]" "gc_counts c"] by (simp add: gc_wire_def gc_inv_def)
  with u64_codec.read_at [OF TrueI h(1)] u64_pair.read_counted_at [OF _ _ h(2), of "\<lambda>(nid, cnt). hm_insert nid cnt" "[]"] assms
  show ?thesis by (simp add: GCounter_from_bytes_def push_u64_def gc_wire_def)
qed

lemma length_GCounter_to_bytes [simp]: "length (GCounter_to_bytes c) = length (gc_counts c) * 16 + 12"
proof -
  have "length (concat (map (\<lambda>x. push_pair push_u64 push_u64 x []) xs)) = 16 * length xs" for xs :: "(u64 \<times> u64) list"
    by (induction xs) simp_all
  then show ?thesis
    by (simp add: GCounter_to_bytes_eq push_counted_def u64_pair.fold_push push_u64_def push_u32_def)
qed

lemma PNCounter_roundtrip:
  assumes "gc_wire (pn_increments c)" "gc_wire (pn_decrements c)"
    "gc_node_id (pn_decrements c) = gc_node_id (pn_increments c)"
  shows "PNCounter_from_bytes (PNCounter_to_bytes c) = Some c"
proof -
  let ?bs = "PNCounter_to_bytes c" and ?i = "pn_increments c"
  have eq: "?bs = push_u64 (gc_node_id ?i) [] @ push_u32 (of_nat (length (gc_counts ?i))) [] @
      concat (map (\<lambda>x. push_pair push_u64 push_u64 x []) (gc_counts ?i)) @ GCounter_to_bytes (pn_decrements c)"
    by (simp add: PNCounter_to_bytes_def GCounter_to_bytes_eq push_counted_def u64_pair.fold_push push_u32_def)
  have h: "holds_at ?bs 0 (push_u64 (gc_node_id ?i) [])" "holds_at ?bs 8 (push_u32 (of_nat (length (gc_counts ?i))) [])"
    using holds_at_self [of ?bs] unfolding eq by (simp_all add: push_u64_def)
  have "unat (of_nat (length (gc_counts ?i)) :: u32) = length (gc_counts ?i)"
    using assms(1) by (simp add: gc_wire_def unat_len_u32)
  with u64_codec.read_at [OF TrueI h(1)] u32_codec.read_at [OF TrueI h(2)] assms
  show ?thesis
    by (simp add: PNCounter_from_bytes_def push_u64_def PNCounter_to_bytes_def GCounter_roundtrip)
qed

lemma GSet_roundtrip:
  assumes "gs_inv s" "length (gs_elements s) < 2 ^ 32" "\<forall>x \<in> set (gs_elements s). wire_string x"
  shows "GSet_from_bytes (GSet_to_bytes s) = Some s"
  using string_codec.read_counted_at [OF assms(2,3), of "GSet_to_bytes s" 0 hs_insert "[]"]
    hs_extend_fresh [of "[]" "gs_elements s"] assms(1)
  by (simp add: GSet_from_bytes_def GSet_to_bytes_def hs_extend_def gs_inv_def)

subsection \<open>Properties\<close>

lemma gc_value_merge_disjoint:
  assumes "gc_inv c" "gc_inv d" "\<forall>n. gc_abs c n = 0 \<or> gc_abs d n = 0"
  shows "GCounter_value (GCounter_merge c d) = GCounter_value c + GCounter_value d"
proof -
  have "max (gc_abs c n) (gc_abs d n) = gc_abs c n + gc_abs d n" for n
    using assms(3) [rule_format, of n] by (auto simp: max_def)
  with assms show ?thesis
    by (simp add: gc_value_abs gc_inv_merge gc_abs_merge join_max_def sum.distrib)
qed

text \<open>replicas of a grow-only counter converge. Two replicas that have merged the same states, in
  whatever order and however often each, agree on the count of every node and on the value.\<close>

theorem gcounter_convergence:
  assumes "\<forall>x \<in> set (s # ss). gc_inv x" "set (s # ss) = set (t # ts)"
  shows "gc_abs (merge_all GCounter_merge s ss) = gc_abs (merge_all GCounter_merge t ts) \<and>
    GCounter_value (merge_all GCounter_merge s ss) = GCounter_value (merge_all GCounter_merge t ts)"
proof -
  have "\<forall>x \<in> set (t # ts). gc_inv x" unfolding assms(2) [symmetric] by (rule assms(1))
  with gcounter.convergence [OF assms] gcounter.inv_merge_all assms(1) show ?thesis
    by (simp add: gc_value_abs)
qed

definition demo_gc :: "u64 \<Rightarrow> GCounter" where
  "demo_gc n = GCounter_increment_by (n + 4) (GCounter_new n)"

lemma demo_gc_inv: "gc_inv (demo_gc n)"
  by (simp add: demo_gc_def)

theorem gcounter_convergence_witness:
  "GCounter_value (merge_all GCounter_merge (demo_gc 1) [demo_gc 2, demo_gc 3]) =
   GCounter_value (merge_all GCounter_merge (demo_gc 3) [demo_gc 1, demo_gc 1, demo_gc 2])"
  using gcounter_convergence [of "demo_gc 1" "[demo_gc 2, demo_gc 3]" "demo_gc 3" "[demo_gc 1, demo_gc 1, demo_gc 2]"]
  by (simp add: demo_gc_inv insert_commute)

text \<open>nothing is lost or counted twice. When no two replicas have counted for the same node, the
  value after merging them all is the sum of their values, in 64-bit arithmetic.\<close>

theorem gcounter_exact_count:
  assumes "\<forall>x \<in> set (s # ss). gc_inv x"
    and "sorted_wrt (\<lambda>a b. \<forall>n. gc_abs a n = 0 \<or> gc_abs b n = 0) (s # ss)"
  shows "GCounter_value (merge_all GCounter_merge s ss) = sum_list (map GCounter_value (s # ss))"
  using assms
proof (induction ss arbitrary: s)
  case (Cons t ss)
  have "\<forall>n. gc_abs (GCounter_merge s t) n = 0 \<or> gc_abs b n = 0" if "b \<in> set ss" for b
    using that Cons.prems by (auto simp: gc_abs_merge join_max_def max_def)
  with Cons.IH [of "GCounter_merge s t"] Cons.prems gc_value_merge_disjoint [of s t] show ?case
    by (simp add: merge_all_def gc_inv_merge add.assoc)
qed (simp add: merge_all_def)

theorem gcounter_exact_count_witness:
  "GCounter_value (merge_all GCounter_merge (demo_gc 1) [demo_gc 2]) = GCounter_value (demo_gc 1) + GCounter_value (demo_gc 2)"
proof -
  have "\<forall>n. gc_abs (demo_gc 1) n = 0 \<or> gc_abs (demo_gc 2) n = 0"
    by (simp add: demo_gc_def gc_abs_def GCounter_increment_by_def GCounter_new_def hm_get_or_upsert)
  with gcounter_exact_count [of "demo_gc 1" "[demo_gc 2]"] show ?thesis by (simp add: demo_gc_inv)
qed

text \<open>delta synchronisation of a grow-only counter. A receiver that contains a base and is then sent
  only the deltas between successive states of a sender ends where merging the sender's last full state
  would have taken it.\<close>

theorem gcounter_delta_stream:
  assumes "\<forall>x \<in> set (r # b # ss). gc_inv x"
    and "join_max (gc_abs b) (gc_abs r) = gc_abs r"
    and "successively (\<lambda>x y. join_max (gc_abs x) (gc_abs y) = gc_abs y) (b # ss)"
  shows "gc_abs (delta_run GCounter_merge GCounter_delta_since r b ss) = gc_abs (GCounter_merge r (last (b # ss)))"
  using assms by (intro gcounter.delta_stream) (simp_all add: gcounter.below_def [abs_def])

theorem gcounter_delta_stream_witness:
  "gc_abs (delta_run GCounter_merge GCounter_delta_since (demo_gc 2) (GCounter_new 1)
     [demo_gc 1, GCounter_increment_by 3 (demo_gc 1)]) =
   gc_abs (GCounter_merge (demo_gc 2) (GCounter_increment_by 3 (demo_gc 1)))"
  using gcounter_delta_stream [of "demo_gc 2" "GCounter_new 1" "[demo_gc 1, GCounter_increment_by 3 (demo_gc 1)]"]
  by (simp add: demo_gc_inv) (simp add: join_max_def fun_eq_iff gc_abs_def demo_gc_def GCounter_increment_by_def
    GCounter_new_def hm_get_or_upsert)

text \<open>replicas of a counter with decrements converge to the same value and per-node counts, whatever
  the order and multiplicity of merges, and each local operation moves the value by exactly its amount.\<close>

theorem pncounter_convergence:
  assumes "\<forall>x \<in> set (s # ss). pn_inv x" "set (s # ss) = set (t # ts)"
  shows "PNCounter_value (merge_all PNCounter_merge s ss) = PNCounter_value (merge_all PNCounter_merge t ts) \<and>
    PNCounter_value (PNCounter_increment_by d s) = PNCounter_value s + d \<and>
    PNCounter_value (PNCounter_decrement_by d s) = PNCounter_value s - d"
proof -
  have "\<forall>x \<in> set (t # ts). pn_inv x" unfolding assms(2) [symmetric] by (rule assms(1))
  with pncounter.convergence [OF assms] pncounter.inv_merge_all assms(1)
  have "PNCounter_value (merge_all PNCounter_merge s ss) = PNCounter_value (merge_all PNCounter_merge t ts)"
    by (simp add: pn_value_abs)
  with assms(1) show ?thesis
    by (simp add: PNCounter_value_def PNCounter_increment_by_def PNCounter_decrement_by_def pn_inv_def
        gc_value_increment_by)
qed

theorem pncounter_convergence_witness:
  "PNCounter_value (merge_all PNCounter_merge (PNCounter_new 1) [PNCounter_decrement (PNCounter_new 2)]) =
   PNCounter_value (merge_all PNCounter_merge (PNCounter_decrement (PNCounter_new 2)) [PNCounter_new 1])"
  using pncounter_convergence [of "PNCounter_new 1" "[PNCounter_decrement (PNCounter_new 2)]"
      "PNCounter_decrement (PNCounter_new 2)" "[PNCounter_new 1]" 0]
  by (simp add: pn_inv_def PNCounter_new_def PNCounter_decrement_def insert_commute)

text \<open>the wire format of the counter with decrements, two counters back to back with the split point
  found from the first one's entry count, decodes to the counter that was encoded.\<close>

theorem pncounter_wire_roundtrip:
  assumes "gc_wire (pn_increments c)" "gc_wire (pn_decrements c)"
    "gc_node_id (pn_decrements c) = gc_node_id (pn_increments c)"
  shows "PNCounter_from_bytes (PNCounter_to_bytes c) = Some c"
  by (rule PNCounter_roundtrip [OF assms])

theorem pncounter_wire_roundtrip_witness:
  "PNCounter_from_bytes (PNCounter_to_bytes (PNCounter_decrement (PNCounter_new 7))) =
    Some (PNCounter_decrement (PNCounter_new 7))"
  by (rule pncounter_wire_roundtrip)
    (simp_all add: gc_wire_def gc_inv_def PNCounter_decrement_def PNCounter_new_def GCounter_new_def
      GCounter_increment_def hm_upsert_def)

text \<open>replicas of a grow-only set converge to the union of what was inserted anywhere, also when
  the states travel in their wire format.\<close>

theorem gset_convergence:
  assumes "\<forall>x \<in> set (s # ss). gs_inv x \<and> length (gs_elements x) < 2 ^ 32 \<and>
      (\<forall>e \<in> set (gs_elements x). wire_string e)"
  shows "gs_abs (merge_all GSet_merge s (map (the \<circ> GSet_from_bytes \<circ> GSet_to_bytes) ss)) = \<Union> (gs_abs ` set (s # ss))"
proof -
  have "map (the \<circ> GSet_from_bytes \<circ> GSet_to_bytes) ss = ss"
    using assms by (simp add: GSet_roundtrip map_idI)
  moreover have "gs_abs (merge_all GSet_merge s ss) = \<Union> (gs_abs ` set (s # ss))"
    unfolding merge_all_def by (induction ss arbitrary: s) (auto simp: gs_abs_def GSet_merge_def)
  ultimately show ?thesis by simp
qed

theorem gset_convergence_witness:
  "gs_abs (merge_all GSet_merge \<lparr>gs_elements = [''a'']\<rparr>
     (map (the \<circ> GSet_from_bytes \<circ> GSet_to_bytes) [\<lparr>gs_elements = [''b'']\<rparr>])) = {''a'', ''b''}"
  using gset_convergence [of "\<lparr>gs_elements = [''a'']\<rparr>" "[\<lparr>gs_elements = [''b'']\<rparr>]"]
  by (simp add: gs_inv_def gs_abs_def wire_string_def str_wf_def str_bytes_def insert_commute)

end
