(* ===== verification/Crdt_Clocks.thy ===== *)
theory Crdt_Clocks
  imports Crdt_Counters
begin

text \<open>
  The logical clocks of \<open>src/runtime/crdt.rs\<close>: \<open>LamportTime\<close> with its derived (lexicographic) order,
  \<open>LamportClock\<close>, and the \<open>MatrixClock\<close> whose watermark decides which tombstones may be collected.
\<close>

subsection \<open>Lamport times\<close>

datatype LamportTime = LamportTime (lt_counter: u64) (lt_node_id: u64)

instantiation LamportTime :: linorder
begin

definition less_eq_LamportTime :: "LamportTime \<Rightarrow> LamportTime \<Rightarrow> bool" where
  "less_eq_LamportTime a b \<longleftrightarrow>
     lt_counter a < lt_counter b \<or> lt_counter a = lt_counter b \<and> lt_node_id a \<le> lt_node_id b"

definition less_LamportTime :: "LamportTime \<Rightarrow> LamportTime \<Rightarrow> bool" where
  "less_LamportTime a b \<longleftrightarrow>
     lt_counter a < lt_counter b \<or> lt_counter a = lt_counter b \<and> lt_node_id a < lt_node_id b"

instance
  by standard (auto simp: less_eq_LamportTime_def less_LamportTime_def intro: LamportTime.expand)

end

definition is_greater_than :: "LamportTime \<Rightarrow> LamportTime \<Rightarrow> bool" where
  "is_greater_than a b \<longleftrightarrow>
     lt_counter a > lt_counter b \<or> (lt_counter a = lt_counter b \<and> lt_node_id a > lt_node_id b)"

lemma is_greater_than_iff [simp]: "is_greater_than a b \<longleftrightarrow> b < a"
  by (auto simp: is_greater_than_def less_LamportTime_def)

record LamportClock =
  lc_node_id :: u64
  lc_counter :: u64

definition LamportClock_new :: "u64 \<Rightarrow> LamportClock" where
  "LamportClock_new node_id = \<lparr>lc_node_id = node_id, lc_counter = 0\<rparr>"

definition tick :: "LamportClock \<Rightarrow> LamportTime \<times> LamportClock" where
  "tick c = (let c' = c\<lparr>lc_counter := lc_counter c + 1\<rparr> in (LamportTime (lc_counter c') (lc_node_id c'), c'))"

subsection \<open>The matrix clock\<close>

type_synonym matrix = "(u64, (u64, u64) hashmap) hashmap"

record MatrixClock =
  mc_local_node :: u64
  mc_matrix :: matrix

definition MatrixClock_new :: "u64 \<Rightarrow> MatrixClock" where
  "MatrixClock_new local_node = \<lparr>mc_local_node = local_node, mc_matrix = []\<rparr>"

text \<open>\<open>matrix.get(peer).and_then(|r| r.get(src)).copied().unwrap_or(0)\<close>\<close>

definition mx_get :: "matrix \<Rightarrow> u64 \<Rightarrow> u64 \<Rightarrow> u64" where
  "mx_get m peer src = hm_get_or 0 (hm_get_or [] m peer) src"

definition tick_local :: "MatrixClock \<Rightarrow> u64 \<times> MatrixClock" where
  "tick_local c =
     (let e = mx_get (mc_matrix c) (mc_local_node c) (mc_local_node c) + 1
      in (e, c\<lparr>mc_matrix := hm_upsert [] (hm_insert (mc_local_node c) e) (mc_local_node c) (mc_matrix c)\<rparr>))"

text \<open>The inner loops of \<open>merge\<close>: a row takes the maximum with another row.\<close>

definition absorb_row :: "(u64, u64) hashmap \<Rightarrow> (u64, u64) hashmap \<Rightarrow> (u64, u64) hashmap" where
  "absorb_row row dest = fold (\<lambda>(src, t). hm_upsert 0 (\<lambda>e. max e t) src) row dest"

definition MatrixClock_merge :: "MatrixClock \<Rightarrow> MatrixClock \<Rightarrow> MatrixClock" where
  "MatrixClock_merge c other =
     c\<lparr>mc_matrix := fold (\<lambda>(peer, row) m.
          hm_upsert [] (absorb_row row) peer (hm_upsert [] (absorb_row row) (mc_local_node c) m))
        (mc_matrix other) (mc_matrix c)\<rparr>"

definition mc_sources :: "MatrixClock \<Rightarrow> u64 list" where
  "mc_sources c = fold (\<lambda>(_, row) sources. fold (\<lambda>(s, _). hs_insert s) row sources) (mc_matrix c) []"

definition watermark :: "MatrixClock \<Rightarrow> u64 list \<Rightarrow> (u64, u64) hashmap" where
  "watermark c healthy =
     fold (\<lambda>src. hm_insert src
            (fold (\<lambda>peer m. min m (mx_get (mc_matrix c) peer src)) healthy
               (mx_get (mc_matrix c) (mc_local_node c) src)))
       (mc_sources c) []"

definition reroot :: "u64 \<Rightarrow> MatrixClock \<Rightarrow> MatrixClock" where
  "reroot new_local c =
     (if mc_local_node c = new_local then c else MatrixClock_merge (MatrixClock_new new_local) c)"

definition prune :: "u64 list \<Rightarrow> MatrixClock \<Rightarrow> MatrixClock" where
  "prune healthy c =
     c\<lparr>mc_matrix := filter (\<lambda>(peer, _). peer = mc_local_node c \<or> peer \<in> set healthy) (mc_matrix c)\<rparr>"

text \<open>Peers and sources are written in ascending order.\<close>

definition sorted_row :: "(u64, u64) hashmap \<Rightarrow> (u64, u64) hashmap" where
  "sorted_row row = map (\<lambda>src. (src, hm_get_or 0 row src)) (sort (map fst row))"

definition sorted_matrix :: "matrix \<Rightarrow> matrix" where
  "sorted_matrix m = map (\<lambda>peer. (peer, sorted_row (hm_get_or [] m peer))) (sort (map fst m))"

abbreviation push_row :: "u64 \<times> (u64, u64) hashmap \<Rightarrow> bytes \<Rightarrow> bytes" where
  "push_row \<equiv> push_pair push_u64 (push_counted (push_pair push_u64 push_u64))"

abbreviation hm_collect :: "'k \<times> 'v \<Rightarrow> ('k, 'v) hashmap \<Rightarrow> ('k, 'v) hashmap" where
  "hm_collect \<equiv> (\<lambda>(k, v). hm_insert k v)"

abbreviation read_row :: "bytes \<Rightarrow> nat \<Rightarrow> ((u64 \<times> (u64, u64) hashmap) \<times> nat) option" where
  "read_row \<equiv> read_pair read_u64 (read_counted (read_pair read_u64 read_u64) hm_collect [])"

definition MatrixClock_to_bytes :: "MatrixClock \<Rightarrow> bytes \<Rightarrow> bytes" where
  "MatrixClock_to_bytes c buf =
     push_counted push_row (sorted_matrix (mc_matrix c)) (push_u64 (mc_local_node c) buf)"

definition MatrixClock_from_bytes :: "bytes \<Rightarrow> nat \<Rightarrow> (MatrixClock \<times> nat) option" where
  "MatrixClock_from_bytes bs pos =
     (case read_u64 bs pos of
        None \<Rightarrow> None
      | Some (local_node, pos) \<Rightarrow>
          (case read_counted read_row hm_collect [] bs pos of
             None \<Rightarrow> None
           | Some (matrix, pos) \<Rightarrow> Some (\<lparr>mc_local_node = local_node, mc_matrix = matrix\<rparr>, pos)))"

subsection \<open>What a node has observed\<close>

abbreviation mc_get :: "MatrixClock \<Rightarrow> u64 \<Rightarrow> u64 \<Rightarrow> u64" where
  "mc_get c \<equiv> mx_get (mc_matrix c)"

definition mx_wf :: "matrix \<Rightarrow> bool" where
  "mx_wf m \<longleftrightarrow> hm_wf m \<and> (\<forall>(p, row) \<in> set m. hm_wf row)"

abbreviation mc_wf :: "MatrixClock \<Rightarrow> bool" where
  "mc_wf c \<equiv> mx_wf (mc_matrix c)"

text \<open>The local row holds everything any row of the clock has seen.\<close>

definition mc_inv :: "MatrixClock \<Rightarrow> bool" where
  "mc_inv c \<longleftrightarrow> mc_wf c \<and> (\<forall>p n. mc_get c p n \<le> mc_get c (mc_local_node c) n)"

lemma mx_wf_get: "mx_wf m \<Longrightarrow> hm_wf (hm_get_or [] m k)"
  by (auto simp: mx_wf_def hm_get_or_def split: option.splits dest: map_of_SomeD)

lemma mx_wf_upsert:
  assumes "mx_wf m" "\<And>row. hm_wf row \<Longrightarrow> hm_wf (f row)"
  shows "mx_wf (hm_upsert [] f k m)"
proof -
  have "hm_wf (f (hm_get_or [] m k))" using assms mx_wf_get by blast
  moreover have "set (hm_insert k v m) \<subseteq> insert (k, v) (set m)" for v
    by (induction m) auto
  ultimately show ?thesis using assms(1) by (fastforce simp: hm_upsert_def mx_wf_def)
qed

lemma mx_get_upsert: "mx_get (hm_upsert [] f k m) p n =
    (if p = k then hm_get_or 0 (f (hm_get_or [] m k)) n else mx_get m p n)"
  by (simp add: mx_get_def hm_get_or_upsert)

lemma absorb_row_get:
  "hm_wf row \<Longrightarrow> hm_get_or 0 (absorb_row row dest) n = max (hm_get_or 0 dest n) (hm_get_or 0 row n)"
  by (simp add: absorb_row_def fold_upsert_max)

lemma hm_wf_absorb: "hm_wf dest \<Longrightarrow> hm_wf (absorb_row row dest)"
  unfolding absorb_row_def by (rule hm_wf_fold_upsert)

text \<open>The largest time from \<open>n\<close> in any row.\<close>

definition mx_top :: "matrix \<Rightarrow> u64 \<Rightarrow> u64" where
  "mx_top m n = fold (\<lambda>(_, row) a. max a (hm_get_or 0 row n)) m 0"

lemma fold_max_zero: "fold (\<lambda>(_, row) a. max a (hm_get_or 0 row n)) m (a :: u64) = max a (mx_top m n)"
proof -
  have "fold (\<lambda>(_, row) a. max a (hm_get_or 0 row n)) m (max a b) =
      max a (fold (\<lambda>(_, row) a. max a (hm_get_or 0 row n)) m (b :: u64))" for a b
    by (induction m arbitrary: b) (auto simp: max.assoc)
  from this [of a 0] show ?thesis by (simp add: mx_top_def)
qed

lemma mx_top_Cons [simp]: "mx_top ((p, row) # m) n = max (hm_get_or 0 row n) (mx_top m n)"
  using fold_max_zero [of n m "hm_get_or 0 row n"] by (simp add: mx_top_def)

lemma mx_top_Nil [simp]: "mx_top [] n = 0"
  by (simp add: mx_top_def)

lemma mx_get_Cons: "mx_get ((p, row) # m) q n = (if q = p then hm_get_or 0 row n else mx_get m q n)"
  by (simp add: mx_get_def)

lemma mx_get_le_top: "mx_get m p n \<le> mx_top m n"
  by (induction m) (auto simp: mx_get_Cons le_max_iff_disj mx_get_def)

lemma merge_fold_get:
  assumes "mx_wf other"
  shows "mx_get (fold (\<lambda>(peer, row) m. hm_upsert [] (absorb_row row) peer (hm_upsert [] (absorb_row row) l m)) other m) p n =
    max (mx_get m p n) (if p = l then mx_top other n else mx_get other p n)"
  using assms
proof (induction other arbitrary: m)
  case Nil
  then show ?case by (simp add: mx_get_def)
next
  case (Cons pr other)
  obtain q row where pr: "pr = (q, row)" by force
  have row: "hm_wf row" "mx_wf other" using Cons.prems pr by (auto simp: mx_wf_def)
  have q: "mx_get other q n = 0"
    using Cons.prems pr hm_get_or_fresh [of q other "[]"] by (auto simp: mx_get_def mx_wf_def)
  let ?m = "hm_upsert [] (absorb_row row) q (hm_upsert [] (absorb_row row) l m)"
  have "mx_get ?m p n = (if p = q \<or> p = l then max (mx_get m p n) (hm_get_or 0 row n) else mx_get m p n)"
    using row by (auto simp: mx_get_upsert absorb_row_get hm_get_or_upsert) (simp_all add: mx_get_def)
  with Cons.IH row pr q show ?case by (auto simp: mx_get_Cons max.assoc)
qed

lemma mc_get_merge:
  assumes "mc_wf other"
  shows "mc_get (MatrixClock_merge c other) p n =
    max (mc_get c p n) (if p = mc_local_node c then mx_top (mc_matrix other) n else mc_get other p n)"
  using assms merge_fold_get [of "mc_matrix other" "mc_local_node c" "mc_matrix c" p n]
  by (simp add: MatrixClock_merge_def)

lemma mc_wf_merge:
  assumes "mc_wf c"
  shows "mc_wf (MatrixClock_merge c other)"
proof -
  have "mx_wf (fold (\<lambda>(peer, row) m. hm_upsert [] (absorb_row row) peer (hm_upsert [] (absorb_row row) l m)) rs m)"
    if "mx_wf m" for m rs l
    using that by (induction rs arbitrary: m) (auto simp: mx_wf_upsert hm_wf_absorb)
  with assms show ?thesis by (simp add: MatrixClock_merge_def)
qed

lemma mc_inv_new: "mc_inv (MatrixClock_new l)"
  by (simp add: mc_inv_def mx_wf_def MatrixClock_new_def mx_get_def)

lemma mc_inv_top: "mc_inv c \<Longrightarrow> mx_top (mc_matrix c) n = mc_get c (mc_local_node c) n"
proof -
  assume inv: "mc_inv c"
  have "mx_top m n \<le> b" if "mx_wf m" "\<forall>p. mx_get m p n \<le> b" for m b
    using that
  proof (induction m)
    case (Cons pr m)
    obtain q row where pr: "pr = (q, row)" by force
    have "mx_wf m" "mx_get m q n = 0"
      using Cons.prems(1) pr hm_get_or_fresh [of q m "[]"] by (auto simp: mx_wf_def mx_get_def)
    moreover have "mx_get m p n \<le> b" for p
      using Cons.prems(2) pr \<open>mx_get m q n = 0\<close> by (cases "p = q") (auto simp: mx_get_Cons dest: spec [of _ p])
    ultimately show ?case using Cons.IH Cons.prems(2) pr by (auto simp: mx_get_Cons dest: spec [of _ q])
  qed simp
  with inv have "mx_top (mc_matrix c) n \<le> mc_get c (mc_local_node c) n" by (simp add: mc_inv_def)
  then show ?thesis using mx_get_le_top by (rule order_antisym)
qed

lemma mc_inv_merge:
  assumes "mc_inv c" "mc_wf other"
  shows "mc_inv (MatrixClock_merge c other)"
proof -
  have l: "mc_local_node (MatrixClock_merge c other) = mc_local_node c" by (simp add: MatrixClock_merge_def)
  have "mc_get (MatrixClock_merge c other) p n \<le> mc_get (MatrixClock_merge c other) (mc_local_node c) n" for p n
  proof (cases "p = mc_local_node c")
    case False
    have "mc_get c p n \<le> mc_get c (mc_local_node c) n" using assms(1) by (simp add: mc_inv_def)
    with max.mono [OF this mx_get_le_top [of "mc_matrix other" p n]] False assms(2) show ?thesis
      by (simp add: mc_get_merge)
  qed simp
  with assms show ?thesis unfolding mc_inv_def l by (simp add: mc_wf_merge)
qed

lemma le_plus_one: "x \<noteq> -1 \<Longrightarrow> (x :: 'a::len word) \<le> x + 1"
  using unatSuc [of x] by (simp add: word_le_nat_alt add.commute eq_neg_iff_add_eq_0)

lemma mc_inv_tick:
  assumes "mc_inv c" "mc_get c (mc_local_node c) (mc_local_node c) \<noteq> -1"
  shows "mc_inv (snd (tick_local c))"
proof -
  let ?l = "mc_local_node c" and ?c = "snd (tick_local c)"
  have get: "mc_get ?c p n = (if p = ?l \<and> n = ?l then mc_get c ?l ?l + 1 else mc_get c p n)" for p n
    by (simp add: tick_local_def Let_def mx_get_upsert mx_get_def hm_get_or_def)
  have lt: "mc_get c ?l ?l \<le> mc_get c ?l ?l + 1"
    using assms(2) by (rule le_plus_one)
  have "mc_get ?c p n \<le> mc_get ?c ?l n" for p n
    using assms(1) lt unfolding get mc_inv_def by (auto intro: order_trans)
  moreover have "mc_wf ?c"
    using assms(1) by (simp add: tick_local_def Let_def mc_inv_def mx_wf_upsert)
  moreover have "mc_local_node ?c = ?l" by (simp add: tick_local_def Let_def)
  ultimately show ?thesis by (simp add: mc_inv_def)
qed

lemma mx_wf_filter: "mx_wf m \<Longrightarrow> mx_wf (filter P m)"
  by (auto simp: mx_wf_def hm_wf_filter)

lemma mc_get_prune:
  "mc_wf c \<Longrightarrow> mc_get (prune healthy c) p n =
    (if p = mc_local_node c \<or> p \<in> set healthy then mc_get c p n else 0)"
  using hm_get_or_filter [of "mc_matrix c" "[]" "\<lambda>k v. k = mc_local_node c \<or> k \<in> set healthy" p]
  by (simp add: prune_def mx_get_def mx_wf_def)

lemma mc_inv_prune: "mc_inv c \<Longrightarrow> mc_inv (prune healthy c)"
proof -
  assume inv: "mc_inv c"
  then have wf: "mc_wf c" by (simp add: mc_inv_def)
  have "mc_local_node (prune healthy c) = mc_local_node c" "mc_wf (prune healthy c)"
    using wf by (simp_all add: prune_def mx_wf_filter)
  with inv show ?thesis by (auto simp: mc_inv_def mc_get_prune [OF wf])
qed

lemma mc_inv_reroot: "mc_inv c \<Longrightarrow> mc_inv (reroot l c)"
  using mc_inv_merge [OF mc_inv_new, of c l] unfolding reroot_def by (auto simp: mc_inv_def [of c])

subsection \<open>The watermark\<close>

lemma set_mc_sources: "set (mc_sources c) = (\<Union>pr \<in> set (mc_matrix c). fst ` set (snd pr))"
proof -
  have inner: "set (fold (\<lambda>e. hs_insert (fst e)) row acc) = set acc \<union> fst ` set row"
    for row :: "(u64, u64) hashmap" and acc
    by (induction row arbitrary: acc) auto
  have "set (fold (\<lambda>pr. fold (\<lambda>e. hs_insert (fst e)) (snd pr)) m acc) =
      set acc \<union> (\<Union>pr \<in> set m. fst ` set (snd pr))" for m :: matrix and acc
    by (induction m arbitrary: acc) (simp_all add: inner Un_assoc)
  from this [of "mc_matrix c" "[]"] show ?thesis by (simp add: mc_sources_def case_prod_unfold)
qed

lemma mx_get_no_source: "n \<notin> set (mc_sources c) \<Longrightarrow> mc_get c p n = 0"
proof -
  assume n: "n \<notin> set (mc_sources c)"
  have "n \<notin> fst ` set (hm_get_or [] (mc_matrix c) p)"
  proof (cases "map_of (mc_matrix c) p")
    case (Some row)
    then have "(p, row) \<in> set (mc_matrix c)" by (rule map_of_SomeD)
    with n have "n \<notin> fst ` set row" unfolding set_mc_sources by force
    with Some show ?thesis by (simp add: hm_get_or_def)
  qed (simp add: hm_get_or_def)
  then show ?thesis by (simp add: mx_get_def hm_get_or_fresh)
qed

lemma fold_insert_fun: "map_of (fold (\<lambda>k. hm_insert k (f k)) ks acc) n = (if n \<in> set ks then Some (f n) else map_of acc n)"
  by (induction ks arbitrary: acc) auto

lemma watermark_get:
  "hm_get_or 0 (watermark c healthy) n =
     fold (\<lambda>peer m. min m (mc_get c peer n)) healthy (mc_get c (mc_local_node c) n)"
proof (cases "n \<in> set (mc_sources c)")
  case True
  then show ?thesis by (simp add: watermark_def hm_get_or_def fold_insert_fun)
next
  case False
  have "fold (\<lambda>peer m. min m (mc_get c peer n)) ps 0 = (0 :: u64)" for ps
    by (induction ps) auto
  with False show ?thesis by (simp add: watermark_def hm_get_or_def fold_insert_fun mx_get_no_source)
qed

lemma fold_min_bounds:
  fixes g :: "'p \<Rightarrow> 'a::linorder"
  shows "fold (\<lambda>p m. min m (g p)) ps a \<le> a \<and> (\<forall>p \<in> set ps. fold (\<lambda>p m. min m (g p)) ps a \<le> g p) \<and>
    (fold (\<lambda>p m. min m (g p)) ps a = a \<or> (\<exists>p \<in> set ps. fold (\<lambda>p m. min m (g p)) ps a = g p))"
proof (induction ps arbitrary: a)
  case (Cons p ps)
  let ?r = "fold (\<lambda>p m. min m (g p)) ps (min a (g p))"
  have "?r \<le> min a (g p)" "\<forall>q \<in> set ps. ?r \<le> g q" "?r = min a (g p) \<or> (\<exists>q \<in> set ps. ?r = g q)"
    using Cons.IH [of "min a (g p)"] by auto
  then show ?case by (auto simp: min_def split: if_splits)
qed simp

subsection \<open>The wire format\<close>

interpretation row_codec: codec push_row read_row
  "\<lambda>x. True \<and> (length (snd x) < 2 ^ 32 \<and> (\<forall>e \<in> set (snd x). True \<and> True) \<and> fold hm_collect (snd x) [] = snd x)"
  by (rule codec_pair [OF u64_codec.codec_axioms codec_counted [OF u64_pair.codec_axioms]])

lemma sort_keys_wf: "hm_wf m \<Longrightarrow> distinct (sort (map fst m))"
  by (simp add: distinct_sort)

lemma hm_get_or_map:
  "hm_get_or d (map (\<lambda>k. (k, f k)) ks) k = (if k \<in> set ks then f k else d)"
  by (auto simp: hm_get_or_def map_of_map_restrict)

lemma sorted_row_get [simp]: "hm_get_or 0 (sorted_row row) n = hm_get_or 0 row n"
  using hm_get_or_fresh [of n row 0] by (simp add: sorted_row_def hm_get_or_map)

lemma sorted_matrix_get: "mx_get (sorted_matrix m) p n = mx_get m p n"
  using hm_get_or_fresh [of p m "[]"] by (simp add: mx_get_def sorted_matrix_def hm_get_or_map)

definition mc_wire :: "MatrixClock \<Rightarrow> bool" where
  "mc_wire c \<longleftrightarrow> mc_wf c \<and> length (mc_matrix c) < 2 ^ 32 \<and> (\<forall>(p, row) \<in> set (mc_matrix c). length row < 2 ^ 32)"

definition mc_sorted :: "MatrixClock \<Rightarrow> MatrixClock" where
  "mc_sorted c = c\<lparr>mc_matrix := sorted_matrix (mc_matrix c)\<rparr>"

lemma fold_collect_map: "distinct ks \<Longrightarrow> fold hm_collect (map (\<lambda>k. (k, f k)) ks) [] = map (\<lambda>k. (k, f k)) ks"
  using fold_hm_insert [of "[]" "map (\<lambda>k. (k, f k)) ks"] by (simp add: comp_def)

lemma MatrixClock_push_append: "MatrixClock_to_bytes c buf = buf @ MatrixClock_to_bytes c []"
  unfolding MatrixClock_to_bytes_def
  using row_codec.push_counted_append [of "sorted_matrix (mc_matrix c)" "push_u64 (mc_local_node c) buf"]
    row_codec.push_counted_append [of "sorted_matrix (mc_matrix c)" "push_u64 (mc_local_node c) []"]
  by (simp add: push_u64_def)

lemma MatrixClock_read_at:
  assumes "mc_wire c" "holds_at bs pos (MatrixClock_to_bytes c [])"
  shows "MatrixClock_from_bytes bs pos = Some (mc_sorted c, pos + length (MatrixClock_to_bytes c []))"
proof -
  let ?m = "sorted_matrix (mc_matrix c)"
  have eq: "MatrixClock_to_bytes c [] = push_u64 (mc_local_node c) [] @ push_counted push_row ?m []"
    unfolding MatrixClock_to_bytes_def by (rule row_codec.push_counted_append)
  have h: "holds_at bs pos (push_u64 (mc_local_node c) [])" "holds_at bs (pos + 8) (push_counted push_row ?m [])"
    using assms(2) unfolding eq by (simp_all add: push_u64_def)
  have wf: "mx_wf (mc_matrix c)" and len: "length ?m < 2 ^ 32"
    using assms(1) by (auto simp: mc_wire_def sorted_matrix_def)
  have "length (sorted_row (hm_get_or [] (mc_matrix c) p)) < 2 ^ 32" for p
    using assms(1) by (auto simp: sorted_row_def mc_wire_def hm_get_or_def split: option.splits dest: map_of_SomeD)
  moreover have "fold hm_collect (sorted_row (hm_get_or [] (mc_matrix c) p)) [] = sorted_row (hm_get_or [] (mc_matrix c) p)" for p
    unfolding sorted_row_def by (rule fold_collect_map [OF sort_keys_wf [OF mx_wf_get [OF wf]]])
  ultimately have items: "\<forall>x \<in> set ?m. True \<and> (length (snd x) < 2 ^ 32 \<and> (\<forall>e \<in> set (snd x). True \<and> True) \<and>
      fold hm_collect (snd x) [] = snd x)"
    by (auto simp: sorted_matrix_def)
  have "fold hm_collect ?m [] = ?m"
    unfolding sorted_matrix_def using wf by (intro fold_collect_map sort_keys_wf) (simp add: mx_wf_def)
  with row_codec.read_counted_at [OF len items h(2), of hm_collect "[]"] u64_codec.read_at [OF TrueI h(1)]
  show ?thesis by (simp add: MatrixClock_from_bytes_def eq push_u64_def mc_sorted_def)
qed

lemma mc_sorted_get [simp]: "mc_get (mc_sorted c) = mc_get c" "mc_local_node (mc_sorted c) = mc_local_node c"
  by (simp_all add: mc_sorted_def sorted_matrix_get fun_eq_iff)

subsection \<open>Properties\<close>

text \<open>the causal-stability watermark is exact. For every source it is the smallest time that the
  local node and the healthy nodes are recorded to have observed from it: no larger than any of
  those observations, and equal to one of them; a healthy node without a row holds it at 0.\<close>

theorem watermark_exact:
  "let wm = hm_get_or 0 (watermark c healthy) n; nodes = insert (mc_local_node c) (set healthy) in
     (\<forall>p \<in> nodes. wm \<le> mc_get c p n) \<and> (\<exists>p \<in> nodes. wm = mc_get c p n)"
  using fold_min_bounds [of "\<lambda>p. mc_get c p n" healthy "mc_get c (mc_local_node c) n"]
  unfolding Let_def watermark_get by auto

definition demo_clock :: MatrixClock where
  "demo_clock = MatrixClock_merge (snd (tick_local (MatrixClock_new 1))) (snd (tick_local (snd (tick_local (MatrixClock_new 2)))))"

theorem watermark_exact_witness:
  "hm_get_or 0 (watermark demo_clock [2]) 2 \<le> mc_get demo_clock 2 2"
  using watermark_exact [of demo_clock "[2]" 2] by (simp add: Let_def)

text \<open>the local row of a matrix clock dominates every other row, from its creation on and under every
  operation, so the local node is never what holds the watermark back; a merge only ever raises
  observations. The local counter must not be at its 64-bit maximum when it ticks.\<close>

theorem matrix_clock_invariant:
  assumes "mc_inv c" "mc_inv other" "mc_get c (mc_local_node c) (mc_local_node c) \<noteq> -1"
  shows "mc_inv (MatrixClock_new l) \<and> mc_inv (snd (tick_local c)) \<and> mc_inv (MatrixClock_merge c other) \<and>
    mc_inv (reroot l c) \<and> mc_inv (prune healthy c) \<and>
    (\<forall>p n. mc_get c p n \<le> mc_get (MatrixClock_merge c other) p n \<and>
      mc_get other p n \<le> mc_get (MatrixClock_merge c other) p n)"
proof -
  have "mc_get other p n \<le> mc_get (MatrixClock_merge c other) p n" for p n
    using assms(2) mx_get_le_top [of "mc_matrix other" p n]
    by (cases "p = mc_local_node c") (simp_all add: mc_get_merge mc_inv_def max.coboundedI2)
  moreover have "mc_get c p n \<le> mc_get (MatrixClock_merge c other) p n" for p n
    using assms(2) by (simp add: mc_get_merge mc_inv_def)
  ultimately show ?thesis
    using assms mc_inv_merge [of c other]
    by (simp add: mc_inv_new mc_inv_tick mc_inv_reroot mc_inv_prune) (simp add: mc_inv_def)
qed

theorem matrix_clock_invariant_witness:
  "mc_inv (MatrixClock_merge (MatrixClock_new 1) (MatrixClock_new 2))"
  using matrix_clock_invariant [OF mc_inv_new mc_inv_new, of 1 3 2 "[]"] by (simp add: MatrixClock_new_def mx_get_def)

text \<open>a matrix clock survives the wire: decoding at the position where it was written gives a clock
  of the same node with the same observations, and consumes exactly its bytes.\<close>

theorem matrix_clock_wire_roundtrip:
  assumes "mc_wire c"
  shows "\<exists>c'. MatrixClock_from_bytes (MatrixClock_to_bytes c buf @ rest) (length buf) =
      Some (c', length (MatrixClock_to_bytes c buf)) \<and>
    mc_local_node c' = mc_local_node c \<and> mc_get c' = mc_get c"
proof -
  have "holds_at (MatrixClock_to_bytes c buf @ rest) (length buf) (MatrixClock_to_bytes c [])"
    by (subst MatrixClock_push_append) (simp add: holds_at_def slice_def)
  with MatrixClock_read_at [OF assms] MatrixClock_push_append [of c buf] show ?thesis
    by (intro exI [of _ "mc_sorted c"]) simp
qed

theorem matrix_clock_wire_roundtrip_witness:
  "\<exists>c'. MatrixClock_from_bytes (MatrixClock_to_bytes (snd (tick_local (MatrixClock_new 4))) [] @ [7]) 0 =
      Some (c', length (MatrixClock_to_bytes (snd (tick_local (MatrixClock_new 4))) [])) \<and> mc_get c' 4 4 = 1"
proof -
  have "mc_wire (snd (tick_local (MatrixClock_new 4)))"
    by (simp add: mc_wire_def mx_wf_def tick_local_def MatrixClock_new_def Let_def hm_upsert_def)
  from matrix_clock_wire_roundtrip [OF this, of "[]" "[7]"] show ?thesis
    by (auto simp: tick_local_def MatrixClock_new_def Let_def mx_get_upsert) (simp add: mx_get_def hm_upsert_def)
qed

end
