(* ===== verification/Crdt_Sets.thy ===== *)
theory Crdt_Sets
  imports Crdt_Clocks
begin

text \<open>
  The sets with removal of \<open>src/runtime/crdt.rs\<close>: \<open>ORSet\<close>, whose elements carry unique tags that a
  removal turns into stamped tombstones, and \<open>AWORSet\<close>, which compares the latest add and remove times
  of an element.
\<close>

subsection \<open>ORSet\<close>

datatype Tag = Tag (tag_node_id: u32) (tag_counter: u32)

record 'a ORSet =
  or_entries :: "('a, Tag hashset) hashmap"
  or_removed :: "(Tag, LamportTime) hashmap"
  or_tag_counter :: u64
  or_node_id :: u64
  or_matrix :: MatrixClock

definition ORSet_new :: "u64 \<Rightarrow> 'a ORSet" where
  "ORSet_new node_id = \<lparr>or_entries = [], or_removed = [], or_tag_counter = 0, or_node_id = node_id,
     or_matrix = MatrixClock_new node_id\<rparr>"

definition fresh_tag :: "'a ORSet \<Rightarrow> Tag \<times> 'a ORSet" where
  "fresh_tag s = (Tag (ucast (or_node_id s)) (ucast (or_tag_counter s)),
     s\<lparr>or_tag_counter := or_tag_counter s + 1\<rparr>)"

definition ORSet_add :: "'a \<Rightarrow> 'a ORSet \<Rightarrow> 'a ORSet" where
  "ORSet_add element s =
     (let (tag, s') = fresh_tag s
      in s'\<lparr>or_entries := hm_upsert [] (hs_insert tag) element (or_entries s')\<rparr>)"

definition ORSet_remove :: "'a \<Rightarrow> 'a ORSet \<Rightarrow> 'a ORSet" where
  "ORSet_remove element s =
     (case map_of (or_entries s) element of
        None \<Rightarrow> s
      | Some tags \<Rightarrow>
          let (rt, matrix) = tick_local (or_matrix s)
          in s\<lparr>or_entries := hm_remove element (or_entries s), or_matrix := matrix,
               or_removed := fold (\<lambda>tag. hm_insert tag (LamportTime rt (or_node_id s))) tags (or_removed s)\<rparr>)"

definition ORSet_contains :: "'a \<Rightarrow> 'a ORSet \<Rightarrow> bool" where
  "ORSet_contains element s \<longleftrightarrow>
     (case map_of (or_entries s) element of None \<Rightarrow> False | Some tags \<Rightarrow> tags \<noteq> [])"

definition ORSet_value :: "'a ORSet \<Rightarrow> 'a hashset" where
  "ORSet_value s = map fst (filter (\<lambda>(_, tags). tags \<noteq> []) (or_entries s))"

definition ORSet_delta_since :: "'a ORSet \<Rightarrow> 'a ORSet \<Rightarrow> 'a ORSet option" where
  "ORSet_delta_since s base =
     (let entries = filter (\<lambda>(_, tags). tags \<noteq> [])
            (map (\<lambda>(element, tags). (element, filter (\<lambda>t.
                case map_of (or_entries base) element of None \<Rightarrow> True | Some bt \<Rightarrow> t \<notin> set bt) tags)) (or_entries s));
          removed = filter (\<lambda>(tag, _). map_of (or_removed base) tag = None) (or_removed s)
      in if entries = [] \<and> removed = [] then None
         else Some \<lparr>or_entries = entries, or_removed = removed, or_tag_counter = or_tag_counter s,
                    or_node_id = or_node_id s, or_matrix = or_matrix s\<rparr>)"

definition ORSet_gc_tombstones :: "(u64, u64) hashmap \<Rightarrow> 'a ORSet \<Rightarrow> 'a ORSet" where
  "ORSet_gc_tombstones wm s =
     s\<lparr>or_removed := filter (\<lambda>(_, rt). lt_counter rt > hm_get_or 0 wm (lt_node_id rt)) (or_removed s)\<rparr>"

text \<open>\<open>match m.get(k) { Some(existing) if v <= existing => {}, _ => insert }\<close>\<close>

definition keep_latest :: "'k \<times> 'v::linorder \<Rightarrow> ('k, 'v) hashmap \<Rightarrow> ('k, 'v) hashmap" where
  "keep_latest kv m =
     (case map_of m (fst kv) of
        Some existing \<Rightarrow> if snd kv \<le> existing then m else hm_insert (fst kv) (snd kv) m
      | None \<Rightarrow> hm_insert (fst kv) (snd kv) m)"

definition ORSet_merge :: "'a ORSet \<Rightarrow> 'a ORSet \<Rightarrow> 'a ORSet" where
  "ORSet_merge s other =
     (let entries1 = map (\<lambda>(e, tags). (e, filter (\<lambda>t. map_of (or_removed other) t = None) tags)) (or_entries s);
          removed' = fold keep_latest (or_removed other) (or_removed s);
          entries2 = fold (\<lambda>(element, tags). hm_upsert []
              (\<lambda>entry. fold (\<lambda>tag en. if map_of removed' tag = None then hs_insert tag en else en) tags entry) element)
            (or_entries other) entries1
      in s\<lparr>or_entries := entries2, or_removed := removed',
           or_tag_counter := max (or_tag_counter s) (or_tag_counter other),
           or_matrix := MatrixClock_merge (or_matrix s) (or_matrix other)\<rparr>)"

text \<open>A tag travels as one 64-bit integer, the node in the high half.\<close>

definition push_tag :: "Tag \<Rightarrow> bytes \<Rightarrow> bytes" where
  "push_tag tag = push_u64 (push_bit 32 (ucast (tag_node_id tag)) OR ucast (tag_counter tag))"

definition read_tag :: "bytes \<Rightarrow> nat \<Rightarrow> (Tag \<times> nat) option" where
  "read_tag bs pos =
     (case read_u64 bs pos of
        None \<Rightarrow> None
      | Some (tag_val, p) \<Rightarrow> Some (Tag (ucast (drop_bit 32 tag_val)) (ucast tag_val), p))"

definition push_time :: "LamportTime \<Rightarrow> bytes \<Rightarrow> bytes" where
  "push_time ts buf = push_u64 (lt_node_id ts) (push_u64 (lt_counter ts) buf)"

definition read_time :: "bytes \<Rightarrow> nat \<Rightarrow> (LamportTime \<times> nat) option" where
  "read_time bs pos =
     (case read_u64 bs pos of
        None \<Rightarrow> None
      | Some (cnt, p) \<Rightarrow>
          (case read_u64 bs p of None \<Rightarrow> None | Some (nid, p) \<Rightarrow> Some (LamportTime cnt nid, p)))"

definition ORSet_to_bytes :: "string ORSet \<Rightarrow> bytes" where
  "ORSet_to_bytes s =
     MatrixClock_to_bytes (or_matrix s)
       (push_counted (push_pair push_tag push_time) (or_removed s)
         (push_counted (push_pair push_string (push_counted push_tag)) (or_entries s)
           (push_u64 (or_tag_counter s) (push_u64 (or_node_id s) []))))"

definition ORSet_from_bytes :: "bytes \<Rightarrow> string ORSet option" where
  "ORSet_from_bytes bs =
     (case read_u64 bs 0 of None \<Rightarrow> None | Some (node_id, pos) \<Rightarrow>
     (case read_u64 bs pos of None \<Rightarrow> None | Some (tctr, pos) \<Rightarrow>
     (case read_counted (read_pair read_string (read_counted read_tag hs_insert [])) hm_collect [] bs pos of
        None \<Rightarrow> None | Some (entries, pos) \<Rightarrow>
     (case read_counted (read_pair read_tag read_time) hm_collect [] bs pos of
        None \<Rightarrow> None | Some (removed, pos) \<Rightarrow>
     (case MatrixClock_from_bytes bs pos of None \<Rightarrow> None | Some (matrix, pos) \<Rightarrow>
        Some \<lparr>or_entries = entries, or_removed = removed, or_tag_counter = tctr,
              or_node_id = node_id, or_matrix = matrix\<rparr>)))))"

subsection \<open>AWORSet\<close>

record 'a AWORSet =
  aw_entries :: "('a, LamportTime) hashmap"
  aw_removed :: "('a, LamportTime) hashmap"
  aw_clock :: LamportClock
  aw_matrix :: MatrixClock

definition AWORSet_new :: "u64 \<Rightarrow> 'a AWORSet" where
  "AWORSet_new node_id = \<lparr>aw_entries = [], aw_removed = [], aw_clock = LamportClock_new node_id,
     aw_matrix = MatrixClock_new node_id\<rparr>"

text \<open>The stamp of a local operation: a tick of the matrix clock, which the Lamport counter follows.\<close>

definition aw_stamp :: "'a AWORSet \<Rightarrow> LamportTime \<times> 'a AWORSet" where
  "aw_stamp s =
     (let (ts, matrix) = tick_local (aw_matrix s); clock = aw_clock s
      in (LamportTime ts (lc_node_id clock),
          s\<lparr>aw_matrix := matrix, aw_clock := clock\<lparr>lc_counter := max (lc_counter clock) ts\<rparr>\<rparr>))"

definition AWORSet_add :: "'a \<Rightarrow> 'a AWORSet \<Rightarrow> 'a AWORSet" where
  "AWORSet_add element s =
     (let (ts, s') = aw_stamp s in s'\<lparr>aw_entries := hm_insert element ts (aw_entries s')\<rparr>)"

definition AWORSet_remove :: "'a \<Rightarrow> 'a AWORSet \<Rightarrow> 'a AWORSet" where
  "AWORSet_remove element s =
     (let (ts, s') = aw_stamp s in s'\<lparr>aw_removed := hm_insert element ts (aw_removed s')\<rparr>)"

definition AWORSet_contains :: "'a \<Rightarrow> 'a AWORSet \<Rightarrow> bool" where
  "AWORSet_contains element s \<longleftrightarrow>
     (case (map_of (aw_entries s) element, map_of (aw_removed s) element) of
        (Some add_ts, Some rem_ts) \<Rightarrow> is_greater_than add_ts rem_ts
      | (Some _, None) \<Rightarrow> True
      | (None, _) \<Rightarrow> False)"

definition AWORSet_value :: "'a AWORSet \<Rightarrow> 'a hashset" where
  "AWORSet_value s = filter (\<lambda>e. AWORSet_contains e s) (map fst (aw_entries s))"

definition newer_than :: "('k, 'v::linorder) hashmap \<Rightarrow> ('k, 'v) hashmap \<Rightarrow> ('k, 'v) hashmap" where
  "newer_than base m =
     filter (\<lambda>(element, ts). case map_of base element of None \<Rightarrow> True | Some bts \<Rightarrow> ts > bts) m"

definition AWORSet_delta_since :: "'a AWORSet \<Rightarrow> 'a AWORSet \<Rightarrow> 'a AWORSet option" where
  "AWORSet_delta_since s base =
     (let entries = newer_than (aw_entries base) (aw_entries s);
          removed = newer_than (aw_removed base) (aw_removed s)
      in if entries = [] \<and> removed = [] then None
         else Some \<lparr>aw_entries = entries, aw_removed = removed, aw_clock = aw_clock s, aw_matrix = aw_matrix s\<rparr>)"

definition AWORSet_gc_tombstones :: "(u64, u64) hashmap \<Rightarrow> 'a AWORSet \<Rightarrow> 'a AWORSet" where
  "AWORSet_gc_tombstones wm s =
     s\<lparr>aw_removed := filter (\<lambda>(_, ts). lt_counter ts > hm_get_or 0 wm (lt_node_id ts)) (aw_removed s)\<rparr>"

definition AWORSet_merge :: "'a AWORSet \<Rightarrow> 'a AWORSet \<Rightarrow> 'a AWORSet" where
  "AWORSet_merge s other =
     s\<lparr>aw_entries := fold keep_latest (aw_entries other) (aw_entries s),
       aw_removed := fold keep_latest (aw_removed other) (aw_removed s),
       aw_clock := (aw_clock s)\<lparr>lc_counter := max (lc_counter (aw_clock s)) (lc_counter (aw_clock other))\<rparr>,
       aw_matrix := MatrixClock_merge (aw_matrix s) (aw_matrix other)\<rparr>"

abbreviation push_stamped :: "string \<times> LamportTime \<Rightarrow> bytes \<Rightarrow> bytes" where
  "push_stamped \<equiv> push_pair push_string push_time"

abbreviation read_stamped :: "bytes \<Rightarrow> nat \<Rightarrow> ((string \<times> LamportTime) \<times> nat) option" where
  "read_stamped \<equiv> read_pair read_string read_time"

definition AWORSet_to_bytes :: "string AWORSet \<Rightarrow> bytes" where
  "AWORSet_to_bytes s =
     MatrixClock_to_bytes (aw_matrix s)
       (push_counted push_stamped (aw_removed s)
         (push_counted push_stamped (aw_entries s)
           (push_u64 (lc_counter (aw_clock s)) (push_u64 (lc_node_id (aw_clock s)) []))))"

definition AWORSet_from_bytes :: "bytes \<Rightarrow> string AWORSet option" where
  "AWORSet_from_bytes bs =
     (case read_u64 bs 0 of None \<Rightarrow> None | Some (node_id, pos) \<Rightarrow>
     (case read_u64 bs pos of None \<Rightarrow> None | Some (counter, pos) \<Rightarrow>
     (case read_counted read_stamped hm_collect [] bs pos of None \<Rightarrow> None | Some (entries, pos) \<Rightarrow>
     (case read_counted read_stamped hm_collect [] bs pos of None \<Rightarrow> None | Some (removed, pos) \<Rightarrow>
     (case MatrixClock_from_bytes bs pos of None \<Rightarrow> None | Some (matrix, pos) \<Rightarrow>
        Some \<lparr>aw_entries = entries, aw_removed = removed,
              aw_clock = \<lparr>lc_node_id = node_id, lc_counter = counter\<rparr>, aw_matrix = matrix\<rparr>)))))"

subsection \<open>Keeping the latest stamp\<close>

lemma map_of_filter_case:
  assumes "hm_wf m"
  shows "map_of (filter (\<lambda>(k, v). Q k v) m) k = (case map_of m k of None \<Rightarrow> None | Some v \<Rightarrow> if Q k v then Some v else None)"
  using assms
proof (induction m)
  case (Cons kv m)
  obtain k' v where kv: "kv = (k', v)" by force
  then have "map_of m k' = None" "map_of (filter (\<lambda>(k, v). Q k v) m) k' = None"
    using Cons.prems by (auto simp: map_of_eq_None_iff)
  with Cons kv show ?case by (auto split: option.splits)
qed simp

lemma keep_latest_get [simp]:
  "map_of (keep_latest kv m) k = (if k = fst kv then max_opt (map_of m k) (Some (snd kv)) else map_of m k)"
  by (auto simp: keep_latest_def max_def split: option.splits)

lemma hm_wf_keep_latest [simp]: "hm_wf m \<Longrightarrow> hm_wf (keep_latest kv m)"
  by (auto simp: keep_latest_def split: option.splits)

lemma fold_keep_latest:
  assumes "hm_wf xs"
  shows "map_of (fold keep_latest xs m) k = max_opt (map_of m k) (map_of xs k)"
  using assms
proof (induction xs arbitrary: m)
  case (Cons kv xs)
  obtain k' v where kv: "kv = (k', v)" by force
  then have "map_of xs k' = None" using Cons.prems by (auto simp: map_of_eq_None_iff)
  with Cons kv show ?case by auto
qed simp

lemma hm_wf_fold_keep_latest: "hm_wf m \<Longrightarrow> hm_wf (fold keep_latest xs m)"
  by (induction xs arbitrary: m) auto

definition join_opt :: "('k \<Rightarrow> 'v::linorder option) \<Rightarrow> ('k \<Rightarrow> 'v option) \<Rightarrow> 'k \<Rightarrow> 'v option" where
  "join_opt f g = (\<lambda>k. max_opt (f k) (g k))"

lemma max_opt_left_comm: "max_opt a (max_opt b c) = max_opt b (max_opt a c)"
  by (metis max_opt_assoc max_opt_comm)

lemma join_opt_laws:
  "join_opt (join_opt f g) h = join_opt f (join_opt g h)" "join_opt f g = join_opt g f"
  "join_opt f (join_opt g h) = join_opt g (join_opt f h)" "join_opt f f = f"
  by (simp_all add: join_opt_def fun_eq_iff max_opt_assoc max_opt_comm max_opt_left_comm)

lemma dom_join_opt [simp]: "dom (join_opt f g) = dom f \<union> dom g"
  by (auto simp: join_opt_def max_opt_def split: option.splits)

lemma map_of_fold_keep_latest: "hm_wf xs \<Longrightarrow> map_of (fold keep_latest xs m) = join_opt (map_of m) (map_of xs)"
  by (rule ext) (simp add: fold_keep_latest join_opt_def)

subsection \<open>ORSet as a join\<close>

definition or_tags :: "'a ORSet \<Rightarrow> 'a \<Rightarrow> Tag set" where
  "or_tags s e = set (hm_get_or [] (or_entries s) e)"

text \<open>A live tag is not a tombstone, and belongs to the element \<open>own\<close> it was issued for.\<close>

definition or_inv :: "(Tag \<Rightarrow> 'a) \<Rightarrow> 'a ORSet \<Rightarrow> bool" where
  "or_inv own s \<longleftrightarrow> hm_wf (or_entries s) \<and> hm_wf (or_removed s) \<and>
     (\<forall>e t. t \<in> or_tags s e \<longrightarrow> map_of (or_removed s) t = None \<and> own t = e)"

definition or_abs :: "'a ORSet \<Rightarrow> ('a \<Rightarrow> Tag set) \<times> (Tag \<rightharpoonup> LamportTime)" where
  "or_abs s = (or_tags s, map_of (or_removed s))"

definition or_join :: "('a \<Rightarrow> Tag set) \<times> (Tag \<rightharpoonup> LamportTime) \<Rightarrow> ('a \<Rightarrow> Tag set) \<times> (Tag \<rightharpoonup> LamportTime) \<Rightarrow>
    ('a \<Rightarrow> Tag set) \<times> (Tag \<rightharpoonup> LamportTime)" where
  "or_join a b = (let r = join_opt (snd a) (snd b) in (\<lambda>e. (fst a e \<union> fst b e) - dom r, r))"

lemma contains_tags: "ORSet_contains e s \<longleftrightarrow> or_tags s e \<noteq> {}"
  by (cases "map_of (or_entries s) e") (simp_all add: ORSet_contains_def or_tags_def hm_get_or_def)

lemma value_contains:
  assumes "hm_wf (or_entries s)"
  shows "e \<in> set (ORSet_value s) \<longleftrightarrow> ORSet_contains e s"
proof -
  have "e \<in> set (ORSet_value s) \<longleftrightarrow> (\<exists>tags. map_of (or_entries s) e = Some tags \<and> tags \<noteq> [])"
    using assms by (force simp: ORSet_value_def)
  then show ?thesis by (simp add: ORSet_contains_def split: option.split)
qed

lemma map_of_map_snd: "map_of (map (\<lambda>(k, v). (k, f k v)) m) k = map_option (f k) (map_of m k)"
  by (induction m) auto

lemma hm_get_or_map_snd: "f k [] = [] \<Longrightarrow> hm_get_or [] (map (\<lambda>(k, v). (k, f k v)) m) k = f k (hm_get_or [] m k)"
  by (simp add: hm_get_or_def map_of_map_snd split: option.splits)

lemma hm_wf_map_snd: "hm_wf (map (\<lambda>(k, v). (k, f k v)) m) \<longleftrightarrow> hm_wf m"
  by (simp add: comp_def case_prod_unfold)

lemma fold_upsert_get:
  assumes "hm_wf xs"
  shows "hm_get_or d (fold (\<lambda>(k, v). hm_upsert d (G v) k) xs m) k =
    (case map_of xs k of None \<Rightarrow> hm_get_or d m k | Some v \<Rightarrow> G v (hm_get_or d m k))"
  using assms
proof (induction xs arbitrary: m)
  case (Cons kv xs)
  obtain k' v where kv: "kv = (k', v)" by force
  then have "map_of xs k' = None" using Cons.prems by (auto simp: map_of_eq_None_iff)
  with Cons kv show ?case by (auto simp: hm_get_or_upsert split: option.splits)
qed simp

lemma set_fold_live:
  "set (fold (\<lambda>tag en. if r tag = None then hs_insert tag en else en) tags entry) = set entry \<union> (set tags - dom r)"
  by (induction tags arbitrary: entry) auto

lemma or_removed_merge:
  "hm_wf (or_removed other) \<Longrightarrow>
    map_of (or_removed (ORSet_merge s other)) = join_opt (map_of (or_removed s)) (map_of (or_removed other))"
  by (simp add: ORSet_merge_def Let_def map_of_fold_keep_latest)

lemma or_tags_merge:
  assumes "or_inv own s" "or_inv own other"
  shows "or_tags (ORSet_merge s other) e =
    (or_tags s e \<union> or_tags other e) - dom (join_opt (map_of (or_removed s)) (map_of (or_removed other)))"
proof -
  let ?r = "map_of (fold keep_latest (or_removed other) (or_removed s))"
  let ?m = "map (\<lambda>(e, tags). (e, filter (\<lambda>t. map_of (or_removed other) t = None) tags)) (or_entries s)"
  have r: "?r = join_opt (map_of (or_removed s)) (map_of (or_removed other))"
    using assms by (simp add: or_inv_def map_of_fold_keep_latest)
  let ?add = "\<lambda>tags entry. fold (\<lambda>tag en. if ?r tag = None then hs_insert tag en else en) tags entry"
  have wf: "hm_wf (or_entries other)" using assms(2) by (simp add: or_inv_def)
  have "or_tags (ORSet_merge s other) e =
      set (case map_of (or_entries other) e of None \<Rightarrow> hm_get_or [] ?m e | Some tags \<Rightarrow> ?add tags (hm_get_or [] ?m e))"
    using fold_upsert_get [OF wf, of "[]" ?add ?m e] by (simp add: or_tags_def ORSet_merge_def Let_def)
  also have "\<dots> = set (hm_get_or [] ?m e) \<union> (or_tags other e - dom ?r)"
    by (simp add: set_fold_live or_tags_def hm_get_or_def [of _ "or_entries other"] split: option.split)
  also have "\<dots> = (or_tags s e \<union> or_tags other e) - dom ?r"
  proof -
    have "set (hm_get_or [] ?m e) = or_tags s e - dom (map_of (or_removed other))"
      by (auto simp: hm_get_or_map_snd or_tags_def domIff)
    moreover have "or_tags s e \<inter> dom (map_of (or_removed s)) = {}"
      using assms(1) by (auto simp: or_inv_def domIff)
    ultimately show ?thesis unfolding r dom_join_opt by blast
  qed
  finally show ?thesis unfolding r .
qed

lemma or_abs_merge: "or_inv own s \<Longrightarrow> or_inv own other \<Longrightarrow> or_abs (ORSet_merge s other) = or_join (or_abs s) (or_abs other)"
  by (rule prod_eqI)
    (auto simp: or_abs_def or_join_def Let_def or_tags_merge or_removed_merge or_inv_def [of _ other] fun_eq_iff)

lemma or_inv_merge:
  assumes "or_inv own s" "or_inv own other"
  shows "or_inv own (ORSet_merge s other)"
proof -
  have "hm_wf (or_entries (ORSet_merge s other))"
    using assms hm_wf_map_snd [of "\<lambda>_. filter (\<lambda>t. map_of (or_removed other) t = None)" "or_entries s"]
    by (simp add: ORSet_merge_def Let_def or_inv_def hm_wf_fold_upsert)
  moreover have "hm_wf (or_removed (ORSet_merge s other))"
    using assms by (simp add: ORSet_merge_def Let_def or_inv_def hm_wf_fold_keep_latest)
  moreover have "hm_wf (or_removed other)" using assms(2) by (simp add: or_inv_def)
  ultimately show ?thesis
    using assms unfolding or_inv_def [of _ "ORSet_merge s other"] or_tags_merge [OF assms]
    by (auto simp: or_removed_merge domIff or_inv_def simp del: dom_join_opt)
qed

interpretation orset: crdt "or_inv own" or_abs ORSet_merge or_join for own :: "Tag \<Rightarrow> 'a"
proof unfold_locales
  fix s :: "'a ORSet"
  assume "or_inv own s"
  then show "or_join (or_abs s) (or_abs s) = or_abs s"
    by (auto simp: or_join_def or_abs_def Let_def join_opt_laws or_inv_def fun_eq_iff)
next
  fix s t u :: "'a ORSet"
  show "or_join (or_join (or_abs s) (or_abs t)) (or_abs u) = or_join (or_abs s) (or_join (or_abs t) (or_abs u))"
    by (auto simp: or_join_def Let_def join_opt_laws fun_eq_iff)
  show "or_join (or_abs s) (or_abs t) = or_join (or_abs t) (or_abs s)"
    by (simp add: or_join_def Let_def join_opt_laws(2) [of "snd (or_abs s)"] Un_commute)
qed (simp_all add: or_inv_merge or_abs_merge)

text \<open>Deltas are exact on membership: on live tags and on which tags are tombstones.\<close>

definition or_vis :: "'a ORSet \<Rightarrow> ('a \<Rightarrow> Tag set) \<times> Tag set" where
  "or_vis s = (or_tags s, dom (map_of (or_removed s)))"

definition or_vjoin :: "('a \<Rightarrow> Tag set) \<times> Tag set \<Rightarrow> ('a \<Rightarrow> Tag set) \<times> Tag set \<Rightarrow> ('a \<Rightarrow> Tag set) \<times> Tag set" where
  "or_vjoin a b = (\<lambda>e. (fst a e \<union> fst b e) - (snd a \<union> snd b), snd a \<union> snd b)"

definition or_delta_entries :: "'a ORSet \<Rightarrow> 'a ORSet \<Rightarrow> ('a, Tag hashset) hashmap" where
  "or_delta_entries s base = filter (\<lambda>(_, tags). tags \<noteq> [])
     (map (\<lambda>(element, tags). (element, filter (\<lambda>t.
        case map_of (or_entries base) element of None \<Rightarrow> True | Some bt \<Rightarrow> t \<notin> set bt) tags)) (or_entries s))"

definition or_delta_removed :: "'a ORSet \<Rightarrow> 'a ORSet \<Rightarrow> (Tag, LamportTime) hashmap" where
  "or_delta_removed s base = filter (\<lambda>(tag, _). map_of (or_removed base) tag = None) (or_removed s)"

lemma ORSet_delta_since_eq:
  "ORSet_delta_since s base =
     (if or_delta_entries s base = [] \<and> or_delta_removed s base = [] then None
      else Some (s\<lparr>or_entries := or_delta_entries s base, or_removed := or_delta_removed s base\<rparr>))"
  by (simp add: ORSet_delta_since_def or_delta_entries_def or_delta_removed_def Let_def)

lemma or_delta_tags:
  assumes "hm_wf (or_entries s)"
  shows "set (hm_get_or [] (or_delta_entries s base) e) = or_tags s e - or_tags base e"
proof -
  let ?f = "\<lambda>element. filter (\<lambda>t. case map_of (or_entries base) element of None \<Rightarrow> True | Some bt \<Rightarrow> t \<notin> set bt)"
  let ?m = "map (\<lambda>(element, tags). (element, ?f element tags)) (or_entries s)"
  have "hm_wf ?m" using assms hm_wf_map_snd [of ?f "or_entries s"] by simp
  then have "hm_get_or [] (or_delta_entries s base) e = hm_get_or [] ?m e"
    using hm_get_or_filter [of ?m "[]" "\<lambda>_ tags. tags \<noteq> []" e] by (simp add: or_delta_entries_def)
  also have "\<dots> = ?f e (hm_get_or [] (or_entries s) e)"
    by (rule hm_get_or_map_snd) simp
  finally show ?thesis
    by (auto simp: or_tags_def hm_get_or_def [of _ "or_entries base"] split: option.splits)
qed

lemma or_delta_dead:
  "dom (map_of (or_delta_removed s base)) = dom (map_of (or_removed s)) - dom (map_of (or_removed base))"
  by (force simp: or_delta_removed_def dom_map_of_conv_image_fst domIff map_of_eq_None_iff)

lemma hm_wf_delta:
  assumes "hm_wf (or_entries s)" "hm_wf (or_removed s)"
  shows "hm_wf (or_delta_entries s base)" "hm_wf (or_delta_removed s base)"
  using assms hm_wf_map_snd [of "\<lambda>element. filter (\<lambda>t. case map_of (or_entries base) element of
      None \<Rightarrow> True | Some bt \<Rightarrow> t \<notin> set bt)" "or_entries s"]
  by (auto simp: or_delta_entries_def or_delta_removed_def intro!: hm_wf_filter)

lemma or_inv_delta:
  assumes "or_inv own s" "ORSet_delta_since s b = Some d"
  shows "or_inv own d"
proof -
  have d: "d = s\<lparr>or_entries := or_delta_entries s b, or_removed := or_delta_removed s b\<rparr>"
    using assms(2) by (simp add: ORSet_delta_since_eq split: if_splits)
  have wf: "hm_wf (or_entries s)" "hm_wf (or_removed s)" using assms(1) by (auto simp: or_inv_def)
  have "map_of (or_delta_removed s b) t = None \<and> own t = e" if "t \<in> or_tags s e" for t e
    using assms(1) that or_delta_dead [of s b] unfolding or_inv_def by blast
  with hm_wf_delta [OF wf, of b] or_delta_tags [OF wf(1), of b] show ?thesis
    by (auto simp: d or_inv_def or_tags_def [of d] or_tags_def [of "_ \<lparr>or_removed := _\<rparr>"] domIff)
qed

lemma or_delta_law:
  assumes "or_inv own s" "or_inv own b" "or_inv own r" "or_vjoin (or_vis b) (or_vis r) = or_vis r"
  shows "or_vis (apply_delta ORSet_merge r (ORSet_delta_since s b)) = or_vjoin (or_vis r) (or_vis s)"
proof -
  let ?D = "\<lambda>s. dom (map_of (or_removed s))"
  have wf: "hm_wf (or_entries s)" "hm_wf (or_removed s)" using assms(1) by (auto simp: or_inv_def)
  have "(\<lambda>e. (or_tags b e \<union> or_tags r e) - (?D b \<union> ?D r)) = or_tags r \<and> ?D b \<union> ?D r = ?D r"
    using assms(4) unfolding or_vjoin_def or_vis_def fst_conv snd_conv prod.inject .
  then have below: "?D b \<subseteq> ?D r" "\<And>e. or_tags b e \<subseteq> or_tags r e \<union> ?D r"
    unfolding fun_eq_iff by blast+
  have dead: "or_tags r e \<inter> ?D r = {}" for e using assms(3) by (auto simp: or_inv_def)
  show ?thesis
  proof (cases "ORSet_delta_since s b")
    case None
    then have e: "or_delta_entries s b = []" "or_delta_removed s b = []"
      by (auto simp: ORSet_delta_since_eq split: if_splits)
    have "or_tags s e \<subseteq> or_tags b e" for e using or_delta_tags [OF wf(1), of b e] e by simp
    moreover have "?D s \<subseteq> ?D b" using or_delta_dead [of s b] e by simp
    ultimately have "or_tags r e = (or_tags r e \<union> or_tags s e) - (?D r \<union> ?D s)" "?D r \<union> ?D s = ?D r" for e
      using below dead [of e] by blast+
    with None show ?thesis by (simp add: apply_delta_def or_vis_def or_vjoin_def)
  next
    case (Some d)
    then have d: "or_entries d = or_delta_entries s b" "or_removed d = or_delta_removed s b"
      by (auto simp: ORSet_delta_since_eq split: if_splits)
    have inv: "or_inv own d" by (rule or_inv_delta [OF assms(1) Some])
    have "or_tags d e = or_tags s e - or_tags b e" for e
      using or_delta_tags [OF wf(1), of b e] by (simp add: or_tags_def [of d] d)
    moreover have "?D d = ?D s - ?D b" unfolding d by (rule or_delta_dead)
    moreover have "hm_wf (or_removed d)" using inv by (simp add: or_inv_def)
    ultimately have "?D (ORSet_merge r d) = ?D r \<union> (?D s - ?D b)"
      "\<And>e. or_tags (ORSet_merge r d) e = (or_tags r e \<union> (or_tags s e - or_tags b e)) - (?D r \<union> (?D s - ?D b))"
      by (simp_all add: or_tags_merge [OF assms(3) inv] or_removed_merge)
    moreover have "?D r \<union> (?D s - ?D b) = ?D r \<union> ?D s"
      "(or_tags r e \<union> (or_tags s e - or_tags b e)) - (?D r \<union> ?D s) = (or_tags r e \<union> or_tags s e) - (?D r \<union> ?D s)" for e
      using below by blast+
    ultimately show ?thesis using Some by (simp add: apply_delta_def or_vis_def or_vjoin_def fun_eq_iff)
  qed
qed

interpretation orset_delta: delta_crdt "or_inv own" or_vis ORSet_merge or_vjoin ORSet_delta_since for own :: "Tag \<Rightarrow> 'a"
proof unfold_locales
  fix s t :: "'a ORSet"
  show "or_inv own s \<Longrightarrow> or_inv own t \<Longrightarrow> or_vis (ORSet_merge s t) = or_vjoin (or_vis s) (or_vis t)"
    using or_abs_merge [of own s t]
    by (simp add: or_abs_def or_join_def or_vis_def or_vjoin_def Let_def)
  show "or_inv own s \<Longrightarrow> or_vjoin (or_vis s) (or_vis s) = or_vis s"
    by (auto simp: or_vjoin_def or_vis_def or_inv_def fun_eq_iff)
qed (auto simp: or_inv_merge or_vjoin_def or_delta_law or_inv_delta fun_eq_iff)

subsection \<open>Local operations of ORSet\<close>

lemma or_tags_add:
  "or_tags (ORSet_add e s) x = (if x = e then insert (fst (fresh_tag s)) (or_tags s e) else or_tags s x)"
  by (simp add: ORSet_add_def fresh_tag_def or_tags_def hm_get_or_upsert)

lemma or_removed_add [simp]: "or_removed (ORSet_add e s) = or_removed s"
  by (simp add: ORSet_add_def fresh_tag_def)

lemma or_inv_add:
  assumes "or_inv own s" "map_of (or_removed s) (fst (fresh_tag s)) = None" "own (fst (fresh_tag s)) = e"
  shows "or_inv own (ORSet_add e s)"
proof -
  have "hm_wf (or_entries (ORSet_add e s))"
    using assms(1) by (simp add: or_inv_def ORSet_add_def fresh_tag_def)
  with assms show ?thesis by (auto simp: or_inv_def or_tags_add)
qed

lemma or_tags_remove: "or_tags (ORSet_remove e s) x = (if x = e then {} else or_tags s x)"
proof (cases "map_of (or_entries s) e")
  case None
  then show ?thesis by (simp add: ORSet_remove_def or_tags_def hm_get_or_def)
next
  case (Some tags)
  then show ?thesis
    by (simp add: ORSet_remove_def or_tags_def hm_get_or_def case_prod_unfold Let_def delete_conv')
qed

lemma fold_insert_const: "map_of (fold (\<lambda>k. hm_insert k v) ks m) k = (if k \<in> set ks then Some v else map_of m k)"
  using fold_insert_fun [of "\<lambda>_. v" ks m k] .

lemma or_dead_remove:
  "dom (map_of (or_removed (ORSet_remove e s))) = dom (map_of (or_removed s)) \<union> or_tags s e"
proof (cases "map_of (or_entries s) e")
  case None
  then show ?thesis by (simp add: ORSet_remove_def or_tags_def hm_get_or_def)
next
  case (Some tags)
  then show ?thesis
    by (auto simp: ORSet_remove_def or_tags_def hm_get_or_def case_prod_unfold Let_def fold_insert_const
        dom_def split: if_splits)
qed

lemma hm_wf_fold_insert: "hm_wf m \<Longrightarrow> hm_wf (fold (\<lambda>k. hm_insert k v) ks m)"
  by (induction ks arbitrary: m) auto

lemma hm_wf_or_remove:
  "hm_wf (or_entries s) \<Longrightarrow> hm_wf (or_entries (ORSet_remove e s))"
  "hm_wf (or_removed s) \<Longrightarrow> hm_wf (or_removed (ORSet_remove e s))"
  by (auto simp: ORSet_remove_def case_prod_unfold Let_def hm_wf_fold_insert distinct_delete split: option.split)

lemma or_inv_remove:
  assumes "or_inv own s"
  shows "or_inv own (ORSet_remove e s)"
proof -
  have "map_of (or_removed (ORSet_remove e s)) t = None \<and> own t = x" if "t \<in> or_tags (ORSet_remove e s) x" for t x
  proof -
    have t: "t \<in> or_tags s x" "x \<noteq> e" using that by (auto simp: or_tags_remove split: if_splits)
    then have "own t = x" "map_of (or_removed s) t = None" "t \<notin> or_tags s e"
      using assms by (auto simp: or_inv_def)
    then show ?thesis using or_dead_remove [of e s] by blast
  qed
  with assms show ?thesis by (auto simp: or_inv_def hm_wf_or_remove)
qed

lemma contains_merge:
  assumes "or_inv own s" "or_inv own t"
  shows "ORSet_contains e (ORSet_merge s t) \<longleftrightarrow>
    (or_tags s e \<union> or_tags t e) - (dom (map_of (or_removed s)) \<union> dom (map_of (or_removed t))) \<noteq> {}"
  using or_tags_merge [OF assms, of e] by (simp add: contains_tags)

lemma or_gc_tags [simp]: "or_tags (ORSet_gc_tombstones wm s) = or_tags s"
  by (simp add: or_tags_def ORSet_gc_tombstones_def fun_eq_iff)

lemma or_gc_removed:
  "hm_wf (or_removed s) \<Longrightarrow> map_of (or_removed (ORSet_gc_tombstones wm s)) t =
    (case map_of (or_removed s) t of None \<Rightarrow> None
     | Some rt \<Rightarrow> if lt_counter rt > hm_get_or 0 wm (lt_node_id rt) then Some rt else None)"
  unfolding ORSet_gc_tombstones_def by (simp add: map_of_filter_case)

lemma or_inv_gc:
  assumes "or_inv own s"
  shows "or_inv own (ORSet_gc_tombstones wm s)"
proof -
  have wf: "hm_wf (or_removed s)" "hm_wf (or_entries s)" using assms by (simp_all add: or_inv_def)
  then have "hm_wf (or_removed (ORSet_gc_tombstones wm s))" "hm_wf (or_entries (ORSet_gc_tombstones wm s))"
    by (simp_all add: ORSet_gc_tombstones_def hm_wf_filter)
  with assms show ?thesis unfolding or_inv_def or_gc_tags by (simp add: or_gc_removed [OF wf(1)])
qed

subsection \<open>AWORSet as a join\<close>

definition aw_inv :: "'a AWORSet \<Rightarrow> bool" where
  "aw_inv s \<longleftrightarrow> hm_wf (aw_entries s) \<and> hm_wf (aw_removed s)"

definition aw_abs :: "'a AWORSet \<Rightarrow> ('a \<rightharpoonup> LamportTime) \<times> ('a \<rightharpoonup> LamportTime)" where
  "aw_abs s = (map_of (aw_entries s), map_of (aw_removed s))"

definition aw_join :: "('a \<rightharpoonup> LamportTime) \<times> ('a \<rightharpoonup> LamportTime) \<Rightarrow> ('a \<rightharpoonup> LamportTime) \<times> ('a \<rightharpoonup> LamportTime) \<Rightarrow>
    ('a \<rightharpoonup> LamportTime) \<times> ('a \<rightharpoonup> LamportTime)" where
  "aw_join a b = (join_opt (fst a) (fst b), join_opt (snd a) (snd b))"

lemma join_newer_than:
  assumes "hm_wf m" "join_opt (map_of b) r = r"
  shows "join_opt r (map_of (newer_than b m)) = join_opt r (map_of m)"
proof
  fix k
  have "max_opt (map_of b k) (r k) = r k" using fun_cong [OF assms(2), of k] by (simp add: join_opt_def)
  moreover have "map_of (newer_than b m) k = (case map_of m k of None \<Rightarrow> None
      | Some v \<Rightarrow> if (case map_of b k of None \<Rightarrow> True | Some bts \<Rightarrow> v > bts) then Some v else None)"
    unfolding newer_than_def by (rule map_of_filter_case [OF assms(1)])
  ultimately show "join_opt r (map_of (newer_than b m)) k = join_opt r (map_of m) k"
    by (auto simp: join_opt_def max_opt_def max_def split: option.splits if_splits)
qed

lemma hm_wf_newer_than: "hm_wf m \<Longrightarrow> hm_wf (newer_than b m)"
  unfolding newer_than_def by (rule hm_wf_filter)

lemma aw_inv_delta: "aw_inv s \<Longrightarrow> AWORSet_delta_since s b = Some d \<Longrightarrow> aw_inv d"
  by (auto simp: AWORSet_delta_since_def Let_def aw_inv_def hm_wf_newer_than split: if_splits)

lemma aw_abs_merge: "aw_inv t \<Longrightarrow> aw_abs (AWORSet_merge s t) = aw_join (aw_abs s) (aw_abs t)"
  by (simp add: aw_abs_def aw_join_def AWORSet_merge_def aw_inv_def map_of_fold_keep_latest)

lemma aw_delta_law:
  assumes "aw_inv s" "aw_inv b" "aw_inv r" "aw_join (aw_abs b) (aw_abs r) = aw_abs r"
  shows "aw_abs (apply_delta AWORSet_merge r (AWORSet_delta_since s b)) = aw_join (aw_abs r) (aw_abs s)"
proof -
  let ?e = "newer_than (aw_entries b) (aw_entries s)" and ?r = "newer_than (aw_removed b) (aw_removed s)"
  have eqs: "join_opt (map_of (aw_entries r)) (map_of ?e) = join_opt (map_of (aw_entries r)) (map_of (aw_entries s))"
    "join_opt (map_of (aw_removed r)) (map_of ?r) = join_opt (map_of (aw_removed r)) (map_of (aw_removed s))"
    using assms by (auto simp: aw_inv_def aw_join_def aw_abs_def intro!: join_newer_than)
  show ?thesis
  proof (cases "AWORSet_delta_since s b")
    case None
    then have e: "?e = []" "?r = []" by (auto simp: AWORSet_delta_since_def Let_def split: if_splits)
    have "join_opt f (map_of []) = f" for f :: "'a \<rightharpoonup> LamportTime" by (simp add: join_opt_def fun_eq_iff)
    with None eqs e show ?thesis by (simp add: apply_delta_def aw_abs_def aw_join_def)
  next
    case (Some d)
    then have "aw_entries d = ?e" "aw_removed d = ?r"
      by (auto simp: AWORSet_delta_since_def Let_def split: if_splits)
    with Some eqs aw_abs_merge [OF aw_inv_delta [OF assms(1) Some], of r] show ?thesis
      by (simp add: apply_delta_def aw_abs_def aw_join_def)
  qed
qed

interpretation aworset: delta_crdt aw_inv aw_abs AWORSet_merge aw_join AWORSet_delta_since
proof unfold_locales
  fix s b d :: "'a AWORSet"
  show "aw_inv s \<Longrightarrow> AWORSet_delta_since s b = Some d \<Longrightarrow> aw_inv d"
    by (rule aw_inv_delta)
  show "aw_inv s \<Longrightarrow> aw_inv b \<Longrightarrow> aw_inv (AWORSet_merge s b)"
    by (simp add: aw_inv_def AWORSet_merge_def hm_wf_fold_keep_latest)
qed (simp_all add: aw_abs_merge aw_delta_law, simp_all add: aw_join_def join_opt_laws)

lemma aw_contains_abs:
  "AWORSet_contains e s \<longleftrightarrow> (case fst (aw_abs s) e of None \<Rightarrow> False
     | Some add_ts \<Rightarrow> (case snd (aw_abs s) e of None \<Rightarrow> True | Some rem_ts \<Rightarrow> rem_ts < add_ts))"
  by (simp add: AWORSet_contains_def aw_abs_def split: option.split)

lemma aw_contains_cong: "aw_abs s = aw_abs t \<Longrightarrow> AWORSet_contains e s = AWORSet_contains e t"
  by (simp only: aw_contains_abs)

lemma aw_value_contains: "e \<in> set (AWORSet_value s) \<longleftrightarrow> AWORSet_contains e s"
  by (auto simp: AWORSet_value_def AWORSet_contains_def split: option.splits dest: map_of_SomeD intro: rev_image_eqI)

subsection \<open>Wire formats\<close>

lemma tag_bits:
  fixes n c :: u32
  shows "ucast (drop_bit 32 (push_bit 32 (ucast n :: u64) OR ucast c)) = n" "ucast (push_bit 32 (ucast n :: u64) OR ucast c) = c"
  by (rule bit_eqI; auto simp: bit_simps dest: bit_imp_le_length)+

interpretation tag_codec: codec push_tag read_tag "\<lambda>_. True"
proof
  fix x buf
  show "push_tag x buf = buf @ push_tag x []" by (simp add: push_tag_def push_u64_def)
  fix bs pos
  assume "holds_at bs pos (push_tag x [])"
  then show "read_tag bs pos = Some (x, pos + length (push_tag x []))"
    unfolding push_tag_def read_tag_def
    using u64_codec.read_at [OF TrueI, of bs pos "push_bit 32 (ucast (tag_node_id x)) OR ucast (tag_counter x)"]
    by (simp add: tag_bits [unfolded drop_bit_or])
qed

interpretation time_codec: codec push_time read_time "\<lambda>_. True"
proof
  fix x buf
  have app: "push_time x b = b @ push_u64 (lt_counter x) [] @ push_u64 (lt_node_id x) []" for b
    by (simp add: push_time_def push_u64_def)
  then show "push_time x buf = buf @ push_time x []" by simp
  fix bs pos
  assume "holds_at bs pos (push_time x [])"
  then have "holds_at bs pos (push_u64 (lt_counter x) [])" "holds_at bs (pos + 8) (push_u64 (lt_node_id x) [])"
    unfolding app by (simp_all add: push_u64_def)
  from this [THEN u64_codec.read_at [OF TrueI]] show "read_time bs pos = Some (x, pos + length (push_time x []))"
    unfolding app by (simp add: read_time_def push_u64_def)
qed

interpretation or_entry_codec: codec "push_pair push_string (push_counted push_tag)"
  "read_pair read_string (read_counted read_tag hs_insert [])"
  "\<lambda>x. wire_string (fst x) \<and> (length (snd x) < 2 ^ 32 \<and> (\<forall>t \<in> set (snd x). True) \<and> fold hs_insert (snd x) [] = snd x)"
  by (rule codec_pair [OF string_codec.codec_axioms codec_counted [OF tag_codec.codec_axioms]])

interpretation or_removed_codec: codec "push_pair push_tag push_time" "read_pair read_tag read_time" "\<lambda>x. True \<and> True"
  by (rule codec_pair [OF tag_codec.codec_axioms time_codec.codec_axioms])

interpretation stamped_codec: codec push_stamped read_stamped "\<lambda>x. wire_string (fst x) \<and> True"
  by (rule codec_pair [OF string_codec.codec_axioms time_codec.codec_axioms])

definition or_wire :: "string ORSet \<Rightarrow> bool" where
  "or_wire s \<longleftrightarrow> hm_wf (or_entries s) \<and> hm_wf (or_removed s) \<and> length (or_entries s) < 2 ^ 32 \<and>
     length (or_removed s) < 2 ^ 32 \<and> mc_wire (or_matrix s) \<and>
     (\<forall>(e, tags) \<in> set (or_entries s). wire_string e \<and> distinct tags \<and> length tags < 2 ^ 32)"

lemma fold_collect_wf: "hm_wf m \<Longrightarrow> fold hm_collect m [] = m"
  using fold_hm_insert [of "[]" m] by simp

lemma fold_hs_insert_distinct: "distinct xs \<Longrightarrow> fold hs_insert xs [] = xs"
  using hs_extend_fresh [of "[]" xs] by (simp add: hs_extend_def)

lemma ORSet_roundtrip:
  assumes "or_wire s"
  shows "ORSet_from_bytes (ORSet_to_bytes s) = Some (s\<lparr>or_matrix := mc_sorted (or_matrix s)\<rparr>)"
proof -
  let ?bs = "ORSet_to_bytes s"
  let ?E = "push_counted (push_pair push_string (push_counted push_tag)) (or_entries s) []"
  let ?R = "push_counted (push_pair push_tag push_time) (or_removed s) []"
  let ?M = "MatrixClock_to_bytes (or_matrix s) []"
  have bs: "?bs = push_u64 (or_node_id s) [] @ push_u64 (or_tag_counter s) [] @ ?E @ ?R @ ?M"
    unfolding ORSet_to_bytes_def
    by (subst MatrixClock_push_append, subst or_removed_codec.push_counted_append,
        subst or_entry_codec.push_counted_append) (simp add: push_u64_def)
  have h: "holds_at ?bs 0 (push_u64 (or_node_id s) [])" "holds_at ?bs 8 (push_u64 (or_tag_counter s) [])"
    "holds_at ?bs 16 ?E" "holds_at ?bs (16 + length ?E) ?R" "holds_at ?bs (16 + length ?E + length ?R) ?M"
    using holds_at_self [of ?bs] unfolding bs by (simp_all add: push_u64_def)
  have wf: "hm_wf (or_entries s)" "hm_wf (or_removed s)" and len: "length (or_entries s) < 2 ^ 32" "length (or_removed s) < 2 ^ 32"
    and mw: "mc_wire (or_matrix s)"
    and items: "\<forall>x \<in> set (or_entries s). wire_string (fst x) \<and> (length (snd x) < 2 ^ 32 \<and> (\<forall>t \<in> set (snd x). True) \<and>
        fold hs_insert (snd x) [] = snd x)"
    using assms by (auto simp: or_wire_def fold_hs_insert_distinct)
  have "\<forall>x \<in> set (or_removed s). True \<and> True" by simp
  note reads = u64_codec.read_at [OF TrueI h(1)] u64_codec.read_at [OF TrueI h(2)]
    or_entry_codec.read_counted_at [OF len(1) items h(3), of hm_collect "[]"]
    or_removed_codec.read_counted_at [OF len(2) this h(4), of hm_collect "[]"]
    MatrixClock_read_at [OF mw h(5)]
  show ?thesis using reads by (simp add: ORSet_from_bytes_def push_u64_def fold_collect_wf wf)
qed

definition aw_wire :: "string AWORSet \<Rightarrow> bool" where
  "aw_wire s \<longleftrightarrow> aw_inv s \<and> length (aw_entries s) < 2 ^ 32 \<and> length (aw_removed s) < 2 ^ 32 \<and> mc_wire (aw_matrix s) \<and>
     (\<forall>x \<in> set (aw_entries s) \<union> set (aw_removed s). wire_string (fst x))"

lemma AWORSet_roundtrip:
  assumes "aw_wire s"
  shows "AWORSet_from_bytes (AWORSet_to_bytes s) = Some (s\<lparr>aw_matrix := mc_sorted (aw_matrix s)\<rparr>)"
proof -
  let ?bs = "AWORSet_to_bytes s"
  let ?E = "push_counted push_stamped (aw_entries s) []" and ?R = "push_counted push_stamped (aw_removed s) []"
  let ?M = "MatrixClock_to_bytes (aw_matrix s) []"
  have bs: "?bs = push_u64 (lc_node_id (aw_clock s)) [] @ push_u64 (lc_counter (aw_clock s)) [] @ ?E @ ?R @ ?M"
    unfolding AWORSet_to_bytes_def
    using stamped_codec.push_counted_append [of "aw_entries s"
        "push_u64 (lc_counter (aw_clock s)) (push_u64 (lc_node_id (aw_clock s)) [])"]
    by (subst MatrixClock_push_append, subst stamped_codec.push_counted_append) (simp add: push_u64_def)
  have h: "holds_at ?bs 0 (push_u64 (lc_node_id (aw_clock s)) [])" "holds_at ?bs 8 (push_u64 (lc_counter (aw_clock s)) [])"
    "holds_at ?bs 16 ?E" "holds_at ?bs (16 + length ?E) ?R" "holds_at ?bs (16 + length ?E + length ?R) ?M"
    using holds_at_self [of ?bs] unfolding bs by (simp_all add: push_u64_def)
  have wf: "hm_wf (aw_entries s)" "hm_wf (aw_removed s)" and len: "length (aw_entries s) < 2 ^ 32" "length (aw_removed s) < 2 ^ 32"
    and mw: "mc_wire (aw_matrix s)"
    and items: "\<forall>x \<in> set (aw_entries s). wire_string (fst x) \<and> True" "\<forall>x \<in> set (aw_removed s). wire_string (fst x) \<and> True"
    using assms by (auto simp: aw_wire_def aw_inv_def)
  note reads = u64_codec.read_at [OF TrueI h(1)] u64_codec.read_at [OF TrueI h(2)]
    stamped_codec.read_counted_at [OF len(1) items(1) h(3), of hm_collect "[]"]
    stamped_codec.read_counted_at [OF len(2) items(2) h(4), of hm_collect "[]"]
    MatrixClock_read_at [OF mw h(5)]
  show ?thesis using reads by (simp add: AWORSet_from_bytes_def push_u64_def fold_collect_wf wf)
qed

subsection \<open>Properties\<close>

text \<open>C19: replicas of an observed-remove set converge. Two replicas that merged the same states, in any
  order and any number of times, have the same live tags, the same tombstones with the same stamps, and
  the same elements. (Live tags are not tombstoned and a tag is issued for one element.)\<close>

theorem orset_convergence:
  assumes "\<forall>x \<in> set (s # ss). or_inv own x" "set (s # ss) = set (t # ts)"
  shows "or_abs (merge_all ORSet_merge s ss) = or_abs (merge_all ORSet_merge t ts) \<and>
    set (ORSet_value (merge_all ORSet_merge s ss)) = set (ORSet_value (merge_all ORSet_merge t ts))"
proof -
  have t: "\<forall>x \<in> set (t # ts). or_inv own x" unfolding assms(2) [symmetric] by (rule assms(1))
  have inv: "or_inv own (merge_all ORSet_merge s ss)" "or_inv own (merge_all ORSet_merge t ts)"
    using orset.inv_merge_all [of own s ss] orset.inv_merge_all [of own t ts] assms(1) t by auto
  have "or_abs (merge_all ORSet_merge s ss) = or_abs (merge_all ORSet_merge t ts)"
    by (rule orset.convergence [OF assms])
  moreover from this have "or_tags (merge_all ORSet_merge s ss) = or_tags (merge_all ORSet_merge t ts)"
    by (simp add: or_abs_def)
  ultimately show ?thesis
    using inv by (auto simp: value_contains contains_tags or_inv_def)
qed

lemma or_inv_new [simp]: "or_inv own (ORSet_new n)"
  by (simp add: or_inv_def ORSet_new_def or_tags_def)

lemma or_tags_new [simp]: "or_tags (ORSet_new n) = (\<lambda>_. {})"
  by (simp add: or_tags_def ORSet_new_def fun_eq_iff)

lemma or_removed_new [simp]: "or_removed (ORSet_new n) = []"
  by (simp add: ORSet_new_def)

theorem orset_convergence_witness:
  "set (ORSet_value (merge_all ORSet_merge (ORSet_add ''a'' (ORSet_new 1)) [ORSet_new 2])) =
   set (ORSet_value (merge_all ORSet_merge (ORSet_new 2) [ORSet_add ''a'' (ORSet_new 1), ORSet_new 2]))"
proof -
  have "or_inv (\<lambda>_. ''a'') (ORSet_add ''a'' (ORSet_new 1))"
    by (rule or_inv_add [OF or_inv_new]) (simp_all add: ORSet_new_def)
  then show ?thesis
    using orset_convergence [of "ORSet_add ''a'' (ORSet_new 1)" "[ORSet_new 2]" "\<lambda>_. ''a''"
        "ORSet_new 2" "[ORSet_add ''a'' (ORSet_new 1), ORSet_new 2]"] or_inv_new
    by (simp add: insert_commute)
qed

text \<open>C21: add wins. An element added at one replica with a fresh tag is in the merged set although
  another replica concurrently removes the element, in both directions of the merge.\<close>

theorem orset_add_wins:
  assumes "or_inv own s" "or_inv own t" and "own (fst (fresh_tag s)) = e"
    and "map_of (or_removed s) (fst (fresh_tag s)) = None" "map_of (or_removed t) (fst (fresh_tag s)) = None"
    and "fst (fresh_tag s) \<notin> or_tags t e"
  shows "ORSet_contains e (ORSet_merge (ORSet_add e s) (ORSet_remove e t)) \<and>
    ORSet_contains e (ORSet_merge (ORSet_remove e t) (ORSet_add e s))"
proof -
  have "fst (fresh_tag s) \<in> or_tags (ORSet_add e s) e" by (simp add: or_tags_add)
  moreover have "fst (fresh_tag s) \<notin> dom (map_of (or_removed s)) \<union> dom (map_of (or_removed (ORSet_remove e t)))"
    using assms unfolding or_dead_remove by blast
  ultimately show ?thesis
    using contains_merge [OF or_inv_add [OF assms(1,4,3)] or_inv_remove [OF assms(2)], of e e]
      contains_merge [OF or_inv_remove [OF assms(2)] or_inv_add [OF assms(1,4,3)], of e e]
    unfolding or_removed_add by blast
qed

theorem orset_add_wins_witness:
  "ORSet_contains ''a'' (ORSet_merge (ORSet_add ''a'' (ORSet_new 1)) (ORSet_remove ''a'' (ORSet_new 2)))"
  using orset_add_wins [OF or_inv_new or_inv_new, of "\<lambda>_. ''a''" 1 "''a''" 2]
  by (simp add: ORSet_new_def or_tags_def)

text \<open>C20: an observed removal is final. When a replica has seen every tag a second replica holds for an
  element and removes the element, the element is in neither merge of the two, and the membership of
  every other element is as if nothing had been removed.\<close>

theorem orset_observed_remove:
  assumes "or_inv own s" "or_inv own t" and "or_tags t e \<subseteq> or_tags s e \<union> dom (map_of (or_removed s))"
  shows "\<not> ORSet_contains e (ORSet_merge (ORSet_remove e s) t) \<and>
    \<not> ORSet_contains e (ORSet_merge t (ORSet_remove e s)) \<and>
    (\<forall>x. x \<noteq> e \<longrightarrow> ORSet_contains x (ORSet_merge (ORSet_remove e s) t) = ORSet_contains x (ORSet_merge s t))"
proof -
  have "ORSet_contains x (ORSet_merge (ORSet_remove e s) t) = ORSet_contains x (ORSet_merge s t)" if "x \<noteq> e" for x
  proof -
    have "u \<notin> or_tags s e" if "u \<in> or_tags s x \<union> or_tags t x" for u
      using assms(1,2) that \<open>x \<noteq> e\<close> unfolding or_inv_def by blast
    then show ?thesis
      using contains_merge [OF or_inv_remove [OF assms(1), of e] assms(2), of x] contains_merge [OF assms(1,2), of x] that
      unfolding or_tags_remove or_dead_remove by auto
  qed
  moreover have "or_tags (ORSet_remove e s) e \<union> or_tags t e \<subseteq> dom (map_of (or_removed (ORSet_remove e s)))"
    using assms(3) unfolding or_tags_remove or_dead_remove by auto
  ultimately show ?thesis
    using contains_merge [OF or_inv_remove [OF assms(1)] assms(2), of e e]
      contains_merge [OF assms(2) or_inv_remove [OF assms(1)], of e e] by blast
qed

theorem orset_observed_remove_witness:
  "\<not> ORSet_contains ''a'' (ORSet_merge (ORSet_remove ''a'' (ORSet_add ''a'' (ORSet_new 1))) (ORSet_add ''a'' (ORSet_new 1)))"
proof -
  have "or_inv (\<lambda>_. ''a'') (ORSet_add ''a'' (ORSet_new 1))"
    by (rule or_inv_add [OF or_inv_new]) (simp_all add: ORSet_new_def)
  from orset_observed_remove [OF this this, of "''a''"] show ?thesis by blast
qed

text \<open>collecting causally stable tombstones loses no removal. If a replica holds no live tag whose
  tombstone lies at or below the watermark, merging it with the collected state gives the same
  membership as merging it with the full state.\<close>

theorem orset_gc_safe:
  assumes "or_inv own s" "or_inv own u"
    and "\<forall>t rt e. map_of (or_removed s) t = Some rt \<and> lt_counter rt \<le> hm_get_or 0 wm (lt_node_id rt) \<longrightarrow> t \<notin> or_tags u e"
  shows "ORSet_contains e (ORSet_merge (ORSet_gc_tombstones wm s) u) = ORSet_contains e (ORSet_merge s u)"
proof -
  let ?g = "ORSet_gc_tombstones wm s"
  have wf: "hm_wf (or_removed s)" using assms(1) by (simp add: or_inv_def)
  have sub: "dom (map_of (or_removed ?g)) \<subseteq> dom (map_of (or_removed s))"
    by (auto simp: or_gc_removed [OF wf] split: option.splits if_splits)
  have dead: "t \<in> dom (map_of (or_removed ?g))" if "t \<in> dom (map_of (or_removed s))" "t \<in> or_tags u x" for t x
    using that assms(3) by (fastforce simp: or_gc_removed [OF wf] not_le)
  have "or_inv own ?g" by (rule or_inv_gc [OF assms(1)])
  moreover have "or_tags s e \<inter> dom (map_of (or_removed s)) = {}" using assms(1) by (auto simp: or_inv_def)
  ultimately show ?thesis
    using contains_merge [OF _ assms(2), of ?g e] contains_merge [OF assms(1,2), of e] sub dead [of _ e]
    unfolding or_gc_tags by blast
qed

theorem orset_gc_safe_witness:
  "ORSet_contains ''a'' (ORSet_merge (ORSet_gc_tombstones [(1, 5)] (ORSet_new 1)) (ORSet_new 2)) =
   ORSet_contains ''a'' (ORSet_merge (ORSet_new 1) (ORSet_new 2))"
  by (rule orset_gc_safe [OF or_inv_new or_inv_new]) (simp add: ORSet_new_def)

text \<open>delta synchronisation of an observed-remove set. A receiver that contains the base and gets only
  the deltas between successive states of a sender has the live tags and the tombstoned tags, hence
  the elements, that merging the sender's last full state would give.\<close>

theorem orset_delta_stream:
  assumes "\<forall>x \<in> set (r # b # ss). or_inv own x"
    and "or_vjoin (or_vis b) (or_vis r) = or_vis r"
    and "successively (\<lambda>x y. or_vjoin (or_vis x) (or_vis y) = or_vis y) (b # ss)"
  shows "or_vis (delta_run ORSet_merge ORSet_delta_since r b ss) = or_vis (ORSet_merge r (last (b # ss)))"
  using assms by (intro orset_delta.delta_stream) (simp_all add: orset_delta.below_def [abs_def])

theorem orset_delta_stream_witness:
  "or_vis (delta_run ORSet_merge ORSet_delta_since (ORSet_new 2) (ORSet_new 1) [ORSet_add ''a'' (ORSet_new 1)]) =
   or_vis (ORSet_merge (ORSet_new 2) (ORSet_add ''a'' (ORSet_new 1)))"
proof -
  have "or_inv (\<lambda>_. ''a'') (ORSet_add ''a'' (ORSet_new 1))"
    by (rule or_inv_add [OF or_inv_new]) (simp_all add: ORSet_new_def)
  then show ?thesis
    using orset_delta_stream [of "ORSet_new 2" "ORSet_new 1" "[ORSet_add ''a'' (ORSet_new 1)]" "\<lambda>_. ''a''"]
    by (simp add: or_vjoin_def or_vis_def or_tags_add fun_eq_iff or_tags_new or_removed_new)
qed

text \<open>an observed-remove set survives the wire: everything decodes to what was encoded, the matrix
  clock up to the order of its rows.\<close>

theorem orset_wire_roundtrip:
  assumes "or_wire s"
  shows "\<exists>m. ORSet_from_bytes (ORSet_to_bytes s) = Some (s\<lparr>or_matrix := m\<rparr>) \<and>
    mc_local_node m = mc_local_node (or_matrix s) \<and> mc_get m = mc_get (or_matrix s)"
  using ORSet_roundtrip [OF assms] by (intro exI [of _ "mc_sorted (or_matrix s)"]) simp

theorem orset_wire_roundtrip_witness:
  "\<exists>m. ORSet_from_bytes (ORSet_to_bytes (ORSet_add ''a'' (ORSet_new 1))) = Some (ORSet_add ''a'' (ORSet_new 1)\<lparr>or_matrix := m\<rparr>)"
proof -
  have "or_wire (ORSet_add ''a'' (ORSet_new 1))"
    by (simp add: or_wire_def ORSet_add_def ORSet_new_def fresh_tag_def hm_upsert_def hm_get_or_def hs_insert_def
        mc_wire_def mx_wf_def MatrixClock_new_def wire_string_def str_wf_def str_bytes_def)
  from orset_wire_roundtrip [OF this] show ?thesis by blast
qed

text \<open>replicas of the timestamp-based set converge: the same states merged in any order and number
  give the same add and remove times, hence the same elements, and a stream of deltas does the same as
  the full states.\<close>

theorem aworset_convergence:
  assumes "\<forall>x \<in> set (s # ss). aw_inv x" "set (s # ss) = set (t # ts)"
  shows "aw_abs (merge_all AWORSet_merge s ss) = aw_abs (merge_all AWORSet_merge t ts) \<and>
    set (AWORSet_value (merge_all AWORSet_merge s ss)) = set (AWORSet_value (merge_all AWORSet_merge t ts)) \<and>
    (aw_inv r \<and> aw_join (aw_abs s) (aw_abs r) = aw_abs r \<and>
       successively (\<lambda>x y. aw_join (aw_abs x) (aw_abs y) = aw_abs y) (s # ss) \<longrightarrow>
     aw_abs (delta_run AWORSet_merge AWORSet_delta_since r s ss) = aw_abs (AWORSet_merge r (last (s # ss))))"
proof -
  have "aw_abs (merge_all AWORSet_merge s ss) = aw_abs (merge_all AWORSet_merge t ts)"
    by (rule aworset.convergence [OF assms])
  moreover from this have
    "set (AWORSet_value (merge_all AWORSet_merge s ss)) = set (AWORSet_value (merge_all AWORSet_merge t ts))"
    using aw_contains_cong [of "merge_all AWORSet_merge s ss" "merge_all AWORSet_merge t ts"]
    by (simp add: set_eq_iff aw_value_contains)
  moreover have "aw_abs (delta_run AWORSet_merge AWORSet_delta_since r s ss) = aw_abs (AWORSet_merge r (last (s # ss)))"
    if "aw_inv r" "aw_join (aw_abs s) (aw_abs r) = aw_abs r"
      "successively (\<lambda>x y. aw_join (aw_abs x) (aw_abs y) = aw_abs y) (s # ss)"
    using that assms(1) by (intro aworset.delta_stream) (simp_all add: aworset.below_def [abs_def])
  ultimately show ?thesis by blast
qed

lemma aw_inv_new [simp]: "aw_inv (AWORSet_new n)"
  by (simp add: aw_inv_def AWORSet_new_def)

lemma aw_inv_ops [simp]: "aw_inv s \<Longrightarrow> aw_inv (AWORSet_add e s)" "aw_inv s \<Longrightarrow> aw_inv (AWORSet_remove e s)"
  by (simp_all add: aw_inv_def AWORSet_add_def AWORSet_remove_def aw_stamp_def case_prod_unfold Let_def)

theorem aworset_convergence_witness:
  "set (AWORSet_value (merge_all AWORSet_merge (AWORSet_add ''a'' (AWORSet_new 1)) [AWORSet_remove ''a'' (AWORSet_new 2)])) =
   set (AWORSet_value (merge_all AWORSet_merge (AWORSet_remove ''a'' (AWORSet_new 2)) [AWORSet_add ''a'' (AWORSet_new 1)]))"
  using aworset_convergence [of "AWORSet_add ''a'' (AWORSet_new 1)" "[AWORSet_remove ''a'' (AWORSet_new 2)]"
      "AWORSet_remove ''a'' (AWORSet_new 2)" "[AWORSet_add ''a'' (AWORSet_new 1)]"]
  by (simp add: insert_commute)

lemma aw_stamp_eq:
  "fst (aw_stamp s) = LamportTime (fst (tick_local (aw_matrix s))) (lc_node_id (aw_clock s))"
  "aw_entries (snd (aw_stamp s)) = aw_entries s" "aw_removed (snd (aw_stamp s)) = aw_removed s"
  by (simp_all add: aw_stamp_def case_prod_unfold Let_def)

text \<open>exactly when a local operation on the timestamp-based set takes effect. The stamp is the next
  local tick: an add makes the element a member iff the stamp exceeds the element's remove time, and a
  remove makes it a non-member unless its add time exceeds the stamp; other elements keep their status.\<close>

theorem aworset_local_operations:
  "let stamp = LamportTime (mc_get (aw_matrix s) (mc_local_node (aw_matrix s)) (mc_local_node (aw_matrix s)) + 1)
        (lc_node_id (aw_clock s)) in
   (AWORSet_contains e (AWORSet_add e s) \<longleftrightarrow>
      (case map_of (aw_removed s) e of None \<Rightarrow> True | Some rem_ts \<Rightarrow> rem_ts < stamp)) \<and>
   (AWORSet_contains e (AWORSet_remove e s) \<longleftrightarrow>
      (case map_of (aw_entries s) e of None \<Rightarrow> False | Some add_ts \<Rightarrow> stamp < add_ts)) \<and>
   (x = e \<or> AWORSet_contains x (AWORSet_add e s) = AWORSet_contains x s \<and>
      AWORSet_contains x (AWORSet_remove e s) = AWORSet_contains x s)"
  using aw_stamp_eq [of s]
  by (auto simp: AWORSet_add_def AWORSet_remove_def AWORSet_contains_def case_prod_unfold Let_def tick_local_def
      split: option.split)


text \<open>the timestamp-based set survives the wire, its matrix clock up to the order of its rows.\<close>

theorem aworset_wire_roundtrip:
  assumes "aw_wire s"
  shows "\<exists>m. AWORSet_from_bytes (AWORSet_to_bytes s) = Some (s\<lparr>aw_matrix := m\<rparr>) \<and>
    mc_local_node m = mc_local_node (aw_matrix s) \<and> mc_get m = mc_get (aw_matrix s)"
  using AWORSet_roundtrip [OF assms] by (intro exI [of _ "mc_sorted (aw_matrix s)"]) simp

theorem aworset_wire_roundtrip_witness:
  "\<exists>m. AWORSet_from_bytes (AWORSet_to_bytes (AWORSet_add ''a'' (AWORSet_new 1))) =
     Some (AWORSet_add ''a'' (AWORSet_new 1)\<lparr>aw_matrix := m\<rparr>)"
proof -
  have "aw_wire (AWORSet_add ''a'' (AWORSet_new 1))"
    by (simp add: aw_wire_def aw_inv_def AWORSet_add_def AWORSet_new_def aw_stamp_def tick_local_def hm_upsert_def
        hm_get_or_def mc_wire_def mx_wf_def mx_get_def MatrixClock_new_def LamportClock_new_def Let_def
        wire_string_def str_wf_def str_bytes_def)
  from aworset_wire_roundtrip [OF this] show ?thesis by blast
qed

end
