(* ===== verification/Crdt_Registers.thy ===== *)
theory Crdt_Registers
  imports Crdt_Sets
begin

text \<open>
  The registers and the sequence of \<open>src/runtime/crdt_reg.rs\<close>: \<open>LWWRegister\<close> (the write with the largest
  Lamport time wins), \<open>MVRegister\<close> (all writes with the largest counter are kept) and \<open>RGA\<close> (a list whose
  elements name the element they were inserted after).
\<close>

subsection \<open>LWWRegister\<close>

record 'a LWWRegister =
  lww_value :: 'a
  lww_timestamp :: LamportTime
  lww_clock :: LamportClock

definition LWWRegister_new :: "u64 \<Rightarrow> 'a \<Rightarrow> 'a LWWRegister" where
  "LWWRegister_new node_id initial =
     (let (timestamp, clock) = tick (LamportClock_new node_id)
      in \<lparr>lww_value = initial, lww_timestamp = timestamp, lww_clock = clock\<rparr>)"


definition LWWRegister_merge :: "'a LWWRegister \<Rightarrow> 'a LWWRegister \<Rightarrow> 'a LWWRegister" where
  "LWWRegister_merge s other =
     (let s' = (if lww_timestamp other > lww_timestamp s
                then s\<lparr>lww_value := lww_value other, lww_timestamp := lww_timestamp other\<rparr> else s)
      in s'\<lparr>lww_clock := (lww_clock s')\<lparr>lc_counter := max (lc_counter (lww_clock s')) (lc_counter (lww_clock other))\<rparr>\<rparr>)"

definition LWWRegister_delta_since :: "'a LWWRegister \<Rightarrow> 'a LWWRegister \<Rightarrow> 'a LWWRegister option" where
  "LWWRegister_delta_since s base = (if lww_timestamp s > lww_timestamp base then Some s else None)"

definition LWWRegister_to_bytes :: "string LWWRegister \<Rightarrow> bytes" where
  "LWWRegister_to_bytes s =
     to_be 8 (lc_node_id (lww_clock s)) @ to_be 8 (lt_counter (lww_timestamp s)) @ to_be 4 (0 :: u32) @
     to_be 4 (of_nat (length (lww_value s)) :: u32) @ as_bytes (lww_value s)"

definition LWWRegister_from_bytes :: "bytes \<Rightarrow> string LWWRegister option" where
  "LWWRegister_from_bytes bs =
     (if length bs < 24 then None
      else let node_id = from_be (slice bs 0 8);
               ts_counter = from_be (slice bs 8 16);
               type_tag = from_be (slice bs 16 20) :: u32
           in if type_tag \<noteq> 0 then None
              else let str_len = unat (from_be (slice bs 20 24) :: u32) in
                if length bs < 24 + str_len then None
                else (case from_utf8 (slice bs 24 (24 + str_len)) of
                        None \<Rightarrow> None
                      | Some v \<Rightarrow> Some \<lparr>lww_value = v, lww_timestamp = LamportTime ts_counter node_id,
                                      lww_clock = (LamportClock_new node_id)\<lparr>lc_counter := ts_counter\<rparr>\<rparr>))"

subsection \<open>MVRegister\<close>

record 'a MVRegister =
  mv_values :: "('a \<times> LamportTime) hashset"
  mv_clock :: LamportClock

definition MVRegister_new :: "u64 \<Rightarrow> 'a MVRegister" where
  "MVRegister_new node_id = \<lparr>mv_values = [], mv_clock = LamportClock_new node_id\<rparr>"

definition MVRegister_write :: "'a \<Rightarrow> 'a MVRegister \<Rightarrow> 'a MVRegister" where
  "MVRegister_write v s =
     (let (ts, clock) = tick (mv_clock s)
      in \<lparr>mv_values = hs_insert (v, ts) (filter (\<lambda>(_, t). lt_counter t \<ge> lt_counter ts) (mv_values s)),
          mv_clock = clock\<rparr>)"

text \<open>\<open>iter().map(|(_, t)| t.counter).max().unwrap_or(0)\<close>\<close>

definition max_counter :: "('a \<times> LamportTime) list \<Rightarrow> u64" where
  "max_counter vs = fold (\<lambda>(_, t) m. max m (lt_counter t)) vs 0"

definition MVRegister_read :: "'a MVRegister \<Rightarrow> 'a hashset" where
  "MVRegister_read s =
     hs_extend [] (map fst (filter (\<lambda>(_, t). lt_counter t = max_counter (mv_values s)) (mv_values s)))"

definition is_conflicted :: "'a MVRegister \<Rightarrow> bool" where
  "is_conflicted s \<longleftrightarrow> length (MVRegister_read s) > 1"

definition MVRegister_merge :: "'a MVRegister \<Rightarrow> 'a MVRegister \<Rightarrow> 'a MVRegister" where
  "MVRegister_merge s other =
     (let vals = hs_extend (mv_values s) (mv_values other)
      in \<lparr>mv_values = filter (\<lambda>(_, t). lt_counter t = max_counter vals) vals,
          mv_clock = (mv_clock s)\<lparr>lc_counter := max (lc_counter (mv_clock s)) (lc_counter (mv_clock other))\<rparr>\<rparr>)"

definition MVRegister_delta_since :: "'a MVRegister \<Rightarrow> 'a MVRegister \<Rightarrow> 'a MVRegister option" where
  "MVRegister_delta_since s base =
     (let vals = filter (\<lambda>x. x \<notin> set (mv_values base)) (mv_values s)
      in if vals = [] then None else Some \<lparr>mv_values = vals, mv_clock = mv_clock s\<rparr>)"

text \<open>An entry on the wire: counter, node id, then the length and the bytes of the string.\<close>

definition push_mv_entry :: "string \<times> LamportTime \<Rightarrow> bytes \<Rightarrow> bytes" where
  "push_mv_entry x buf = push_string (fst x) (push_time (snd x) buf)"

definition read_mv_entry :: "bytes \<Rightarrow> nat \<Rightarrow> ((string \<times> LamportTime) \<times> nat) option" where
  "read_mv_entry bs pos =
     (case read_time bs pos of
        None \<Rightarrow> None
      | Some (ts, p) \<Rightarrow> (case read_string bs p of None \<Rightarrow> None | Some (v, p) \<Rightarrow> Some ((v, ts), p)))"

definition MVRegister_to_bytes :: "string MVRegister \<Rightarrow> bytes" where
  "MVRegister_to_bytes s =
     push_counted push_mv_entry (mv_values s) (push_u64 (lc_counter (mv_clock s)) (push_u64 (lc_node_id (mv_clock s)) []))"

definition MVRegister_from_bytes :: "bytes \<Rightarrow> string MVRegister option" where
  "MVRegister_from_bytes bs =
     (if length bs < 20 then None
      else let node_id = from_be (slice bs 0 8); clock_counter = from_be (slice bs 8 16)
           in (case read_counted read_mv_entry hs_insert [] bs 16 of
                 None \<Rightarrow> None
               | Some (vals, _) \<Rightarrow> Some \<lparr>mv_values = vals,
                   mv_clock = (LamportClock_new node_id)\<lparr>lc_counter := clock_counter\<rparr>\<rparr>))"

subsection \<open>RGA\<close>

record 'a RGAElement =
  rg_id :: LamportTime
  rg_parent :: "LamportTime option"
  rg_value :: "'a option"
  rg_timestamp :: LamportTime

record 'a RGA =
  rga_elements :: "'a RGAElement list"
  rga_clock :: LamportClock
  rga_matrix :: MatrixClock

definition RGA_new :: "u64 \<Rightarrow> 'a RGA" where
  "RGA_new node_id = \<lparr>rga_elements = [], rga_clock = LamportClock_new node_id, rga_matrix = MatrixClock_new node_id\<rparr>"

text \<open>Both loops of \<open>find_insert_position\<close> go on while the element is a sibling that is not newer and stop
  at the first one that is not.\<close>

definition find_insert_position :: "'a RGAElement \<Rightarrow> 'a RGAElement list \<Rightarrow> nat" where
  "find_insert_position elem es =
     (let parent_pos = (case rg_parent elem of None \<Rightarrow> None | Some pid \<Rightarrow> position (\<lambda>e. rg_id e = pid) es)
      in case parent_pos of
           None \<Rightarrow>
             if rg_parent elem = None
             then length (takeWhile (\<lambda>e. rg_parent e = None \<and> rg_timestamp e \<le> rg_timestamp elem) es)
             else length es
         | Some pidx \<Rightarrow>
             pidx + 1 + length (takeWhile (\<lambda>e. rg_parent e = rg_parent elem \<and> rg_timestamp e \<le> rg_timestamp elem)
                                  (drop (pidx + 1) es)))"

definition insert_element_sorted :: "'a RGAElement \<Rightarrow> 'a RGAElement list \<Rightarrow> 'a RGAElement list" where
  "insert_element_sorted elem es =
     (let pos = find_insert_position elem es in take pos es @ elem # drop pos es)"

definition insert_after :: "LamportTime option \<Rightarrow> 'a \<Rightarrow> 'a RGA \<Rightarrow> LamportTime \<times> 'a RGA" where
  "insert_after parent v s =
     (let matrix = snd (tick_local (rga_matrix s));
          (t, clock) = tick (rga_clock s);
          oid = LamportTime (lt_counter t) (lc_node_id (rga_clock s));
          elem = \<lparr>rg_id = oid, rg_parent = parent, rg_value = Some v, rg_timestamp = oid\<rparr>
      in (oid, \<lparr>rga_elements = insert_element_sorted elem (rga_elements s), rga_clock = clock, rga_matrix = matrix\<rparr>))"

definition rga_visible :: "'a RGA \<Rightarrow> 'a RGAElement list" where
  "rga_visible s = filter (\<lambda>e. rg_value e \<noteq> None) (rga_elements s)"

definition insert_at :: "nat \<Rightarrow> 'a \<Rightarrow> 'a RGA \<Rightarrow> LamportTime \<times> 'a RGA" where
  "insert_at index v s =
     insert_after (if index = 0 then None else map_option rg_id (nth_opt (rga_visible s) (index - 1))) v s"

definition RGA_delete :: "LamportTime \<Rightarrow> 'a RGA \<Rightarrow> 'a RGA" where
  "RGA_delete oid s =
     (case position (\<lambda>e. rg_id e = oid) (rga_elements s) of
        None \<Rightarrow> s
      | Some i \<Rightarrow>
          let (c, matrix) = tick_local (rga_matrix s)
          in s\<lparr>rga_elements := (rga_elements s)[i := (rga_elements s ! i)
                 \<lparr>rg_value := None, rg_timestamp := LamportTime c (lc_node_id (rga_clock s))\<rparr>],
               rga_matrix := matrix\<rparr>)"

definition delete_at :: "nat \<Rightarrow> 'a RGA \<Rightarrow> 'a RGA" where
  "delete_at index s =
     (case nth_opt (rga_visible s) index of None \<Rightarrow> s | Some e \<Rightarrow> RGA_delete (rg_id e) s)"

definition RGA_get :: "nat \<Rightarrow> 'a RGA \<Rightarrow> 'a option" where
  "RGA_get index s = (case nth_opt (rga_visible s) index of None \<Rightarrow> None | Some e \<Rightarrow> rg_value e)"

definition RGA_len :: "'a RGA \<Rightarrow> nat" where
  "RGA_len s = length (rga_visible s)"


definition merge_element :: "'a RGAElement \<Rightarrow> 'a RGAElement list \<Rightarrow> 'a RGAElement list" where
  "merge_element other_elem es =
     (case position (\<lambda>e. rg_id e = rg_id other_elem) es of
        Some i \<Rightarrow> if rg_timestamp other_elem > rg_timestamp (es ! i) then es[i := other_elem] else es
      | None \<Rightarrow> insert_element_sorted other_elem es)"

definition RGA_merge :: "'a RGA \<Rightarrow> 'a RGA \<Rightarrow> 'a RGA" where
  "RGA_merge s other =
     \<lparr>rga_elements = fold merge_element (rga_elements other) (rga_elements s),
      rga_clock = (rga_clock s)\<lparr>lc_counter := max (lc_counter (rga_clock s)) (lc_counter (rga_clock other))\<rparr>,
      rga_matrix = MatrixClock_merge (rga_matrix s) (rga_matrix other)\<rparr>"


definition RGA_gc_tombstones :: "(u64, u64) hashmap \<Rightarrow> 'a RGA \<Rightarrow> 'a RGA" where
  "RGA_gc_tombstones wm s =
     s\<lparr>rga_elements := filter (\<lambda>e. rg_value e \<noteq> None \<or>
          lt_counter (rg_timestamp e) > hm_get_or 0 wm (lt_node_id (rg_timestamp e))) (rga_elements s)\<rparr>"

text \<open>An element on the wire: its id, node first, then the optional parent and value behind a presence
  byte each, then the time of its last change, counter first.\<close>

definition push_u8 :: "u8 \<Rightarrow> bytes \<Rightarrow> bytes" where
  "push_u8 b buf = buf @ [b]"

definition push_id :: "LamportTime \<Rightarrow> bytes \<Rightarrow> bytes" where
  "push_id t buf = push_u64 (lt_counter t) (push_u64 (lt_node_id t) buf)"

definition push_opt :: "('b \<Rightarrow> bytes \<Rightarrow> bytes) \<Rightarrow> 'b option \<Rightarrow> bytes \<Rightarrow> bytes" where
  "push_opt p x buf = (case x of Some v \<Rightarrow> p v (push_u8 1 buf) | None \<Rightarrow> push_u8 0 buf)"

definition push_element :: "string RGAElement \<Rightarrow> bytes \<Rightarrow> bytes" where
  "push_element e buf =
     push_time (rg_timestamp e) (push_opt push_string (rg_value e) (push_opt push_id (rg_parent e) (push_id (rg_id e) buf)))"

definition read_id :: "bytes \<Rightarrow> nat \<Rightarrow> (LamportTime \<times> nat) option" where
  "read_id bs pos =
     (case read_u64 bs pos of
        None \<Rightarrow> None
      | Some (nid, p) \<Rightarrow> (case read_u64 bs p of None \<Rightarrow> None | Some (cnt, p) \<Rightarrow> Some (LamportTime cnt nid, p)))"

definition read_opt :: "(bytes \<Rightarrow> nat \<Rightarrow> ('b \<times> nat) option) \<Rightarrow> bytes \<Rightarrow> nat \<Rightarrow> ('b option \<times> nat) option" where
  "read_opt rd bs pos =
     (if length bs < pos + 1 then None
      else if bs ! pos \<noteq> 0 then
        (case rd bs (pos + 1) of None \<Rightarrow> None | Some (v, p) \<Rightarrow> Some (Some v, p))
      else Some (None, pos + 1))"

definition read_element :: "bytes \<Rightarrow> nat \<Rightarrow> (string RGAElement \<times> nat) option" where
  "read_element bs pos =
     (case read_id bs pos of None \<Rightarrow> None | Some (oid, pos) \<Rightarrow>
     (case read_opt read_id bs pos of None \<Rightarrow> None | Some (parent, pos) \<Rightarrow>
     (case read_opt read_string bs pos of None \<Rightarrow> None | Some (val, pos) \<Rightarrow>
     (case read_time bs pos of None \<Rightarrow> None | Some (ts, pos) \<Rightarrow>
        Some (\<lparr>rg_id = oid, rg_parent = parent, rg_value = val, rg_timestamp = ts\<rparr>, pos)))))"

definition RGA_to_bytes :: "string RGA \<Rightarrow> bytes" where
  "RGA_to_bytes s =
     (let mbuf = MatrixClock_to_bytes (rga_matrix s) []
      in push_u32 (of_nat (length mbuf))
           (push_counted push_element (rga_elements s)
             (push_u64 (lc_counter (rga_clock s)) (push_u64 (lc_node_id (rga_clock s)) []))) @ mbuf)"

definition RGA_from_bytes :: "bytes \<Rightarrow> string RGA option" where
  "RGA_from_bytes bs =
     (if length bs < 20 then None
      else let node_id = from_be (slice bs 0 8); clock_counter = from_be (slice bs 8 16)
           in (case read_counted read_element (\<lambda>e es. es @ [e]) [] bs 16 of
                 None \<Rightarrow> None
               | Some (elements, offset) \<Rightarrow>
                   let matrix =
                     (if offset + 4 \<le> length bs then
                        (let mlen = unat (from_be (slice bs offset (offset + 4)) :: u32); mstart = offset + 4
                         in if mstart + mlen \<le> length bs
                            then (case MatrixClock_from_bytes bs mstart of
                                    Some (m, _) \<Rightarrow> m | None \<Rightarrow> MatrixClock_new node_id)
                            else MatrixClock_new node_id)
                      else MatrixClock_new node_id)
                   in Some \<lparr>rga_elements = elements,
                            rga_clock = (LamportClock_new node_id)\<lparr>lc_counter := clock_counter\<rparr>,
                            rga_matrix = matrix\<rparr>))"

subsection \<open>Registers as joins\<close>

text \<open>\<open>H\<close> is the value written at each time: no two writes carry the same Lamport time.\<close>

definition lww_inv :: "(LamportTime \<Rightarrow> 'a) \<Rightarrow> 'a LWWRegister \<Rightarrow> bool" where
  "lww_inv H s \<longleftrightarrow> lww_value s = H (lww_timestamp s)"

lemma lww_timestamp_merge: "lww_timestamp (LWWRegister_merge s t) = max (lww_timestamp s) (lww_timestamp t)"
  by (auto simp: LWWRegister_merge_def Let_def max_def)

lemma lww_inv_merge: "lww_inv H s \<Longrightarrow> lww_inv H t \<Longrightarrow> lww_inv H (LWWRegister_merge s t)"
  by (simp add: lww_inv_def LWWRegister_merge_def Let_def)

interpretation lww: delta_crdt "lww_inv H" lww_timestamp LWWRegister_merge max LWWRegister_delta_since
  for H :: "LamportTime \<Rightarrow> 'a"
proof unfold_locales
  fix s b r d :: "'a LWWRegister"
  show "lww_inv H s \<Longrightarrow> LWWRegister_delta_since s b = Some d \<Longrightarrow> lww_inv H d"
    by (auto simp: LWWRegister_delta_since_def split: if_splits)
  assume "max (lww_timestamp b) (lww_timestamp r) = lww_timestamp r"
  then have "lww_timestamp b \<le> lww_timestamp r" by (simp add: max_def split: if_splits)
  then show "lww_timestamp (apply_delta LWWRegister_merge r (LWWRegister_delta_since s b)) =
      max (lww_timestamp r) (lww_timestamp s)"
    by (simp add: LWWRegister_delta_since_def apply_delta_def lww_timestamp_merge)
qed (simp_all add: lww_inv_merge lww_timestamp_merge ac_simps)

definition mv_inv :: "'a MVRegister \<Rightarrow> bool" where
  "mv_inv s \<longleftrightarrow> distinct (mv_values s) \<and>
     (\<forall>x \<in> set (mv_values s). \<forall>y \<in> set (mv_values s). lt_counter (snd x) = lt_counter (snd y)) \<and>
     (\<forall>x \<in> set (mv_values s). lt_counter (snd x) \<le> lc_counter (mv_clock s))"

definition mv_abs :: "'a MVRegister \<Rightarrow> ('a \<times> LamportTime) set" where
  "mv_abs s = set (mv_values s)"

text \<open>The entries with the largest counter.\<close>

definition latest :: "('a \<times> LamportTime) set \<Rightarrow> ('a \<times> LamportTime) set" where
  "latest A = {x \<in> A. \<forall>y \<in> A. lt_counter (snd y) \<le> lt_counter (snd x)}"

definition mv_join :: "('a \<times> LamportTime) set \<Rightarrow> ('a \<times> LamportTime) set \<Rightarrow> ('a \<times> LamportTime) set" where
  "mv_join A B = latest (A \<union> B)"

lemma fold_max_counter:
  "fold (\<lambda>(_, t) m. max m (lt_counter t)) vs a = (m :: u64) \<Longrightarrow>
    a \<le> m \<and> (\<forall>x \<in> set vs. lt_counter (snd x) \<le> m) \<and> (m = a \<or> (\<exists>x \<in> set vs. m = lt_counter (snd x)))"
proof (induction vs arbitrary: a)
  case (Cons x vs)
  from Cons.IH [of "max a (lt_counter (snd x))"] Cons.prems show ?case
    by (auto simp: case_prod_unfold max_def split: if_splits)
qed simp

lemma filter_max_counter: "set (filter (\<lambda>(_, t). lt_counter t = max_counter vs) vs) = latest (set vs)"
proof -
  have m: "\<forall>x \<in> set vs. lt_counter (snd x) \<le> max_counter vs"
    "max_counter vs = 0 \<or> (\<exists>x \<in> set vs. max_counter vs = lt_counter (snd x))"
    using fold_max_counter [of vs 0 "max_counter vs"] by (auto simp: max_counter_def)
  have "lt_counter (snd x) = max_counter vs \<longleftrightarrow> (\<forall>y \<in> set vs. lt_counter (snd y) \<le> lt_counter (snd x))" if "x \<in> set vs" for x
  proof
    assume "\<forall>y \<in> set vs. lt_counter (snd y) \<le> lt_counter (snd x)"
    with m(2) have "max_counter vs \<le> lt_counter (snd x)" by auto
    with m(1) that show "lt_counter (snd x) = max_counter vs" by (auto intro: order_antisym)
  qed (use m(1) in simp)
  then show ?thesis by (auto simp: latest_def case_prod_unfold)
qed

lemma mv_abs_merge: "mv_abs (MVRegister_merge s t) = mv_join (mv_abs s) (mv_abs t)"
  using filter_max_counter [of "hs_extend (mv_values s) (mv_values t)"]
  by (simp add: mv_abs_def mv_join_def MVRegister_merge_def Let_def)

lemma latest_idem: "finite A \<Longrightarrow> latest (latest A \<union> B) = latest (A \<union> B)"
proof -
  assume fin: "finite A"
  have top: "\<exists>x \<in> latest A. lt_counter (snd y) \<le> lt_counter (snd x)" if "y \<in> A" for y
  proof -
    let ?f = "\<lambda>x. lt_counter (snd x)"
    have "Max (?f ` A) \<in> ?f ` A" using that fin by (intro Max_in) auto
    then obtain x where x: "x \<in> A" "?f x = Max (?f ` A)" by auto
    then have "\<forall>z \<in> A. ?f z \<le> ?f x" using fin by simp
    with that x(1) show ?thesis by (intro bexI [of _ x]) (auto simp: latest_def)
  qed
  show ?thesis
  proof (intro set_eqI iffI)
    fix x assume x: "x \<in> latest (latest A \<union> B)"
    have up: "lt_counter (snd z) \<le> lt_counter (snd x)" if "z \<in> latest A \<union> B" for z
      using x that unfolding latest_def [of "latest A \<union> B"] by blast
    have "lt_counter (snd y) \<le> lt_counter (snd x)" if y: "y \<in> A \<union> B" for y
    proof (cases "y \<in> A")
      case True
      then obtain z where "z \<in> latest A" "lt_counter (snd y) \<le> lt_counter (snd z)" using top by blast
      with up [of z] show ?thesis by simp
    qed (use y up [of y] in simp)
    with x show "x \<in> latest (A \<union> B)" by (auto simp: latest_def)
  next
    fix x assume "x \<in> latest (A \<union> B)"
    then show "x \<in> latest (latest A \<union> B)" by (auto simp: latest_def)
  qed
qed

lemma mv_inv_le:
  "mv_inv s \<Longrightarrow> x \<in> mv_abs s \<Longrightarrow> y \<in> mv_abs s \<Longrightarrow> lt_counter (snd y) \<le> lt_counter (snd x)"
  "mv_inv s \<Longrightarrow> x \<in> mv_abs s \<Longrightarrow> lt_counter (snd x) \<le> lc_counter (mv_clock s)"
  unfolding mv_inv_def mv_abs_def by (blast intro: eq_refl)+

lemma latest_uniform: "mv_inv s \<Longrightarrow> latest (mv_abs s) = mv_abs s"
  using mv_inv_le(1) [of s] unfolding latest_def by blast

lemma finite_mv_abs [simp]: "finite (mv_abs s)"
  by (simp add: mv_abs_def)

lemma mv_inv_merge:
  assumes "mv_inv s" "mv_inv t"
  shows "mv_inv (MVRegister_merge s t)"
proof -
  have "distinct (mv_values (MVRegister_merge s t))"
    using assms by (simp add: mv_inv_def MVRegister_merge_def Let_def)
  moreover have "lt_counter (snd x) = lt_counter (snd y)"
    if "x \<in> mv_abs (MVRegister_merge s t)" "y \<in> mv_abs (MVRegister_merge s t)" for x y
    using that unfolding mv_abs_merge mv_join_def latest_def by (auto intro: order_antisym)
  moreover have "lt_counter (snd x) \<le> lc_counter (mv_clock (MVRegister_merge s t))"
    if "x \<in> mv_abs (MVRegister_merge s t)" for x
    using that mv_inv_le(2) [OF assms(1), of x] mv_inv_le(2) [OF assms(2), of x]
    unfolding mv_abs_merge mv_join_def latest_def by (auto simp: le_max_iff_disj MVRegister_merge_def Let_def)
  ultimately show ?thesis unfolding mv_inv_def mv_abs_def [symmetric] by blast
qed

lemma latest_absorb:
  assumes "finite B" "finite R" "latest (B \<union> R) = R"
  shows "latest (R \<union> V) = latest (B \<union> R \<union> V)"
  using latest_idem [of "B \<union> R" V] assms by simp

lemma mv_delta_law:
  assumes "mv_join (mv_abs b) (mv_abs r) = mv_abs r"
  shows "mv_abs (apply_delta MVRegister_merge r (MVRegister_delta_since s b)) = mv_join (mv_abs r) (mv_abs s)"
proof -
  let ?V = "mv_abs s" and ?B = "mv_abs b" and ?R = "mv_abs r"
  have R: "latest (?B \<union> ?R) = ?R" using assms by (simp add: mv_join_def)
  note absorb = latest_absorb [OF finite_mv_abs finite_mv_abs R]
  have eq: "latest (?R \<union> (?V - ?B)) = latest (?R \<union> ?V)"
    unfolding absorb by (rule arg_cong [of _ _ latest]) blast
  show ?thesis
  proof (cases "MVRegister_delta_since s b")
    case None
    then have "?V - ?B = {}"
      by (auto simp: MVRegister_delta_since_def Let_def mv_abs_def filter_empty_conv split: if_splits)
    moreover have "latest ?R = ?R" using absorb [of "{}"] R by simp
    moreover from eq \<open>?V - ?B = {}\<close> have "latest ?R = latest (?R \<union> ?V)" by (simp only: Un_empty_right)
    ultimately show ?thesis using None by (simp add: apply_delta_def mv_join_def)
  next
    case (Some d)
    then have "mv_abs d = ?V - ?B"
      by (auto simp: MVRegister_delta_since_def Let_def mv_abs_def split: if_splits)
    with Some eq show ?thesis by (simp add: apply_delta_def mv_abs_merge mv_join_def)
  qed
qed

lemma mv_inv_delta:
  assumes "mv_inv s" "MVRegister_delta_since s b = Some d"
  shows "mv_inv d"
proof -
  have d: "mv_values d = filter (\<lambda>x. x \<notin> set (mv_values b)) (mv_values s)" "mv_clock d = mv_clock s"
    using assms(2) by (auto simp: MVRegister_delta_since_def Let_def split: if_splits)
  then have "set (mv_values d) \<subseteq> set (mv_values s)" "distinct (mv_values d)"
    using assms(1) by (auto simp: mv_inv_def)
  with assms(1) show ?thesis unfolding mv_inv_def d(2) by blast
qed

interpretation mvreg: delta_crdt mv_inv mv_abs MVRegister_merge mv_join MVRegister_delta_since
proof unfold_locales
  fix s b r d :: "'a MVRegister"
  show "mv_inv s \<Longrightarrow> MVRegister_delta_since s b = Some d \<Longrightarrow> mv_inv d" by (rule mv_inv_delta)
  show "mv_join (mv_abs b) (mv_abs r) = mv_abs r \<Longrightarrow>
      mv_abs (apply_delta MVRegister_merge r (MVRegister_delta_since s b)) = mv_join (mv_abs r) (mv_abs s)"
    by (rule mv_delta_law)
  show "mv_join (mv_join (mv_abs s) (mv_abs b)) (mv_abs r) = mv_join (mv_abs s) (mv_join (mv_abs b) (mv_abs r))"
    using latest_idem [of "mv_abs s \<union> mv_abs b" "mv_abs r"] latest_idem [of "mv_abs b \<union> mv_abs r" "mv_abs s"]
    by (simp add: mv_join_def Un_commute Un_left_commute)
  show "mv_join (mv_abs s) (mv_abs b) = mv_join (mv_abs b) (mv_abs s)" by (simp add: mv_join_def Un_commute)
  show "mv_inv s \<Longrightarrow> mv_join (mv_abs s) (mv_abs s) = mv_abs s" by (simp add: mv_join_def latest_uniform)
qed (simp_all add: mv_inv_merge mv_abs_merge)

lemma less_plus_one: "x \<noteq> -1 \<Longrightarrow> (x :: 'a::len word) < x + 1"
  using le_plus_one [of x] by (auto simp: le_less)

lemma MVRegister_write_eq:
  assumes "mv_inv s" "lc_counter (mv_clock s) \<noteq> -1"
  shows "MVRegister_write v s = \<lparr>mv_values = [(v, LamportTime (lc_counter (mv_clock s) + 1) (lc_node_id (mv_clock s)))],
    mv_clock = (mv_clock s)\<lparr>lc_counter := lc_counter (mv_clock s) + 1\<rparr>\<rparr>"
proof -
  have "filter (\<lambda>(_, t). lt_counter t \<ge> lc_counter (mv_clock s) + 1) (mv_values s) = []"
    using less_plus_one [OF assms(2)] mv_inv_le(2) [OF assms(1)] by (force simp: filter_empty_conv mv_abs_def)
  moreover have "hs_insert x [] = [x]" for x :: "'a \<times> LamportTime" by (simp add: hs_insert_def)
  ultimately show ?thesis by (simp add: MVRegister_write_def tick_def Let_def)
qed

lemma read_latest: "set (MVRegister_read s) = fst ` latest (mv_abs s)"
  unfolding MVRegister_read_def set_hs_extend set_map filter_max_counter by (simp add: mv_abs_def)

subsection \<open>The content of an RGA as a join\<close>

definition stamps :: "'a RGAElement list \<Rightarrow> LamportTime \<rightharpoonup> LamportTime" where
  "stamps es = map_of (map (\<lambda>e. (rg_id e, rg_timestamp e)) es)"

definition rga_inv :: "(LamportTime \<Rightarrow> LamportTime \<Rightarrow> 'a RGAElement) \<Rightarrow> 'a RGA \<Rightarrow> bool" where
  "rga_inv H s \<longleftrightarrow> distinct (map rg_id (rga_elements s)) \<and>
     (\<forall>e \<in> set (rga_elements s). e = H (rg_id e) (rg_timestamp e))"

definition rga_abs :: "'a RGA \<Rightarrow> LamportTime \<rightharpoonup> LamportTime" where
  "rga_abs s = stamps (rga_elements s)"

lemma insert_sorted_split: "\<exists>xs ys. es = xs @ ys \<and> insert_element_sorted e es = xs @ e # ys"
  unfolding insert_element_sorted_def Let_def
  by (rule exI [of _ "take (find_insert_position e es) es"], rule exI [of _ "drop (find_insert_position e es) es"]) simp

lemma stamps_insert:
  assumes "rg_id e \<notin> rg_id ` set es"
  shows "stamps (insert_element_sorted e es) = (stamps es)(rg_id e \<mapsto> rg_timestamp e)"
proof -
  obtain xs ys where es: "es = xs @ ys" "insert_element_sorted e es = xs @ e # ys"
    using insert_sorted_split by blast
  then have "rg_id e \<notin> dom (stamps xs)" using assms by (auto simp: stamps_def dom_map_of_conv_image_fst image_image)
  with es show ?thesis by (simp add: stamps_def map_add_upd_left)
qed

lemma stamps_update:
  assumes "distinct (map rg_id es)" "i < length es" "rg_id e = rg_id (es ! i)"
  shows "stamps (es[i := e]) = (stamps es)(rg_id e \<mapsto> rg_timestamp e)"
  using assms
proof (induction es arbitrary: i)
  case (Cons x es)
  show ?case
  proof (cases i)
    case (Suc j)
    then have "rg_id x \<noteq> rg_id e" using Cons.prems by auto
    with Suc Cons.IH [of j] Cons.prems show ?thesis by (auto simp: stamps_def fun_eq_iff)
  qed (use Cons.prems in \<open>auto simp: stamps_def fun_eq_iff\<close>)
qed simp

lemma stamps_nth: "distinct (map rg_id es) \<Longrightarrow> i < length es \<Longrightarrow> stamps es (rg_id (es ! i)) = Some (rg_timestamp (es ! i))"
  unfolding stamps_def by (rule map_of_is_SomeI) (auto simp: comp_def)

lemma stamps_None: "stamps es i = None \<longleftrightarrow> i \<notin> rg_id ` set es"
  by (auto simp: stamps_def map_of_eq_None_iff image_image)

lemma stamps_Some: "distinct (map rg_id es) \<Longrightarrow> e \<in> set es \<Longrightarrow> stamps es (rg_id e) = Some (rg_timestamp e)"
  unfolding stamps_def by (rule map_of_is_SomeI) (auto simp: comp_def)

lemma merge_element_spec:
  assumes d: "distinct (map rg_id es)"
  shows "distinct (map rg_id (merge_element e es)) \<and> set (merge_element e es) \<subseteq> insert e (set es) \<and>
    stamps (merge_element e es) = (stamps es)(rg_id e := max_opt (stamps es (rg_id e)) (Some (rg_timestamp e)))"
proof (cases "position (\<lambda>x. rg_id x = rg_id e) es")
  case None
  then have n: "rg_id e \<notin> rg_id ` set es" by (auto simp: position_None_iff)
  then have st: "stamps es (rg_id e) = None" by (simp add: stamps_None)
  obtain xs ys where es: "es = xs @ ys" "insert_element_sorted e es = xs @ e # ys"
    using insert_sorted_split by blast
  then have "distinct (map rg_id (insert_element_sorted e es))" "set (insert_element_sorted e es) \<subseteq> insert e (set es)"
    using d n by auto
  with None st n show ?thesis by (simp add: merge_element_def stamps_insert)
next
  case (Some i)
  then have i: "i < length es" "rg_id (es ! i) = rg_id e" using position_SomeD [OF Some] by simp_all
  have st: "stamps es (rg_id e) = Some (rg_timestamp (es ! i))" using stamps_nth [OF d i(1)] i(2) by simp
  show ?thesis
  proof (cases "rg_timestamp e > rg_timestamp (es ! i)")
    case True
    have "map rg_id (es[i := e]) = map rg_id es" using i by (simp add: map_update list_update_same_conv)
    moreover have "set (es[i := e]) \<subseteq> insert e (set es)" by (rule set_update_subset_insert)
    ultimately show ?thesis
      using True Some d st stamps_update [OF d i(1), of e] i(2) by (simp add: merge_element_def max_def less_imp_le)
  next
    case False
    with Some d st show ?thesis by (auto simp: merge_element_def max_def fun_upd_idem)
  qed
qed

lemma fold_merge_element:
  assumes "distinct (map rg_id es)" "distinct (map rg_id os)"
  shows "distinct (map rg_id (fold merge_element os es)) \<and> set (fold merge_element os es) \<subseteq> set es \<union> set os \<and>
    stamps (fold merge_element os es) = join_opt (stamps es) (stamps os)"
  using assms
proof (induction os arbitrary: es)
  case Nil
  then show ?case by (simp add: stamps_def join_opt_def)
next
  case (Cons e os)
  from merge_element_spec [OF Cons.prems(1), of e] have
    m: "distinct (map rg_id (merge_element e es))" "set (merge_element e es) \<subseteq> insert e (set es)"
    "stamps (merge_element e es) = (stamps es)(rg_id e := max_opt (stamps es (rg_id e)) (Some (rg_timestamp e)))"
    by simp_all
  from Cons.prems have "stamps os (rg_id e) = None" by (simp add: stamps_None)
  then have "join_opt (stamps (merge_element e es)) (stamps os) = join_opt (stamps es) (stamps (e # os))"
    unfolding m(3) by (auto simp: join_opt_def stamps_def fun_eq_iff)
  with Cons.IH [OF m(1)] Cons.prems m(2) show ?case by auto
qed

interpretation rga: crdt "rga_inv H" rga_abs RGA_merge join_opt
  for H :: "LamportTime \<Rightarrow> LamportTime \<Rightarrow> 'a RGAElement"
proof unfold_locales
  fix s t :: "'a RGA"
  assume inv: "rga_inv H s" "rga_inv H t"
  then have d: "distinct (map rg_id (rga_elements s))" "distinct (map rg_id (rga_elements t))"
    by (simp_all add: rga_inv_def)
  show "rga_abs (RGA_merge s t) = join_opt (rga_abs s) (rga_abs t)"
    using fold_merge_element [OF d] by (simp add: rga_abs_def RGA_merge_def)
  show "rga_inv H (RGA_merge s t)"
    using fold_merge_element [OF d] inv unfolding rga_inv_def RGA_merge_def RGA.simps by blast
qed (simp_all add: join_opt_laws)

lemma rga_elements_subset:
  assumes "rga_inv H a" "rga_inv H b" "rga_abs a = rga_abs b"
  shows "set (rga_elements a) \<subseteq> set (rga_elements b)"
proof
  fix e assume e: "e \<in> set (rga_elements a)"
  have "distinct (map rg_id (rga_elements a))" using assms(1) unfolding rga_inv_def by (rule conjunct1)
  from stamps_Some [OF this e] have "rga_abs b (rg_id e) = Some (rg_timestamp e)"
    using assms(3) by (simp add: rga_abs_def)
  then obtain f where f: "f \<in> set (rga_elements b)" "rg_id f = rg_id e" "rg_timestamp f = rg_timestamp e"
    by (auto simp: rga_abs_def stamps_def dest!: map_of_SomeD)
  have "f = H (rg_id f) (rg_timestamp f)" "e = H (rg_id e) (rg_timestamp e)"
    using assms(1,2) e f(1) unfolding rga_inv_def by blast+
  with f(2,3) have "f = e" by (metis (no_types))
  with f(1) show "e \<in> set (rga_elements b)" by simp
qed

subsection \<open>Wire formats\<close>

interpretation mv_entry_codec: codec push_mv_entry read_mv_entry "\<lambda>x. wire_string (fst x)"
proof
  fix x buf
  have app: "push_mv_entry x b = b @ push_time (snd x) [] @ push_string (fst x) []" for b
    using string_codec.push_append [of "fst x" "push_time (snd x) b"] time_codec.push_append [of "snd x" b]
    by (simp add: push_mv_entry_def)
  then show "push_mv_entry x buf = buf @ push_mv_entry x []" by simp
  fix bs pos
  assume v: "wire_string (fst x)" and "holds_at bs pos (push_mv_entry x [])"
  then have h: "holds_at bs pos (push_time (snd x) [])"
    "holds_at bs (pos + length (push_time (snd x) [])) (push_string (fst x) [])"
    unfolding app by simp_all
  from time_codec.read_at [OF TrueI h(1)] string_codec.read_at [OF v h(2)]
  show "read_mv_entry bs pos = Some (x, pos + length (push_mv_entry x []))"
    unfolding app by (simp add: read_mv_entry_def)
qed

interpretation id_codec: codec push_id read_id "\<lambda>_. True"
proof
  fix x buf
  have app: "push_id x b = b @ push_u64 (lt_node_id x) [] @ push_u64 (lt_counter x) []" for b
    by (simp add: push_id_def push_u64_def)
  then show "push_id x buf = buf @ push_id x []" by simp
  fix bs pos
  assume "holds_at bs pos (push_id x [])"
  then have "holds_at bs pos (push_u64 (lt_node_id x) [])" "holds_at bs (pos + 8) (push_u64 (lt_counter x) [])"
    unfolding app by (simp_all add: push_u64_def)
  from this [THEN u64_codec.read_at [OF TrueI]] show "read_id bs pos = Some (x, pos + length (push_id x []))"
    unfolding app by (simp add: read_id_def push_u64_def)
qed

lemma holds_at_byte: "holds_at bs pos [b] \<longleftrightarrow> pos < length bs \<and> bs ! pos = b"
proof -
  have "take (Suc 0) (drop pos bs) = [b] \<longleftrightarrow> bs ! pos = b" if "pos < length bs"
    using that by (simp add: take_Suc hd_drop_conv_nth)
  then show ?thesis by (auto simp: holds_at_def slice_def Suc_le_eq)
qed

lemma codec_opt:
  assumes "codec p rd valid"
  shows "codec (push_opt p) (read_opt rd) (\<lambda>x. case x of None \<Rightarrow> True | Some v \<Rightarrow> valid v)"
proof
  fix x buf
  have app: "push_opt p x b = b @ (case x of None \<Rightarrow> [0] | Some v \<Rightarrow> [1] @ p v [])" for b
  proof (cases x)
    case (Some v)
    then show ?thesis using codec.push_append [OF assms, of v "b @ [1]"] by (simp add: push_opt_def push_u8_def)
  qed (simp add: push_opt_def push_u8_def)
  then show "push_opt p x buf = buf @ push_opt p x []" by simp
  fix bs pos
  assume v: "case x of None \<Rightarrow> True | Some v \<Rightarrow> valid v" and h: "holds_at bs pos (push_opt p x [])"
  show "read_opt rd bs pos = Some (x, pos + length (push_opt p x []))"
  proof (cases x)
    case None
    with h show ?thesis unfolding app by (simp add: read_opt_def holds_at_byte)
  next
    case (Some y)
    with h have "pos < length bs" "bs ! pos = 1" "holds_at bs (pos + 1) (p y [])"
      unfolding app by (simp_all only: option.case holds_at_append holds_at_byte) auto
    with Some v codec.read_at [OF assms, of y bs "pos + 1"] show ?thesis
      unfolding app by (simp add: read_opt_def)
  qed
qed

interpretation opt_id_codec: codec "push_opt push_id" "read_opt read_id" "\<lambda>x. case x of None \<Rightarrow> True | Some v \<Rightarrow> True"
  by (rule codec_opt [OF id_codec.codec_axioms])

interpretation opt_string_codec: codec "push_opt push_string" "read_opt read_string"
  "\<lambda>x. case x of None \<Rightarrow> True | Some v \<Rightarrow> wire_string v"
  by (rule codec_opt [OF string_codec.codec_axioms])

definition wire_element :: "string RGAElement \<Rightarrow> bool" where
  "wire_element e \<longleftrightarrow> (case rg_value e of None \<Rightarrow> True | Some v \<Rightarrow> wire_string v)"

interpretation element_codec: codec push_element read_element wire_element
proof
  fix x :: "string RGAElement" and buf
  let ?I = "push_id (rg_id x) []" and ?P = "push_opt push_id (rg_parent x) []"
    and ?V = "push_opt push_string (rg_value x) []" and ?T = "push_time (rg_timestamp x) []"
  have app: "push_element x b = b @ ?I @ ?P @ ?V @ ?T" for b
    unfolding push_element_def
    by (subst time_codec.push_append, subst opt_string_codec.push_append, subst opt_id_codec.push_append,
        subst id_codec.push_append) simp
  then show "push_element x buf = buf @ push_element x []" by simp
  fix bs pos
  assume v: "wire_element x" and "holds_at bs pos (push_element x [])"
  then have h: "holds_at bs pos ?I" "holds_at bs (pos + length ?I) ?P" "holds_at bs (pos + length ?I + length ?P) ?V"
    "holds_at bs (pos + length ?I + length ?P + length ?V) ?T"
    unfolding app by (simp_all add: add.assoc)
  have "case rg_parent x of None \<Rightarrow> True | Some v \<Rightarrow> True" by (simp split: option.split)
  note reads = id_codec.read_at [OF TrueI h(1)] opt_id_codec.read_at [OF this h(2)]
    opt_string_codec.read_at [OF v [unfolded wire_element_def] h(3)] time_codec.read_at [OF TrueI h(4)]
  show "read_element bs pos = Some (x, pos + length (push_element x []))"
    unfolding app using reads by (simp add: read_element_def add.assoc)
qed

lemma be_slice_u64: "holds_at bs pos (to_be 8 (w :: u64)) \<Longrightarrow> from_be (slice bs pos (pos + 8)) = w"
  by (simp add: holds_at_def)

lemma be_slice_u32: "holds_at bs pos (to_be 4 (w :: u32)) \<Longrightarrow> from_be (slice bs pos (pos + 4)) = w"
  by (simp add: holds_at_def)

lemma LWWRegister_decode:
  assumes "wire_string (lww_value s)"
  shows "LWWRegister_from_bytes (LWWRegister_to_bytes s) = Some \<lparr>lww_value = lww_value s,
    lww_timestamp = LamportTime (lt_counter (lww_timestamp s)) (lc_node_id (lww_clock s)),
    lww_clock = \<lparr>lc_node_id = lc_node_id (lww_clock s), lc_counter = lt_counter (lww_timestamp s)\<rparr>\<rparr>"
proof -
  let ?bs = "LWWRegister_to_bytes s" and ?v = "lww_value s"
  have len: "unat (of_nat (length ?v) :: u32) = length ?v" "length (as_bytes ?v) = length ?v"
    using assms unat_len_u32 by (auto simp: wire_string_def as_bytes_def)
  have h: "holds_at ?bs 0 (to_be 8 (lc_node_id (lww_clock s)))" "holds_at ?bs 8 (to_be 8 (lt_counter (lww_timestamp s)))"
    "holds_at ?bs 16 (to_be 4 (0 :: u32))" "holds_at ?bs 20 (to_be 4 (of_nat (length ?v) :: u32))" "holds_at ?bs 24 (as_bytes ?v)"
    using holds_at_self [of ?bs] unfolding LWWRegister_to_bytes_def by simp_all
  have "slice ?bs 24 (24 + length ?v) = as_bytes ?v" "length ?bs = 24 + length ?v"
    using h(5) by (simp_all add: holds_at_def len LWWRegister_to_bytes_def)
  with be_slice_u64 [OF h(1)] be_slice_u64 [OF h(2)] be_slice_u32 [OF h(3)] be_slice_u32 [OF h(4)] assms
  show ?thesis
    by (simp add: LWWRegister_from_bytes_def Let_def len wire_string_def LamportClock_new_def)
qed

definition mv_wire :: "string MVRegister \<Rightarrow> bool" where
  "mv_wire s \<longleftrightarrow> distinct (mv_values s) \<and> length (mv_values s) < 2 ^ 32 \<and> (\<forall>x \<in> set (mv_values s). wire_string (fst x))"

lemma MVRegister_roundtrip:
  assumes "mv_wire s"
  shows "MVRegister_from_bytes (MVRegister_to_bytes s) = Some s"
proof -
  let ?bs = "MVRegister_to_bytes s" and ?E = "push_counted push_mv_entry (mv_values s) []"
  have bs: "?bs = to_be 8 (lc_node_id (mv_clock s)) @ to_be 8 (lc_counter (mv_clock s)) @ ?E"
    unfolding MVRegister_to_bytes_def by (subst mv_entry_codec.push_counted_append) (simp add: push_u64_def)
  have h: "holds_at ?bs 0 (to_be 8 (lc_node_id (mv_clock s)))" "holds_at ?bs 8 (to_be 8 (lc_counter (mv_clock s)))"
    "holds_at ?bs 16 ?E"
    using holds_at_self [of ?bs] unfolding bs by simp_all
  have len: "length (mv_values s) < 2 ^ 32" and items: "\<forall>x \<in> set (mv_values s). wire_string (fst x)"
    and d: "distinct (mv_values s)" using assms by (auto simp: mv_wire_def)
  have "20 \<le> length ?bs" unfolding bs push_counted_def by (simp add: mv_entry_codec.fold_push push_u32_def)
  with be_slice_u64 [OF h(1)] be_slice_u64 [OF h(2)] mv_entry_codec.read_counted_at [OF len items h(3), of hs_insert "[]"] d
  show ?thesis by (simp add: MVRegister_from_bytes_def Let_def fold_hs_insert_distinct LamportClock_new_def)
qed

definition rga_wire :: "string RGA \<Rightarrow> bool" where
  "rga_wire s \<longleftrightarrow> length (rga_elements s) < 2 ^ 32 \<and> (\<forall>e \<in> set (rga_elements s). wire_element e) \<and>
     mc_wire (rga_matrix s) \<and> length (MatrixClock_to_bytes (rga_matrix s) []) < 2 ^ 32"

lemma RGA_roundtrip:
  assumes "rga_wire s"
  shows "RGA_from_bytes (RGA_to_bytes s) = Some (s\<lparr>rga_matrix := mc_sorted (rga_matrix s)\<rparr>)"
proof -
  let ?bs = "RGA_to_bytes s" and ?E = "push_counted push_element (rga_elements s) []"
  let ?M = "MatrixClock_to_bytes (rga_matrix s) []"
  let ?L = "to_be 4 (of_nat (length ?M) :: u32)"
  have bs: "?bs = to_be 8 (lc_node_id (rga_clock s)) @ to_be 8 (lc_counter (rga_clock s)) @ ?E @ ?L @ ?M"
    unfolding RGA_to_bytes_def Let_def push_u32_def
    by (subst element_codec.push_counted_append) (simp add: push_u64_def)
  have h: "holds_at ?bs 0 (to_be 8 (lc_node_id (rga_clock s)))" "holds_at ?bs 8 (to_be 8 (lc_counter (rga_clock s)))"
    "holds_at ?bs 16 ?E" "holds_at ?bs (16 + length ?E) ?L" "holds_at ?bs (16 + length ?E + 4) ?M"
    using holds_at_self [of ?bs] unfolding bs by (simp_all add: add.assoc)
  have len: "length (rga_elements s) < 2 ^ 32" and items: "\<forall>e \<in> set (rga_elements s). wire_element e"
    and mw: "mc_wire (rga_matrix s)" and ml: "unat (of_nat (length ?M) :: u32) = length ?M"
    using assms by (auto simp: rga_wire_def unat_len_u32)
  have "fold (\<lambda>e es. es @ [e]) es acc = acc @ es" for es acc :: "string RGAElement list"
    by (induction es arbitrary: acc) simp_all
  with be_slice_u64 [OF h(1)] be_slice_u64 [OF h(2)] be_slice_u32 [OF h(4)] MatrixClock_read_at [OF mw h(5)]
    element_codec.read_counted_at [OF len items h(3), of "\<lambda>e es. es @ [e]" "[]"] ml
    arg_cong [OF bs, of length]
  show ?thesis by (simp add: RGA_from_bytes_def Let_def LamportClock_new_def)
qed

subsection \<open>Properties\<close>

text \<open>replicas of a last-writer-wins register converge. When no two writes carry the same Lamport time,
  replicas that merged the same states in any order hold the same time and the same value.\<close>

theorem lww_convergence:
  assumes "\<forall>x \<in> set (s # ss). lww_inv H x" "set (s # ss) = set (t # ts)"
  shows "lww_timestamp (merge_all LWWRegister_merge s ss) = lww_timestamp (merge_all LWWRegister_merge t ts) \<and>
    lww_value (merge_all LWWRegister_merge s ss) = lww_value (merge_all LWWRegister_merge t ts)"
proof -
  have "\<forall>x \<in> set (t # ts). lww_inv H x" unfolding assms(2) [symmetric] by (rule assms(1))
  then have "lww_inv H (merge_all LWWRegister_merge s ss)" "lww_inv H (merge_all LWWRegister_merge t ts)"
    using lww.inv_merge_all [of H s ss] lww.inv_merge_all [of H t ts] assms(1) by simp_all
  with lww.convergence [OF assms] show ?thesis by (simp add: lww_inv_def)
qed

theorem lww_convergence_witness:
  "lww_value (merge_all LWWRegister_merge (LWWRegister_new 1 ''a'') [LWWRegister_new 2 ''b'']) =
   lww_value (merge_all LWWRegister_merge (LWWRegister_new 2 ''b'') [LWWRegister_new 1 ''a''])"
  using lww_convergence [of "LWWRegister_new 1 ''a''" "[LWWRegister_new 2 ''b'']"
      "\<lambda>t. if lt_node_id t = 1 then ''a'' else ''b''" "LWWRegister_new 2 ''b''" "[LWWRegister_new 1 ''a'']"]
  by (simp add: lww_inv_def LWWRegister_new_def tick_def LamportClock_new_def Let_def insert_commute)

text \<open>what the wire format of a last-writer-wins register keeps: the value and the counter of its
  time, while the time's node is replaced by the sender's own node id.\<close>

theorem lww_wire_decode:
  assumes "wire_string (lww_value s)"
  shows "LWWRegister_from_bytes (LWWRegister_to_bytes s) = Some \<lparr>lww_value = lww_value s,
    lww_timestamp = LamportTime (lt_counter (lww_timestamp s)) (lc_node_id (lww_clock s)),
    lww_clock = \<lparr>lc_node_id = lc_node_id (lww_clock s), lc_counter = lt_counter (lww_timestamp s)\<rparr>\<rparr>"
  by (rule LWWRegister_decode [OF assms])

theorem lww_wire_decode_witness:
  "map_option lww_value (LWWRegister_from_bytes (LWWRegister_to_bytes (LWWRegister_new 3 ''hi''))) = Some ''hi''"
proof -
  have "wire_string ''hi''" by (simp add: wire_string_def str_wf_def str_bytes_def)
  with lww_wire_decode [of "LWWRegister_new 3 ''hi''"] show ?thesis
    by (simp add: LWWRegister_new_def tick_def Let_def)
qed


text \<open>replicas of a multi-value register converge to the same conflict set, and a local write leaves
  exactly the written value (the local counter must not be at its 64-bit maximum).\<close>

theorem mvregister_convergence:
  assumes "\<forall>x \<in> set (s # ss). mv_inv x" "set (s # ss) = set (t # ts)" "lc_counter (mv_clock s) \<noteq> -1"
  shows "mv_abs (merge_all MVRegister_merge s ss) = mv_abs (merge_all MVRegister_merge t ts) \<and>
    set (MVRegister_read (merge_all MVRegister_merge s ss)) = set (MVRegister_read (merge_all MVRegister_merge t ts)) \<and>
    MVRegister_read (MVRegister_write v s) = [v] \<and> mv_inv (MVRegister_write v s)"
proof -
  have "mv_inv s" using assms(1) by simp
  note w = MVRegister_write_eq [OF this assms(3), of v]
  have "MVRegister_read (MVRegister_write v s) = [v]"
    unfolding w by (simp add: MVRegister_read_def max_counter_def hs_extend_def hs_insert_def)
  moreover have "mv_inv (MVRegister_write v s)" unfolding w by (simp add: mv_inv_def)
  moreover have "mv_abs (merge_all MVRegister_merge s ss) = mv_abs (merge_all MVRegister_merge t ts)"
    by (rule mvreg.convergence [OF assms(1,2)])
  ultimately show ?thesis by (simp add: read_latest)
qed

theorem mvregister_convergence_witness:
  "set (MVRegister_read (merge_all MVRegister_merge (MVRegister_new 1) [MVRegister_write ''b'' (MVRegister_new 2)])) =
   set (MVRegister_read (merge_all MVRegister_merge (MVRegister_write ''b'' (MVRegister_new 2)) [MVRegister_new 1]))"
proof -
  have "mv_inv (MVRegister_new n :: string MVRegister)" for n by (simp add: mv_inv_def MVRegister_new_def)
  moreover have "mv_inv (MVRegister_write ''b'' (MVRegister_new 2))" by code_simp
  ultimately show ?thesis
    using mvregister_convergence [of "MVRegister_new 1" "[MVRegister_write ''b'' (MVRegister_new 2)]"
        "MVRegister_write ''b'' (MVRegister_new 2)" "[MVRegister_new 1]" "''b''"]
    by (simp add: insert_commute MVRegister_new_def LamportClock_new_def)
qed

text \<open>the multi-value register survives the wire exactly.\<close>

theorem mvregister_wire_roundtrip:
  assumes "mv_wire s"
  shows "MVRegister_from_bytes (MVRegister_to_bytes s) = Some s"
  by (rule MVRegister_roundtrip [OF assms])

theorem mvregister_wire_roundtrip_witness:
  "MVRegister_from_bytes (MVRegister_to_bytes (MVRegister_write ''b'' (MVRegister_new 2))) =
    Some (MVRegister_write ''b'' (MVRegister_new 2))"
  by (rule mvregister_wire_roundtrip)
    (simp add: mv_wire_def MVRegister_write_def MVRegister_new_def tick_def Let_def hs_insert_def
      wire_string_def str_wf_def str_bytes_def)

text \<open>C22: replicas of a sequence agree on its elements. When an id and a change time determine an element,
  replicas that merged the same states in any order hold the same set of elements, tombstones
  included, with no id twice.\<close>

theorem rga_content_convergence:
  assumes "\<forall>x \<in> set (s # ss). rga_inv H x" "set (s # ss) = set (t # ts)"
  shows "set (rga_elements (merge_all RGA_merge s ss)) = set (rga_elements (merge_all RGA_merge t ts)) \<and>
    distinct (map rg_id (rga_elements (merge_all RGA_merge s ss)))"
proof -
  have "\<forall>x \<in> set (t # ts). rga_inv H x" unfolding assms(2) [symmetric] by (rule assms(1))
  then have inv: "rga_inv H (merge_all RGA_merge s ss)" "rga_inv H (merge_all RGA_merge t ts)"
    using rga.inv_merge_all [of H s ss] rga.inv_merge_all [of H t ts] assms(1) by simp_all
  have "set (rga_elements (merge_all RGA_merge s ss)) = set (rga_elements (merge_all RGA_merge t ts))"
    using rga_elements_subset [OF inv] rga_elements_subset [OF inv(2,1)] rga.convergence [OF assms] by auto
  moreover have "distinct (map rg_id (rga_elements (merge_all RGA_merge s ss)))"
    using inv(1) unfolding rga_inv_def by (rule conjunct1)
  ultimately show ?thesis by (rule conjI)
qed

theorem rga_content_convergence_witness:
  "set (rga_elements (merge_all RGA_merge (RGA_new 1) [snd (insert_after None ''b'' (RGA_new 2))])) =
   set (rga_elements (merge_all RGA_merge (snd (insert_after None ''b'' (RGA_new 2))) [RGA_new 1]))"
  using rga_content_convergence [of "RGA_new 1" "[snd (insert_after None ''b'' (RGA_new 2))]"
      "\<lambda>i t. \<lparr>rg_id = i, rg_parent = None, rg_value = Some ''b'', rg_timestamp = t\<rparr>"
      "snd (insert_after None ''b'' (RGA_new 2))" "[RGA_new 1]"]
  by (simp add: rga_inv_def RGA_new_def insert_after_def tick_def Let_def insert_element_sorted_def insert_commute)



text \<open>a sequence survives the wire: elements and clock exactly, the matrix clock up to the order of
  its rows.\<close>

theorem rga_wire_roundtrip:
  assumes "rga_wire s"
  shows "\<exists>m. RGA_from_bytes (RGA_to_bytes s) = Some (s\<lparr>rga_matrix := m\<rparr>) \<and>
    mc_local_node m = mc_local_node (rga_matrix s) \<and> mc_get m = mc_get (rga_matrix s)"
  using RGA_roundtrip [OF assms] by (intro exI [of _ "mc_sorted (rga_matrix s)"]) simp

theorem rga_wire_roundtrip_witness:
  "\<exists>m. RGA_from_bytes (RGA_to_bytes (RGA_new 6)) = Some (RGA_new 6\<lparr>rga_matrix := m\<rparr>)"
proof -
  have "rga_wire (RGA_new 6)"
    by (simp add: rga_wire_def RGA_new_def mc_wire_def mx_wf_def MatrixClock_new_def MatrixClock_to_bytes_def
        push_counted_def sorted_matrix_def push_u32_def push_u64_def)
  from rga_wire_roundtrip [OF this] show ?thesis by blast
qed

end
