(* ===== verification/Timer_Wheel.thy ===== *)
theory Timer_Wheel
  imports Rust_Std "HOL-Library.Multiset"
begin

text \<open>
  The timer wheel of \<open>src/runtime/timer.rs\<close>. An \<open>Instant\<close> and a \<open>Duration\<close> are numbers of nanoseconds. The
  \<open>BinaryHeap\<close> is the list of its entries, and its top is an entry with the earliest fire time; which of
  several such entries the heap shows is left open by the library, and no theorem depends on it. The
  lock around the heap is never poisoned, as no code panics while it holds it. The value payload of a
  message is carried through unread, so it is a type parameter.
\<close>

datatype TimerId = TimerId u64

datatype 'v TimerMessage =
    TSend u16 "'v list"
  | TSendWithContext u16 "'v list" string
  | TExit string
  | TKill
  | TReceiveWaitTimeout
  | TLlmRetry
  | TTimerSleepWake

record VirtualClock =
  vc_base :: nat
  vc_elapsed :: nat

definition VirtualClock_new :: "nat \<Rightarrow> VirtualClock" where
  "VirtualClock_new now = \<lparr>vc_base = now, vc_elapsed = 0\<rparr>"

definition VirtualClock_now :: "VirtualClock \<Rightarrow> nat" where
  "VirtualClock_now c = vc_base c + vc_elapsed c"

definition VirtualClock_advance :: "nat \<Rightarrow> VirtualClock \<Rightarrow> VirtualClock" where
  "VirtualClock_advance duration c = c\<lparr>vc_elapsed := vc_elapsed c + duration\<rparr>"

record 'v TimerEntry =
  te_id :: TimerId
  te_target_actor :: u64
  te_message :: "'v TimerMessage"
  te_fire_at :: nat
  te_cancelled :: bool

record 'v TimerWheel =
  tw_next_id :: u64
  tw_timers :: "'v TimerEntry list"

definition TimerWheel_new :: "'v TimerWheel" where
  "TimerWheel_new = \<lparr>tw_next_id = 1, tw_timers = []\<rparr>"

subsection \<open>The heap\<close>

fun heap_top :: "'v TimerEntry list \<Rightarrow> nat option" where
  "heap_top [] = None"
| "heap_top (x # xs) =
     (case heap_top xs of
        None \<Rightarrow> Some 0
      | Some j \<Rightarrow> if te_fire_at (xs ! j) < te_fire_at x then Some (Suc j) else Some 0)"

definition heap_push :: "'v TimerEntry \<Rightarrow> 'v TimerEntry list \<Rightarrow> 'v TimerEntry list" where
  "heap_push e h = h @ [e]"

definition heap_remove :: "nat \<Rightarrow> 'v TimerEntry list \<Rightarrow> 'v TimerEntry list" where
  "heap_remove i h = take i h @ drop (Suc i) h"

subsection \<open>Scheduling\<close>

text \<open>What all the scheduling operations do: take the next id and push an entry.\<close>

definition schedule :: "nat \<Rightarrow> nat \<Rightarrow> u64 \<Rightarrow> 'v TimerMessage \<Rightarrow> 'v TimerWheel \<Rightarrow> TimerId \<times> 'v TimerWheel" where
  "schedule now delay target msg w =
     (let tid = TimerId (tw_next_id w);
          entry = \<lparr>te_id = tid, te_target_actor = target, te_message = msg, te_fire_at = now + delay,
                   te_cancelled = False\<rparr>
      in (tid, w\<lparr>tw_next_id := tw_next_id w + 1, tw_timers := heap_push entry (tw_timers w)\<rparr>))"

definition send_after_with_context ::
    "nat \<Rightarrow> nat \<Rightarrow> u64 \<Rightarrow> u16 \<Rightarrow> 'v list \<Rightarrow> string \<Rightarrow> 'v TimerWheel \<Rightarrow> TimerId \<times> 'v TimerWheel" where
  "send_after_with_context now delay target behavior_id payload ctxt =
     schedule now delay target (TSendWithContext behavior_id payload ctxt)"

definition send_after :: "nat \<Rightarrow> nat \<Rightarrow> u64 \<Rightarrow> u16 \<Rightarrow> 'v list \<Rightarrow> 'v TimerWheel \<Rightarrow> TimerId \<times> 'v TimerWheel" where
  "send_after now delay target behavior_id payload = send_after_with_context now delay target behavior_id payload []"

definition exit_after :: "nat \<Rightarrow> nat \<Rightarrow> u64 \<Rightarrow> string \<Rightarrow> 'v TimerWheel \<Rightarrow> TimerId \<times> 'v TimerWheel" where
  "exit_after now delay target reason = schedule now delay target (TExit reason)"

definition kill_after :: "nat \<Rightarrow> nat \<Rightarrow> u64 \<Rightarrow> 'v TimerWheel \<Rightarrow> TimerId \<times> 'v TimerWheel" where
  "kill_after now delay target = schedule now delay target TKill"

definition receive_wait_timeout :: "nat \<Rightarrow> nat \<Rightarrow> u64 \<Rightarrow> 'v TimerWheel \<Rightarrow> TimerId \<times> 'v TimerWheel" where
  "receive_wait_timeout now delay target = schedule now delay target TReceiveWaitTimeout"

definition timer_sleep_wake_at :: "nat \<Rightarrow> nat \<Rightarrow> u64 \<Rightarrow> 'v TimerWheel \<Rightarrow> TimerId \<times> 'v TimerWheel" where
  "timer_sleep_wake_at now delay target = schedule now delay target TTimerSleepWake"

definition schedule_llm_retry :: "nat \<Rightarrow> nat \<Rightarrow> u64 \<Rightarrow> 'v TimerWheel \<Rightarrow> TimerId \<times> 'v TimerWheel" where
  "schedule_llm_retry now delay target = schedule now delay target TLlmRetry"

subsection \<open>Cancelling, reading and firing\<close>

definition cancel :: "TimerId \<Rightarrow> 'v TimerWheel \<Rightarrow> bool \<times> 'v TimerWheel" where
  "cancel timer_id w =
     (case position (\<lambda>e. te_id e = timer_id) (tw_timers w) of
        Some i \<Rightarrow> (True, w\<lparr>tw_timers := (tw_timers w)[i := (tw_timers w ! i)\<lparr>te_cancelled := True\<rparr>]\<rparr>)
      | None \<Rightarrow> (False, w))"

definition remaining :: "nat \<Rightarrow> TimerId \<Rightarrow> 'v TimerWheel \<Rightarrow> nat option" where
  "remaining now timer_id w =
     (case position (\<lambda>e. te_id e = timer_id \<and> \<not> te_cancelled e) (tw_timers w) of
        Some i \<Rightarrow> let fire_at = te_fire_at (tw_timers w ! i) in
                  Some (if fire_at > now then fire_at - now else 0)
      | None \<Rightarrow> None)"

lemma heap_topD: "heap_top h = Some i \<Longrightarrow> i < length h \<and> (\<forall>e \<in> set h. te_fire_at (h ! i) \<le> te_fire_at e)"
proof (induction h arbitrary: i)
  case (Cons x h)
  show ?case
  proof (cases "heap_top h")
    case None
    then have "h = []" by (cases h) (auto split: option.splits if_splits)
    with Cons.prems None show ?thesis by simp
  next
    case (Some j)
    from Cons.IH [OF Some] Cons.prems Some show ?thesis by (auto split: if_splits)
  qed
qed simp

lemma heap_top_None: "heap_top h = None \<longleftrightarrow> h = []"
  by (cases h) (auto split: option.splits if_splits)

lemma length_heap_remove: "i < length h \<Longrightarrow> length (heap_remove i h) < length h"
  by (simp add: heap_remove_def)

lemma mset_heap_remove: "i < length h \<Longrightarrow> mset h = add_mset (h ! i) (mset (heap_remove i h))"
  using arg_cong [OF id_take_nth_drop, of i h mset] by (simp add: heap_remove_def)

function tick_loop :: "nat \<Rightarrow> 'v TimerEntry list \<Rightarrow> 'v TimerEntry list \<Rightarrow> 'v TimerEntry list \<times> 'v TimerEntry list" where
  "tick_loop now h fired =
     (case heap_top h of
        None \<Rightarrow> (fired, h)
      | Some i \<Rightarrow>
          if te_cancelled (h ! i) then tick_loop now (heap_remove i h) fired
          else if te_fire_at (h ! i) \<le> now then tick_loop now (heap_remove i h) (fired @ [h ! i])
          else (fired, h))"
  by pat_completeness auto
termination
  by (relation "measure (\<lambda>(now, h, fired). length h)") (auto dest: heap_topD intro: length_heap_remove)

declare tick_loop.simps [simp del]

definition TimerWheel_tick :: "nat \<Rightarrow> 'v TimerWheel \<Rightarrow> (u64 \<times> 'v TimerMessage) list \<times> 'v TimerWheel" where
  "TimerWheel_tick now w =
     (let (fired, h) = tick_loop now (tw_timers w) []
      in (map (\<lambda>e. (te_target_actor e, te_message e)) fired, w\<lparr>tw_timers := h\<rparr>))"

definition min_opt :: "nat option \<Rightarrow> nat \<Rightarrow> nat option" where
  "min_opt m x = (case m of None \<Rightarrow> Some x | Some y \<Rightarrow> Some (min y x))"

definition next_deadline :: "'v TimerWheel \<Rightarrow> nat option" where
  "next_deadline w = foldl min_opt None (map te_fire_at (filter (\<lambda>e. \<not> te_cancelled e) (tw_timers w)))"

definition TimerWheel_len :: "'v TimerWheel \<Rightarrow> nat" where
  "TimerWheel_len w = length (filter (\<lambda>e. \<not> te_cancelled e) (tw_timers w))"

subsection \<open>Correctness of a tick\<close>

abbreviation due :: "nat \<Rightarrow> 'v TimerEntry \<Rightarrow> bool" where
  "due now e \<equiv> \<not> te_cancelled e \<and> te_fire_at e \<le> now"

abbreviation pending :: "nat \<Rightarrow> 'v TimerEntry \<Rightarrow> bool" where
  "pending now e \<equiv> \<not> te_cancelled e \<and> now < te_fire_at e"

lemma filter_mset_none: "filter_mset P (mset xs) = {#} \<longleftrightarrow> (\<forall>x \<in> set xs. \<not> P x)"
  by (simp add: mset_filter [symmetric] filter_empty_conv del: mset_filter)

lemma tick_loop_spec:
  assumes "tick_loop now h fired = (fired', h')"
    and "sorted (map te_fire_at fired)" "\<forall>e \<in> set fired. \<forall>x \<in> set h. te_fire_at e \<le> te_fire_at x"
  shows "mset fired' = mset fired + filter_mset (due now) (mset h) \<and>
    filter_mset (\<lambda>e. \<not> te_cancelled e) (mset h') = filter_mset (pending now) (mset h) \<and>
    sorted (map te_fire_at fired') \<and> set_mset (mset h') \<subseteq> set h"
  using assms
proof (induction now h fired rule: tick_loop.induct)
  case (1 now h fired)
  show ?case
  proof (cases "heap_top h")
    case None
    then have "h = []" by (simp add: heap_top_None)
    with 1 show ?thesis by (auto simp: tick_loop.simps [of now "[]"])
  next
    case (Some i)
    let ?h = "heap_remove i h" and ?e = "h ! i"
    have i: "i < length h" "\<forall>x \<in> set h. te_fire_at ?e \<le> te_fire_at x" using heap_topD [OF Some] by auto
    have ms: "mset h = add_mset ?e (mset ?h)" by (rule mset_heap_remove [OF i(1)])
    then have sub: "set ?h \<subseteq> set h" "?e \<in> set h" using i(1) by (auto simp: heap_remove_def dest: in_set_takeD in_set_dropD)
    consider "te_cancelled ?e" | "\<not> te_cancelled ?e" "te_fire_at ?e \<le> now" | "\<not> te_cancelled ?e" "now < te_fire_at ?e"
      by linarith
    then show ?thesis
    proof cases
      case 1
      have "tick_loop now h fired = tick_loop now ?h fired"
        using Some 1 by (subst tick_loop.simps) simp
      with "1.IH"(1) [OF Some 1] "1.prems" sub 1 show ?thesis unfolding ms by auto
    next
      case 2
      have "tick_loop now h fired = tick_loop now ?h (fired @ [?e])"
        using Some 2 by (subst tick_loop.simps) simp
      moreover have "sorted (map te_fire_at (fired @ [?e]))" using "1.prems"(2,3) sub by (auto simp: sorted_append)
      moreover have "\<forall>e \<in> set (fired @ [?e]). \<forall>x \<in> set ?h. te_fire_at e \<le> te_fire_at x"
        using "1.prems"(3) i(2) sub by auto
      ultimately show ?thesis
        using "1.IH"(2) [OF Some 2] "1.prems"(1) sub 2 unfolding ms by auto
    next
      case 3
      have "tick_loop now h fired = (fired, h)" using Some 3 by (subst tick_loop.simps) simp
      moreover have "now < te_fire_at x" if "x \<in> set h" for x using i(2) 3(2) that by fastforce
      then have "filter_mset (due now) (mset h) = {#}" "filter_mset (pending now) (mset h) = filter_mset (\<lambda>e. \<not> te_cancelled e) (mset h)"
        by (fastforce simp: filter_mset_none intro!: filter_mset_cong)+
      ultimately show ?thesis using "1.prems" by auto
    qed
  qed
qed

lemma tick_spec:
  assumes "tick_loop now h [] = (fired, h')"
  shows "mset fired = filter_mset (due now) (mset h)"
    "filter_mset (\<lambda>e. \<not> te_cancelled e) (mset h') = filter_mset (pending now) (mset h)"
    "sorted (map te_fire_at fired)"
  using tick_loop_spec [OF assms] by auto

text \<open>The ids handed out so far are distinct and below the next one.\<close>

definition tw_inv :: "'v TimerWheel \<Rightarrow> bool" where
  "tw_inv w \<longleftrightarrow> distinct (map te_id (tw_timers w)) \<and>
     (\<forall>e \<in> set (tw_timers w). \<exists>n. te_id e = TimerId n \<and> n < tw_next_id w)"

lemma tw_inv_new: "tw_inv TimerWheel_new"
  by (simp add: tw_inv_def TimerWheel_new_def)

lemma word_less_plus_one:
  assumes "(x :: 'a::len word) \<noteq> -1"
  shows "x < x + 1"
  using assms unatSuc [of x] by (simp add: word_less_nat_alt add.commute eq_neg_iff_add_eq_0)

lemma tw_inv_schedule:
  assumes "tw_inv w" "tw_next_id w \<noteq> -1"
  shows "tw_inv (snd (schedule now delay target msg w))"
proof -
  have lt: "tw_next_id w < tw_next_id w + 1" by (rule word_less_plus_one [OF assms(2)])
  have "TimerId (tw_next_id w) \<notin> te_id ` set (tw_timers w)"
    using assms(1) by (force simp: tw_inv_def)
  moreover have "\<exists>n. te_id e = TimerId n \<and> n < tw_next_id w + 1" if "e \<in> set (tw_timers w)" for e
    using assms(1) that lt by (force simp: tw_inv_def)
  ultimately show ?thesis
    using assms(1) lt by (auto simp: tw_inv_def schedule_def Let_def heap_push_def)
qed

lemma foldl_min_opt: "foldl min_opt (Some a) xs = Some (fold min xs a)"
  by (induction xs arbitrary: a) (auto simp: min_opt_def min.commute)

lemma fold_min_le: "fold min xs a \<le> (t :: nat) \<longleftrightarrow> a \<le> t \<or> (\<exists>x \<in> set xs. x \<le> t)"
  by (induction xs arbitrary: a) (auto simp: min_le_iff_disj)

lemma next_deadline_le:
  "(\<exists>e \<in> set (tw_timers w). due now e) \<longleftrightarrow> (case next_deadline w of None \<Rightarrow> False | Some t \<Rightarrow> t \<le> now)"
proof (cases "filter (\<lambda>e. \<not> te_cancelled e) (tw_timers w)")
  case Nil
  then show ?thesis by (auto simp: next_deadline_def filter_empty_conv)
next
  case (Cons x xs)
  have "(\<exists>e \<in> set (tw_timers w). due now e) \<longleftrightarrow> (\<exists>e \<in> set (x # xs). te_fire_at e \<le> now)"
    unfolding Cons [symmetric] by auto
  with Cons show ?thesis by (auto simp: next_deadline_def min_opt_def [of None] foldl_min_opt fold_min_le)
qed

lemma mset_update_at:
  assumes "i < length xs"
  shows "mset (xs[i := y]) = add_mset y (mset xs - {#xs ! i#})"
  using assms by (rule mset_update)

subsection \<open>Properties\<close>

text \<open>C26: a tick fires exactly the timers that are due and not cancelled, each once, in the order of their
  fire times, and keeps exactly the other active ones.\<close>

theorem timer_tick_exact:
  "case TimerWheel_tick now w of (fired, w') \<Rightarrow>
     (\<exists>es. fired = map (\<lambda>e. (te_target_actor e, te_message e)) es \<and> sorted (map te_fire_at es) \<and>
        mset es = filter_mset (due now) (mset (tw_timers w))) \<and>
     filter_mset (\<lambda>e. \<not> te_cancelled e) (mset (tw_timers w')) = filter_mset (pending now) (mset (tw_timers w))"
proof (cases "tick_loop now (tw_timers w) []")
  case (Pair fired h')
  from tick_spec [OF this] Pair show ?thesis by (auto simp: TimerWheel_tick_def)
qed

text \<open>the next deadline is exact: a tick at a given time fires nothing if and only if there is no
  deadline or it lies in the future, so a scheduler that sleeps until the deadline misses nothing.\<close>

theorem timer_next_deadline_exact:
  "fst (TimerWheel_tick now w) = [] \<longleftrightarrow> (case next_deadline w of None \<Rightarrow> True | Some t \<Rightarrow> now < t)"
proof (cases "tick_loop now (tw_timers w) []")
  case (Pair fired h')
  have "fired = [] \<longleftrightarrow> mset fired = {#}" by simp
  also have "\<dots> \<longleftrightarrow> \<not> (\<exists>e \<in> set (tw_timers w). due now e)"
    unfolding tick_spec(1) [OF Pair] by (auto simp: filter_mset_none)
  finally show ?thesis using Pair next_deadline_le [of w now]
    by (auto simp: TimerWheel_tick_def not_le split: option.splits)
qed

text \<open>cancelling. With distinct timer ids, \<open>cancel\<close> reports whether the timer is there, after it the
  timer is neither readable nor fired at any time, and every other active timer stays active.\<close>

theorem timer_cancel_effective:
  assumes "tw_inv w" "cancel tid w = (found, w')"
  shows "(found \<longleftrightarrow> tid \<in> te_id ` set (tw_timers w)) \<and> remaining now tid w' = None \<and>
    filter_mset (\<lambda>e. \<not> te_cancelled e) (mset (tw_timers w')) =
      filter_mset (\<lambda>e. \<not> te_cancelled e \<and> te_id e \<noteq> tid) (mset (tw_timers w))"
proof (cases "position (\<lambda>e. te_id e = tid) (tw_timers w)")
  case None
  with assms(2) have "\<forall>e \<in> set (tw_timers w). te_id e \<noteq> tid" "w' = w" "\<not> found"
    by (auto simp: cancel_def position_None_iff)
  moreover from this have "remaining now tid w = None" by (simp add: remaining_def position_None_iff [THEN iffD2])
  ultimately show ?thesis by (auto intro!: filter_mset_cong)
next
  case (Some i)
  let ?ts = "tw_timers w" and ?e = "tw_timers w ! i"
  have i: "i < length ?ts" "te_id ?e = tid" using position_SomeD [OF Some] by auto
  have w': "tw_timers w' = ?ts[i := ?e\<lparr>te_cancelled := True\<rparr>]" "found" using assms(2) Some by (auto simp: cancel_def)
  have others: "te_id (?ts ! j) \<noteq> tid" if "j < length ?ts" "j \<noteq> i" for j
    using assms(1) i that by (auto simp: tw_inv_def distinct_conv_nth)
  have "\<forall>e \<in> set (tw_timers w'). te_id e = tid \<longrightarrow> te_cancelled e"
  proof (intro ballI impI)
    fix e assume "e \<in> set (tw_timers w')" "te_id e = tid"
    then obtain j where j: "j < length ?ts" "e = (?ts[i := ?e\<lparr>te_cancelled := True\<rparr>]) ! j"
      unfolding w' by (auto simp: in_set_conv_nth)
    show "te_cancelled e"
      using j \<open>te_id e = tid\<close> others [of j] by (cases "j = i") auto
  qed
  then have "remaining now tid w' = None" by (simp add: remaining_def position_None_iff [THEN iffD2])
  moreover have "filter (\<lambda>e. \<not> te_cancelled e) (tw_timers w') = filter (\<lambda>e. \<not> te_cancelled e \<and> te_id e \<noteq> tid) ?ts"
  proof -
    have split: "?ts = take i ?ts @ ?e # drop (Suc i) ?ts" by (rule id_take_nth_drop [OF i(1)])
    have "te_id x \<noteq> tid" if "x \<in> set (take i ?ts) \<union> set (drop (Suc i) ?ts)" for x
      using that others i by (auto simp: in_set_conv_nth)
    then have "filter (\<lambda>e. \<not> te_cancelled e) (take i ?ts) = filter (\<lambda>e. \<not> te_cancelled e \<and> te_id e \<noteq> tid) (take i ?ts)"
      "filter (\<lambda>e. \<not> te_cancelled e) (drop (Suc i) ?ts) = filter (\<lambda>e. \<not> te_cancelled e \<and> te_id e \<noteq> tid) (drop (Suc i) ?ts)"
      by (auto intro!: filter_cong)
    then show ?thesis
      unfolding w' upd_conv_take_nth_drop [OF i(1)] by (subst (4) split) (simp add: i(2))
  qed
  moreover have "tid \<in> te_id ` set ?ts" using i nth_mem [OF i(1)] by (metis image_eqI)
  ultimately show ?thesis using w'(2) by (simp add: mset_filter [symmetric] del: mset_filter)
qed

theorem timer_cancel_effective_witness:
  "case cancel (TimerId 1) (snd (kill_after 5 10 7 TimerWheel_new)) of (found, w') \<Rightarrow>
    found \<and> remaining 6 (TimerId 1) (w' :: u64 TimerWheel) = None"
proof -
  have "tw_inv (snd (kill_after 5 10 7 TimerWheel_new))"
    unfolding kill_after_def by (rule tw_inv_schedule [OF tw_inv_new]) (simp add: TimerWheel_new_def)
  from timer_cancel_effective [OF this, of "TimerId 1"] show ?thesis
    by (auto simp: kill_after_def schedule_def TimerWheel_new_def Let_def heap_push_def split: prod.splits)
qed

end
