(* ===== verification/Resp.thy ===== *)
theory Resp
  imports Rust_Std
begin

text \<open>
  The RESP2 command parser and reply writers of \<open>src/runtime/resp.rs\<close>. A result \<open>Inr None\<close> means that more
  bytes are needed, \<open>Inl e\<close> is a protocol error. Slices borrowed from the input are copied. An \<open>i64\<close> is an
  \<open>int\<close> with the checked operations written out.
\<close>

datatype RespParseError = ExpectedArray | ExpectedBulkString | InvalidInteger | InvalidLength
  | InvalidTerminator | EmptyCommand

record RespCommand =
  rc_name :: bytes
  rc_args_bytes :: bytes
  rc_argc :: nat

abbreviation CR :: u8 where "CR \<equiv> 0x0D"
abbreviation LF :: u8 where "LF \<equiv> 0x0A"

definition i64_max :: int where "i64_max = 2 ^ 63 - 1"
definition i64_min :: int where "i64_min = - (2 ^ 63)"

definition checked_i64 :: "int \<Rightarrow> int option" where
  "checked_i64 n = (if i64_min \<le> n \<and> n \<le> i64_max then Some n else None)"

text \<open>\<open>windows(2).position(|window| window == b"\r\n")\<close>\<close>

fun find_crlf :: "bytes \<Rightarrow> nat option" where
  "find_crlf (a # b # bs) = (if a = CR \<and> b = LF then Some 0 else map_option Suc (find_crlf (b # bs)))"
| "find_crlf _ = None"

definition is_ascii_digit :: "u8 \<Rightarrow> bool" where
  "is_ascii_digit d \<longleftrightarrow> 0x30 \<le> d \<and> d \<le> 0x39"

fun parse_digits :: "bytes \<Rightarrow> int \<Rightarrow> RespParseError + int" where
  "parse_digits [] v = Inr v"
| "parse_digits (d # ds) v =
     (if \<not> is_ascii_digit d then Inl InvalidInteger
      else case checked_i64 (v * 10) of
             None \<Rightarrow> Inl InvalidInteger
           | Some v10 \<Rightarrow>
               (case checked_i64 (v10 + uint (d - 0x30)) of
                  None \<Rightarrow> Inl InvalidInteger
                | Some v' \<Rightarrow> parse_digits ds v'))"

definition parse_number_line :: "bytes \<Rightarrow> u8 \<Rightarrow> RespParseError + (int \<times> nat) option" where
  "parse_number_line input marker =
     (if input = [] then Inr None
      else if hd input \<noteq> marker then Inl InvalidInteger
      else case find_crlf (tl input) of
             None \<Rightarrow> Inr None
           | Some relative_end \<Rightarrow>
               let line_end = relative_end + 1;
                   digits = take relative_end (tl input)
               in if digits = [] then Inl InvalidInteger
                  else let negative = (hd digits = 0x2D) in
                    if negative \<and> length digits = 1 then Inl InvalidInteger
                    else case parse_digits (if negative then tl digits else digits) 0 of
                           Inl e \<Rightarrow> Inl e
                         | Inr v \<Rightarrow>
                             if negative
                             then (case checked_i64 (- v) of
                                     None \<Rightarrow> Inl InvalidInteger
                                   | Some v' \<Rightarrow> Inr (Some (v', line_end + 2)))
                             else Inr (Some (v, line_end + 2)))"

definition parse_bulk :: "bytes \<Rightarrow> RespParseError + (bytes \<times> nat) option" where
  "parse_bulk input =
     (if input = [] then Inr None
      else if hd input \<noteq> 0x24 then Inl ExpectedBulkString
      else case parse_number_line input 0x24 of
             Inl e \<Rightarrow> Inl e
           | Inr None \<Rightarrow> Inr None
           | Inr (Some (len, header)) \<Rightarrow>
               if len < 0 then Inl InvalidLength
               else let fin = header + nat len; frame_end = fin + 2 in
                 if fin \<ge> 2 ^ 64 \<or> frame_end \<ge> 2 ^ 64 then Inl InvalidLength
                 else if length input < frame_end then Inr None
                 else if take 2 (drop fin input) \<noteq> [CR, LF] then Inl InvalidTerminator
                 else Inr (Some (take (nat len) (drop header input), frame_end)))"

text \<open>The loop \<open>for _ in 1..count\<close>, which only validates: \<open>Inr (Some cursor)\<close> is the end of the frame.\<close>

fun skip_bulks :: "nat \<Rightarrow> bytes \<Rightarrow> nat \<Rightarrow> RespParseError + nat option" where
  "skip_bulks 0 input cursor = Inr (Some cursor)"
| "skip_bulks (Suc n) input cursor =
     (case parse_bulk (drop cursor input) of
        Inl e \<Rightarrow> Inl e
      | Inr None \<Rightarrow> Inr None
      | Inr (Some (_, consumed)) \<Rightarrow> skip_bulks n input (cursor + consumed))"

definition parse_command :: "bytes \<Rightarrow> RespParseError + (RespCommand \<times> nat) option" where
  "parse_command input =
     (if input = [] then Inr None
      else if hd input \<noteq> 0x2A then Inl ExpectedArray
      else case parse_number_line input 0x2A of
             Inl e \<Rightarrow> Inl e
           | Inr None \<Rightarrow> Inr None
           | Inr (Some (count, cursor)) \<Rightarrow>
               if count \<le> 0 then Inl EmptyCommand
               else case parse_bulk (drop cursor input) of
                      Inl e \<Rightarrow> Inl e
                    | Inr None \<Rightarrow> Inr None
                    | Inr (Some (name, consumed)) \<Rightarrow>
                        let args_start = cursor + consumed in
                        (case skip_bulks (nat count - 1) input args_start of
                           Inl e \<Rightarrow> Inl e
                         | Inr None \<Rightarrow> Inr None
                         | Inr (Some fin) \<Rightarrow>
                             Inr (Some (\<lparr>rc_name = name, rc_args_bytes = take (fin - args_start) (drop args_start input),
                                        rc_argc = nat count - 1\<rparr>, fin))))"

text \<open>The iterator \<open>RespArgs\<close> drained: \<open>remaining\<close> arguments from \<open>cursor\<close> on.\<close>

fun resp_args :: "nat \<Rightarrow> bytes \<Rightarrow> bytes list" where
  "resp_args 0 bs = []"
| "resp_args (Suc n) bs =
     (case parse_bulk bs of
        Inr (Some (v, consumed)) \<Rightarrow> v # resp_args n (drop consumed bs)
      | _ \<Rightarrow> [])"

definition args :: "RespCommand \<Rightarrow> bytes list" where
  "args c = resp_args (rc_argc c) (rc_args_bytes c)"

subsection \<open>Writing\<close>

text \<open>The digit loop fills the 20-byte buffer from its end; \<open>acc\<close> is what it has filled so far.\<close>

function decimal_loop :: "nat \<Rightarrow> bytes \<Rightarrow> bytes" where
  "decimal_loop n acc = (if n = 0 then acc else decimal_loop (n div 10) ((0x30 + of_nat (n mod 10)) # acc))"
  by pat_completeness auto
termination
  by (relation "measure fst") auto

declare decimal_loop.simps [simp del]

definition write_u64_decimal :: "u64 \<Rightarrow> bytes \<Rightarrow> bytes" where
  "write_u64_decimal v out = (if v = 0 then out @ [0x30] else out @ decimal_loop (unat v) [])"

definition encode_i64_decimal :: "int \<Rightarrow> bytes" where
  "encode_i64_decimal v =
     (let magnitude = nat \<bar>v\<bar>;
          digits = (if magnitude = 0 then [0x30] else decimal_loop magnitude [])
      in if v < 0 then 0x2D # digits else digits)"

definition write_i64_decimal :: "int \<Rightarrow> bytes \<Rightarrow> bytes" where
  "write_i64_decimal v out = out @ encode_i64_decimal v"

definition write_simple :: "bytes \<Rightarrow> bytes \<Rightarrow> bytes" where
  "write_simple v out = out @ [0x2B] @ v @ [CR, LF]"

definition write_error :: "bytes \<Rightarrow> bytes \<Rightarrow> bytes" where
  "write_error v out = out @ [0x2D] @ v @ [CR, LF]"

definition write_integer :: "int \<Rightarrow> bytes \<Rightarrow> bytes" where
  "write_integer v out = write_i64_decimal v (out @ [0x3A]) @ [CR, LF]"

definition write_bulk :: "bytes \<Rightarrow> bytes \<Rightarrow> bytes" where
  "write_bulk v out = write_u64_decimal (of_nat (length v)) (out @ [0x24]) @ [CR, LF] @ v @ [CR, LF]"

definition write_null_bulk :: "bytes \<Rightarrow> bytes" where
  "write_null_bulk out = out @ [0x24, 0x2D, 0x31, CR, LF]"

definition write_moved :: "u16 \<Rightarrow> bytes \<Rightarrow> bytes \<Rightarrow> bytes" where
  "write_moved slot target out =
     write_u64_decimal (ucast slot) (out @ [0x2D, 0x4D, 0x4F, 0x56, 0x45, 0x44, 0x20]) @ [0x20] @ target @ [CR, LF]"

definition write_array_len :: "nat \<Rightarrow> bytes \<Rightarrow> bytes" where
  "write_array_len len out = write_u64_decimal (of_nat len) (out @ [0x2A]) @ [CR, LF]"

definition write_bulk_integer :: "int \<Rightarrow> bytes \<Rightarrow> bytes" where
  "write_bulk_integer v out =
     (let digits = encode_i64_decimal v
      in write_u64_decimal (of_nat (length digits)) (out @ [0x24]) @ [CR, LF] @ digits @ [CR, LF])"

subsection \<open>More input does not change a verdict\<close>

lemma find_crlf_append: "find_crlf xs = Some i \<Longrightarrow> find_crlf (xs @ ys) = Some i"
  by (induction xs arbitrary: i rule: find_crlf.induct) (auto split: if_splits)

lemma find_crlf_bound: "find_crlf xs = Some i \<Longrightarrow> i + 2 \<le> length xs"
  by (induction xs arbitrary: i rule: find_crlf.induct) (auto split: if_splits)

lemma number_line_append:
  assumes "parse_number_line xs m \<noteq> Inr None"
  shows "parse_number_line (xs @ ys) m = parse_number_line xs m"
proof (cases "xs = [] \<or> hd xs \<noteq> m")
  case True
  with assms show ?thesis by (auto simp: parse_number_line_def)
next
  case False
  then obtain xs' where xs: "xs = m # xs'" by (cases xs) auto
  with assms obtain i where i: "find_crlf xs' = Some i"
    by (auto simp: parse_number_line_def split: option.splits)
  have "find_crlf (xs' @ ys) = Some i" "take i (xs' @ ys) = take i xs'"
    using find_crlf_append [OF i, of ys] find_crlf_bound [OF i] by simp_all
  with i show ?thesis unfolding parse_number_line_def xs append_Cons list.sel
    by (simp only: option.case list.distinct if_False simp_thms)
qed

lemma number_line_bound: "parse_number_line xs m = Inr (Some (v, k)) \<Longrightarrow> k \<le> length xs \<and> 0 < k"
  by (auto simp: parse_number_line_def Let_def split: if_splits option.splits sum.splits dest!: find_crlf_bound)

lemma bulk_append:
  assumes "parse_bulk xs \<noteq> Inr None"
  shows "parse_bulk (xs @ ys) = parse_bulk xs"
proof (cases "xs = [] \<or> hd xs \<noteq> 0x24")
  case True
  with assms show ?thesis by (auto simp: parse_bulk_def)
next
  case False
  with assms have "parse_number_line xs 0x24 \<noteq> Inr None" by (auto simp: parse_bulk_def)
  note app = number_line_append [OF this, of ys]
  show ?thesis
  proof (cases "parse_number_line xs 0x24")
    case (Inl e)
    with False app show ?thesis by (simp add: parse_bulk_def)
  next
    case (Inr r)
    with \<open>parse_number_line xs 0x24 \<noteq> Inr None\<close> obtain len header where r: "r = Some (len, header)" by force
    show ?thesis
    proof (cases "len < 0 \<or> header + nat len + 2 \<ge> 2 ^ 64")
      case True
      with False app Inr r show ?thesis by (auto simp: parse_bulk_def Let_def)
    next
      case ok: False
      with assms False Inr r have "header + nat len + 2 \<le> length xs"
        by (simp add: parse_bulk_def Let_def split: if_splits)
      with ok False app Inr r show ?thesis by (simp add: parse_bulk_def Let_def)
    qed
  qed
qed

lemma bulk_bound: "parse_bulk xs = Inr (Some (v, k)) \<Longrightarrow> k \<le> length xs"
  by (auto simp: parse_bulk_def Let_def split: if_splits sum.splits option.splits)

lemma skip_bulks_append:
  assumes "skip_bulks n xs cursor \<noteq> Inr None" "cursor \<le> length xs"
  shows "skip_bulks n (xs @ ys) cursor = skip_bulks n xs cursor"
  using assms
proof (induction n arbitrary: cursor)
  case (Suc n)
  let ?r = "parse_bulk (drop cursor xs)"
  have "?r \<noteq> Inr None" using Suc.prems(1) by auto
  from bulk_append [OF this, of ys] have app: "parse_bulk (drop cursor (xs @ ys)) = ?r"
    using Suc.prems(2) by simp
  show ?case
  proof (cases ?r)
    case (Inr o')
    with \<open>?r \<noteq> Inr None\<close> obtain v k where "o' = Some (v, k)" by force
    with Inr bulk_bound [of "drop cursor xs" v k] Suc app show ?thesis by simp
  qed (use app in simp)
qed simp

lemma skip_bulks_bound:
  "skip_bulks n xs cursor = Inr (Some fin) \<Longrightarrow> cursor \<le> length xs \<Longrightarrow> cursor \<le> fin \<and> fin \<le> length xs"
proof (induction n arbitrary: cursor)
  case (Suc n)
  then obtain v k where r: "parse_bulk (drop cursor xs) = Inr (Some (v, k))"
    by (auto split: sum.splits option.splits)
  with Suc bulk_bound [OF r] show ?case by force
qed simp

lemma command_append:
  assumes "parse_command xs \<noteq> Inr None"
  shows "parse_command (xs @ ys) = parse_command xs"
proof (cases "xs = [] \<or> hd xs \<noteq> 0x2A")
  case True
  with assms show ?thesis by (auto simp: parse_command_def)
next
  case False
  with assms have nl: "parse_number_line xs 0x2A \<noteq> Inr None" by (auto simp: parse_command_def)
  note app = number_line_append [OF this, of ys]
  show ?thesis
  proof (cases "parse_number_line xs 0x2A")
    case (Inl e)
    with False app show ?thesis by (simp add: parse_command_def)
  next
    case (Inr r)
    with nl obtain count cursor where r: "r = Some (count, cursor)" by force
    have c: "cursor \<le> length xs" using number_line_bound Inr r by blast
    show ?thesis
    proof (cases "count \<le> 0")
      case True
      with False app Inr r show ?thesis by (simp add: parse_command_def)
    next
      case pos: False
      let ?b = "parse_bulk (drop cursor xs)"
      have "?b \<noteq> Inr None" using assms False Inr r pos by (auto simp: parse_command_def)
      from bulk_append [OF this, of ys] have bapp: "parse_bulk (drop cursor (xs @ ys)) = ?b" using c by simp
      show ?thesis
      proof (cases ?b)
        case (Inl e)
        with False app Inr r pos bapp show ?thesis by (simp add: parse_command_def)
      next
        case b: (Inr o')
        with \<open>?b \<noteq> Inr None\<close> obtain name k where o': "o' = Some (name, k)" by force
        have k: "cursor + k \<le> length xs" using bulk_bound [of "drop cursor xs" name k] b o' c by simp
        have s: "skip_bulks (nat count - 1) xs (cursor + k) \<noteq> Inr None"
          using assms False Inr r pos b o' by (auto simp: parse_command_def Let_def)
        note sapp = skip_bulks_append [OF s k, of ys]
        have "take (fin - (cursor + k)) (drop (cursor + k) (xs @ ys)) = take (fin - (cursor + k)) (drop (cursor + k) xs)"
          if "skip_bulks (nat count - 1) xs (cursor + k) = Inr (Some fin)" for fin
          using skip_bulks_bound [OF that k] k by simp
        with False app Inr r pos b o' bapp sapp show ?thesis
          by (auto simp: parse_command_def Let_def split: sum.splits option.splits)
      qed
    qed
  qed
qed

lemma find_crlf_take: "\<lbrakk>find_crlf xs = Some i; i + 2 \<le> n\<rbrakk> \<Longrightarrow> find_crlf (take n xs) = Some i"
proof (induction xs arbitrary: i n rule: find_crlf.induct)
  case (1 a b bs)
  have "n = Suc (Suc (n - 2))" using "1.prems"(2) by simp
  then obtain n' where n: "n = Suc (Suc n')" by blast
  show ?case
  proof (cases "a = CR \<and> b = LF")
    case True
    then show ?thesis using 1 n by simp
  next
    case False
    then obtain j where j: "find_crlf (b # bs) = Some j" "i = Suc j" using "1.prems"(1) by (auto split: if_splits)
    have "find_crlf (take (Suc n') (b # bs)) = Some j" by (rule "1.IH" [OF False j(1)]) (use "1.prems"(2) j(2) n in simp)
    then show ?thesis using False j(2) n by simp
  qed
qed simp_all

lemma number_line_take:
  assumes "parse_number_line xs m = Inr (Some (v, k))" "k \<le> n"
  shows "parse_number_line (take n xs) m = Inr (Some (v, k))"
proof -
  obtain i where i: "find_crlf (tl xs) = Some i" "xs \<noteq> []" "hd xs = m" "k = i + 3"
    using assms(1) by (auto simp: parse_number_line_def Let_def split: if_splits option.splits sum.splits)
  obtain n' where n: "n = Suc n'" using assms(2) i(4) by (cases n) auto
  obtain x ys where xs: "xs = x # ys" using i(2) by (cases xs) auto
  have "find_crlf (take n' ys) = Some i" using find_crlf_take [of ys i n'] i(1,4) assms(2) n xs by simp
  moreover have "take i (take n' ys) = take i ys" using i(4) assms(2) n by simp
  ultimately show ?thesis using assms(1) i n xs by (simp add: parse_number_line_def)
qed

lemma bulk_take:
  assumes "parse_bulk xs = Inr (Some (v, k))" "k \<le> n"
  shows "parse_bulk (take n xs) = Inr (Some (v, k))"
proof -
  obtain len h where h: "parse_number_line xs 0x24 = Inr (Some (len, h))" "xs \<noteq> []" "hd xs = 0x24" "\<not> len < 0" "k = h + nat len + 2"
    "k \<le> length xs" "take 2 (drop (h + nat len) xs) = [CR, LF]" "v = take (nat len) (drop h xs)" "k < 2 ^ 64"
    using assms(1) by (auto simp: parse_bulk_def Let_def not_le not_less split: if_splits option.splits sum.splits)
  have "parse_number_line (take n xs) 0x24 = Inr (Some (len, h))" using number_line_take [OF h(1)] h(5) assms(2) by simp
  moreover have "take n xs \<noteq> []" "hd (take n xs) = 0x24" using h(2,3,5) assms(2) by (cases xs; cases n; simp)+
  moreover have "take 2 (drop (h + nat len) (take n xs)) = [CR, LF]" "take (nat len) (drop h (take n xs)) = v" "k \<le> length (take n xs)"
    using h(5-8) assms(2) by (auto simp: drop_take min_def)
  ultimately show ?thesis using h(4,5,9) by (simp add: parse_bulk_def Let_def not_le not_less)
qed

lemma skip_bulks_take:
  "\<lbrakk>skip_bulks j xs cur = Inr (Some fin); fin \<le> n\<rbrakk> \<Longrightarrow> skip_bulks j (take n xs) cur = Inr (Some fin) \<and> cur \<le> fin"
proof (induction j xs cur rule: skip_bulks.induct)
  case (2 j xs cur)
  obtain v k where b: "parse_bulk (drop cur xs) = Inr (Some (v, k))" and s: "skip_bulks j xs (cur + k) = Inr (Some fin)"
    using "2.prems"(1) by (auto split: sum.splits option.splits)
  note ih = "2.IH" [OF b refl _ s "2.prems"(2)]
  then have ih: "skip_bulks j (take n xs) (cur + k) = Inr (Some fin)" "cur + k \<le> fin" by auto
  have "parse_bulk (drop cur (take n xs)) = Inr (Some (v, k))"
    using bulk_take [OF b, of "n - cur"] ih(2) "2.prems"(2) by (simp add: drop_take)
  then show ?case using ih by simp
qed simp

lemma command_exact:
  assumes "parse_command xs = Inr (Some (c, k))"
  shows "parse_command (take k xs) = Inr (Some (c, k))"
proof -
  obtain count cursor name used where
    p: "xs \<noteq> []" "hd xs = 0x2A" "parse_number_line xs 0x2A = Inr (Some (count, cursor))" "\<not> count \<le> 0"
      "parse_bulk (drop cursor xs) = Inr (Some (name, used))" "skip_bulks (nat count - 1) xs (cursor + used) = Inr (Some k)"
    and c: "c = \<lparr>rc_name = name, rc_args_bytes = take (k - (cursor + used)) (drop (cursor + used) xs), rc_argc = nat count - 1\<rparr>"
    using assms by (auto simp: parse_command_def Let_def split: if_splits sum.splits option.splits)
  have s: "skip_bulks (nat count - 1) (take k xs) (cursor + used) = Inr (Some k)" "cursor + used \<le> k"
    using skip_bulks_take [OF p(6) order_refl] by auto
  have n: "parse_number_line (take k xs) 0x2A = Inr (Some (count, cursor))" using number_line_take [OF p(3)] s(2) by simp
  have b: "parse_bulk (drop cursor (take k xs)) = Inr (Some (name, used))" using bulk_take [OF p(5), of "k - cursor"] s(2) by (simp add: drop_take)
  have "0 < k" using number_line_bound [OF p(3)] s(2) by simp
  then have "take k xs \<noteq> []" "hd (take k xs) = 0x2A" using p(1,2) by (cases xs; cases k; simp)+
  moreover have "take (k - (cursor + used)) (drop (cursor + used) (take k xs)) = take (k - (cursor + used)) (drop (cursor + used) xs)"
    by (simp add: drop_take)
  ultimately show ?thesis using n b s(1) p(4) c by (simp add: parse_command_def Let_def)
qed

subsection \<open>Reading what was written\<close>

lemma decimal_loop_append: "decimal_loop n acc = decimal_loop n [] @ acc"
proof (induction n arbitrary: acc rule: less_induct)
  case (less n)
  show ?case
  proof (cases "n = 0")
    case False
    then have "n div 10 < n" by simp
    from less.IH [OF this, of "(0x30 + of_nat (n mod 10)) # acc"] less.IH [OF this, of "[0x30 + of_nat (n mod 10)]"]
    show ?thesis using False by (simp add: decimal_loop.simps [of n])
  qed (simp add: decimal_loop.simps)
qed

lemma decimal_loop_step:
  "n \<noteq> 0 \<Longrightarrow> decimal_loop n [] = decimal_loop (n div 10) [] @ [0x30 + of_nat (n mod 10)]"
  by (subst decimal_loop.simps) (simp add: decimal_loop_append [of _ "[0x30 + of_nat (n mod 10)]"])

lemma digit_byte:
  assumes "d < 10"
  shows "is_ascii_digit (0x30 + of_nat d)" "uint ((0x30 + of_nat d) - 0x30 :: u8) = int d"
    "(0x30 + of_nat d :: u8) \<noteq> CR" "(0x30 + of_nat d :: u8) \<noteq> 0x2D"
proof -
  have "d \<in> {0, 1, 2, 3, 4, 5, 6, 7, 8, 9}" using assms by auto
  then show "is_ascii_digit (0x30 + of_nat d)" "uint ((0x30 + of_nat d) - 0x30 :: u8) = int d"
    "(0x30 + of_nat d :: u8) \<noteq> CR" "(0x30 + of_nat d :: u8) \<noteq> 0x2D"
    by (auto simp: is_ascii_digit_def)
qed

lemma parse_digits_append:
  "parse_digits (xs @ ys) v = (case parse_digits xs v of Inl e \<Rightarrow> Inl e | Inr w \<Rightarrow> parse_digits ys w)"
  by (induction xs arbitrary: v) (auto split: option.splits)

lemma parse_decimal: "int n \<le> i64_max \<Longrightarrow> parse_digits (decimal_loop n []) 0 = Inr (int n)"
proof (induction n rule: less_induct)
  case (less n)
  show ?case
  proof (cases "n = 0")
    case True
    then show ?thesis by (simp add: decimal_loop.simps)
  next
    case False
    have "parse_digits (decimal_loop (n div 10) []) 0 = Inr (int (n div 10))"
      using False less.prems by (intro less.IH) (auto simp: zdiv_int)
    moreover have "int (n div 10) * 10 + int (n mod 10) = int n"
      by (metis div_mult_mod_eq of_nat_add of_nat_mult of_nat_numeral)
    moreover have "n mod 10 < 10" by simp
    ultimately show ?thesis
      using False less.prems digit_byte [of "n mod 10"]
      by (simp add: decimal_loop_step parse_digits_append checked_i64_def i64_min_def)
  qed
qed

text \<open>The decimal digits both writers produce.\<close>

definition dec :: "nat \<Rightarrow> bytes" where
  "dec n = (if n = 0 then [0x30] else decimal_loop n [])"

lemma decimal_loop_digits: "\<forall>b \<in> set (decimal_loop n []). \<exists>d < 10. b = 0x30 + of_nat d"
proof (induction n rule: less_induct)
  case (less n)
  show ?case
  proof (cases "n = 0")
    case False
    then have "n div 10 < n" by simp
    from less.IH [OF this] False show ?thesis
      by (auto simp: decimal_loop_step intro!: exI [of _ "n mod 10"])
  qed (simp add: decimal_loop.simps)
qed

lemma dec_digits: "b \<in> set (dec n) \<Longrightarrow> \<exists>d < 10. b = 0x30 + of_nat d"
  using decimal_loop_digits [of n] by (cases "n = 0") (simp_all add: dec_def exI [of _ 0])

lemma dec_no_CR: "CR \<notin> set (dec n)"
  using dec_digits digit_byte(3) by metis

lemma dec_nonempty [simp]: "dec n \<noteq> []"
  by (simp add: dec_def decimal_loop_step)

lemma dec_no_minus: "hd (dec n) \<noteq> 0x2D"
  using dec_digits [of "hd (dec n)" n] digit_byte(4) by (metis dec_nonempty hd_in_set)

lemma parse_dec: "int n \<le> i64_max \<Longrightarrow> parse_digits (dec n) 0 = Inr (int n)"
  by (auto simp: dec_def parse_decimal is_ascii_digit_def checked_i64_def i64_max_def i64_min_def)

lemma dec_length_le: "n < 10 ^ k \<Longrightarrow> 0 < k \<Longrightarrow> length (dec n) \<le> k"
proof (induction k arbitrary: n)
  case (Suc k)
  have "n div 10 < 10 ^ k" using Suc.prems(1) by (simp add: less_mult_imp_div_less mult.commute)
  then show ?case
    using Suc.IH [of "n div 10"]
    by (cases "k = 0"; cases "n div 10 = 0") (auto simp: dec_def decimal_loop_step decimal_loop.simps [of 0])
qed simp

lemma write_u64_dec: "n < 2 ^ 64 \<Longrightarrow> write_u64_decimal (of_nat n) out = out @ dec n"
proof -
  assume n: "n < 2 ^ 64"
  then have "unat (of_nat n :: u64) = n" by (simp add: unat_of_nat take_bit_nat_eq_self)
  moreover from this have "(of_nat n :: u64) = 0 \<longleftrightarrow> n = 0" using unat_eq_zero [of "of_nat n :: u64"] by argo
  ultimately show ?thesis by (simp add: write_u64_decimal_def dec_def)
qed

lemma encode_i64_dec: "encode_i64_decimal v = (if v < 0 then [0x2D] else []) @ dec (nat \<bar>v\<bar>)"
  by (simp add: encode_i64_decimal_def dec_def Let_def)

lemma find_crlf_line: "CR \<notin> set ds \<Longrightarrow> find_crlf (ds @ CR # LF # rest) = Some (length ds)"
proof (induction ds)
  case (Cons d ds)
  then show ?case by (cases ds) auto
qed simp

lemma parse_number_dec:
  assumes "int n \<le> i64_max"
  shows "parse_number_line (m # dec n @ CR # LF # rest) m = Inr (Some (int n, length (dec n) + 3))"
  using find_crlf_line [OF dec_no_CR, of n rest] parse_dec [OF assms] dec_no_minus [of n]
  by (simp add: parse_number_line_def Let_def)

lemma parse_negative_dec:
  assumes "int n \<le> i64_max"
  shows "parse_number_line (m # 0x2D # dec n @ CR # LF # rest) m = Inr (Some (- int n, length (dec n) + 4))"
proof -
  have "find_crlf ((0x2D # dec n) @ CR # LF # rest) = Some (length (0x2D # dec n))"
    using dec_no_CR by (intro find_crlf_line) auto
  then show ?thesis
    using parse_dec [OF assms] assms
    by (simp add: parse_number_line_def Let_def checked_i64_def i64_max_def i64_min_def)
qed

subsection \<open>Round trips\<close>

text \<open>The frame of one bulk string is a header line, the bytes and a terminator.\<close>

definition bulk_header :: "bytes \<Rightarrow> bytes" where
  "bulk_header v = 0x24 # dec (length v) @ [CR, LF]"

definition bulk :: "bytes \<Rightarrow> bytes" where
  "bulk v = bulk_header v @ v @ [CR, LF]"

lemma length_bulk_header [simp]: "length (bulk_header v) = length (dec (length v)) + 3"
  by (simp add: bulk_header_def)

lemma length_bulk [simp]: "length (bulk v) = length (bulk_header v) + length v + 2"
  by (simp add: bulk_def)

lemma write_bulk_dec: "length v < 2 ^ 64 \<Longrightarrow> write_bulk v out = out @ bulk v"
  by (simp add: write_bulk_def write_u64_dec bulk_def bulk_header_def)

lemma parse_bulk_written:
  assumes "length (bulk v) < 2 ^ 63"
  shows "parse_bulk (bulk v @ rest) = Inr (Some (v, length (bulk v)))"
proof -
  let ?h = "bulk_header v"
  have "int (length v) \<le> i64_max" using assms by (simp add: i64_max_def)
  from parse_number_dec [OF this, of "0x24" "v @ [CR, LF] @ rest"]
  have num: "parse_number_line (bulk v @ rest) 0x24 = Inr (Some (int (length v), length ?h))"
    by (simp add: bulk_def bulk_header_def)
  have "drop (length ?h + length v) (bulk v @ rest) = CR # LF # rest"
    "take (length v) (drop (length ?h) (bulk v @ rest)) = v"
    by (simp_all add: bulk_def del: length_bulk_header)
  moreover have "bulk v @ rest \<noteq> [] \<and> hd (bulk v @ rest) = 0x24" by (simp add: bulk_def bulk_header_def)
  ultimately show ?thesis using num assms
    by (simp add: parse_bulk_def Let_def del: length_bulk_header)
qed

lemma skip_bulks_written:
  assumes "\<forall>v \<in> set vs. length (bulk v) < 2 ^ 63" "drop cursor input = concat (map bulk vs) @ rest"
  shows "skip_bulks (length vs) input cursor = Inr (Some (cursor + length (concat (map bulk vs))))"
  using assms
proof (induction vs arbitrary: cursor)
  case (Cons v vs)
  have "parse_bulk (drop cursor input) = Inr (Some (v, length (bulk v)))"
    using parse_bulk_written [of v "concat (map bulk vs) @ rest"] Cons.prems by (simp del: length_bulk)
  moreover have "drop (cursor + length (bulk v)) input = drop (length (bulk v)) (drop cursor input)"
    by (simp add: add.commute)
  then have "drop (cursor + length (bulk v)) input = concat (map bulk vs) @ rest"
    unfolding Cons.prems(2) by (simp del: length_bulk)
  ultimately show ?case using Cons.IH [of "cursor + length (bulk v)"] Cons.prems(1)
    by (simp add: add.assoc del: length_bulk)
qed simp

lemma resp_args_written:
  "\<forall>v \<in> set vs. length (bulk v) < 2 ^ 63 \<Longrightarrow> resp_args (length vs) (concat (map bulk vs)) = vs"
proof (induction vs)
  case (Cons v vs)
  then show ?case using parse_bulk_written [of v "concat (map bulk vs)"] by (simp del: length_bulk)
qed simp

text \<open>What a client sends: the array header and its bulk strings, written by the writers of the same file.\<close>

definition encode_command :: "bytes list \<Rightarrow> bytes" where
  "encode_command vs = fold write_bulk vs (write_array_len (length vs) [])"

lemma fold_write_bulk:
  "\<forall>v \<in> set vs. length v < 2 ^ 64 \<Longrightarrow> fold write_bulk vs out = out @ concat (map bulk vs)"
  by (induction vs arbitrary: out) (simp_all add: write_bulk_dec)

lemma encode_command_bulks:
  assumes "length vs < 2 ^ 64" "\<forall>v \<in> set vs. length v < 2 ^ 64"
  shows "encode_command vs = (0x2A # dec (length vs) @ [CR, LF]) @ concat (map bulk vs)"
  using assms by (simp add: encode_command_def fold_write_bulk write_array_len_def write_u64_dec)

lemma bulk_le_encoded: "v \<in> set vs \<Longrightarrow> length (bulk v) \<le> length (concat (map bulk vs))"
  by (induction vs) (auto simp del: length_bulk)

lemma count_le_encoded: "length vs \<le> length (concat (map bulk vs))"
  by (induction vs) auto

lemma command_bound: "parse_command xs = Inr (Some (c, k)) \<Longrightarrow> k \<le> length xs"
proof -
  assume p: "parse_command xs = Inr (Some (c, k))"
  then obtain count cursor name consumed where
    n: "parse_number_line xs 0x2A = Inr (Some (count, cursor))" and
    b: "parse_bulk (drop cursor xs) = Inr (Some (name, consumed))" and
    s: "skip_bulks (nat count - 1) xs (cursor + consumed) = Inr (Some k)"
    by (auto simp: parse_command_def Let_def split: if_splits sum.splits option.splits)
  have "cursor + consumed \<le> length xs"
    using number_line_bound [OF n] bulk_bound [OF b] by auto
  from skip_bulks_bound [OF s this] show ?thesis by simp
qed

lemma command_of_parts:
  assumes "xs \<noteq> []" "hd xs = 0x2A" "parse_number_line xs 0x2A = Inr (Some (int (Suc n), cursor))"
    "parse_bulk (drop cursor xs) = Inr (Some (name, k))" "skip_bulks n xs (cursor + k) = Inr (Some fin)"
  shows "parse_command xs = Inr (Some (\<lparr>rc_name = name,
    rc_args_bytes = take (fin - (cursor + k)) (drop (cursor + k) xs), rc_argc = n\<rparr>, fin))"
proof -
  have "nat (int (Suc n)) - 1 = n" by simp
  with assms show ?thesis by (simp add: parse_command_def Let_def del: of_nat_Suc)
qed

lemma fold_write_bulk_length:
  "length out + sum_list (map (\<lambda>v. length v + 1) vs) \<le> length (fold write_bulk vs out)"
proof (induction vs arbitrary: out)
  case (Cons v vs)
  have "length out + length v + 1 \<le> length (write_bulk v out)"
    by (simp add: write_bulk_def write_u64_decimal_def)
  with Cons.IH [of "write_bulk v out"] show ?case by simp
qed simp

lemma encode_command_sizes:
  assumes "length (encode_command vs) < 2 ^ 63"
  shows "length vs < 2 ^ 63" "\<forall>v \<in> set vs. length v < 2 ^ 63"
proof -
  have sum: "sum_list (map (\<lambda>v. length v + 1) vs) < 2 ^ 63"
    using fold_write_bulk_length [of "write_array_len (length vs) []" vs] assms
    unfolding encode_command_def by linarith
  have "length vs \<le> sum_list (map (\<lambda>v. length v + 1) vs)" by (induction vs) auto
  with sum show "length vs < 2 ^ 63" by linarith
  have "\<forall>v \<in> set vs. length v \<le> sum_list (map (\<lambda>v. length v + 1) vs)" by (induction vs) auto
  with sum show "\<forall>v \<in> set vs. length v < 2 ^ 63" by fastforce
qed

lemma command_read_back:
  assumes "vs \<noteq> []" "length (encode_command vs) < 2 ^ 63"
  shows "\<exists>c. parse_command (encode_command vs @ rest) = Inr (Some (c, length (encode_command vs)))
    \<and> rc_name c = hd vs \<and> args c = tl vs \<and> rc_argc c = length vs - 1"
proof -
  obtain v ws where vs: "vs = v # ws" using assms(1) by (cases vs) auto
  let ?h = "0x2A # dec (length vs) @ [CR, LF]" and ?B = "concat (map bulk ws)"
  have big: "length vs < 2 ^ 64" "\<forall>v \<in> set vs. length v < 2 ^ 64"
    using encode_command_sizes [OF assms(2)] by fastforce+
  note enc = encode_command_bulks [OF this]
  have small: "\<forall>v \<in> set vs. length (bulk v) < 2 ^ 63"
    using bulk_le_encoded assms(2) unfolding enc length_append by fastforce
  let ?in = "encode_command vs @ rest"
  have split: "?in = ?h @ bulk v @ ?B @ rest" using enc by (simp add: vs)
  have "int (length vs) \<le> i64_max" using encode_command_sizes(1) [OF assms(2)] by (simp add: i64_max_def)
  from parse_number_dec [OF this, of "0x2A" "bulk v @ ?B @ rest"]
  have num: "parse_number_line ?in 0x2A = Inr (Some (int (length vs), length ?h))" by (simp add: split)
  have bulk: "parse_bulk (drop (length ?h) ?in) = Inr (Some (v, length (bulk v)))"
    unfolding split using parse_bulk_written [of v "?B @ rest"] small vs by simp
  have rest: "drop (length ?h + length (bulk v)) ?in = ?B @ rest"
    by (metis append_assoc append_eq_conv_conj length_append split)
  have skip: "skip_bulks (length ws) ?in (length ?h + length (bulk v)) = Inr (Some (length (encode_command vs)))"
    using skip_bulks_written [OF _ rest] small vs enc by simp
  have start: "?in \<noteq> []" "hd ?in = 0x2A" by (simp_all add: split)
  have len: "length (encode_command vs) - (length ?h + length (bulk v)) = length ?B"
    using arg_cong [OF enc, of length] by (simp add: vs del: length_bulk)
  have "parse_command ?in = Inr (Some (\<lparr>rc_name = v, rc_args_bytes = ?B, rc_argc = length ws\<rparr>, length (encode_command vs)))"
    using command_of_parts [OF start(1) start(2) _ bulk skip] num unfolding len rest by (simp add: vs)
  moreover have "resp_args (length ws) ?B = ws" using resp_args_written [of ws] small vs by simp
  ultimately show ?thesis by (simp add: vs args_def)
qed

subsection \<open>Properties\<close>

text \<open>
  A command that a client writes as an array of bulk strings is read back exactly. \<open>parse_command\<close> returns
  its name, \<open>args\<close> yields its arguments in order, and the consumed count is the length of the frame, so that
  pipelined bytes behind it stay in the buffer.
\<close>

theorem resp_command_roundtrip:
  assumes "vs \<noteq> []" "length (encode_command vs) < 2 ^ 63"
  shows "\<exists>c. parse_command (encode_command vs @ rest) = Inr (Some (c, length (encode_command vs)))
    \<and> rc_name c = hd vs \<and> args c = tl vs \<and> rc_argc c = length vs - 1"
  by (rule command_read_back [OF assms])

theorem resp_command_roundtrip_witness:
  "\<exists>c. parse_command (encode_command [[0x47, 0x45, 0x54], [0x6B]] @ [0x2A])
       = Inr (Some (c, length (encode_command [[0x47, 0x45, 0x54], [0x6B]])))
     \<and> rc_name c = hd [[0x47, 0x45, 0x54], [0x6B]] \<and> args c = tl [[0x47, 0x45, 0x54], [0x6B]]
     \<and> rc_argc c = length [[0x47, 0x45, 0x54], [0x6B :: u8]] - 1"
  by (rule resp_command_roundtrip)
    (simp_all add: encode_command_def write_bulk_def write_array_len_def write_u64_decimal_def decimal_loop.simps)

text \<open>
  C25: The parser works on a stream. When it accepts a frame, every proper prefix of the frame is answered with
  ``need more bytes'', never with an error, and any bytes that arrive behind the frame change neither the command
  nor the consumed count; an error is final too.
\<close>

theorem resp_streaming:
  assumes "parse_command xs = r" "r \<noteq> Inr None"
  shows "parse_command (xs @ ys) = r \<and> (\<forall>c k. r = Inr (Some (c, k)) \<longrightarrow>
    k \<le> length xs \<and> (\<forall>n < k. parse_command (take n xs) = Inr None))"
proof -
  have "parse_command (take n xs) = Inr None" if "r = Inr (Some (c, k))" "n < k" for c k n
  proof (rule ccontr)
    assume *: "parse_command (take n xs) \<noteq> Inr None"
    from command_append [OF this, of "drop n xs"] assms(1) that(1)
    have "parse_command (take n xs) = Inr (Some (c, k))" by simp
    from command_bound [OF this] that(2) show False by simp
  qed
  then show ?thesis using command_append [of xs ys] assms command_bound by auto
qed

theorem resp_streaming_witness:
  "parse_command ([0x2A, 0x31, CR, LF, 0x24, 0x31, CR, LF, 0x41, CR, LF] @ [0x2A])
     = parse_command [0x2A, 0x31, CR, LF, 0x24, 0x31, CR, LF, 0x41, CR, LF]"
  using resp_streaming [OF refl, of "[0x2A, 0x31, CR, LF, 0x24, 0x31, CR, LF, 0x41, CR, LF]" "[0x2A]"]
  by (simp add: parse_command_def parse_number_line_def parse_bulk_def is_ascii_digit_def checked_i64_def
      i64_max_def i64_min_def)

lemma parse_digits_i64_min: "parse_digits (dec (2 ^ 63)) 0 = Inl InvalidInteger"
proof -
  have "dec (2 ^ 63) = decimal_loop 922337203685477580 [] @ [0x38]"
    by (simp add: dec_def decimal_loop_step [of 9223372036854775808])
  moreover have "parse_digits (decimal_loop 922337203685477580 []) 0 = Inr 922337203685477580"
    using parse_decimal [of 922337203685477580] by (simp add: i64_max_def)
  ultimately show ?thesis
    by (simp add: parse_digits_append checked_i64_def is_ascii_digit_def i64_max_def i64_min_def)
qed

lemma parse_i64_min:
  "parse_number_line (m # 0x2D # dec (2 ^ 63) @ CR # LF # rest) m = Inl InvalidInteger"
proof -
  have "find_crlf ((0x2D # dec (2 ^ 63)) @ CR # LF # rest) = Some (length (0x2D # dec (2 ^ 63)))"
    using dec_no_CR by (intro find_crlf_line) auto
  then show ?thesis using parse_digits_i64_min by (simp add: parse_number_line_def Let_def)
qed

text \<open>
  The decimal writers stay inside their 20-byte buffers for every \<open>u64\<close> and \<open>i64\<close>, the most negative number
  included, and an integer reply read as a number line gives back the integer; only \<open>i64::MIN\<close>, whose magnitude
  the checked multiplication cannot hold, is refused.
\<close>

theorem resp_decimal:
  assumes "i64_min \<le> v" "v \<le> i64_max"
  shows "length (encode_i64_decimal v) \<le> 20 \<and> length (write_u64_decimal u []) \<le> 20
    \<and> parse_number_line (write_integer v [] @ rest) 0x3A
        = (if v = i64_min then Inl InvalidInteger else Inr (Some (v, length (write_integer v []))))"
proof -
  let ?n = "nat \<bar>v\<bar>"
  have u: "unat u < 2 ^ 64" using unsigned_less [of u, where 'a = nat] by simp
  have "length (dec ?n) \<le> 19" "length (dec (unat u)) \<le> 20"
    using assms u by (auto intro!: dec_length_le simp: i64_min_def i64_max_def)
  moreover have "write_u64_decimal u [] = dec (unat u)"
    using write_u64_dec [of "unat u" "[]"] u by simp
  moreover consider "0 \<le> v" | "v < 0" "v \<noteq> i64_min" | "v = i64_min" by linarith
  then have "parse_number_line (write_integer v [] @ rest) 0x3A
      = (if v = i64_min then Inl InvalidInteger else Inr (Some (v, length (write_integer v []))))"
  proof cases
    case 1
    with assms parse_number_dec [of ?n "0x3A" rest] show ?thesis
      by (simp add: write_integer_def write_i64_decimal_def encode_i64_dec i64_min_def)
  next
    case 2
    with assms parse_negative_dec [of ?n "0x3A" rest] show ?thesis
      by (simp add: write_integer_def write_i64_decimal_def encode_i64_dec i64_min_def i64_max_def)
  next
    case 3
    with parse_i64_min [of "0x3A" rest] show ?thesis
      by (simp add: write_integer_def write_i64_decimal_def encode_i64_dec i64_min_def)
  qed
  ultimately show ?thesis by (auto simp: encode_i64_dec)
qed

theorem resp_decimal_witness:
  "length (encode_i64_decimal i64_min) \<le> 20
    \<and> parse_number_line (write_integer i64_min [] @ []) 0x3A = Inl InvalidInteger"
  using resp_decimal [of i64_min 0 "[]"] by (simp add: i64_min_def i64_max_def)

end
