(* ===== verification/Mailbox.thy ===== *)
theory Mailbox
  imports Value_Layout Rust_Std
begin

text \<open>
  The actor mailbox of \<open>src/runtime/mailbox.rs\<close>: payloads with inline storage, three lanes with staging
  buffers for selective receive, the lazy positional index of a lane, and the logical message count that
  bounds the mailbox. The concurrent queue \<open>SegQueue\<close> belongs to the library crossbeam; its operations are
  an argument of the definitions, and \<open>fifo_queue\<close> is what the code relies on. A mailbox operation here is
  the one that runs when no producer interferes; interleaved producers are in \<open>Mailbox_Slots\<close>. An
  operation that drains a queue has the result \<open>None\<close> when the drain does not end.
\<close>

subsection \<open>Payloads and messages\<close>

definition INLINE_PAYLOAD_VALUES :: nat where "INLINE_PAYLOAD_VALUES = 4"

datatype MessagePayload = Inline u8 "u64 list" | Shared "u64 list"

definition from_slice :: "u64 list \<Rightarrow> MessagePayload" where
  "from_slice values =
     (if length values \<le> INLINE_PAYLOAD_VALUES
      then Inline (of_nat (length values)) (values @ replicate (INLINE_PAYLOAD_VALUES - length values) TAG_NIL)
      else Shared values)"

definition from_vec :: "u64 list \<Rightarrow> MessagePayload" where
  "from_vec values =
     (if length values \<le> INLINE_PAYLOAD_VALUES
      then Inline (of_nat (length values)) (values @ replicate (INLINE_PAYLOAD_VALUES - length values) TAG_NIL)
      else Shared values)"

definition from_arc :: "u64 list \<Rightarrow> MessagePayload" where
  "from_arc values = (if length values \<le> INLINE_PAYLOAD_VALUES then from_slice values else Shared values)"

fun as_slice :: "MessagePayload \<Rightarrow> u64 list" where
  "as_slice (Inline len values) = take (unat len) values"
| "as_slice (Shared values) = values"

fun to_shared :: "MessagePayload \<Rightarrow> u64 list" where
  "to_shared (Inline len values) = as_slice (Inline len values)"
| "to_shared (Shared values) = values"

fun is_inline :: "MessagePayload \<Rightarrow> bool" where
  "is_inline (Inline _ _) = True"
| "is_inline (Shared _) = False"

datatype MessagePriority = System | Normal | Bulk

record Message =
  msg_behavior_id :: u16
  msg_payload :: MessagePayload
  msg_sender :: u64
  msg_priority :: MessagePriority
  msg_trace_id :: "string option"

datatype MatchLane = LaneSystem | LaneLocal | LaneNormal

type_synonym staged = "(Message \<times> bool) list"

subsection \<open>The index of a lane\<close>

record ReceiveLaneIndex =
  ri_positions :: "(u16, nat list) hashmap"
  ri_cursors :: "(u16, nat) hashmap"
  ri_valid :: bool

definition ReceiveLaneIndex_new :: ReceiveLaneIndex where
  "ReceiveLaneIndex_new = \<lparr>ri_positions = [], ri_cursors = [], ri_valid = True\<rparr>"

definition lane_append :: "u16 \<Rightarrow> nat \<Rightarrow> ReceiveLaneIndex \<Rightarrow> ReceiveLaneIndex" where
  "lane_append behavior_id index ix =
     (if ri_valid ix then ix\<lparr>ri_positions := hm_upsert [] (\<lambda>ps. ps @ [index]) behavior_id (ri_positions ix)\<rparr> else ix)"

definition invalidate :: "ReceiveLaneIndex \<Rightarrow> ReceiveLaneIndex" where
  "invalidate ix = ix\<lparr>ri_positions := [], ri_cursors := [], ri_valid := False\<rparr>"

definition reset_cursors :: "ReceiveLaneIndex \<Rightarrow> ReceiveLaneIndex" where
  "reset_cursors ix = ix\<lparr>ri_cursors := []\<rparr>"

definition index_buffer :: "staged \<Rightarrow> (u16, nat list) hashmap" where
  "index_buffer buffer =
     fold (\<lambda>(idx, m, _). hm_upsert [] (\<lambda>ps. ps @ [idx]) (msg_behavior_id m)) (List.enumerate 0 buffer) []"

definition lane_ensure :: "staged \<Rightarrow> ReceiveLaneIndex \<Rightarrow> ReceiveLaneIndex" where
  "lane_ensure buffer ix =
     (if ri_valid ix then ix else ix\<lparr>ri_positions := index_buffer buffer, ri_cursors := [], ri_valid := True\<rparr>)"

text \<open>The loop that moves a cursor past candidates already tried.\<close>

function skip_tried :: "staged \<Rightarrow> nat list \<Rightarrow> nat \<Rightarrow> nat" where
  "skip_tried buffer positions cursor =
     (if cursor < length positions
      then case nth_opt buffer (positions ! cursor) of
             Some (_, False) \<Rightarrow> cursor
           | _ \<Rightarrow> skip_tried buffer positions (Suc cursor)
      else cursor)"
  by pat_completeness auto
termination
  by (relation "measure (\<lambda>(_, positions, cursor). length positions - cursor)") auto

declare skip_tried.simps [simp del]

definition better :: "nat \<Rightarrow> nat \<Rightarrow> (nat \<times> nat) option \<Rightarrow> (nat \<times> nat) option" where
  "better arm_pos idx best =
     (case best of
        None \<Rightarrow> Some (arm_pos, idx)
      | Some (_, best_idx) \<Rightarrow> if idx < best_idx then Some (arm_pos, idx) else best)"

fun scan_arms :: "staged \<Rightarrow> nat \<Rightarrow> u16 list \<Rightarrow> ReceiveLaneIndex \<Rightarrow> (nat \<times> nat) option
    \<Rightarrow> (nat \<times> nat) option \<times> ReceiveLaneIndex" where
  "scan_arms buffer arm_pos [] ix best = (best, ix)"
| "scan_arms buffer arm_pos (b # bs) ix best =
     (case map_of (ri_positions ix) b of
        None \<Rightarrow> scan_arms buffer (Suc arm_pos) bs ix best
      | Some positions \<Rightarrow>
          let cursor = skip_tried buffer positions (hm_get_or 0 (ri_cursors ix) b);
              ix' = ix\<lparr>ri_cursors := hm_insert b cursor (ri_cursors ix)\<rparr>
          in scan_arms buffer (Suc arm_pos) bs ix'
               (if cursor \<ge> length positions then best else better arm_pos (positions ! cursor) best))"

definition next_candidate :: "staged \<Rightarrow> u16 list \<Rightarrow> ReceiveLaneIndex \<Rightarrow> (nat \<times> nat) option \<times> ReceiveLaneIndex" where
  "next_candidate buffer behavior_ids ix = scan_arms buffer 0 behavior_ids (lane_ensure buffer ix) None"

record ReceiveIndexes =
  ix_system :: ReceiveLaneIndex
  ix_local :: ReceiveLaneIndex
  ix_normal :: ReceiveLaneIndex

definition ReceiveIndexes_new :: ReceiveIndexes where
  "ReceiveIndexes_new =
     \<lparr>ix_system = ReceiveLaneIndex_new, ix_local = ReceiveLaneIndex_new, ix_normal = ReceiveLaneIndex_new\<rparr>"

subsection \<open>The concurrent queue\<close>

record 'q SegQueue =
  sq_new :: 'q
  sq_push :: "'q \<Rightarrow> Message \<Rightarrow> 'q"
  sq_pop :: "'q \<Rightarrow> (Message \<times> 'q) option"

text \<open>What crossbeam documents: an unbounded first-in first-out queue. \<open>A\<close> reads its messages.\<close>

definition fifo_queue :: "'q SegQueue \<Rightarrow> ('q \<Rightarrow> Message list) \<Rightarrow> bool" where
  "fifo_queue Q A \<longleftrightarrow> A (sq_new Q) = []
     \<and> (\<forall>q m. A (sq_push Q q m) = A q @ [m])
     \<and> (\<forall>q. case sq_pop Q q of None \<Rightarrow> A q = [] | Some (m, q') \<Rightarrow> A q = m # A q')"

text \<open>\<open>while let Some(msg) = queue.pop() { .. }\<close>, with the body acting on \<open>acc\<close>\<close>

partial_function (option) drain_into ::
  "'q SegQueue \<Rightarrow> (Message \<Rightarrow> 'a \<Rightarrow> 'a) \<Rightarrow> 'q \<Rightarrow> 'a \<Rightarrow> ('a \<times> 'q) option" where
  "drain_into Q f q acc =
     (case sq_pop Q q of
        None \<Rightarrow> Some (acc, q)
      | Some (m, q') \<Rightarrow> drain_into Q f q' (f m acc))"

declare drain_into.simps [code]

subsection \<open>The mailbox\<close>

record 'q Mailbox =
  mb_system_queue :: 'q
  mb_normal_queue :: 'q
  mb_local_queue :: "Message list"
  mb_capacity :: usize
  mb_queued_count :: usize
  mb_system_skip_buffer :: staged
  mb_local_skip_buffer :: staged
  mb_skip_buffer :: staged
  mb_receive_indexes :: "ReceiveIndexes option"
  mb_active_match :: "(MatchLane \<times> nat \<times> u64 list) option"

definition Mailbox_new :: "'q SegQueue \<Rightarrow> usize \<Rightarrow> 'q Mailbox" where
  "Mailbox_new Q cap = \<lparr>mb_system_queue = sq_new Q, mb_normal_queue = sq_new Q, mb_local_queue = [],
     mb_capacity = cap, mb_queued_count = 0, mb_system_skip_buffer = [], mb_local_skip_buffer = [],
     mb_skip_buffer = [], mb_receive_indexes = None, mb_active_match = None\<rparr>"

definition Mailbox_reset :: "'q SegQueue \<Rightarrow> usize \<Rightarrow> 'q Mailbox \<Rightarrow> 'q Mailbox option" where
  "Mailbox_reset Q cap mb =
     (case drain_into Q (\<lambda>_ u. u) (mb_system_queue mb) () of
        None \<Rightarrow> None
      | Some (_, sq) \<Rightarrow>
          (case drain_into Q (\<lambda>_ u. u) (mb_normal_queue mb) () of
             None \<Rightarrow> None
           | Some (_, nq) \<Rightarrow>
               Some (mb\<lparr>mb_system_queue := sq, mb_normal_queue := nq, mb_local_queue := [], mb_capacity := cap,
                 mb_queued_count := 0, mb_system_skip_buffer := [], mb_local_skip_buffer := [],
                 mb_skip_buffer := [], mb_receive_indexes := None, mb_active_match := None\<rparr>)))"

definition reserve_slot :: "bool \<Rightarrow> 'q Mailbox \<Rightarrow> bool \<times> 'q Mailbox" where
  "reserve_slot system mb =
     (if system \<or> mb_capacity mb = 0 then (True, mb\<lparr>mb_queued_count := mb_queued_count mb + 1\<rparr>)
      else if mb_queued_count mb \<ge> mb_capacity mb then (False, mb)
      else (True, mb\<lparr>mb_queued_count := mb_queued_count mb + 1\<rparr>))"

definition release_slot :: "'q Mailbox \<Rightarrow> 'q Mailbox" where
  "release_slot mb = mb\<lparr>mb_queued_count := mb_queued_count mb - 1\<rparr>"

definition Mailbox_push :: "'q SegQueue \<Rightarrow> Message \<Rightarrow> 'q Mailbox \<Rightarrow> (Message + unit) \<times> 'q Mailbox" where
  "Mailbox_push Q msg mb =
     (let system = (msg_priority msg = System); (reserved, mb) = reserve_slot system mb in
      if \<not> reserved then (Inl msg, mb)
      else if system then (Inr (), mb\<lparr>mb_system_queue := sq_push Q (mb_system_queue mb) msg\<rparr>)
      else (Inr (), mb\<lparr>mb_normal_queue := sq_push Q (mb_normal_queue mb) msg\<rparr>))"

definition push_local :: "Message \<Rightarrow> 'q Mailbox \<Rightarrow> (Message + unit) \<times> 'q Mailbox" where
  "push_local msg mb =
     (let system = (msg_priority msg = System); (reserved, mb) = reserve_slot system mb in
      if \<not> reserved then (Inl msg, mb)
      else (Inr (), mb\<lparr>mb_local_queue := mb_local_queue mb @ [msg]\<rparr>))"

definition invalidate_receive_indexes :: "'q Mailbox \<Rightarrow> 'q Mailbox" where
  "invalidate_receive_indexes mb = mb\<lparr>mb_receive_indexes :=
     map_option (\<lambda>ix. \<lparr>ix_system = invalidate (ix_system ix), ix_local = invalidate (ix_local ix),
       ix_normal = invalidate (ix_normal ix)\<rparr>) (mb_receive_indexes mb)\<rparr>"

text \<open>The chain of \<open>or_else\<close> in \<open>pop\<close>.\<close>

definition pop_first :: "'q SegQueue \<Rightarrow> 'q Mailbox \<Rightarrow> (Message \<times> 'q Mailbox) option" where
  "pop_first Q mb =
     (case mb_system_skip_buffer mb of (m, _) # rest \<Rightarrow> Some (m, mb\<lparr>mb_system_skip_buffer := rest\<rparr>) | [] \<Rightarrow>
      (case sq_pop Q (mb_system_queue mb) of Some (m, q) \<Rightarrow> Some (m, mb\<lparr>mb_system_queue := q\<rparr>) | None \<Rightarrow>
      (case mb_local_skip_buffer mb of (m, _) # rest \<Rightarrow> Some (m, mb\<lparr>mb_local_skip_buffer := rest\<rparr>) | [] \<Rightarrow>
      (case mb_local_queue mb of m # rest \<Rightarrow> Some (m, mb\<lparr>mb_local_queue := rest\<rparr>) | [] \<Rightarrow>
      (case mb_skip_buffer mb of (m, _) # rest \<Rightarrow> Some (m, mb\<lparr>mb_skip_buffer := rest\<rparr>) | [] \<Rightarrow>
      (case sq_pop Q (mb_normal_queue mb) of Some (m, q) \<Rightarrow> Some (m, mb\<lparr>mb_normal_queue := q\<rparr>)
       | None \<Rightarrow> None))))))"

definition Mailbox_pop :: "'q SegQueue \<Rightarrow> 'q Mailbox \<Rightarrow> Message option \<times> 'q Mailbox" where
  "Mailbox_pop Q mb =
     (case pop_first Q mb of
        None \<Rightarrow> (None, mb)
      | Some (m, mb') \<Rightarrow> (Some m, release_slot (invalidate_receive_indexes (mb'\<lparr>mb_active_match := None\<rparr>))))"

subsection \<open>Selective receive\<close>

definition stage_message :: "Message \<Rightarrow> staged \<times> ReceiveLaneIndex \<Rightarrow> staged \<times> ReceiveLaneIndex" where
  "stage_message msg = (\<lambda>(buffer, index).
     (buffer @ [(msg, False)], lane_append (msg_behavior_id msg) (length buffer) index))"

definition stage_local :: "Message \<Rightarrow> (staged \<times> ReceiveLaneIndex) \<times> (staged \<times> ReceiveLaneIndex)
    \<Rightarrow> (staged \<times> ReceiveLaneIndex) \<times> (staged \<times> ReceiveLaneIndex)" where
  "stage_local msg = (\<lambda>(sys, loc).
     if msg_priority msg = System then (stage_message msg sys, loc) else (sys, stage_message msg loc))"

definition ensure_receive_indexes :: "'q Mailbox \<Rightarrow> 'q Mailbox" where
  "ensure_receive_indexes mb =
     (case mb_receive_indexes mb of
        None \<Rightarrow> mb\<lparr>mb_receive_indexes := Some ReceiveIndexes_new\<rparr>
      | Some _ \<Rightarrow> mb)"

text \<open>The \<open>expect\<close> on absent indexes is a panic, here \<open>None\<close>; \<open>receive_match\<close> creates them first.\<close>

definition stage_arrivals :: "'q SegQueue \<Rightarrow> 'q Mailbox \<Rightarrow> 'q Mailbox option" where
  "stage_arrivals Q mb =
     (case mb_receive_indexes mb of
        None \<Rightarrow> None
      | Some ix \<Rightarrow>
          let (sys, loc) = fold stage_local (mb_local_queue mb)
                ((mb_system_skip_buffer mb, ix_system ix), (mb_local_skip_buffer mb, ix_local ix))
          in (case drain_into Q stage_message (mb_system_queue mb) sys of
                None \<Rightarrow> None
              | Some (sys, sq) \<Rightarrow>
                  (case drain_into Q stage_message (mb_normal_queue mb) (mb_skip_buffer mb, ix_normal ix) of
                     None \<Rightarrow> None
                   | Some (nor, nq) \<Rightarrow>
                       Some (mb\<lparr>mb_local_queue := [], mb_system_queue := sq, mb_normal_queue := nq,
                         mb_system_skip_buffer := fst sys, mb_local_skip_buffer := fst loc, mb_skip_buffer := fst nor,
                         mb_receive_indexes :=
                           Some \<lparr>ix_system = snd sys, ix_local = snd loc, ix_normal = snd nor\<rparr>\<rparr>))))"

definition scan_indexed :: "u16 list \<Rightarrow> staged \<Rightarrow> ReceiveLaneIndex
    \<Rightarrow> (nat \<times> nat \<times> u64 list) option \<times> staged \<times> ReceiveLaneIndex" where
  "scan_indexed behavior_ids buffer index =
     (case next_candidate buffer behavior_ids index of
        (None, index') \<Rightarrow> (None, buffer, index')
      | (Some (arm_pos, message_idx), index') \<Rightarrow>
          (case nth_opt buffer message_idx of
             None \<Rightarrow> (None, buffer, index')
           | Some (message, _) \<Rightarrow>
               (Some (arm_pos, message_idx, to_shared (msg_payload message)),
                buffer[message_idx := (message, True)], index')))"

text \<open>The three scans, each only when the lanes before it have no candidate.\<close>

definition scan_lanes :: "u16 list \<Rightarrow> ReceiveIndexes \<Rightarrow> 'q Mailbox \<Rightarrow> (nat \<times> u64 list) option \<times> 'q Mailbox" where
  "scan_lanes behavior_ids ix mb =
     (case scan_indexed behavior_ids (mb_system_skip_buffer mb) (ix_system ix) of
        (Some (pos, idx, payload), buf, i) \<Rightarrow>
          (Some (pos, payload), mb\<lparr>mb_system_skip_buffer := buf, mb_receive_indexes := Some (ix\<lparr>ix_system := i\<rparr>),
             mb_active_match := Some (LaneSystem, idx, payload)\<rparr>)
      | (None, _, i) \<Rightarrow>
     (let ix = ix\<lparr>ix_system := i\<rparr> in
      case scan_indexed behavior_ids (mb_local_skip_buffer mb) (ix_local ix) of
        (Some (pos, idx, payload), buf, i) \<Rightarrow>
          (Some (pos, payload), mb\<lparr>mb_local_skip_buffer := buf, mb_receive_indexes := Some (ix\<lparr>ix_local := i\<rparr>),
             mb_active_match := Some (LaneLocal, idx, payload)\<rparr>)
      | (None, _, i) \<Rightarrow>
     (let ix = ix\<lparr>ix_local := i\<rparr> in
      case scan_indexed behavior_ids (mb_skip_buffer mb) (ix_normal ix) of
        (Some (pos, idx, payload), buf, i) \<Rightarrow>
          (Some (pos, payload), mb\<lparr>mb_skip_buffer := buf, mb_receive_indexes := Some (ix\<lparr>ix_normal := i\<rparr>),
             mb_active_match := Some (LaneNormal, idx, payload)\<rparr>)
      | (None, _, i) \<Rightarrow> (None, mb\<lparr>mb_receive_indexes := Some (ix\<lparr>ix_normal := i\<rparr>)\<rparr>))))"

definition receive_match ::
  "'q SegQueue \<Rightarrow> u16 list \<Rightarrow> 'q Mailbox \<Rightarrow> ((nat \<times> u64 list) option \<times> 'q Mailbox) option" where
  "receive_match Q behavior_ids mb =
     (case stage_arrivals Q (ensure_receive_indexes (mb\<lparr>mb_active_match := None\<rparr>)) of
        None \<Rightarrow> None
      | Some mb' \<Rightarrow>
          (case mb_receive_indexes mb' of
             None \<Rightarrow> None
           | Some ix \<Rightarrow> Some (scan_lanes behavior_ids ix mb')))"

definition clear_tried_flags :: "'q Mailbox \<Rightarrow> 'q Mailbox" where
  "clear_tried_flags mb = (let clear = map (\<lambda>(m, _). (m, False)) in
     mb\<lparr>mb_system_skip_buffer := clear (mb_system_skip_buffer mb),
        mb_local_skip_buffer := clear (mb_local_skip_buffer mb),
        mb_skip_buffer := clear (mb_skip_buffer mb),
        mb_receive_indexes := map_option (\<lambda>ix. \<lparr>ix_system = reset_cursors (ix_system ix),
          ix_local = reset_cursors (ix_local ix), ix_normal = reset_cursors (ix_normal ix)\<rparr>) (mb_receive_indexes mb)\<rparr>)"

definition vd_remove :: "nat \<Rightarrow> 'a list \<Rightarrow> ('a \<times> 'a list) option" where
  "vd_remove i xs = (if i < length xs then Some (xs ! i, take i xs @ drop (Suc i) xs) else None)"

definition commit_receive_match :: "'q Mailbox \<Rightarrow> u64 list option \<times> 'q Mailbox" where
  "commit_receive_match mb =
     (case mb_active_match mb of
        None \<Rightarrow> (None, mb)
      | Some (lane, idx, payload) \<Rightarrow>
          let mb = mb\<lparr>mb_active_match := None\<rparr> in
          (case (case lane of
                   LaneSystem \<Rightarrow> map_option (\<lambda>(_, b). mb\<lparr>mb_system_skip_buffer := b\<rparr>) (vd_remove idx (mb_system_skip_buffer mb))
                 | LaneLocal \<Rightarrow> map_option (\<lambda>(_, b). mb\<lparr>mb_local_skip_buffer := b\<rparr>) (vd_remove idx (mb_local_skip_buffer mb))
                 | LaneNormal \<Rightarrow> map_option (\<lambda>(_, b). mb\<lparr>mb_skip_buffer := b\<rparr>) (vd_remove idx (mb_skip_buffer mb))) of
             None \<Rightarrow> (None, mb)
           | Some mb' \<Rightarrow> (Some payload, clear_tried_flags (invalidate_receive_indexes (release_slot mb')))))"

definition reset_receive_match :: "'q Mailbox \<Rightarrow> 'q Mailbox" where
  "reset_receive_match mb = clear_tried_flags (mb\<lparr>mb_active_match := None\<rparr>)"

definition flush_skip_buffer :: "'q Mailbox \<Rightarrow> 'q Mailbox" where
  "flush_skip_buffer mb = reset_receive_match mb"

definition Mailbox_len :: "'q Mailbox \<Rightarrow> usize" where
  "Mailbox_len mb = mb_queued_count mb"

definition Mailbox_is_empty :: "'q Mailbox \<Rightarrow> bool" where
  "Mailbox_is_empty mb \<longleftrightarrow> Mailbox_len mb = 0"

definition Mailbox_drain :: "'q SegQueue \<Rightarrow> 'q Mailbox \<Rightarrow> (Message list \<times> 'q Mailbox) option" where
  "Mailbox_drain Q mb =
     (case drain_into Q (\<lambda>m live. live @ [m]) (mb_system_queue mb) [] of
        None \<Rightarrow> None
      | Some (system_live, sq) \<Rightarrow>
          (case drain_into Q (\<lambda>m live. live @ [m]) (mb_normal_queue mb) [] of
             None \<Rightarrow> None
           | Some (normal_live, nq) \<Rightarrow>
               Some (map fst (mb_system_skip_buffer mb) @ system_live @ map fst (mb_local_skip_buffer mb)
                       @ mb_local_queue mb @ map fst (mb_skip_buffer mb) @ normal_live,
                     mb\<lparr>mb_system_queue := foldl (sq_push Q) sq system_live,
                        mb_normal_queue := foldl (sq_push Q) nq normal_live\<rparr>)))"

end
