(* ===== verification/Mailbox_Receive.thy ===== *)
theory Mailbox_Receive
  imports Mailbox "HOL-Library.Multiset"
begin

text \<open>
  The mailbox of \<open>Mailbox\<close> against what it stands for: three lanes of messages, each with a mark that says
  whether the running selective receive has offered it. The index of a lane is proved to find the same
  message as a linear scan, and every operation of the mailbox is related to its effect on the lanes.
\<close>

subsection \<open>Searching a list\<close>

lemma position_Some_iff:
  "position P xs = Some i \<longleftrightarrow> i < length xs \<and> P (xs ! i) \<and> (\<forall>j < i. \<not> P (xs ! j))"
proof (induction xs arbitrary: i)
  case (Cons x xs)
  show ?case
  proof (cases i)
    case (Suc k)
    have "(\<forall>j < Suc k. \<not> P ((x # xs) ! j)) \<longleftrightarrow> \<not> P x \<and> (\<forall>j < k. \<not> P (xs ! j))"
      by (auto simp: less_Suc_eq_0_disj)
    with Cons.IH [of k] Suc show ?thesis by auto
  qed auto
qed simp

lemma position_disj:
  "position (\<lambda>x. P x \<or> Q x) xs =
     (case position P xs of None \<Rightarrow> position Q xs
      | Some i \<Rightarrow> (case position Q xs of None \<Rightarrow> Some i | Some j \<Rightarrow> Some (min i j)))"
  by (induction xs) (auto split: option.splits)

lemma position_append:
  "position P (xs @ ys) =
     (case position P xs of Some i \<Rightarrow> Some i | None \<Rightarrow> map_option (\<lambda>i. length xs + i) (position P ys))"
  by (induction xs; cases "position P ys") (auto split: option.splits)

lemma position_cong_set: "(\<And>x. x \<in> set xs \<Longrightarrow> P x = Q x) \<Longrightarrow> position P xs = position Q xs"
  by (induction xs) auto

subsection \<open>The index finds what a scan finds\<close>

abbreviation behavior :: "Message \<times> bool \<Rightarrow> u16" where
  "behavior x \<equiv> msg_behavior_id (fst x)"

definition positions_of :: "u16 \<Rightarrow> staged \<Rightarrow> nat list" where
  "positions_of b buf = filter (\<lambda>i. behavior (buf ! i) = b) [0..<length buf]"

definition index_ok :: "staged \<Rightarrow> ReceiveLaneIndex \<Rightarrow> bool" where
  "index_ok buf ix \<longleftrightarrow> (ri_valid ix \<longrightarrow>
     (\<forall>b. hm_get_or [] (ri_positions ix) b = positions_of b buf) \<and>
     (\<forall>b. hm_get_or 0 (ri_cursors ix) b \<le> length (positions_of b buf)) \<and>
     (\<forall>b. \<forall>j < hm_get_or 0 (ri_cursors ix) b. snd (buf ! (positions_of b buf ! j))))"

lemma positions_of_bound: "i \<in> set (positions_of b buf) \<longleftrightarrow> i < length buf \<and> behavior (buf ! i) = b"
  by (auto simp: positions_of_def)

lemma positions_of_nth:
  assumes "j < length (positions_of b buf)"
  shows "positions_of b buf ! j < length buf \<and> behavior (buf ! (positions_of b buf ! j)) = b"
  using nth_mem [OF assms] by (simp add: positions_of_bound)

lemma positions_of_strict: "sorted_wrt (<) (positions_of b buf)"
  unfolding positions_of_def by (rule sorted_wrt_filter) (simp add: sorted_wrt_upt)

lemma positions_of_less:
  "\<lbrakk>i < j; j < length (positions_of b buf)\<rbrakk> \<Longrightarrow> positions_of b buf ! i < positions_of b buf ! j"
  using positions_of_strict [of b buf] by (simp add: sorted_wrt_iff_nth_less)

lemma positions_of_snoc:
  "positions_of b (buf @ [x]) = positions_of b buf @ (if behavior x = b then [length buf] else [])"
proof -
  have "filter (\<lambda>i. behavior ((buf @ [x]) ! i) = b) [0..<length buf] = positions_of b buf"
    unfolding positions_of_def by (rule filter_cong) (auto simp: nth_append)
  then show ?thesis by (simp add: positions_of_def)
qed

lemma positions_of_cong:
  assumes "map behavior buf = map behavior buf'"
  shows "positions_of b buf = positions_of b buf'"
proof -
  have "length buf = length buf'" using assms by (metis length_map)
  moreover from this assms have "behavior (buf ! i) = behavior (buf' ! i)" if "i < length buf" for i
    using that by (metis nth_map)
  ultimately show ?thesis unfolding positions_of_def by (auto intro!: filter_cong)
qed

lemma index_buffer_positions: "hm_get_or [] (index_buffer buf) b = positions_of b buf"
proof (induction buf rule: rev_induct)
  case Nil
  then show ?case by (simp add: index_buffer_def positions_of_def hm_get_or_def)
next
  case (snoc x buf)
  obtain m t where x: "x = (m, t)" by force
  have "index_buffer (buf @ [x]) = hm_upsert [] (\<lambda>ps. ps @ [length buf]) (msg_behavior_id m) (index_buffer buf)"
    by (simp add: index_buffer_def enumerate_append_eq x)
  with snoc.IH show ?case by (auto simp: hm_get_or_upsert positions_of_snoc x)
qed

lemma hm_get_or_empty [simp]: "hm_get_or d [] k = d"
  by (simp add: hm_get_or_def)

lemma index_ok_ensure [simp]: "index_ok buf ix \<Longrightarrow> index_ok buf (lane_ensure buf ix)"
  by (simp add: index_ok_def lane_ensure_def index_buffer_positions)

lemma valid_ensure [simp]: "ri_valid (lane_ensure buf ix)"
  by (simp add: lane_ensure_def)

lemma index_ok_new [simp]: "index_ok [] ReceiveLaneIndex_new"
  by (simp add: index_ok_def ReceiveLaneIndex_new_def positions_of_def hm_get_or_def)

lemma index_ok_invalidate [simp]: "index_ok buf (invalidate ix)"
  by (simp add: index_ok_def invalidate_def)

lemma index_ok_stage:
  assumes "index_ok buf ix"
  shows "index_ok (buf @ [(m, False)]) (lane_append (msg_behavior_id m) (length buf) ix)"
proof (cases "ri_valid ix")
  case True
  have cur: "hm_get_or 0 (ri_cursors ix) b \<le> length (positions_of b buf)" for b
    using assms True by (simp add: index_ok_def)
  have "snd ((buf @ [(m, False)]) ! (positions_of b (buf @ [(m, False)]) ! j))"
    if "j < hm_get_or 0 (ri_cursors ix) b" for b j
  proof -
    have j: "j < length (positions_of b buf)" using that cur [of b] by simp
    then have "positions_of b (buf @ [(m, False)]) ! j = positions_of b buf ! j"
      by (simp add: positions_of_snoc nth_append)
    with positions_of_nth [OF j] assms True that show ?thesis by (simp add: nth_append index_ok_def)
  qed
  moreover have "hm_get_or 0 (ri_cursors ix) b \<le> length (positions_of b (buf @ [(m, False)]))" for b
    using cur [of b] by (simp add: positions_of_snoc)
  ultimately show ?thesis
    using assms True by (auto simp: index_ok_def lane_append_def hm_get_or_upsert positions_of_snoc)
qed (simp add: index_ok_def lane_append_def)

lemma index_ok_reset:
  "index_ok buf ix \<Longrightarrow> index_ok (map (\<lambda>(m, _). (m, False)) buf) (reset_cursors ix)"
proof -
  have "positions_of b (map (\<lambda>(m, _). (m, False)) buf) = positions_of b buf" for b
    by (rule positions_of_cong) auto
  then show "index_ok buf ix \<Longrightarrow> ?thesis" by (simp add: index_ok_def reset_cursors_def)
qed

lemma index_ok_mark:
  assumes "index_ok buf ix" "i < length buf"
  shows "index_ok (buf[i := (fst (buf ! i), True)]) ix"
proof -
  let ?buf = "buf[i := (fst (buf ! i), True)]"
  have "map behavior ?buf = map behavior buf"
    using assms(2) by (simp add: map_update list_update_same_conv)
  from positions_of_cong [OF this] have pos: "positions_of b ?buf = positions_of b buf" for b .
  have "snd (?buf ! k)" if "snd (buf ! k)" for k
    using that assms(2) by (cases "k = i") auto
  with assms(1) show ?thesis by (simp add: index_ok_def pos)
qed

text \<open>The cursor loop stops at the first candidate not yet tried.\<close>

lemma skip_tried_spec:
  assumes "\<forall>p \<in> set ps. p < length buf" "c \<le> length ps"
  shows "c \<le> skip_tried buf ps c \<and> skip_tried buf ps c \<le> length ps
    \<and> (\<forall>j. c \<le> j \<and> j < skip_tried buf ps c \<longrightarrow> snd (buf ! (ps ! j)))
    \<and> (skip_tried buf ps c < length ps \<longrightarrow> \<not> snd (buf ! (ps ! skip_tried buf ps c)))"
  using assms
proof (induction "length ps - c" arbitrary: c rule: less_induct)
  case less
  show ?case
  proof (cases "c < length ps \<and> snd (buf ! (ps ! c))")
    case True
    then have in_range: "ps ! c < length buf" using less.prems by simp
    obtain m where m: "buf ! (ps ! c) = (m, True)" using True by (cases "buf ! (ps ! c)") auto
    have eq: "skip_tried buf ps c = skip_tried buf ps (Suc c)"
      using True in_range m by (subst skip_tried.simps) (simp add: nth_opt_def)
    have IH: "Suc c \<le> skip_tried buf ps (Suc c) \<and> skip_tried buf ps (Suc c) \<le> length ps
        \<and> (\<forall>j. Suc c \<le> j \<and> j < skip_tried buf ps (Suc c) \<longrightarrow> snd (buf ! (ps ! j)))
        \<and> (skip_tried buf ps (Suc c) < length ps \<longrightarrow> \<not> snd (buf ! (ps ! skip_tried buf ps (Suc c))))"
      using True less.prems by (intro less.hyps) auto
    have "snd (buf ! (ps ! j))" if "c \<le> j" "j < skip_tried buf ps (Suc c)" for j
      using that IH True by (cases "j = c") auto
    with IH show ?thesis unfolding eq by auto
  next
    case False
    have "skip_tried buf ps c = c"
    proof (cases "c < length ps")
      case True
      then have "ps ! c < length buf" using less.prems by simp
      moreover obtain m where "buf ! (ps ! c) = (m, False)" using False True by (cases "buf ! (ps ! c)") auto
      ultimately show ?thesis using True by (subst skip_tried.simps) (simp add: nth_opt_def)
    qed (subst skip_tried.simps, simp)
    with False less.prems show ?thesis by auto
  qed
qed

definition first_of :: "u16 \<Rightarrow> staged \<Rightarrow> nat option" where
  "first_of b buf = position (\<lambda>x. \<not> snd x \<and> behavior x = b) buf"

lemma cursor_first:
  assumes "ps = positions_of b buf" "c \<le> length ps" "\<forall>j < c. snd (buf ! (ps ! j))"
  defines "c' \<equiv> skip_tried buf ps c"
  shows "c' \<le> length ps \<and> (\<forall>j < c'. snd (buf ! (ps ! j)))
    \<and> first_of b buf = (if c' \<ge> length ps then None else Some (ps ! c'))"
proof -
  have "\<forall>p \<in> set ps. p < length buf" by (simp add: assms(1) positions_of_bound)
  note sk = skip_tried_spec [OF this assms(2), folded c'_def]
  have tried: "snd (buf ! (ps ! j))" if "j < c'" for j
    using that sk assms(3) by (cases "j < c") auto
  have covered: "\<exists>j < length ps. ps ! j = i" if "i < length buf" "behavior (buf ! i) = b" for i
    using that by (metis assms(1) in_set_conv_nth positions_of_bound)
  have "first_of b buf = None" if "c' \<ge> length ps"
  proof -
    have "\<not> (\<not> snd x \<and> behavior x = b)" if "x \<in> set buf" for x
      using that covered tried \<open>c' \<ge> length ps\<close> by (metis in_set_conv_nth order_less_le_trans)
    then show ?thesis by (auto simp: first_of_def position_None_iff)
  qed
  moreover have "first_of b buf = Some (ps ! c')" if c': "c' < length ps"
  proof -
    have "\<not> (\<not> snd (buf ! i) \<and> behavior (buf ! i) = b)" if i: "i < ps ! c'" for i
    proof
      assume *: "\<not> snd (buf ! i) \<and> behavior (buf ! i) = b"
      have "ps ! c' < length buf" using positions_of_nth c' assms(1) by blast
      with i * covered [of i] obtain j where j: "j < length ps" "ps ! j = i" by auto
      have "j < c'"
      proof (rule ccontr)
        assume "\<not> j < c'"
        with positions_of_less [of c' j b buf] j c' i assms(1) show False by (cases "j = c'") auto
      qed
      with tried j * show False by blast
    qed
    then show ?thesis
      using c' sk positions_of_nth [of c' b buf] assms(1) by (auto simp: first_of_def position_Some_iff)
  qed
  ultimately show ?thesis using sk tried by auto
qed

text \<open>A linear scan: the first message not yet offered that one of the arms accepts, with the first such arm.\<close>

definition linear_candidate :: "u16 list \<Rightarrow> staged \<Rightarrow> (nat \<times> nat) option" where
  "linear_candidate ids buf =
     (case position (\<lambda>x. \<not> snd x \<and> behavior x \<in> set ids) buf of
        None \<Rightarrow> None
      | Some i \<Rightarrow> map_option (\<lambda>a. (a, i)) (position (\<lambda>b. b = behavior (buf ! i)) ids))"

fun best_arm :: "staged \<Rightarrow> nat \<Rightarrow> u16 list \<Rightarrow> (nat \<times> nat) option \<Rightarrow> (nat \<times> nat) option" where
  "best_arm buf k [] best = best"
| "best_arm buf k (b # bs) best =
     best_arm buf (Suc k) bs (case first_of b buf of None \<Rightarrow> best | Some i \<Rightarrow> better k i best)"

lemma scan_arms_best:
  assumes "index_ok buf ix" "ri_valid ix"
  shows "fst (scan_arms buf k bs ix best) = best_arm buf k bs best
    \<and> index_ok buf (snd (scan_arms buf k bs ix best)) \<and> ri_valid (snd (scan_arms buf k bs ix best))"
  using assms
proof (induction bs arbitrary: k ix best)
  case (Cons b bs)
  have pos: "hm_get_or [] (ri_positions ix) b = positions_of b buf"
    and cur: "hm_get_or 0 (ri_cursors ix) b \<le> length (positions_of b buf)"
      "\<forall>j < hm_get_or 0 (ri_cursors ix) b. snd (buf ! (positions_of b buf ! j))"
    using Cons.prems by (simp_all add: index_ok_def)
  show ?case
  proof (cases "map_of (ri_positions ix) b")
    case None
    then have "positions_of b buf = []" using pos by (simp add: hm_get_or_def)
    then have "first_of b buf = None"
      using positions_of_bound [of _ b buf] by (fastforce simp: first_of_def position_None_iff in_set_conv_nth)
    with None Cons show ?thesis by simp
  next
    case (Some ps)
    then have ps: "ps = positions_of b buf" using pos by (simp add: hm_get_or_def)
    let ?c = "skip_tried buf ps (hm_get_or 0 (ri_cursors ix) b)"
    let ?ix = "ix\<lparr>ri_cursors := hm_insert b ?c (ri_cursors ix)\<rparr>"
    note cf = cursor_first [OF ps, of "hm_get_or 0 (ri_cursors ix) b"]
    have "index_ok buf ?ix"
      using Cons.prems cf cur ps by (auto simp: index_ok_def hm_get_or_def)
    with Cons.IH [of ?ix] Cons.prems Some cf cur ps show ?thesis by (simp add: Let_def)
  qed
qed simp

lemma linear_candidate_snoc:
  "linear_candidate (ds @ [b]) buf =
     (case first_of b buf of None \<Rightarrow> linear_candidate ds buf | Some i \<Rightarrow> better (length ds) i (linear_candidate ds buf))"
proof -
  let ?P = "\<lambda>x. \<not> snd x \<and> behavior x \<in> set ds"
  have pos: "position (\<lambda>x. \<not> snd x \<and> behavior x \<in> set (ds @ [b])) buf =
      (case position ?P buf of None \<Rightarrow> first_of b buf
       | Some i \<Rightarrow> (case first_of b buf of None \<Rightarrow> Some i | Some j \<Rightarrow> Some (min i j)))"
    unfolding first_of_def position_disj [symmetric] by (rule position_cong_set) auto
  have arm: "\<exists>a. position (\<lambda>d. d = behavior (buf ! i)) ds = Some a" if "position ?P buf = Some i" for i
    using position_SomeD [OF that] by (cases "position (\<lambda>d. d = behavior (buf ! i)) ds") (auto simp: position_None_iff)
  have absent: "position (\<lambda>d. d = b) ds = None \<and> behavior (buf ! j) = b"
    if "first_of b buf = Some j" "\<And>i. position ?P buf = Some i \<Longrightarrow> j < i" for j
  proof -
    have j: "j < length buf" "\<not> snd (buf ! j)" "behavior (buf ! j) = b"
      using that(1) by (auto simp: first_of_def position_Some_iff)
    have "b \<notin> set ds"
    proof
      assume "b \<in> set ds"
      with j nth_mem [OF j(1)] have "position ?P buf \<noteq> None" unfolding position_None_iff by blast
      then obtain i where i: "position ?P buf = Some i" by blast
      then have "\<not> ?P (buf ! j)" using that(2) [OF i] unfolding position_Some_iff by blast
      with j \<open>b \<in> set ds\<close> show False by simp
    qed
    with j show ?thesis by (auto simp: position_None_iff)
  qed
  consider (none) "first_of b buf = None" "position ?P buf = None"
    | (old) i where "position ?P buf = Some i" "\<And>j. first_of b buf = Some j \<Longrightarrow> i \<le> j"
    | (new) j where "first_of b buf = Some j" "\<And>i. position ?P buf = Some i \<Longrightarrow> j < i"
  proof (cases "position ?P buf")
    case None
    then show thesis using that(1,3) by (cases "first_of b buf") simp_all
  next
    case (Some i)
    show thesis
    proof (cases "\<exists>j. first_of b buf = Some j \<and> j < i")
      case True
      then obtain j where "first_of b buf = Some j" "j < i" by blast
      with Some that(3) [of j] show thesis by simp
    next
      case False
      with Some that(2) [of i] show thesis by (meson not_le_imp_less)
    qed
  qed
  then show ?thesis
  proof cases
    case none
    with pos show ?thesis by (simp add: linear_candidate_def)
  next
    case old
    obtain a where a: "position (\<lambda>d. d = behavior (buf ! i)) ds = Some a" using arm [OF old(1)] by blast
    have "linear_candidate ds buf = Some (a, i)" using old a by (simp add: linear_candidate_def)
    moreover have "position (\<lambda>x. \<not> snd x \<and> behavior x \<in> set (ds @ [b])) buf = Some i"
      unfolding pos using old by (cases "first_of b buf") (simp_all add: min_def)
    then have "linear_candidate (ds @ [b]) buf = Some (a, i)"
      using a by (simp add: linear_candidate_def position_append)
    ultimately show ?thesis using old by (cases "first_of b buf") (auto simp: better_def)
  next
    case new
    have "position (\<lambda>x. \<not> snd x \<and> behavior x \<in> set (ds @ [b])) buf = Some j"
      unfolding pos using new by (cases "position ?P buf") (auto simp: min_def)
    then have "linear_candidate (ds @ [b]) buf = Some (length ds, j)"
      using absent [OF new] by (simp add: linear_candidate_def position_append)
    moreover have "better (length ds) j (linear_candidate ds buf) = Some (length ds, j)"
      using new arm by (cases "position ?P buf") (auto simp: linear_candidate_def better_def)
    ultimately show ?thesis using new by simp
  qed
qed

lemma best_arm_linear:
  "best_arm buf (length ds) bs (linear_candidate ds buf) = linear_candidate (ds @ bs) buf"
proof (induction bs arbitrary: ds)
  case (Cons b bs)
  from Cons.IH [of "ds @ [b]"] show ?case by (simp add: linear_candidate_snoc)
qed simp

lemma next_candidate_linear:
  assumes "index_ok buf ix"
  shows "fst (next_candidate buf ids ix) = linear_candidate ids buf
    \<and> index_ok buf (snd (next_candidate buf ids ix))"
proof -
  have "position (\<lambda>x. \<not> snd x \<and> behavior x \<in> set []) buf = None" by (simp add: position_None_iff)
  then have "linear_candidate [] buf = None" by (simp add: linear_candidate_def)
  then show ?thesis
    using scan_arms_best [of buf "lane_ensure buf ix" 0 ids None] best_arm_linear [of buf "[]" ids] assms
    by (simp add: next_candidate_def)
qed

subsection \<open>Lanes\<close>

definition fresh :: "Message list \<Rightarrow> staged" where
  "fresh ms = map (\<lambda>m. (m, False)) ms"

lemma fresh_simps [simp]: "fresh [] = []" "fresh (m # ms) = (m, False) # fresh ms"
  "fresh (ms @ ns) = fresh ms @ fresh ns" "length (fresh ms) = length ms" "map fst (fresh ms) = ms"
  by (simp_all add: fresh_def comp_def)

text \<open>The lanes as a selective receive sees them, staged messages first. \<open>A\<close> reads the concurrent queues.\<close>

definition lanes :: "('q \<Rightarrow> Message list) \<Rightarrow> 'q Mailbox \<Rightarrow> staged \<times> staged \<times> staged" where
  "lanes A mb =
     (mb_system_skip_buffer mb @ fresh (filter (\<lambda>m. msg_priority m = System) (mb_local_queue mb) @ A (mb_system_queue mb)),
      mb_local_skip_buffer mb @ fresh (filter (\<lambda>m. msg_priority m \<noteq> System) (mb_local_queue mb)),
      mb_skip_buffer mb @ fresh (A (mb_normal_queue mb)))"

text \<open>All messages, in the order \<open>pop\<close> takes them.\<close>

definition contents :: "('q \<Rightarrow> Message list) \<Rightarrow> 'q Mailbox \<Rightarrow> Message list" where
  "contents A mb = map fst (mb_system_skip_buffer mb) @ A (mb_system_queue mb) @ map fst (mb_local_skip_buffer mb)
     @ mb_local_queue mb @ map fst (mb_skip_buffer mb) @ A (mb_normal_queue mb)"

fun lane_buffer :: "MatchLane \<Rightarrow> 'q Mailbox \<Rightarrow> staged" where
  "lane_buffer LaneSystem mb = mb_system_skip_buffer mb"
| "lane_buffer LaneLocal mb = mb_local_skip_buffer mb"
| "lane_buffer LaneNormal mb = mb_skip_buffer mb"

definition indexes_ok :: "'q Mailbox \<Rightarrow> bool" where
  "indexes_ok mb \<longleftrightarrow>
     (case mb_receive_indexes mb of
        None \<Rightarrow> mb_system_skip_buffer mb = [] \<and> mb_local_skip_buffer mb = [] \<and> mb_skip_buffer mb = []
      | Some ix \<Rightarrow> index_ok (mb_system_skip_buffer mb) (ix_system ix)
          \<and> index_ok (mb_local_skip_buffer mb) (ix_local ix) \<and> index_ok (mb_skip_buffer mb) (ix_normal ix))"

definition active_ok :: "'q Mailbox \<Rightarrow> bool" where
  "active_ok mb \<longleftrightarrow>
     (case mb_active_match mb of
        None \<Rightarrow> True
      | Some (lane, i, p) \<Rightarrow> i < length (lane_buffer lane mb) \<and> p = to_shared (msg_payload (fst (lane_buffer lane mb ! i))))"

definition mb_inv :: "('q \<Rightarrow> Message list) \<Rightarrow> 'q Mailbox \<Rightarrow> bool" where
  "mb_inv A mb \<longleftrightarrow> indexes_ok mb \<and> active_ok mb \<and> mb_queued_count mb = of_nat (length (contents A mb))"

text \<open>A selective receive on lanes: the first lane with a candidate offers its first one and marks it.\<close>

definition offer :: "MatchLane \<Rightarrow> nat \<times> nat \<Rightarrow> staged
    \<Rightarrow> (nat \<times> u64 list) option \<times> staged \<times> (MatchLane \<times> nat \<times> u64 list) option" where
  "offer lane = (\<lambda>(arm, i) buf. let p = to_shared (msg_payload (fst (buf ! i))) in
     (Some (arm, p), buf[i := (fst (buf ! i), True)], Some (lane, i, p)))"

definition receive_ref :: "u16 list \<Rightarrow> staged \<times> staged \<times> staged
    \<Rightarrow> (nat \<times> u64 list) option \<times> (staged \<times> staged \<times> staged) \<times> (MatchLane \<times> nat \<times> u64 list) option" where
  "receive_ref ids = (\<lambda>(S, L, N).
     case linear_candidate ids S of
       Some c \<Rightarrow> let (r, S', a) = offer LaneSystem c S in (r, (S', L, N), a)
     | None \<Rightarrow>
    (case linear_candidate ids L of
       Some c \<Rightarrow> let (r, L', a) = offer LaneLocal c L in (r, (S, L', N), a)
     | None \<Rightarrow>
    (case linear_candidate ids N of
       Some c \<Rightarrow> let (r, N', a) = offer LaneNormal c N in (r, (S, L, N'), a)
     | None \<Rightarrow> (None, (S, L, N), None))))"

lemma offer_active: "offer lane c buf = (r, buf', a) \<Longrightarrow> \<exists>arm i p. r = Some (arm, p) \<and> a = Some (lane, i, p)"
  by (cases c) (auto simp: offer_def Let_def)

lemma receive_ref_active:
  assumes "receive_ref ids (S, L, N) = (Some (arm, p), l, a)"
  shows "\<exists>lane i. a = Some (lane, i, p)"
proof (cases "linear_candidate ids S")
  case (Some c)
  then show ?thesis using assms offer_active [of LaneSystem c S]
    by (cases "offer LaneSystem c S") (auto simp: receive_ref_def)
next
  case S: None
  show ?thesis
  proof (cases "linear_candidate ids L")
    case (Some c)
    then show ?thesis using S assms offer_active [of LaneLocal c L]
      by (cases "offer LaneLocal c L") (auto simp: receive_ref_def)
  next
    case L: None
    show ?thesis
    proof (cases "linear_candidate ids N")
      case (Some c)
      then show ?thesis using S L assms offer_active [of LaneNormal c N]
        by (cases "offer LaneNormal c N") (auto simp: receive_ref_def)
    qed (use S L assms in \<open>simp add: receive_ref_def\<close>)
  qed
qed

subsection \<open>Queues and staging\<close>

lemma drain_into_fifo:
  assumes "fifo_queue Q A"
  shows "\<exists>q'. drain_into Q f q acc = Some (fold f (A q) acc, q') \<and> A q' = []"
proof (induction "A q" arbitrary: q acc)
  case Nil
  then have "sq_pop Q q = None"
    using assms by (cases "sq_pop Q q") (auto simp: fifo_queue_def split: option.splits dest: spec [of _ q])
  with Nil show ?case by (subst drain_into.simps) simp
next
  case (Cons m ms)
  have "case sq_pop Q q of None \<Rightarrow> A q = [] | Some (m, q') \<Rightarrow> A q = m # A q'"
    using assms by (simp add: fifo_queue_def)
  with Cons.hyps(2) obtain q' where q': "sq_pop Q q = Some (m, q')" "ms = A q'"
    by (auto split: option.splits)
  from Cons.hyps(1) [OF q'(2), of "f m acc"] Cons.hyps(2) [symmetric] q' show ?case
    by (subst drain_into.simps) simp
qed

lemma fold_stage_message:
  "index_ok buf ix \<Longrightarrow> \<exists>ix'. fold stage_message ms (buf, ix) = (buf @ fresh ms, ix') \<and> index_ok (buf @ fresh ms) ix'"
proof (induction ms arbitrary: buf ix)
  case (Cons m ms)
  from Cons.IH [OF index_ok_stage [OF Cons.prems, of m]] show ?case
    by (simp add: stage_message_def)
qed simp

lemma fold_stage_local:
  assumes "index_ok sb si" "index_ok lb li"
  shows "\<exists>si' li'. fold stage_local ms ((sb, si), (lb, li))
      = ((sb @ fresh (filter (\<lambda>m. msg_priority m = System) ms), si'), (lb @ fresh (filter (\<lambda>m. msg_priority m \<noteq> System) ms), li'))
    \<and> index_ok (sb @ fresh (filter (\<lambda>m. msg_priority m = System) ms)) si'
    \<and> index_ok (lb @ fresh (filter (\<lambda>m. msg_priority m \<noteq> System) ms)) li'"
  using assms
proof (induction ms arbitrary: sb si lb li)
  case (Cons m ms)
  show ?case
  proof (cases "msg_priority m = System")
    case True
    from Cons.IH [OF index_ok_stage [OF Cons.prems(1), of m] Cons.prems(2)] True show ?thesis
      by (simp add: stage_local_def stage_message_def)
  next
    case False
    from Cons.IH [OF Cons.prems(1) index_ok_stage [OF Cons.prems(2), of m]] False show ?thesis
      by (simp add: stage_local_def stage_message_def)
  qed
qed simp

lemma linear_candidate_bound: "linear_candidate ids buf = Some (arm, i) \<Longrightarrow> i < length buf"
  by (auto simp: linear_candidate_def split: option.splits dest: position_SomeD)

lemma scan_indexed_None:
  assumes "index_ok buf ix" "linear_candidate ids buf = None"
  obtains ix' where "scan_indexed ids buf ix = (None, buf, ix')" "index_ok buf ix'"
  using next_candidate_linear [OF assms(1), of ids] assms(2)
  by (cases "next_candidate buf ids ix") (simp add: scan_indexed_def)

lemma scan_indexed_Some:
  assumes "index_ok buf ix" "linear_candidate ids buf = Some (arm, i)"
  obtains ix' where "scan_indexed ids buf ix
      = (Some (arm, i, to_shared (msg_payload (fst (buf ! i)))), buf[i := (fst (buf ! i), True)], ix')"
    "index_ok (buf[i := (fst (buf ! i), True)]) ix'" "i < length buf"
proof -
  obtain ix' where n: "next_candidate buf ids ix = (Some (arm, i), ix')" "index_ok buf ix'"
    using next_candidate_linear [OF assms(1), of ids] assms(2) by (cases "next_candidate buf ids ix") auto
  note i = linear_candidate_bound [OF assms(2)]
  show thesis
    using that [of ix'] n i index_ok_mark [OF n(2) i] by (cases "buf ! i") (simp add: scan_indexed_def nth_opt_def)
qed

lemma stage_arrivals_lanes:
  assumes "fifo_queue Q A" "indexes_ok mb" "mb_receive_indexes mb = Some ix"
  obtains mb' ix' where "stage_arrivals Q mb = Some mb'" "mb_receive_indexes mb' = Some ix'"
    "lanes A mb = (mb_system_skip_buffer mb', mb_local_skip_buffer mb', mb_skip_buffer mb')"
    "mb_local_queue mb' = []" "A (mb_system_queue mb') = []" "A (mb_normal_queue mb') = []"
    "indexes_ok mb'" "mb_queued_count mb' = mb_queued_count mb" "mb_active_match mb' = mb_active_match mb"
    "mb_capacity mb' = mb_capacity mb"
proof -
  let ?sys = "mb_system_skip_buffer mb @ fresh (filter (\<lambda>m. msg_priority m = System) (mb_local_queue mb))"
  let ?loc = "mb_local_skip_buffer mb @ fresh (filter (\<lambda>m. msg_priority m \<noteq> System) (mb_local_queue mb))"
  have ok: "index_ok (mb_system_skip_buffer mb) (ix_system ix)" "index_ok (mb_local_skip_buffer mb) (ix_local ix)"
    "index_ok (mb_skip_buffer mb) (ix_normal ix)"
    using assms(2,3) by (simp_all add: indexes_ok_def)
  obtain si li where l: "fold stage_local (mb_local_queue mb)
      ((mb_system_skip_buffer mb, ix_system ix), (mb_local_skip_buffer mb, ix_local ix)) = ((?sys, si), (?loc, li))"
    "index_ok ?sys si" "index_ok ?loc li"
    using fold_stage_local [OF ok(1,2), of "mb_local_queue mb"] by blast
  obtain sq where sq: "drain_into Q stage_message (mb_system_queue mb) (?sys, si)
      = Some (fold stage_message (A (mb_system_queue mb)) (?sys, si), sq)" "A sq = []"
    using drain_into_fifo [OF assms(1), of stage_message "mb_system_queue mb" "(?sys, si)"] by blast
  obtain nq where nq: "drain_into Q stage_message (mb_normal_queue mb) (mb_skip_buffer mb, ix_normal ix)
      = Some (fold stage_message (A (mb_normal_queue mb)) (mb_skip_buffer mb, ix_normal ix), nq)" "A nq = []"
    using drain_into_fifo [OF assms(1), of stage_message "mb_normal_queue mb" "(mb_skip_buffer mb, ix_normal ix)"]
    by blast
  obtain si' where s: "fold stage_message (A (mb_system_queue mb)) (?sys, si) = (?sys @ fresh (A (mb_system_queue mb)), si')"
    "index_ok (?sys @ fresh (A (mb_system_queue mb))) si'"
    using fold_stage_message [OF l(2)] by blast
  obtain ni' where n: "fold stage_message (A (mb_normal_queue mb)) (mb_skip_buffer mb, ix_normal ix)
      = (mb_skip_buffer mb @ fresh (A (mb_normal_queue mb)), ni')"
    "index_ok (mb_skip_buffer mb @ fresh (A (mb_normal_queue mb))) ni'"
    using fold_stage_message [OF ok(3)] by blast
  have st: "stage_arrivals Q mb = Some (mb\<lparr>mb_local_queue := [], mb_system_queue := sq, mb_normal_queue := nq,
      mb_system_skip_buffer := ?sys @ fresh (A (mb_system_queue mb)), mb_local_skip_buffer := ?loc,
      mb_skip_buffer := mb_skip_buffer mb @ fresh (A (mb_normal_queue mb)),
      mb_receive_indexes := Some \<lparr>ix_system = si', ix_local = li, ix_normal = ni'\<rparr>\<rparr>)"
    using assms(3) l sq nq s n by (simp add: stage_arrivals_def)
  show thesis
    by (rule that [OF st, of "\<lparr>ix_system = si', ix_local = li, ix_normal = ni'\<rparr>"])
      (use l s n sq nq in \<open>simp_all add: lanes_def indexes_ok_def\<close>)
qed

text \<open>\<open>receive_match\<close> does on the lanes what the linear scan does.\<close>

lemma scan_lanes_ref:
  assumes "indexes_ok mb" "mb_receive_indexes mb = Some ix" "mb_active_match mb = None"
    and "mb_local_queue mb = []" "A (mb_system_queue mb) = []" "A (mb_normal_queue mb) = []"
    and "scan_lanes ids ix mb = (r, mb')"
  shows "(r, lanes A mb', mb_active_match mb') = receive_ref ids (lanes A mb) \<and> indexes_ok mb' \<and> active_ok mb'
    \<and> mb_queued_count mb' = mb_queued_count mb \<and> mb_capacity mb' = mb_capacity mb
    \<and> contents A mb' = contents A mb"
proof -
  have ok: "index_ok (mb_system_skip_buffer mb) (ix_system ix)" "index_ok (mb_local_skip_buffer mb) (ix_local ix)"
    "index_ok (mb_skip_buffer mb) (ix_normal ix)"
    using assms(1,2) by (simp_all add: indexes_ok_def)
  have mark: "map fst (buf[i := (fst (buf ! i), True)]) = map fst buf" if "i < length buf" for buf :: staged and i
    using that by (simp add: map_update list_update_same_conv)
  note defs = scan_lanes_def receive_ref_def lanes_def contents_def offer_def Let_def indexes_ok_def active_ok_def
  show ?thesis
  proof (cases "linear_candidate ids (mb_system_skip_buffer mb)")
    case (Some c)
    then obtain arm i where c: "linear_candidate ids (mb_system_skip_buffer mb) = Some (arm, i)" by (cases c) auto
    obtain j where j: "scan_indexed ids (mb_system_skip_buffer mb) (ix_system ix)
        = (Some (arm, i, to_shared (msg_payload (fst (mb_system_skip_buffer mb ! i)))), (mb_system_skip_buffer mb)[i := (fst (mb_system_skip_buffer mb ! i), True)], j)"
      "index_ok ((mb_system_skip_buffer mb)[i := (fst (mb_system_skip_buffer mb ! i), True)]) j" "i < length (mb_system_skip_buffer mb)"
      by (rule scan_indexed_Some [OF ok(1) c])
    have mb': "mb' = snd (scan_lanes ids ix mb)" "r = fst (scan_lanes ids ix mb)" using assms(7) by simp_all
    from j c assms(1-6) ok mark [OF j(3)] show ?thesis unfolding mb' by (simp add: defs)
  next
    case S: None
    obtain si where si: "scan_indexed ids (mb_system_skip_buffer mb) (ix_system ix) = (None, mb_system_skip_buffer mb, si)"
      "index_ok (mb_system_skip_buffer mb) si"
      using scan_indexed_None [OF ok(1) S] by blast
    show ?thesis
    proof (cases "linear_candidate ids (mb_local_skip_buffer mb)")
      case (Some c)
      then obtain arm i where c: "linear_candidate ids (mb_local_skip_buffer mb) = Some (arm, i)" by (cases c) auto
      obtain j where j: "scan_indexed ids (mb_local_skip_buffer mb) (ix_local ix)
          = (Some (arm, i, to_shared (msg_payload (fst (mb_local_skip_buffer mb ! i)))), (mb_local_skip_buffer mb)[i := (fst (mb_local_skip_buffer mb ! i), True)], j)"
        "index_ok ((mb_local_skip_buffer mb)[i := (fst (mb_local_skip_buffer mb ! i), True)]) j" "i < length (mb_local_skip_buffer mb)"
        by (rule scan_indexed_Some [OF ok(2) c])
      have mb': "mb' = snd (scan_lanes ids ix mb)" "r = fst (scan_lanes ids ix mb)" using assms(7) by simp_all
      from j c S si assms(1-6) ok mark [OF j(3)] show ?thesis unfolding mb' by (simp add: defs)
    next
      case L: None
      obtain li where li: "scan_indexed ids (mb_local_skip_buffer mb) (ix_local ix) = (None, mb_local_skip_buffer mb, li)"
        "index_ok (mb_local_skip_buffer mb) li"
        using scan_indexed_None [OF ok(2) L] by blast
      show ?thesis
      proof (cases "linear_candidate ids (mb_skip_buffer mb)")
        case (Some c)
        then obtain arm i where c: "linear_candidate ids (mb_skip_buffer mb) = Some (arm, i)" by (cases c) auto
        obtain j where j: "scan_indexed ids (mb_skip_buffer mb) (ix_normal ix)
            = (Some (arm, i, to_shared (msg_payload (fst (mb_skip_buffer mb ! i)))), (mb_skip_buffer mb)[i := (fst (mb_skip_buffer mb ! i), True)], j)"
          "index_ok ((mb_skip_buffer mb)[i := (fst (mb_skip_buffer mb ! i), True)]) j" "i < length (mb_skip_buffer mb)"
          by (rule scan_indexed_Some [OF ok(3) c])
        have mb': "mb' = snd (scan_lanes ids ix mb)" "r = fst (scan_lanes ids ix mb)" using assms(7) by simp_all
        from j c S L si li assms(1-6) ok mark [OF j(3)] show ?thesis unfolding mb' by (simp add: defs)
      next
        case N: None
        obtain ni where ni: "scan_indexed ids (mb_skip_buffer mb) (ix_normal ix) = (None, mb_skip_buffer mb, ni)"
          "index_ok (mb_skip_buffer mb) ni"
          using scan_indexed_None [OF ok(3) N] by blast
        have mb': "mb' = snd (scan_lanes ids ix mb)" "r = fst (scan_lanes ids ix mb)" using assms(7) by simp_all
        from ni N S L si li assms(1-6) ok show ?thesis unfolding mb' by (simp add: defs)
      qed
    qed
  qed
qed

subsection \<open>Every operation keeps the invariant\<close>

lemma mset_fst_fresh [simp]: "image_mset fst (mset (fresh ms)) = mset ms"
  by (induction ms) simp_all

lemma contents_lanes:
  "lanes A mb = (S, L, N) \<Longrightarrow> mset (contents A mb) = mset (map fst (S @ L @ N))"
  using multiset_partition [of "mset (mb_local_queue mb)" "\<lambda>m. msg_priority m = System"]
  by (auto simp: lanes_def contents_def ac_simps)

lemma receive_match_ref:
  assumes "fifo_queue Q A" "mb_inv A mb"
  obtains r mb' where "receive_match Q ids mb = Some (r, mb')" "mb_inv A mb'"
    "(r, lanes A mb', mb_active_match mb') = receive_ref ids (lanes A mb)"
    "mset (contents A mb') = mset (contents A mb)" "mb_queued_count mb' = mb_queued_count mb"
proof -
  let ?mb = "ensure_receive_indexes (mb\<lparr>mb_active_match := None\<rparr>)"
  obtain ix where ix: "mb_receive_indexes ?mb = Some ix"
    by (cases "mb_receive_indexes mb") (simp_all add: ensure_receive_indexes_def)
  have ok: "indexes_ok ?mb" and act: "mb_active_match ?mb = None" and lan: "lanes A ?mb = lanes A mb"
    and con: "contents A ?mb = contents A mb" and cnt: "mb_queued_count ?mb = mb_queued_count mb"
    using assms(2) by (cases "mb_receive_indexes mb"; simp add: ensure_receive_indexes_def mb_inv_def indexes_ok_def
        ReceiveIndexes_new_def lanes_def contents_def)+
  obtain mb1 ix1 where st: "stage_arrivals Q ?mb = Some mb1" "mb_receive_indexes mb1 = Some ix1"
    "lanes A ?mb = (mb_system_skip_buffer mb1, mb_local_skip_buffer mb1, mb_skip_buffer mb1)"
    "mb_local_queue mb1 = []" "A (mb_system_queue mb1) = []" "A (mb_normal_queue mb1) = []"
    "indexes_ok mb1" "mb_queued_count mb1 = mb_queued_count ?mb" "mb_active_match mb1 = mb_active_match ?mb"
    by (rule stage_arrivals_lanes [OF assms(1) ok ix]) blast
  obtain r mb' where sc: "scan_lanes ids ix1 mb1 = (r, mb')" by force
  have lan1: "lanes A mb1 = lanes A mb" using st lan by (simp add: lanes_def)
  have a1: "mb_active_match mb1 = None" using st act by simp
  note ref = scan_lanes_ref [OF st(7) st(2) a1 st(4-6) sc]
  obtain S L N where SLN: "lanes A mb = (S, L, N)" by (cases "lanes A mb") auto
  have ms: "mset (contents A mb') = mset (contents A mb)"
    using ref contents_lanes [of A mb1] contents_lanes [OF SLN] lan1 SLN by simp
  then have "length (contents A mb') = length (contents A mb)" by (rule mset_eq_length)
  then have inv: "mb_inv A mb'" using ref st cnt assms(2) by (simp add: mb_inv_def)
  have "receive_match Q ids mb = Some (r, mb')" using st sc by (simp add: receive_match_def)
  from that [OF this inv _ ms] ref lan1 st cnt show thesis by simp
qed

lemma inv_new: "fifo_queue Q A \<Longrightarrow> mb_inv A (Mailbox_new Q cap)"
  by (simp add: mb_inv_def indexes_ok_def active_ok_def Mailbox_new_def contents_def fifo_queue_def)

lemma inv_reset:
  assumes "fifo_queue Q A"
  obtains mb' where "Mailbox_reset Q cap mb = Some mb'" "mb_inv A mb'" "contents A mb' = []"
proof -
  obtain sq where sq: "drain_into Q (\<lambda>_ u. u) (mb_system_queue mb) () = Some ((), sq)" "A sq = []"
    using drain_into_fifo [OF assms, of "\<lambda>_ u. u" "mb_system_queue mb" "()"] by auto
  obtain nq where nq: "drain_into Q (\<lambda>_ u. u) (mb_normal_queue mb) () = Some ((), nq)" "A nq = []"
    using drain_into_fifo [OF assms, of "\<lambda>_ u. u" "mb_normal_queue mb" "()"] by auto
  have "Mailbox_reset Q cap mb = Some (mb\<lparr>mb_system_queue := sq, mb_normal_queue := nq, mb_local_queue := [],
      mb_capacity := cap, mb_queued_count := 0, mb_system_skip_buffer := [], mb_local_skip_buffer := [],
      mb_skip_buffer := [], mb_receive_indexes := None, mb_active_match := None\<rparr>)"
    using sq nq by (simp add: Mailbox_reset_def)
  from that [OF this] sq nq show thesis by (simp add: mb_inv_def indexes_ok_def active_ok_def contents_def)
qed

lemma lane_buffer_cong:
  "\<lbrakk>mb_system_skip_buffer mb' = mb_system_skip_buffer mb; mb_local_skip_buffer mb' = mb_local_skip_buffer mb;
    mb_skip_buffer mb' = mb_skip_buffer mb\<rbrakk> \<Longrightarrow> lane_buffer lane mb' = lane_buffer lane mb"
  by (cases lane) simp_all

lemma inv_same_buffers:
  assumes "mb_inv A mb" "mb_system_skip_buffer mb' = mb_system_skip_buffer mb"
    "mb_local_skip_buffer mb' = mb_local_skip_buffer mb" "mb_skip_buffer mb' = mb_skip_buffer mb"
    "mb_receive_indexes mb' = mb_receive_indexes mb" "mb_active_match mb' = mb_active_match mb"
    "mb_queued_count mb' = of_nat (length (contents A mb'))"
  shows "mb_inv A mb'"
  using assms by (simp add: mb_inv_def indexes_ok_def active_ok_def lane_buffer_cong [OF assms(2-4)] cong: option.case_cong)

lemma push_result:
  assumes "fifo_queue Q A" "Mailbox_push Q msg mb = (r, mb')"
  shows "if msg_priority msg \<noteq> System \<and> mb_capacity mb \<noteq> 0 \<and> mb_capacity mb \<le> mb_queued_count mb
    then r = Inl msg \<and> mb' = mb
    else r = Inr () \<and> mset (contents A mb') = add_mset msg (mset (contents A mb))
      \<and> mb_queued_count mb' = mb_queued_count mb + 1 \<and> mb_capacity mb' = mb_capacity mb"
  using assms by (auto simp: Mailbox_push_def reserve_slot_def Let_def contents_def fifo_queue_def split: if_splits)

lemma push_local_result:
  assumes "push_local msg mb = (r, mb')"
  shows "if msg_priority msg \<noteq> System \<and> mb_capacity mb \<noteq> 0 \<and> mb_capacity mb \<le> mb_queued_count mb
    then r = Inl msg \<and> mb' = mb
    else r = Inr () \<and> mset (contents A mb') = add_mset msg (mset (contents A mb))
      \<and> mb_queued_count mb' = mb_queued_count mb + 1 \<and> mb_capacity mb' = mb_capacity mb"
  using assms by (auto simp: push_local_def reserve_slot_def Let_def contents_def split: if_splits)

lemma inv_push:
  assumes "fifo_queue Q A" "mb_inv A mb"
  shows "mb_inv A (snd (Mailbox_push Q msg mb))"
  by (rule inv_same_buffers [OF assms(2)])
    (use assms in \<open>auto simp: Mailbox_push_def reserve_slot_def Let_def mb_inv_def contents_def fifo_queue_def\<close>)

lemma inv_push_local:
  assumes "mb_inv A mb"
  shows "mb_inv A (snd (push_local msg mb))"
  by (rule inv_same_buffers [OF assms])
    (use assms in \<open>auto simp: push_local_def reserve_slot_def Let_def mb_inv_def contents_def\<close>)

lemma indexes_ok_update [simp]:
  "indexes_ok (mb\<lparr>mb_active_match := a\<rparr>) = indexes_ok mb" "indexes_ok (mb\<lparr>mb_queued_count := n\<rparr>) = indexes_ok mb"
  by (simp_all add: indexes_ok_def cong: option.case_cong)

lemma pop_first_contents:
  assumes "fifo_queue Q A"
  shows "case pop_first Q mb of
      None \<Rightarrow> contents A mb = []
    | Some (m, mb') \<Rightarrow> contents A mb = m # contents A mb' \<and> mb_queued_count mb' = mb_queued_count mb
        \<and> mb_receive_indexes mb' = mb_receive_indexes mb \<and> mb_capacity mb' = mb_capacity mb
        \<and> (indexes_ok mb \<longrightarrow> mb_receive_indexes mb = None \<longrightarrow> indexes_ok mb')"
proof -
  have s: "case sq_pop Q q of None \<Rightarrow> A q = [] | Some (m, q') \<Rightarrow> A q = m # A q'" for q
    using assms by (simp add: fifo_queue_def)
  show ?thesis
    using s [of "mb_system_queue mb"] s [of "mb_normal_queue mb"]
    by (auto simp: pop_first_def contents_def indexes_ok_def split: list.splits option.splits prod.splits)
qed

lemma indexes_invalidated: "mb_receive_indexes mb \<noteq> None \<or> indexes_ok mb \<Longrightarrow> indexes_ok (invalidate_receive_indexes mb)"
  by (auto simp: indexes_ok_def invalidate_receive_indexes_def split: option.splits)

lemma pop_contents:
  assumes "fifo_queue Q A" "mb_inv A mb"
  shows "case contents A mb of
      [] \<Rightarrow> Mailbox_pop Q mb = (None, mb)
    | m # ms \<Rightarrow> \<exists>mb'. Mailbox_pop Q mb = (Some m, mb') \<and> contents A mb' = ms \<and> mb_inv A mb'
        \<and> mb_queued_count mb' = mb_queued_count mb - 1"
proof (cases "pop_first Q mb")
  case None
  with pop_first_contents [OF assms(1), of mb] show ?thesis by (simp add: Mailbox_pop_def)
next
  case (Some x)
  obtain m mb1 where x: "x = (m, mb1)" by force
  let ?mb' = "release_slot (invalidate_receive_indexes (mb1\<lparr>mb_active_match := None\<rparr>))"
  from pop_first_contents [OF assms(1), of mb] Some x
  have p: "contents A mb = m # contents A mb1" "mb_queued_count mb1 = mb_queued_count mb"
    "mb_receive_indexes mb1 = mb_receive_indexes mb" "mb_receive_indexes mb = None \<longrightarrow> indexes_ok mb1"
    using assms(2) by (auto simp: mb_inv_def)
  have c: "contents A ?mb' = contents A mb1" "mb_active_match ?mb' = None" "mb_queued_count ?mb' = mb_queued_count mb - 1"
    using p by (simp_all add: contents_def release_slot_def invalidate_receive_indexes_def)
  have "indexes_ok (invalidate_receive_indexes (mb1\<lparr>mb_active_match := None\<rparr>))"
    using p by (intro indexes_invalidated) auto
  then have "indexes_ok ?mb'" by (simp add: release_slot_def)
  then have "mb_inv A ?mb'" using assms(2) p c by (simp add: mb_inv_def active_ok_def)
  with p c Some x show ?thesis by (simp add: Mailbox_pop_def)
qed

text \<open>Removing the committed message from its lane and clearing the marks.\<close>

definition unmark :: "staged \<Rightarrow> staged" where
  "unmark = map (\<lambda>(m, _). (m, False))"

definition drop_at :: "nat \<Rightarrow> 'a list \<Rightarrow> 'a list" where
  "drop_at i xs = take i xs @ drop (Suc i) xs"

fun commit_ref :: "MatchLane \<Rightarrow> nat \<Rightarrow> staged \<times> staged \<times> staged \<Rightarrow> staged \<times> staged \<times> staged" where
  "commit_ref LaneSystem i (S, L, N) = (unmark (drop_at i S), unmark L, unmark N)"
| "commit_ref LaneLocal i (S, L, N) = (unmark S, unmark (drop_at i L), unmark N)"
| "commit_ref LaneNormal i (S, L, N) = (unmark S, unmark L, unmark (drop_at i N))"

lemma unmark_simps [simp]: "unmark (xs @ ys) = unmark xs @ unmark ys" "unmark (fresh ms) = fresh ms"
  "map fst (unmark xs) = map fst xs" "length (unmark xs) = length xs" "image_mset fst (mset (unmark xs)) = image_mset fst (mset xs)"
proof -
  show "unmark (xs @ ys) = unmark xs @ unmark ys" "unmark (fresh ms) = fresh ms" "map fst (unmark xs) = map fst xs"
    "length (unmark xs) = length xs"
    by (auto simp: unmark_def fresh_def)
  then show "image_mset fst (mset (unmark xs)) = image_mset fst (mset xs)" by (metis mset_map)
qed

lemma drop_at_append: "i < length xs \<Longrightarrow> drop_at i (xs @ ys) = drop_at i xs @ ys"
  by (simp add: drop_at_def)

lemma length_drop_at: "i < length xs \<Longrightarrow> Suc (length (drop_at i xs)) = length xs"
  by (simp add: drop_at_def)

lemma indexes_ok_clear:
  "indexes_ok mb \<Longrightarrow> indexes_ok (clear_tried_flags mb)"
  by (auto simp: indexes_ok_def clear_tried_flags_def Let_def index_ok_reset split: option.splits)

lemma clear_lanes:
  "lanes A (clear_tried_flags mb) = (case lanes A mb of (S, L, N) \<Rightarrow> (unmark S, unmark L, unmark N))"
  by (simp add: lanes_def clear_tried_flags_def Let_def unmark_def [symmetric])

lemma clear_other:
  "contents A (clear_tried_flags mb) = contents A mb" "mb_active_match (clear_tried_flags mb) = mb_active_match mb"
  "mb_queued_count (clear_tried_flags mb) = mb_queued_count mb"
  by (simp_all add: contents_def clear_tried_flags_def Let_def unmark_def [symmetric])

lemma commit_ref_ok:
  assumes "mb_inv A mb" "mb_active_match mb = Some (lane, i, p)"
  obtains mb' where "commit_receive_match mb = (Some p, mb')" "mb_inv A mb'" "mb_active_match mb' = None"
    "lanes A mb' = commit_ref lane i (lanes A mb)" "mb_queued_count mb' = mb_queued_count mb - 1"
    "length (contents A mb) = Suc (length (contents A mb'))"
proof -
  have i: "i < length (lane_buffer lane mb)" using assms by (simp add: mb_inv_def active_ok_def)
  have ix: "mb_receive_indexes mb \<noteq> None"
    using assms(1) i by (cases lane) (auto simp: mb_inv_def indexes_ok_def split: option.splits)
  define mb1 where "mb1 = (case lane of
      LaneSystem \<Rightarrow> mb\<lparr>mb_active_match := None, mb_system_skip_buffer := drop_at i (mb_system_skip_buffer mb)\<rparr>
    | LaneLocal \<Rightarrow> mb\<lparr>mb_active_match := None, mb_local_skip_buffer := drop_at i (mb_local_skip_buffer mb)\<rparr>
    | LaneNormal \<Rightarrow> mb\<lparr>mb_active_match := None, mb_skip_buffer := drop_at i (mb_skip_buffer mb)\<rparr>)"
  let ?mb2 = "invalidate_receive_indexes (release_slot mb1)"
  have c: "commit_receive_match mb = (Some p, clear_tried_flags ?mb2)"
    using assms(2) i by (cases lane) (simp_all add: commit_receive_match_def mb1_def vd_remove_def drop_at_def)
  have ok: "indexes_ok ?mb2"
    using ix by (intro indexes_invalidated) (cases lane; simp add: mb1_def release_slot_def)
  have len: "length (contents A mb) = Suc (length (contents A mb1))"
    using i by (cases lane) (auto simp: contents_def mb1_def dest!: length_drop_at [symmetric])
  have same: "contents A ?mb2 = contents A mb1" "mb_active_match ?mb2 = None" "lanes A ?mb2 = lanes A mb1"
    "mb_queued_count ?mb2 = mb_queued_count mb - 1"
    by (cases lane; simp add: contents_def lanes_def invalidate_receive_indexes_def release_slot_def mb1_def)+
  have lan: "lanes A (clear_tried_flags ?mb2) = commit_ref lane i (lanes A mb)"
    unfolding clear_lanes same using i
    by (cases lane) (simp_all add: lanes_def mb1_def drop_at_append)
  have "mb_inv A (clear_tried_flags ?mb2)"
    using assms(1) ok len same indexes_ok_clear [OF ok] by (simp add: mb_inv_def active_ok_def clear_other)
  from that [OF c this _ lan] same len show thesis by (simp add: clear_other)
qed

lemma inv_commit: "mb_inv A mb \<Longrightarrow> mb_inv A (snd (commit_receive_match mb))"
proof (cases "mb_active_match mb")
  case (Some x)
  obtain lane i p where x: "x = (lane, i, p)" by (cases x) auto
  assume inv: "mb_inv A mb"
  show ?thesis by (rule commit_ref_ok [OF inv Some [unfolded x]]) simp
qed (simp add: commit_receive_match_def)

lemma contents_active [simp]: "contents A (mb\<lparr>mb_active_match := a\<rparr>) = contents A mb"
  by (simp add: contents_def)

lemma inv_reset_match: "mb_inv A mb \<Longrightarrow> mb_inv A (reset_receive_match mb)"
  using indexes_ok_clear [of "mb\<lparr>mb_active_match := None\<rparr>"]
  by (simp add: mb_inv_def reset_receive_match_def clear_other active_ok_def)

lemma foldl_push: "fifo_queue Q A \<Longrightarrow> A (foldl (sq_push Q) q ms) = A q @ ms"
  by (induction ms arbitrary: q) (simp_all add: fifo_queue_def)

lemma drain_snapshot:
  assumes "fifo_queue Q A" "mb_inv A mb"
  obtains mb' where "Mailbox_drain Q mb = Some (contents A mb, mb')" "mb_inv A mb'" "contents A mb' = contents A mb"
    "lanes A mb' = lanes A mb"
proof -
  have snoc: "fold (\<lambda>m live. live @ [m]) ms [] = ms" for ms :: "Message list"
    by (induction ms rule: rev_induct) simp_all
  obtain sq where sq: "drain_into Q (\<lambda>m live. live @ [m]) (mb_system_queue mb) [] = Some (A (mb_system_queue mb), sq)" "A sq = []"
    using drain_into_fifo [OF assms(1), of "\<lambda>m live. live @ [m]" "mb_system_queue mb" "[]"] by (auto simp: snoc)
  obtain nq where nq: "drain_into Q (\<lambda>m live. live @ [m]) (mb_normal_queue mb) [] = Some (A (mb_normal_queue mb), nq)" "A nq = []"
    using drain_into_fifo [OF assms(1), of "\<lambda>m live. live @ [m]" "mb_normal_queue mb" "[]"] by (auto simp: snoc)
  let ?mb = "mb\<lparr>mb_system_queue := foldl (sq_push Q) sq (A (mb_system_queue mb)),
      mb_normal_queue := foldl (sq_push Q) nq (A (mb_normal_queue mb))\<rparr>"
  have d: "Mailbox_drain Q mb = Some (contents A mb, ?mb)" using sq nq by (simp add: Mailbox_drain_def contents_def)
  have c: "contents A ?mb = contents A mb" "lanes A ?mb = lanes A mb"
    using sq nq by (simp_all add: contents_def lanes_def foldl_push [OF assms(1)])
  have "mb_inv A ?mb" by (rule inv_same_buffers [OF assms(2)]) (use assms(2) c in \<open>simp_all add: mb_inv_def\<close>)
  from that [OF d this] c show thesis by simp
qed

subsection \<open>Reachable mailboxes\<close>

inductive mb_reach :: "'q SegQueue \<Rightarrow> 'q Mailbox \<Rightarrow> bool" for Q where
  reach_new: "mb_reach Q (Mailbox_new Q cap)"
| reach_reset: "mb_reach Q mb \<Longrightarrow> Mailbox_reset Q cap mb = Some mb' \<Longrightarrow> mb_reach Q mb'"
| reach_push: "mb_reach Q mb \<Longrightarrow> mb_reach Q (snd (Mailbox_push Q msg mb))"
| reach_push_local: "mb_reach Q mb \<Longrightarrow> mb_reach Q (snd (push_local msg mb))"
| reach_pop: "mb_reach Q mb \<Longrightarrow> mb_reach Q (snd (Mailbox_pop Q mb))"
| reach_receive: "mb_reach Q mb \<Longrightarrow> receive_match Q ids mb = Some (r, mb') \<Longrightarrow> mb_reach Q mb'"
| reach_commit: "mb_reach Q mb \<Longrightarrow> mb_reach Q (snd (commit_receive_match mb))"
| reach_reset_match: "mb_reach Q mb \<Longrightarrow> mb_reach Q (reset_receive_match mb)"
| reach_drain: "mb_reach Q mb \<Longrightarrow> Mailbox_drain Q mb = Some (ms, mb') \<Longrightarrow> mb_reach Q mb'"

lemma inv_pop: "fifo_queue Q A \<Longrightarrow> mb_inv A mb \<Longrightarrow> mb_inv A (snd (Mailbox_pop Q mb))"
  using pop_contents [of Q A mb] by (auto split: list.splits)

lemma reach_inv:
  assumes "mb_reach Q mb" "fifo_queue Q A"
  shows "mb_inv A mb"
  using assms(1)
proof (induction rule: mb_reach.induct)
  case (reach_reset mb cap mb')
  show ?case by (rule inv_reset [OF assms(2), of cap mb]) (use reach_reset.hyps in simp)
next
  case (reach_receive mb ids r mb')
  show ?case by (rule receive_match_ref [OF assms(2) reach_receive.IH, of ids]) (use reach_receive.hyps in simp)
next
  case (reach_drain mb ms mb')
  show ?case by (rule drain_snapshot [OF assms(2) reach_drain.IH]) (use reach_drain.hyps in simp)
qed (simp_all add: inv_new inv_push inv_push_local inv_pop inv_commit inv_reset_match assms(2))

subsection \<open>Properties\<close>

text \<open>A concrete queue for the witnesses.\<close>

definition list_queue :: "Message list SegQueue" where
  "list_queue = \<lparr>sq_new = [], sq_push = (\<lambda>q m. q @ [m]),
     sq_pop = (\<lambda>q. case q of [] \<Rightarrow> None | m # q' \<Rightarrow> Some (m, q'))\<rparr>"

lemma fifo_list_queue: "fifo_queue list_queue id"
  by (simp add: fifo_queue_def list_queue_def split: list.splits)

definition demo_msg :: "u16 \<Rightarrow> MessagePriority \<Rightarrow> Message" where
  "demo_msg b p = \<lparr>msg_behavior_id = b, msg_payload = from_slice [42], msg_sender = 0, msg_priority = p, msg_trace_id = None\<rparr>"

definition demo_mailbox :: "Message list Mailbox" where
  "demo_mailbox = snd (Mailbox_push list_queue (demo_msg 2 Normal)
     (snd (push_local (demo_msg 1 Normal) (Mailbox_new list_queue 4))))"

lemma demo_reach: "mb_reach list_queue demo_mailbox"
  unfolding demo_mailbox_def by (rule reach_push, rule reach_push_local, rule reach_new)

text \<open>
  In every mailbox that any sequence of operations can produce, the logical count is the number of messages
  held in the six queues and staging buffers, each valid lane index lists exactly the positions of each
  behaviour and no cursor has passed a message that is still to be offered, and the active candidate is in its
  lane with its payload.
\<close>

theorem mailbox_invariant:
  assumes "fifo_queue Q A" "mb_reach Q mb"
  shows "mb_inv A mb"
  using reach_inv [OF assms(2,1)] .

theorem mailbox_invariant_witness: "mb_inv id demo_mailbox"
  by (rule mailbox_invariant [OF fifo_list_queue demo_reach])

text \<open>
  C9: The indexed selective receive refines a linear scan. It ends, and on the three lanes it does what scanning
  the system, the local and the normal lane in this order for the first message not yet offered that some arm
  accepts does: it returns the first such arm and the payload, marks the message and makes it the active
  candidate. No message is lost, duplicated or uncounted.
\<close>

theorem mailbox_selective_receive:
  assumes "fifo_queue Q A" "mb_reach Q mb"
  shows "\<exists>r mb'. receive_match Q ids mb = Some (r, mb')
    \<and> (r, lanes A mb', mb_active_match mb') = receive_ref ids (lanes A mb)
    \<and> mset (contents A mb') = mset (contents A mb) \<and> mb_queued_count mb' = mb_queued_count mb"
  by (rule receive_match_ref [OF assms(1) reach_inv [OF assms(2,1)], of ids]) blast

theorem mailbox_selective_receive_witness:
  "\<exists>r mb'. receive_match list_queue [2, 7] demo_mailbox = Some (r, mb')
    \<and> (r, lanes id mb', mb_active_match mb') = receive_ref [2, 7] (lanes id demo_mailbox)
    \<and> mset (contents id mb') = mset (contents id demo_mailbox) \<and> mb_queued_count mb' = mb_queued_count demo_mailbox"
  by (rule mailbox_selective_receive [OF fifo_list_queue demo_reach])

text \<open>
  Selective receive is transactional. Committing after a candidate was returned gives back its payload and
  removes exactly the message that was offered, at its place in its lane; every other message stays where it was
  and is eligible again, and the count drops by one.
\<close>

theorem mailbox_commit:
  assumes "fifo_queue Q A" "mb_reach Q mb" "receive_match Q ids mb = Some (Some (arm, p), mb')"
  shows "\<exists>lane i mb''. mb_active_match mb' = Some (lane, i, p) \<and> commit_receive_match mb' = (Some p, mb'')
    \<and> lanes A mb'' = commit_ref lane i (lanes A mb') \<and> mb_active_match mb'' = None
    \<and> mb_queued_count mb'' = mb_queued_count mb - 1"
proof -
  have inv: "mb_inv A mb'" using reach_inv reach_receive assms by blast
  have "(Some (arm, p), lanes A mb', mb_active_match mb') = receive_ref ids (lanes A mb) \<and> mb_queued_count mb' = mb_queued_count mb"
    by (rule receive_match_ref [OF assms(1) reach_inv [OF assms(2,1)], of ids]) (use assms(3) in auto)
  moreover from calculation obtain lane i where "mb_active_match mb' = Some (lane, i, p)"
    using receive_ref_active [of ids _ _ _ arm p "lanes A mb'" "mb_active_match mb'"] by (metis prod_cases3)
  moreover from commit_ref_ok [OF inv this] obtain mb'' where "commit_receive_match mb' = (Some p, mb'')"
    "lanes A mb'' = commit_ref lane i (lanes A mb')" "mb_active_match mb'' = None" "mb_queued_count mb'' = mb_queued_count mb' - 1"
    by blast
  ultimately show ?thesis by auto
qed

lemma demo_receive:
  "receive_match list_queue [2] demo_mailbox = Some (Some (0, [42]), snd (the (receive_match list_queue [2] demo_mailbox)))"
  by code_simp

theorem mailbox_commit_witness:
  "\<exists>lane i mb''. mb_active_match (snd (the (receive_match list_queue [2] demo_mailbox))) = Some (lane, i, [42])
    \<and> commit_receive_match (snd (the (receive_match list_queue [2] demo_mailbox))) = (Some [42], mb'')
    \<and> lanes id mb'' = commit_ref lane i (lanes id (snd (the (receive_match list_queue [2] demo_mailbox))))
    \<and> mb_active_match mb'' = None \<and> mb_queued_count mb'' = mb_queued_count demo_mailbox - 1"
  by (rule mailbox_commit [OF fifo_list_queue demo_reach demo_receive])

text \<open>
  Ordinary receive takes the messages in the fixed order of the lanes, first in first out within each, and
  reports an empty mailbox exactly when it holds no message. A snapshot lists them in that order and changes
  nothing, and a normal message from another thread goes behind all of them.
\<close>

theorem mailbox_fifo:
  assumes "fifo_queue Q A" "mb_reach Q mb"
  shows "(case contents A mb of
        [] \<Rightarrow> Mailbox_pop Q mb = (None, mb)
      | m # ms \<Rightarrow> \<exists>mb'. Mailbox_pop Q mb = (Some m, mb') \<and> contents A mb' = ms \<and> mb_queued_count mb' = mb_queued_count mb - 1)
    \<and> (\<exists>mb'. Mailbox_drain Q mb = Some (contents A mb, mb') \<and> contents A mb' = contents A mb)
    \<and> (msg_priority msg = System \<or> fst (Mailbox_push Q msg mb) = Inl msg
        \<or> contents A (snd (Mailbox_push Q msg mb)) = contents A mb @ [msg])"
proof -
  note inv = reach_inv [OF assms(2,1)]
  have "\<exists>mb'. Mailbox_drain Q mb = Some (contents A mb, mb') \<and> contents A mb' = contents A mb"
    by (rule drain_snapshot [OF assms(1) inv]) blast
  moreover have "msg_priority msg = System \<or> fst (Mailbox_push Q msg mb) = Inl msg
      \<or> contents A (snd (Mailbox_push Q msg mb)) = contents A mb @ [msg]"
    using assms(1) by (auto simp: Mailbox_push_def reserve_slot_def Let_def contents_def fifo_queue_def)
  ultimately show ?thesis using pop_contents [OF assms(1) inv] by (auto split: list.splits)
qed

theorem mailbox_fifo_witness:
  "\<exists>mb'. Mailbox_pop list_queue demo_mailbox = (Some (demo_msg 1 Normal), mb') \<and> contents id mb' = [demo_msg 2 Normal]"
proof -
  have "contents id demo_mailbox = [demo_msg 1 Normal, demo_msg 2 Normal]" by code_simp
  with mailbox_fifo [OF fifo_list_queue demo_reach] show ?thesis by auto
qed

text \<open>
  Backpressure is exact. A push is refused, and then changes nothing, exactly when the message is no system
  message, the mailbox is bounded and it already holds as many messages as its capacity; an accepted message is
  added once and counted, and a bounded mailbox never exceeds its capacity by a normal message.
\<close>

theorem mailbox_backpressure:
  assumes "fifo_queue Q A" "mb_reach Q mb" "length (contents A mb) < 2 ^ 64"
    and "(r, mb') = Mailbox_push Q msg mb \<or> (r, mb') = push_local msg mb"
  shows "if msg_priority msg \<noteq> System \<and> mb_capacity mb \<noteq> 0 \<and> unat (mb_capacity mb) \<le> length (contents A mb)
    then r = Inl msg \<and> mb' = mb
    else r = Inr () \<and> mset (contents A mb') = add_mset msg (mset (contents A mb))
      \<and> mb_queued_count mb' = mb_queued_count mb + 1
      \<and> (msg_priority msg = System \<or> mb_capacity mb = 0 \<or> length (contents A mb') \<le> unat (mb_capacity mb'))"
proof -
  have cnt: "unat (mb_queued_count mb) = length (contents A mb)"
    using reach_inv [OF assms(2,1)] assms(3) by (simp add: mb_inv_def unat_of_nat take_bit_nat_eq_self)
  have le: "mb_capacity mb \<le> mb_queued_count mb \<longleftrightarrow> unat (mb_capacity mb) \<le> length (contents A mb)"
    using cnt by (simp add: word_le_nat_alt)
  have res: "if msg_priority msg \<noteq> System \<and> mb_capacity mb \<noteq> 0 \<and> unat (mb_capacity mb) \<le> length (contents A mb)
    then r = Inl msg \<and> mb' = mb
    else r = Inr () \<and> mset (contents A mb') = add_mset msg (mset (contents A mb))
      \<and> mb_queued_count mb' = mb_queued_count mb + 1 \<and> mb_capacity mb' = mb_capacity mb"
    using assms(4)
  proof
    assume "(r, mb') = Mailbox_push Q msg mb"
    from push_result [OF assms(1) this [symmetric]] show ?thesis unfolding le .
  next
    assume "(r, mb') = push_local msg mb"
    from push_local_result [OF this [symmetric], of A] show ?thesis unfolding le .
  qed
  have len: "length (contents A mb') = Suc (length (contents A mb))"
    if "mset (contents A mb') = add_mset msg (mset (contents A mb))"
    using arg_cong [OF that, of size] by simp
  show ?thesis
  proof (cases "msg_priority msg \<noteq> System \<and> mb_capacity mb \<noteq> 0 \<and> unat (mb_capacity mb) \<le> length (contents A mb)")
    case True
    with res show ?thesis by (simp only: if_True simp_thms)
  next
    case False
    with res have acc: "r = Inr ()" "mset (contents A mb') = add_mset msg (mset (contents A mb))"
      "mb_queued_count mb' = mb_queued_count mb + 1" "mb_capacity mb' = mb_capacity mb"
      by (simp_all only: if_False simp_thms)
    have "msg_priority msg = System \<or> mb_capacity mb = 0 \<or> length (contents A mb') \<le> unat (mb_capacity mb')"
      unfolding len [OF acc(2)] acc(4) using False by linarith
    with False acc show ?thesis by (simp only: if_False simp_thms)
  qed
qed

theorem mailbox_backpressure_witness:
  "\<exists>mb'. push_local (demo_msg 3 Normal) demo_mailbox = (Inr (), mb')
    \<and> mset (contents id mb') = add_mset (demo_msg 3 Normal) (mset (contents id demo_mailbox))"
proof -
  obtain r mb' where p: "(r, mb') = push_local (demo_msg 3 Normal) demo_mailbox"
    by (cases "push_local (demo_msg 3 Normal) demo_mailbox") auto
  have len: "length (contents id demo_mailbox) = 2" by code_simp
  have cap: "\<not> unat (mb_capacity demo_mailbox) \<le> length (contents id demo_mailbox)" by code_simp
  have "length (contents id demo_mailbox) < 2 ^ 64" unfolding len by simp
  from mailbox_backpressure [OF fifo_list_queue demo_reach this disjI2 [OF p]] cap
  have "r = Inr ()" "mset (contents id mb') = add_mset (demo_msg 3 Normal) (mset (contents id demo_mailbox))"
    by (simp_all only: if_False simp_thms)
  with p show ?thesis by (intro exI [of _ mb']) (simp only: simp_thms)
qed



end
