(* ===== verification/Mailbox_Slots.thy ===== *)
theory Mailbox_Slots
  imports Nulang_Prelude
begin

text \<open>
  The capacity protocol of \<open>src/runtime/mailbox.rs\<close> under interleaving: \<open>reserve_slot\<close> and \<open>release_slot\<close> as
  steps of concurrent threads on the shared atomic counter, one atomic access per step. The compare-exchange
  is the weak one: it may fail although the counter has the expected value. The accesses are relaxed, but they
  are all on one atomic variable, whose modification order is total.
\<close>

text \<open>Where a thread is inside \<open>reserve_slot\<close>: outside, or in the loop with its last observed value.\<close>

datatype phase = Outside | Observed usize

text \<open>\<open>ss_unconditional\<close> and \<open>ss_bounded\<close> are ghost counts of the slots held by messages that were
  reserved without a test (system messages, or any message when the capacity is 0) and through the loop.\<close>

record slot_state =
  ss_capacity :: usize
  ss_count :: usize
  ss_phase :: "nat \<Rightarrow> phase"
  ss_unconditional :: nat
  ss_bounded :: nat

definition slots_init :: "usize \<Rightarrow> slot_state" where
  "slots_init cap = \<lparr>ss_capacity = cap, ss_count = 0, ss_phase = (\<lambda>_. Outside), ss_unconditional = 0, ss_bounded = 0\<rparr>"

text \<open>An unconditional reservation assumes that the machine does not hold \<open>2 ^ 64 - 1\<close> messages.\<close>

inductive reserve_step :: "slot_state \<Rightarrow> slot_state \<Rightarrow> bool" where
  fetch_add: "\<lbrakk>ss_phase s t = Outside; ss_count s \<noteq> -1\<rbrakk>
    \<Longrightarrow> reserve_step s (s\<lparr>ss_count := ss_count s + 1, ss_unconditional := Suc (ss_unconditional s)\<rparr>)"
| load: "\<lbrakk>ss_phase s t = Outside; ss_capacity s \<noteq> 0\<rbrakk>
    \<Longrightarrow> reserve_step s (s\<lparr>ss_phase := (ss_phase s)(t := Observed (ss_count s))\<rparr>)"
| full: "\<lbrakk>ss_phase s t = Observed c; ss_capacity s \<le> c\<rbrakk>
    \<Longrightarrow> reserve_step s (s\<lparr>ss_phase := (ss_phase s)(t := Outside)\<rparr>)"
| exchange: "\<lbrakk>ss_phase s t = Observed c; c < ss_capacity s; ss_count s = c\<rbrakk>
    \<Longrightarrow> reserve_step s (s\<lparr>ss_count := c + 1, ss_phase := (ss_phase s)(t := Outside), ss_bounded := Suc (ss_bounded s)\<rparr>)"
| retry: "\<lbrakk>ss_phase s t = Observed c; c < ss_capacity s\<rbrakk>
    \<Longrightarrow> reserve_step s (s\<lparr>ss_phase := (ss_phase s)(t := Observed (ss_count s))\<rparr>)"
| release_unconditional: "0 < ss_unconditional s
    \<Longrightarrow> reserve_step s (s\<lparr>ss_count := ss_count s - 1, ss_unconditional := ss_unconditional s - 1\<rparr>)"
| release_bounded: "0 < ss_bounded s
    \<Longrightarrow> reserve_step s (s\<lparr>ss_count := ss_count s - 1, ss_bounded := ss_bounded s - 1\<rparr>)"

inductive slots_reach :: "usize \<Rightarrow> slot_state \<Rightarrow> bool" for cap where
  start: "slots_reach cap (slots_init cap)"
| more: "slots_reach cap s \<Longrightarrow> reserve_step s s' \<Longrightarrow> slots_reach cap s'"

lemma unat_inc: "(c :: usize) \<noteq> -1 \<Longrightarrow> unat (c + 1) = Suc (unat c)"
  by (metis add.commute add.right_neutral unatSuc add_eq_0_iff add.inverse_inverse)

lemma unat_dec: "0 < unat (c :: usize) \<Longrightarrow> unat (c - 1) = unat c - 1"
  by (metis unat_minus_one unat_0 less_irrefl)

lemma less_not_max: "(c :: usize) < d \<Longrightarrow> c \<noteq> -1"
  by (metis word_n1_ge linorder_not_le)

definition slots_inv :: "usize \<Rightarrow> slot_state \<Rightarrow> bool" where
  "slots_inv cap s \<longleftrightarrow> ss_capacity s = cap \<and> unat (ss_count s) = ss_unconditional s + ss_bounded s
     \<and> ss_bounded s \<le> unat cap"

lemma slots_inv_step: "reserve_step s s' \<Longrightarrow> slots_inv cap s \<Longrightarrow> slots_inv cap s'"
proof (induction rule: reserve_step.induct)
  case (exchange s t c)
  then have "unat (c + 1) = Suc (ss_unconditional s + ss_bounded s)"
    using unat_inc [OF less_not_max [OF exchange.hyps(2)]] by (simp add: slots_inv_def)
  moreover have "unat c < unat cap" using exchange by (simp add: slots_inv_def word_less_nat_alt)
  ultimately show ?case using exchange by (simp add: slots_inv_def)
qed (auto simp: slots_inv_def unat_inc unat_dec)

text \<open>
  C18: Concurrent producers cannot overfill a bounded mailbox. Whatever the interleaving of loads, successful,
  failed and spuriously failed exchanges, unconditional reservations and releases, the shared counter is the
  number of slots held, and messages subject to the bound never hold more slots than the capacity.
\<close>

theorem concurrent_capacity:
  assumes "slots_reach cap s"
  shows "unat (ss_count s) = ss_unconditional s + ss_bounded s \<and> ss_bounded s \<le> unat cap"
proof -
  from assms have "slots_inv cap s"
  proof (induction rule: slots_reach.induct)
    case start
    then show ?case by (simp add: slots_inv_def slots_init_def)
  next
    case (more s s')
    then show ?case using slots_inv_step by blast
  qed
  then show ?thesis by (simp add: slots_inv_def)
qed

theorem concurrent_capacity_witness:
  "unat (ss_count (slots_init 1\<lparr>ss_phase := (\<lambda>_. Outside)(7 := Observed 0)\<rparr>))
     = ss_unconditional (slots_init 1\<lparr>ss_phase := (\<lambda>_. Outside)(7 := Observed 0)\<rparr>)
       + ss_bounded (slots_init 1\<lparr>ss_phase := (\<lambda>_. Outside)(7 := Observed 0)\<rparr>)
   \<and> ss_bounded (slots_init 1\<lparr>ss_phase := (\<lambda>_. Outside)(7 := Observed 0)\<rparr>) \<le> unat (1 :: usize)"
proof (rule concurrent_capacity)
  have "reserve_step (slots_init 1) ((slots_init 1)\<lparr>ss_phase := (ss_phase (slots_init 1))(7 := Observed (ss_count (slots_init 1)))\<rparr>)"
    by (rule load) (simp_all add: slots_init_def)
  then show "slots_reach 1 (slots_init 1\<lparr>ss_phase := (\<lambda>_. Outside)(7 := Observed 0)\<rparr>)"
    using more [OF start] by (simp add: slots_init_def)
qed

end
