(* ===== verification/Cache_Index.thy ===== *)
theory Cache_Index
  imports Rust_Std "HOL-Library.Multiset"
begin

text \<open>
  The open-addressed index of the cache of \<open>src/runtime/cache.rs\<close>: buckets of hash and slot number with linear
  probing, tombstones and rehashing. Positions are natural numbers; the capacity is a power of two, so that
  \<open>& mask\<close> is the remainder. The test whether a slot holds the key sought is an argument of \<open>find_slot\<close>. The
  contract of the index is the locale \<open>slot_index\<close>, a bag of pairs of hash and slot.
\<close>

definition EMPTY_SLOT :: u32 where "EMPTY_SLOT = -1"
definition TOMBSTONE_SLOT :: u32 where "TOMBSTONE_SLOT = -2"
definition DEFAULT_INDEX_CAPACITY :: nat where "DEFAULT_INDEX_CAPACITY = 64"

record Bucket =
  bk_hash :: u64
  bk_slot :: u32

definition BUCKET_EMPTY :: Bucket where
  "BUCKET_EMPTY = \<lparr>bk_hash = 0, bk_slot = EMPTY_SLOT\<rparr>"

definition is_live :: "Bucket \<Rightarrow> bool" where
  "is_live b \<longleftrightarrow> bk_slot b \<noteq> EMPTY_SLOT \<and> bk_slot b \<noteq> TOMBSTONE_SLOT"

definition start_idx :: "Bucket list \<Rightarrow> u64 \<Rightarrow> nat" where
  "start_idx index hash = unat hash AND (length index - 1)"

definition next_idx :: "Bucket list \<Rightarrow> nat \<Rightarrow> nat" where
  "next_idx index idx = (idx + 1) AND (length index - 1)"

text \<open>The loop of \<open>find_slot\<close>, with the number of iterations left.\<close>

fun find_loop :: "nat \<Rightarrow> Bucket list \<Rightarrow> nat \<Rightarrow> u64 \<Rightarrow> (u32 \<Rightarrow> bool) \<Rightarrow> u32 option" where
  "find_loop 0 index idx hash is_key = None"
| "find_loop (Suc n) index idx hash is_key =
     (let bucket = index ! idx in
      if bk_slot bucket = EMPTY_SLOT then None
      else if is_live bucket \<and> bk_hash bucket = hash \<and> is_key (bk_slot bucket) then Some (bk_slot bucket)
      else find_loop n index (next_idx index idx) hash is_key)"

definition find_in_index :: "Bucket list \<Rightarrow> u64 \<Rightarrow> (u32 \<Rightarrow> bool) \<Rightarrow> u32 option" where
  "find_in_index index hash is_key = find_loop (length index) index (start_idx index hash) hash is_key"

text \<open>The loop of \<open>insert_bucket_raw\<close> gives the target position; without an empty bucket it does not end.\<close>

partial_function (option) insert_loop :: "Bucket list \<Rightarrow> nat \<Rightarrow> nat option \<Rightarrow> nat option" where
  "insert_loop index idx first_tombstone =
     (let slot = bk_slot (index ! idx) in
      if slot = TOMBSTONE_SLOT \<and> first_tombstone = None then insert_loop index (next_idx index idx) (Some idx)
      else if slot = EMPTY_SLOT then Some (case first_tombstone of None \<Rightarrow> idx | Some t \<Rightarrow> t)
      else insert_loop index (next_idx index idx) first_tombstone)"

declare insert_loop.simps [code]

definition insert_bucket_raw :: "u64 \<Rightarrow> u32 \<Rightarrow> Bucket list \<times> nat \<Rightarrow> (Bucket list \<times> nat) option" where
  "insert_bucket_raw hash slot = (\<lambda>(index, tombstones).
     case insert_loop index (start_idx index hash) None of
       None \<Rightarrow> None
     | Some target \<Rightarrow>
         Some (index[target := \<lparr>bk_hash = hash, bk_slot = slot\<rparr>],
               if bk_slot (index ! target) = TOMBSTONE_SLOT then tombstones - 1 else tombstones))"

fun remove_loop :: "nat \<Rightarrow> Bucket list \<Rightarrow> nat \<Rightarrow> u64 \<Rightarrow> u32 \<Rightarrow> nat option" where
  "remove_loop 0 index idx hash slot = None"
| "remove_loop (Suc n) index idx hash slot =
     (let bucket = index ! idx in
      if bk_slot bucket = EMPTY_SLOT then None
      else if bk_slot bucket = slot \<and> bk_hash bucket = hash then Some idx
      else remove_loop n index (next_idx index idx) hash slot)"

definition remove_bucket :: "u64 \<Rightarrow> u32 \<Rightarrow> Bucket list \<times> nat \<times> nat \<Rightarrow> Bucket list \<times> nat \<times> nat" where
  "remove_bucket hash slot = (\<lambda>(index, index_len, tombstones).
     case remove_loop (length index) index (start_idx index hash) hash slot of
       None \<Rightarrow> (index, index_len, tombstones)
     | Some idx \<Rightarrow>
         (index[idx := \<lparr>bk_hash = 0, bk_slot = TOMBSTONE_SLOT\<rparr>], index_len - 1, tombstones + 1))"

text \<open>\<open>next_power_of_two\<close> as the smallest power that is large enough, by doubling.\<close>

function pow2_from :: "nat \<Rightarrow> nat \<Rightarrow> nat" where
  "pow2_from p n = (if p = 0 then 1 else if n \<le> p then p else pow2_from (2 * p) n)"
  by pat_completeness auto
termination
  by (relation "measure (\<lambda>(p, n). n - p)") auto

declare pow2_from.simps [simp del]

definition next_power_of_two :: "nat \<Rightarrow> nat" where
  "next_power_of_two n = pow2_from 1 n"

fun reinsert :: "Bucket list \<Rightarrow> Bucket list \<times> nat \<Rightarrow> (Bucket list \<times> nat) option" where
  "reinsert [] st = Some st"
| "reinsert (b # bs) st =
     (case insert_bucket_raw (bk_hash b) (bk_slot b) st of None \<Rightarrow> None | Some st' \<Rightarrow> reinsert bs st')"

definition rehash :: "nat \<Rightarrow> Bucket list \<Rightarrow> (Bucket list \<times> nat) option" where
  "rehash new_capacity index =
     (let capacity = next_power_of_two (max new_capacity DEFAULT_INDEX_CAPACITY)
      in reinsert (filter is_live index) (replicate capacity BUCKET_EMPTY, 0))"

definition ensure_index_capacity :: "Bucket list \<times> nat \<times> nat \<Rightarrow> (Bucket list \<times> nat) option" where
  "ensure_index_capacity = (\<lambda>(index, index_len, tombstones).
     case (if tombstones > index_len \<and> tombstones > 32 then rehash (length index) index else Some (index, tombstones)) of
       None \<Rightarrow> None
     | Some (index, tombstones) \<Rightarrow>
         let used = index_len + tombstones + 1 in
         if used * 10 \<ge> length index * 7 then rehash (length index * 2) index else Some (index, tombstones))"

subsection \<open>Probing\<close>

definition pow2_size :: "Bucket list \<Rightarrow> bool" where
  "pow2_size index \<longleftrightarrow> (\<exists>k. length index = 2 ^ k)"

lemma and_pow2: "(n :: nat) AND (2 ^ k - Suc 0) = n mod 2 ^ k"
  by (metis One_nat_def mask_eq_exp_minus_1 take_bit_eq_mask take_bit_eq_mod)

lemma start_idx_mod: "pow2_size index \<Longrightarrow> start_idx index hash = unat hash mod length index"
  by (auto simp: pow2_size_def start_idx_def and_pow2)

lemma next_idx_mod: "pow2_size index \<Longrightarrow> next_idx index i = Suc i mod length index"
  by (auto simp: pow2_size_def next_idx_def and_pow2)

text \<open>The position probed in step \<open>j\<close> for a hash.\<close>

definition probe :: "Bucket list \<Rightarrow> u64 \<Rightarrow> nat \<Rightarrow> nat" where
  "probe index hash j = (unat hash + j) mod length index"

lemma probe_0: "pow2_size index \<Longrightarrow> start_idx index hash = probe index hash 0"
  by (simp add: start_idx_mod probe_def)

lemma probe_Suc: "pow2_size index \<Longrightarrow> next_idx index (probe index hash j) = probe index hash (Suc j)"
  by (simp add: next_idx_mod probe_def mod_Suc_eq)

lemma probe_bound: "pow2_size index \<Longrightarrow> probe index hash j < length index"
  by (auto simp: pow2_size_def probe_def)

lemma probe_covers:
  assumes "i < length index"
  shows "\<exists>j < length index. probe index hash j = i"
proof -
  let ?n = "length index" and ?s = "unat hash mod length index"
  have s: "?s < ?n" by (rule mod_less_divisor) (use assms in linarith)
  have shift: "probe index hash d = (?s + d) mod ?n" for d
    unfolding probe_def by (simp add: mod_add_left_eq)
  have "probe index hash (if ?s \<le> i then i - ?s else ?n - ?s + i) = i"
  proof (cases "?s \<le> i")
    case True
    then have "?s + (i - ?s) = i" by simp
    then show ?thesis unfolding shift using True assms by (simp only: if_True mod_less)
  next
    case False
    then have "?s + (?n - ?s + i) = ?n + i" using s by simp
    then show ?thesis unfolding shift using False assms by (simp only: if_False mod_add_self1 mod_less)
  qed
  moreover have "(if ?s \<le> i then i - ?s else ?n - ?s + i) < ?n" using assms s by auto
  ultimately show ?thesis by blast
qed

lemma probe_length_cong: "length index' = length index \<Longrightarrow> probe index' = probe index"
  by (simp add: probe_def fun_eq_iff)

subsection \<open>The invariant\<close>

abbreviation entry_of :: "Bucket \<Rightarrow> u64 \<times> u32" where
  "entry_of b \<equiv> (bk_hash b, bk_slot b)"

abbreviation is_tombstone :: "Bucket \<Rightarrow> bool" where
  "is_tombstone b \<equiv> bk_slot b = TOMBSTONE_SLOT"

definition pairs :: "Bucket list \<Rightarrow> (u64 \<times> u32) multiset" where
  "pairs index = image_mset entry_of (filter_mset is_live (mset index))"

definition tombs :: "Bucket list \<Rightarrow> nat" where
  "tombs index = size (filter_mset is_tombstone (mset index))"

definition path_ok :: "Bucket list \<Rightarrow> bool" where
  "path_ok index \<longleftrightarrow> (\<forall>i < length index. is_live (index ! i) \<longrightarrow>
     (\<exists>j < length index. probe index (bk_hash (index ! i)) j = i
        \<and> (\<forall>j' < j. bk_slot (index ! probe index (bk_hash (index ! i)) j') \<noteq> EMPTY_SLOT)))"

definition idx_inv :: "Bucket list \<Rightarrow> bool" where
  "idx_inv index \<longleftrightarrow> pow2_size index \<and> size (pairs index) + tombs index < length index \<and> path_ok index"

lemma slot_consts [simp]: "EMPTY_SLOT \<noteq> TOMBSTONE_SLOT" "TOMBSTONE_SLOT \<noteq> EMPTY_SLOT"
  by (simp_all add: EMPTY_SLOT_def TOMBSTONE_SLOT_def)

lemma empty_exists:
  assumes "size (pairs index) + tombs index < length index"
  shows "\<exists>i < length index. bk_slot (index ! i) = EMPTY_SLOT"
proof (rule ccontr)
  assume "\<not> ?thesis"
  then have "\<forall>b \<in> set index. is_live b = (\<not> is_tombstone b)" by (auto simp: is_live_def in_set_conv_nth)
  then have "filter_mset is_live (mset index) = filter_mset (\<lambda>b. \<not> is_tombstone b) (mset index)"
    by (intro filter_mset_cong) auto
  moreover have "size (mset index) = size (filter_mset is_tombstone (mset index)) + size (filter_mset (\<lambda>b. \<not> is_tombstone b) (mset index))"
    by (metis multiset_partition size_union)
  ultimately show False using assms by (simp add: pairs_def tombs_def)
qed

lemma in_pairs_iff: "(h, s) \<in># pairs index \<longleftrightarrow> (\<exists>i < length index. is_live (index ! i) \<and> entry_of (index ! i) = (h, s))"
  by (auto simp: pairs_def in_set_conv_nth)

lemma mset_split_at:
  assumes "i < length xs"
  obtains M where "mset xs = add_mset (xs ! i) M" "\<And>y. mset (xs[i := y]) = add_mset y M"
proof
  have "xs ! i \<in># mset xs" using assms by simp
  then show "mset xs = add_mset (xs ! i) (mset xs - {#xs ! i#})" by simp
  show "mset (xs[i := y]) = add_mset y (mset xs - {#xs ! i#})" for y using assms by (simp add: mset_update)
qed

lemma pairs_update:
  assumes "i < length index"
  shows "pairs (index[i := b]) = (if is_live b then {#entry_of b#} else {#})
    + (if is_live (index ! i) then pairs index - {#entry_of (index ! i)#} else pairs index)"
  by (rule mset_split_at [OF assms]) (simp add: pairs_def)

lemma tombs_update:
  assumes "i < length index"
  shows "tombs (index[i := b]) + (if is_tombstone (index ! i) then 1 else 0) = tombs index + (if is_tombstone b then 1 else 0)"
  by (rule mset_split_at [OF assms]) (simp add: tombs_def)

lemma pow2_size_update [simp]: "pow2_size (index[i := b]) = pow2_size index"
  by (simp add: pow2_size_def)

text \<open>A bucket that becomes non-empty keeps every path.\<close>

lemma path_ok_update:
  assumes "path_ok index" "bk_slot b \<noteq> EMPTY_SLOT" "t < length index"
    and new: "is_live b \<Longrightarrow> \<exists>j < length index. probe index (bk_hash b) j = t
      \<and> (\<forall>j' < j. bk_slot (index ! probe index (bk_hash b) j') \<noteq> EMPTY_SLOT)"
  shows "path_ok (index[t := b])"
  unfolding path_ok_def length_list_update
proof (intro allI impI)
  fix i
  assume i: "i < length index" and live: "is_live (index[t := b] ! i)"
  have pr: "probe (index[t := b]) = probe index" by (rule probe_length_cong) simp
  have keep: "bk_slot (index[t := b] ! k) \<noteq> EMPTY_SLOT" if "bk_slot (index ! k) \<noteq> EMPTY_SLOT" for k
    using that assms(2,3) by (cases "k = t") auto
  show "\<exists>j < length index. probe (index[t := b]) (bk_hash (index[t := b] ! i)) j = i
      \<and> (\<forall>j' < j. bk_slot (index[t := b] ! probe (index[t := b]) (bk_hash (index[t := b] ! i)) j') \<noteq> EMPTY_SLOT)"
  proof (cases "i = t")
    case True
    with live i new obtain j where "j < length index" "probe index (bk_hash b) j = t"
      "\<forall>j' < j. bk_slot (index ! probe index (bk_hash b) j') \<noteq> EMPTY_SLOT" by auto
    then show ?thesis using True assms(3) keep by (auto simp: pr)
  next
    case False
    then have "index[t := b] ! i = index ! i" by simp
    with live i assms(1) obtain j where "j < length index" "probe index (bk_hash (index ! i)) j = i"
      "\<forall>j' < j. bk_slot (index ! probe index (bk_hash (index ! i)) j') \<noteq> EMPTY_SLOT"
      unfolding path_ok_def by metis
    then show ?thesis using False keep by (auto simp: pr)
  qed
qed

subsection \<open>The operations\<close>

lemma find_loop_sound:
  "\<lbrakk>pow2_size index; find_loop n index (probe index h j) h K = Some s\<rbrakk> \<Longrightarrow> (h, s) \<in># pairs index \<and> K s"
proof (induction n arbitrary: j)
  case (Suc n)
  show ?case
  proof (cases "is_live (index ! probe index h j) \<and> bk_hash (index ! probe index h j) = h \<and> K (bk_slot (index ! probe index h j))")
    case True
    then have "\<not> bk_slot (index ! probe index h j) = EMPTY_SLOT" by (simp add: is_live_def)
    with True Suc.prems probe_bound [OF Suc.prems(1), of h j] show ?thesis by (auto simp: Let_def in_pairs_iff)
  next
    case False
    with Suc.prems have "find_loop n index (probe index h (Suc j)) h K = Some s"
      by (auto simp: Let_def probe_Suc split: if_splits)
    with Suc show ?thesis by blast
  qed
qed simp

lemma find_loop_complete:
  assumes "pow2_size index" "is_live (index ! probe index h j0)" "bk_hash (index ! probe index h j0) = h"
    "K (bk_slot (index ! probe index h j0))"
  shows "\<lbrakk>j \<le> j0; j0 < j + n; \<forall>j'. j \<le> j' \<and> j' < j0 \<longrightarrow> bk_slot (index ! probe index h j') \<noteq> EMPTY_SLOT\<rbrakk>
    \<Longrightarrow> find_loop n index (probe index h j) h K \<noteq> None"
proof (induction n arbitrary: j)
  case (Suc n)
  show ?case
  proof (cases "j = j0")
    case True
    then show ?thesis using assms by (auto simp: Let_def is_live_def)
  next
    case False
    then have "find_loop n index (probe index h (Suc j)) h K \<noteq> None" using Suc.prems by (intro Suc.IH) auto
    moreover have "bk_slot (index ! probe index h j) \<noteq> EMPTY_SLOT" using False Suc.prems by auto
    ultimately show ?thesis by (simp add: Let_def probe_Suc assms(1))
  qed
qed simp

lemma find_in_index_Some:
  "\<lbrakk>idx_inv index; find_in_index index h K = Some s\<rbrakk> \<Longrightarrow> (h, s) \<in># pairs index \<and> K s"
  using find_loop_sound [of index "length index" h 0 K s] by (simp add: find_in_index_def idx_inv_def probe_0)

lemma find_in_index_None:
  assumes "idx_inv index" "find_in_index index h K = None" "(h, s) \<in># pairs index"
  shows "\<not> K s"
proof
  assume K: "K s"
  obtain i where i: "i < length index" "is_live (index ! i)" "bk_hash (index ! i) = h" "bk_slot (index ! i) = s"
    using assms(3) by (auto simp: in_pairs_iff)
  with assms(1) obtain j where j: "j < length index" "probe index h j = i"
    "\<forall>j' < j. bk_slot (index ! probe index h j') \<noteq> EMPTY_SLOT"
    unfolding idx_inv_def path_ok_def by metis
  have "find_loop (length index) index (probe index h 0) h K \<noteq> None"
    using find_loop_complete [of index h j K 0 "length index"] assms(1) i j K by (simp add: idx_inv_def)
  with assms(1,2) show False by (simp add: find_in_index_def idx_inv_def probe_0)
qed

text \<open>The insertion loop ends at the first empty bucket of the path and chooses it or the first tombstone.\<close>

lemma insert_loop_target:
  assumes "pow2_size index" "bk_slot (index ! probe index h e) = EMPTY_SLOT"
    "\<forall>j < e. bk_slot (index ! probe index h j) \<noteq> EMPTY_SLOT" "j \<le> e"
    and "case ft of None \<Rightarrow> True | Some t \<Rightarrow> \<exists>k < j. t = probe index h k \<and> is_tombstone (index ! t)"
  shows "\<exists>k \<le> e. insert_loop index (probe index h j) ft = Some (probe index h k) \<and> \<not> is_live (index ! probe index h k)"
  using assms(4,5)
proof (induction "e - j" arbitrary: j ft)
  case 0
  then have "j = e" by simp
  with 0 assms(2) show ?case
    by (subst insert_loop.simps) (auto simp: Let_def is_live_def split: option.splits intro: less_imp_le)
next
  case (Suc d)
  then have j: "j < e" "d = e - Suc j" by auto
  then have ne: "bk_slot (index ! probe index h j) \<noteq> EMPTY_SLOT" using assms(3) by blast
  show ?case
  proof (cases "is_tombstone (index ! probe index h j) \<and> ft = None")
    case True
    have "\<exists>k < Suc j. probe index h j = probe index h k \<and> is_tombstone (index ! probe index h j)"
      using True by blast
    with Suc.hyps(1) [OF j(2), of "Some (probe index h j)"] j True show ?thesis
      by (subst insert_loop.simps) (simp add: Let_def probe_Suc assms(1))
  next
    case False
    have "case ft of None \<Rightarrow> True | Some t \<Rightarrow> \<exists>k < Suc j. t = probe index h k \<and> is_tombstone (index ! t)"
      using Suc.prems(2) by (auto split: option.splits intro: less_SucI)
    with Suc.hyps(1) [OF j(2), of ft] j False ne show ?thesis
      by (subst insert_loop.simps) (auto simp: Let_def probe_Suc assms(1))
  qed
qed

lemma insert_loop_ok:
  assumes "idx_inv index"
  obtains k where "insert_loop index (start_idx index h) None = Some (probe index h k)" "k < length index"
    "\<not> is_live (index ! probe index h k)" "\<forall>j < k. bk_slot (index ! probe index h j) \<noteq> EMPTY_SLOT"
proof -
  have p: "pow2_size index" using assms by (simp add: idx_inv_def)
  obtain i where i: "i < length index" "bk_slot (index ! i) = EMPTY_SLOT"
    using empty_exists assms by (auto simp: idx_inv_def)
  obtain j where j: "j < length index" "probe index h j = i" using probe_covers [OF i(1)] by blast
  define e where "e = (LEAST j. bk_slot (index ! probe index h j) = EMPTY_SLOT)"
  have e: "bk_slot (index ! probe index h e) = EMPTY_SLOT" unfolding e_def
    by (rule LeastI [of _ j]) (use i j in simp)
  have before: "\<forall>k < e. bk_slot (index ! probe index h k) \<noteq> EMPTY_SLOT"
    unfolding e_def using not_less_Least by blast
  have "e \<le> j" unfolding e_def by (rule Least_le) (use i j in simp)
  then obtain k where "k \<le> e" "insert_loop index (probe index h 0) None = Some (probe index h k)"
    "\<not> is_live (index ! probe index h k)"
    using insert_loop_target [OF p e before, of 0 None] by auto
  with that [of k] before \<open>e \<le> j\<close> j p show thesis by (simp add: probe_0)
qed

lemma insert_bucket_ok:
  assumes "idx_inv index" "size (pairs index) + tombs index + 1 < length index"
    "s \<noteq> EMPTY_SLOT" "s \<noteq> TOMBSTONE_SLOT"
  obtains index' where "insert_bucket_raw h s (index, tombs index) = Some (index', tombs index')" "idx_inv index'"
    "pairs index' = add_mset (h, s) (pairs index)" "length index' = length index" "tombs index' \<le> tombs index"
proof -
  let ?b = "\<lparr>bk_hash = h, bk_slot = s\<rparr>"
  obtain k where k: "insert_loop index (start_idx index h) None = Some (probe index h k)" "k < length index"
    "\<not> is_live (index ! probe index h k)" "\<forall>j < k. bk_slot (index ! probe index h j) \<noteq> EMPTY_SLOT"
    by (rule insert_loop_ok [OF assms(1)])
  let ?t = "probe index h k" and ?index = "index[probe index h k := ?b]"
  have t: "?t < length index" using assms(1) probe_bound by (simp add: idx_inv_def)
  have live: "is_live ?b" using assms by (simp add: is_live_def)
  have pr: "pairs ?index = add_mset (h, s) (pairs index)" using k live by (simp add: pairs_update [OF t])
  have tb: "tombs ?index = (if is_tombstone (index ! ?t) then tombs index - 1 else tombs index)"
    using tombs_update [OF t, of ?b] assms(4) by (simp split: if_splits)
  have "path_ok ?index"
    by (rule path_ok_update) (use assms t k in \<open>auto simp: idx_inv_def\<close>)
  then have inv: "idx_inv ?index" using assms pr tb by (auto simp: idx_inv_def)
  have "insert_bucket_raw h s (index, tombs index) = Some (?index, tombs ?index)"
    using k tb by (simp add: insert_bucket_raw_def)
  from that [OF this inv pr] tb show thesis by simp
qed

lemma remove_loop_finds:
  assumes "pow2_size index" "entry_of (index ! probe index h j0) = (h, s)"
  shows "\<lbrakk>j \<le> j0; j0 < j + n; \<forall>j'. j \<le> j' \<and> j' < j0 \<longrightarrow> bk_slot (index ! probe index h j') \<noteq> EMPTY_SLOT; s \<noteq> EMPTY_SLOT\<rbrakk>
    \<Longrightarrow> \<exists>i < length index. remove_loop n index (probe index h j) h s = Some i \<and> entry_of (index ! i) = (h, s)"
proof (induction n arbitrary: j)
  case (Suc n)
  have ne: "bk_slot (index ! probe index h j) \<noteq> EMPTY_SLOT" using Suc.prems assms(2) by (cases "j = j0") auto
  show ?case
  proof (cases "entry_of (index ! probe index h j) = (h, s)")
    case True
    with ne probe_bound [OF assms(1), of h j] show ?thesis by (simp add: Let_def)
  next
    case False
    then have "j \<noteq> j0" using assms(2) by auto
    with Suc.prems have "\<exists>i < length index. remove_loop n index (probe index h (Suc j)) h s = Some i \<and> entry_of (index ! i) = (h, s)"
      by (intro Suc.IH) auto
    with False ne show ?thesis by (auto simp: Let_def probe_Suc assms(1))
  qed
qed simp

lemma live_pair: "(h, s) \<in># pairs index \<Longrightarrow> s \<noteq> EMPTY_SLOT \<and> s \<noteq> TOMBSTONE_SLOT"
  by (auto simp: in_pairs_iff is_live_def)

lemma remove_bucket_ok:
  assumes "idx_inv index" "(h, s) \<in># pairs index"
  obtains index' where "remove_bucket h s (index, n, tombs index) = (index', n - 1, tombs index')" "idx_inv index'"
    "pairs index' = pairs index - {#(h, s)#}" "length index' = length index" "tombs index' = Suc (tombs index)"
proof -
  note live = live_pair [OF assms(2)]
  have p: "pow2_size index" using assms(1) by (simp add: idx_inv_def)
  obtain i0 where i0: "i0 < length index" "is_live (index ! i0)" "entry_of (index ! i0) = (h, s)"
    using assms(2) by (auto simp: in_pairs_iff)
  with assms(1) obtain j where j: "j < length index" "probe index h j = i0"
    "\<forall>j' < j. bk_slot (index ! probe index h j') \<noteq> EMPTY_SLOT"
    unfolding idx_inv_def path_ok_def by (metis prod.inject)
  obtain i where i: "i < length index" "remove_loop (length index) index (probe index h 0) h s = Some i"
    "entry_of (index ! i) = (h, s)"
    using remove_loop_finds [OF p, of h j s 0 "length index"] i0 j live by auto
  let ?t = "\<lparr>bk_hash = 0, bk_slot = TOMBSTONE_SLOT\<rparr>"
  have li: "is_live (index ! i)" using i live by (simp add: is_live_def)
  have pr: "pairs (index[i := ?t]) = pairs index - {#(h, s)#}"
    using i li by (simp add: pairs_update is_live_def [of ?t])
  have tb: "tombs (index[i := ?t]) = Suc (tombs index)"
    using tombs_update [OF i(1), of ?t] i live by auto
  have "size (pairs (index[i := ?t])) + tombs (index[i := ?t]) = size (pairs index) + tombs index"
    unfolding pr tb using size_Suc_Diff1 [OF assms(2)] by simp
  moreover have "path_ok (index[i := ?t])"
    by (rule path_ok_update) (use assms(1) i in \<open>auto simp: idx_inv_def is_live_def\<close>)
  ultimately have inv: "idx_inv (index[i := ?t])" using assms(1) by (simp add: idx_inv_def)
  have "remove_bucket h s (index, n, tombs index) = (index[i := ?t], n - 1, tombs (index[i := ?t]))"
    using i tb by (simp add: remove_bucket_def probe_0 [OF p])
  from that [OF this inv pr] tb show thesis by simp
qed

lemma pow2_from_spec:
  "p = 2 ^ k \<Longrightarrow> \<exists>m \<ge> k. pow2_from p n = 2 ^ m \<and> n \<le> 2 ^ m \<and> (k < m \<longrightarrow> 2 ^ m < 2 * n)"
proof (induction "n - p" arbitrary: p k rule: less_induct)
  case less
  show ?case
  proof (cases "n \<le> p")
    case True
    then show ?thesis using less.prems by (subst pow2_from.simps) auto
  next
    case False
    moreover have "0 < p" using less.prems by simp
    ultimately have "n - 2 * p < n - p" by simp
    then obtain m where m: "Suc k \<le> m" "pow2_from (2 * p) n = 2 ^ m" "n \<le> 2 ^ m" "Suc k < m \<longrightarrow> 2 ^ m < 2 * n"
      using less.prems less.hyps [of "2 * p" "Suc k"] by auto
    have "2 ^ m < 2 * n" using m False less.prems by (cases "Suc k = m") auto
    with m False less.prems show ?thesis by (subst pow2_from.simps) (auto intro!: exI [of _ m])
  qed
qed

lemma next_power_of_two_spec: "\<exists>m. next_power_of_two n = 2 ^ m \<and> n \<le> 2 ^ m \<and> (0 < m \<longrightarrow> 2 ^ m < 2 * n)"
  using pow2_from_spec [of 1 0 n] by (auto simp: next_power_of_two_def)

lemma empty_index:
  "pairs (replicate n BUCKET_EMPTY) = {#}" "tombs (replicate n BUCKET_EMPTY) = 0"
  "0 < n \<Longrightarrow> \<exists>m. n = 2 ^ m \<Longrightarrow> idx_inv (replicate n BUCKET_EMPTY)"
proof -
  show p: "pairs (replicate n BUCKET_EMPTY) = {#}"
    by (induction n) (simp_all add: pairs_def BUCKET_EMPTY_def is_live_def)
  show t: "tombs (replicate n BUCKET_EMPTY) = 0" by (induction n) (simp_all add: tombs_def BUCKET_EMPTY_def)
  assume "0 < n" "\<exists>m. n = 2 ^ m"
  with p t show "idx_inv (replicate n BUCKET_EMPTY)"
    by (simp add: idx_inv_def pow2_size_def path_ok_def is_live_def BUCKET_EMPTY_def)
qed

lemma reinsert_ok:
  assumes "idx_inv index" "\<forall>b \<in> set bs. is_live b" "size (pairs index) + tombs index + length bs < length index"
  shows "\<exists>index'. reinsert bs (index, tombs index) = Some (index', tombs index') \<and> idx_inv index'
    \<and> pairs index' = pairs index + mset (map entry_of bs) \<and> length index' = length index \<and> tombs index' \<le> tombs index"
  using assms
proof (induction bs arbitrary: index)
  case (Cons b bs)
  obtain index1 where i: "insert_bucket_raw (bk_hash b) (bk_slot b) (index, tombs index) = Some (index1, tombs index1)"
    "idx_inv index1" "pairs index1 = add_mset (entry_of b) (pairs index)" "length index1 = length index" "tombs index1 \<le> tombs index"
    by (rule insert_bucket_ok [of index "bk_slot b" "bk_hash b"]) (use Cons.prems in \<open>auto simp: is_live_def\<close>)
  have "size (pairs index1) + tombs index1 + length bs < length index1" using i Cons.prems(3) by simp
  with Cons.IH [of index1] i Cons.prems(2) show ?case by fastforce
qed auto

lemma live_entries: "mset (map entry_of (filter is_live index)) = pairs index"
  by (simp add: pairs_def mset_filter)

lemma rehash_ok:
  assumes "idx_inv index" "size (pairs index) < max n DEFAULT_INDEX_CAPACITY"
  obtains index' where "rehash n index = Some (index', 0)" "idx_inv index'" "pairs index' = pairs index"
    "max n DEFAULT_INDEX_CAPACITY \<le> length index'" "tombs index' = 0"
proof -
  let ?c = "next_power_of_two (max n DEFAULT_INDEX_CAPACITY)"
  obtain m where m: "?c = 2 ^ m" "max n DEFAULT_INDEX_CAPACITY \<le> ?c"
    using next_power_of_two_spec [of "max n DEFAULT_INDEX_CAPACITY"] by auto
  let ?e = "replicate ?c BUCKET_EMPTY"
  have "0 < ?c" unfolding m(1) by simp
  then have e: "idx_inv ?e" "pairs ?e = {#}" "tombs ?e = 0"
    using m(1) by (intro empty_index; blast)+
  have len: "length (filter is_live index) = size (pairs index)"
    unfolding live_entries [symmetric] by (simp only: size_mset length_map)
  have room: "size (pairs ?e) + tombs ?e + length (filter is_live index) < length ?e"
    unfolding e(2,3) len using less_le_trans [OF assms(2) m(2)] by simp
  have lv: "\<forall>b \<in> set (filter is_live index). is_live b" by simp
  obtain index' where r: "reinsert (filter is_live index) (?e, tombs ?e) = Some (index', tombs index')" "idx_inv index'"
    "pairs index' = pairs ?e + mset (map entry_of (filter is_live index))" "length index' = length ?e" "tombs index' \<le> tombs ?e"
    using reinsert_ok [OF e(1) lv room] by (elim exE conjE) (rule that)
  have "tombs index' = 0" using r(5) unfolding e(3) by simp
  with r(1) have "rehash n index = Some (index', 0)" unfolding e(3) rehash_def Let_def by simp
  moreover have "pairs index' = pairs index" using r(3) unfolding e(2) live_entries by simp
  moreover have "max n DEFAULT_INDEX_CAPACITY \<le> length index'" using r(4) m(2) by simp
  ultimately show thesis using that r(2) \<open>tombs index' = 0\<close> by blast
qed

lemma ensure_index_capacity_ok:
  assumes "idx_inv index" "n = size (pairs index)" "DEFAULT_INDEX_CAPACITY \<le> length index"
    "10 * (n + tombs index) < 7 * length index + 10"
  obtains index' where "ensure_index_capacity (index, n, tombs index) = Some (index', tombs index')" "idx_inv index'"
    "pairs index' = pairs index" "DEFAULT_INDEX_CAPACITY \<le> length index'"
    "10 * (n + tombs index' + 1) < 7 * length index'"
proof -
  have cap: "64 \<le> length index" using assms(3) by (simp add: DEFAULT_INDEX_CAPACITY_def)
  obtain index1 where i1: "(if tombs index > n \<and> tombs index > 32 then rehash (length index) index else Some (index, tombs index))
      = Some (index1, tombs index1)" "idx_inv index1" "pairs index1 = pairs index" "length index \<le> length index1"
    "10 * (n + tombs index1) < 7 * length index1 + 10"
  proof (cases "tombs index > n \<and> tombs index > 32")
    case True
    have "size (pairs index) < max (length index) DEFAULT_INDEX_CAPACITY"
      using assms(1) by (auto simp: idx_inv_def less_max_iff_disj)
    from rehash_ok [OF assms(1) this] obtain index' where r: "rehash (length index) index = Some (index', 0)" "idx_inv index'"
      "pairs index' = pairs index" "max (length index) DEFAULT_INDEX_CAPACITY \<le> length index'" "tombs index' = 0"
      by blast
    with True that [of index'] assms(4) show thesis by simp
  next
    case False
    with that assms show thesis by auto
  qed
  have n1: "n < length index1" using i1 assms(2) by (simp add: idx_inv_def)
  show thesis
  proof (cases "(n + tombs index1 + 1) * 10 \<ge> length index1 * 7")
    case True
    have "size (pairs index1) < max (length index1 * 2) DEFAULT_INDEX_CAPACITY" using n1 i1 assms(2) by simp
    from rehash_ok [OF i1(2) this] obtain index2 where i2: "rehash (length index1 * 2) index1 = Some (index2, 0)"
      "idx_inv index2" "pairs index2 = pairs index1" "max (length index1 * 2) DEFAULT_INDEX_CAPACITY \<le> length index2" "tombs index2 = 0"
      by blast
    have "10 * (n + tombs index2 + 1) < 7 * length index2" using i1(4,5) i2 cap by simp
    with True i1 i2 that [of index2] show thesis by (simp add: ensure_index_capacity_def Let_def)
  next
    case False
    with i1 that [of index1] assms(3) show thesis by (simp add: ensure_index_capacity_def Let_def)
  qed
qed

subsection \<open>The contract\<close>

text \<open>
  What the store relies on: an index is a bag of pairs, and a search finds a pair with the hash whose slot
  passes the test, if there is one.
\<close>

locale slot_index =
  fixes inv :: "'i \<Rightarrow> bool"
    and bag :: "'i \<Rightarrow> (u64 \<times> u32) multiset"
    and lookup :: "'i \<Rightarrow> u64 \<Rightarrow> (u32 \<Rightarrow> bool) \<Rightarrow> u32 option"
  assumes lookup_Some: "\<lbrakk>inv i; lookup i h K = Some s\<rbrakk> \<Longrightarrow> (h, s) \<in># bag i \<and> K s"
    and lookup_None: "\<lbrakk>inv i; lookup i h K = None; (h, s) \<in># bag i\<rbrakk> \<Longrightarrow> \<not> K s"
begin

lemma lookup_unique:
  assumes "inv i" "\<And>s s'. \<lbrakk>(h, s) \<in># bag i; (h, s') \<in># bag i; K s; K s'\<rbrakk> \<Longrightarrow> s = s'"
  shows "lookup i h K = Some s \<longleftrightarrow> (h, s) \<in># bag i \<and> K s"
proof
  assume s: "(h, s) \<in># bag i \<and> K s"
  then obtain s' where s': "lookup i h K = Some s'"
    using lookup_None [OF assms(1), where h = h and K = K and s = s] by blast
  from lookup_Some [OF assms(1) s'] s assms(2) [of s' s] s' show "lookup i h K = Some s" by simp
next
  assume "lookup i h K = Some s"
  from lookup_Some [OF assms(1) this] show "(h, s) \<in># bag i \<and> K s" .
qed

lemma lookup_absent:
  assumes "inv i" "\<And>s. (h, s) \<in># bag i \<Longrightarrow> \<not> K s"
  shows "lookup i h K = None"
proof (cases "lookup i h K")
  case (Some s)
  from lookup_Some [OF assms(1) Some] assms(2) show ?thesis by blast
qed

lemma lookup_stale:
  assumes "inv i" "inv j" "bag j = bag i" "\<And>s s'. \<lbrakk>(h, s) \<in># bag i; (h, s') \<in># bag i; K s; K s'\<rbrakk> \<Longrightarrow> s = s'"
  shows "lookup j h K = lookup i h K"
proof (cases "lookup i h K")
  case None
  have "lookup j h K = None"
    by (rule lookup_absent [OF assms(2)]) (use lookup_None [OF assms(1) None] assms(3) in simp)
  with None show ?thesis by simp
next
  case (Some s)
  from lookup_Some [OF assms(1) Some] have "(h, s) \<in># bag j \<and> K s" using assms(3) by simp
  then have "lookup j h K = Some s"
    using lookup_unique [OF assms(2), where h = h and K = K and s = s] assms(3,4) by simp
  with Some show ?thesis by simp
qed

end

interpretation probing: slot_index idx_inv pairs find_in_index
  by unfold_locales (use find_in_index_Some find_in_index_None in blast)+

text \<open>
  Growing and cleaning the index changes nothing a search can see. From an index that is at most full to its
  threshold, \<open>ensure_index_capacity\<close> ends, every search gives what it gave before, and there is room for one more
  bucket below the load factor of seven tenths.
\<close>

theorem cache_rehash_transparent:
  assumes "idx_inv index" "n = size (pairs index)" "DEFAULT_INDEX_CAPACITY \<le> length index"
    and "10 * (n + tombs index) < 7 * length index + 10"
    and "\<And>s s'. \<lbrakk>(h, s) \<in># pairs index; (h, s') \<in># pairs index; K s; K s'\<rbrakk> \<Longrightarrow> s = s'"
  shows "\<exists>index' tombstones. ensure_index_capacity (index, n, tombs index) = Some (index', tombstones)
    \<and> find_in_index index' h K = find_in_index index h K \<and> 10 * (n + tombstones + 1) < 7 * length index'"
proof -
  obtain index' where "ensure_index_capacity (index, n, tombs index) = Some (index', tombs index')" "idx_inv index'"
    "pairs index' = pairs index" "10 * (n + tombs index' + 1) < 7 * length index'"
    by (rule ensure_index_capacity_ok [OF assms(1-4)])
  then show ?thesis using probing.lookup_stale [OF assms(1) _ _ assms(5), of index'] by auto
qed

end
