(* ===== verification/Cache_Arena.thy ===== *)
theory Cache_Arena
  imports Cache_Index
begin

text \<open>
  The byte storage of the cache of \<open>src/runtime/cache.rs\<close>: the size-class arena with its free lists and the
  packed byte strings, which are inline up to 22 bytes and arena slices beyond. An allocation that the source
  refuses with a panic (a class above 1 GiB, an arena above 4 GiB) is \<open>None\<close>. The locale \<open>byte_storage\<close> is the
  contract: what is stored under a handle stays until the handle is released, whatever else is allocated or
  released. It holds for slices and for packed strings.
\<close>

definition INLINE_BYTES :: nat where "INLINE_BYTES = 22"
definition MIN_ARENA_EXP :: nat where "MIN_ARENA_EXP = 5"
definition MAX_ARENA_EXP :: nat where "MAX_ARENA_EXP = 30"
definition FREE_LIST_COUNT :: nat where "FREE_LIST_COUNT = MAX_ARENA_EXP - MIN_ARENA_EXP + 1"

lemmas arena_consts = INLINE_BYTES_def MIN_ARENA_EXP_def MAX_ARENA_EXP_def FREE_LIST_COUNT_def

record ArenaSlice =
  as_offset :: u32
  as_len :: u32
  as_class :: u8

record ByteArena =
  ba_bytes :: bytes
  ba_free :: "u32 list list"

definition ByteArena_new :: ByteArena where
  "ByteArena_new = \<lparr>ba_bytes = [], ba_free = replicate FREE_LIST_COUNT []\<rparr>"

fun trailing_zeros :: "nat \<Rightarrow> nat" where
  "trailing_zeros n = (if n = 0 \<or> odd n then 0 else Suc (trailing_zeros (n div 2)))"

declare trailing_zeros.simps [simp del]

definition class_for :: "nat \<Rightarrow> (nat \<times> nat) option" where
  "class_for len =
     (let capacity = next_power_of_two (max len (2 ^ MIN_ARENA_EXP)) in
      if capacity \<le> 2 ^ MAX_ARENA_EXP then Some (trailing_zeros capacity - MIN_ARENA_EXP, capacity) else None)"

text \<open>\<open>bytes[start..start + src.len()].copy_from_slice(src)\<close>\<close>

definition copy_at :: "nat \<Rightarrow> bytes \<Rightarrow> bytes \<Rightarrow> bytes" where
  "copy_at start src bytes = take start bytes @ src @ drop (start + length src) bytes"

text \<open>Taking a block, from the free list of the class or from the end of the arena.\<close>

definition take_block :: "nat \<Rightarrow> nat \<Rightarrow> ByteArena \<Rightarrow> (u32 \<times> ByteArena) option" where
  "take_block cls capacity a =
     (if ba_free a ! cls \<noteq> []
      then Some (last (ba_free a ! cls), a\<lparr>ba_free := (ba_free a)[cls := butlast (ba_free a ! cls)]\<rparr>)
      else let offset = length (ba_bytes a) in
           if offset + capacity \<le> 2 ^ 32 - 1
           then Some (of_nat offset, a\<lparr>ba_bytes := ba_bytes a @ replicate capacity 0\<rparr>)
           else None)"

definition arena_alloc :: "bytes \<Rightarrow> ByteArena \<Rightarrow> (ArenaSlice \<times> ByteArena) option" where
  "arena_alloc src a =
     (case class_for (length src) of
        None \<Rightarrow> None
      | Some (cls, capacity) \<Rightarrow>
          (case take_block cls capacity a of
             None \<Rightarrow> None
           | Some (offset, a) \<Rightarrow>
               Some (\<lparr>as_offset = offset, as_len = of_nat (length src), as_class = of_nat cls\<rparr>,
                     a\<lparr>ba_bytes := copy_at (unat offset) src (ba_bytes a)\<rparr>)))"

definition arena_release :: "ArenaSlice \<Rightarrow> ByteArena \<Rightarrow> ByteArena" where
  "arena_release s a =
     (let c = unat (as_class s) in a\<lparr>ba_free := (ba_free a)[c := ba_free a ! c @ [as_offset s]]\<rparr>)"

definition arena_get :: "ByteArena \<Rightarrow> ArenaSlice \<Rightarrow> bytes" where
  "arena_get a s = take (unat (as_len s)) (drop (unat (as_offset s)) (ba_bytes a))"

definition reserved_bytes :: "ByteArena \<Rightarrow> nat" where
  "reserved_bytes a = length (ba_bytes a)"

datatype PackedBytes = PInline u8 bytes | PArena ArenaSlice

definition pack :: "bytes \<Rightarrow> ByteArena \<Rightarrow> (PackedBytes \<times> ByteArena) option" where
  "pack src a =
     (if length src \<le> INLINE_BYTES
      then Some (PInline (of_nat (length src)) (src @ replicate (INLINE_BYTES - length src) 0), a)
      else map_option (\<lambda>(s, a). (PArena s, a)) (arena_alloc src a))"

fun packed_slice :: "ByteArena \<Rightarrow> PackedBytes \<Rightarrow> bytes" where
  "packed_slice a (PInline len data) = take (unat len) data"
| "packed_slice a (PArena s) = arena_get a s"

fun packed_release :: "PackedBytes \<Rightarrow> ByteArena \<Rightarrow> ByteArena" where
  "packed_release (PInline _ _) a = a"
| "packed_release (PArena s) a = arena_release s a"

subsection \<open>The contract\<close>

locale byte_storage =
  fixes inv :: "'a \<Rightarrow> 'h multiset \<Rightarrow> bool"
    and store :: "bytes \<Rightarrow> 'a \<Rightarrow> ('h \<times> 'a) option"
    and fetch :: "'a \<Rightarrow> 'h \<Rightarrow> bytes"
    and free :: "'h \<Rightarrow> 'a \<Rightarrow> 'a"
  assumes store_inv: "\<lbrakk>inv a L; store src a = Some (h, a')\<rbrakk> \<Longrightarrow> inv a' (add_mset h L)"
    and store_fetch: "\<lbrakk>inv a L; store src a = Some (h, a')\<rbrakk> \<Longrightarrow> fetch a' h = src"
    and store_frame: "\<lbrakk>inv a L; store src a = Some (h, a'); t \<in># L\<rbrakk> \<Longrightarrow> fetch a' t = fetch a t"
    and free_inv: "inv a (add_mset h L) \<Longrightarrow> inv (free h a) L"
    and free_frame: "\<lbrakk>inv a (add_mset h L); t \<in># L\<rbrakk> \<Longrightarrow> fetch (free h a) t = fetch a t"
begin

text \<open>Replacing what is stored: the new string is stored before the old handle is released.\<close>

lemma replace:
  assumes "inv a (add_mset h L)" "store src a = Some (k, a')"
  shows "inv (free h a') (add_mset k L) \<and> fetch (free h a') k = src \<and> (\<forall>t \<in># L. fetch (free h a') t = fetch a t)"
proof -
  have i: "inv a' (add_mset h (add_mset k L))" using store_inv [OF assms] by (simp add: add_mset_commute)
  have "fetch (free h a') t = fetch a t" if "t \<in># L" for t
    using free_frame [OF i, of t] store_frame [OF assms, of t] that by simp
  then show ?thesis using free_inv [OF i] free_frame [OF i, of k] store_fetch [OF assms] by simp
qed

end

subsection \<open>Blocks\<close>

text \<open>A block is an offset with a size class; it covers \<open>2 ^ (class + 5)\<close> bytes.\<close>

definition region :: "u32 \<times> nat \<Rightarrow> nat set" where
  "region = (\<lambda>(off, c). {unat off ..< unat off + 2 ^ (c + MIN_ARENA_EXP)})"

definition free_blocks :: "u32 list list \<Rightarrow> (u32 \<times> nat) multiset" where
  "free_blocks fl = (\<Sum>c < length fl. mset (map (\<lambda>off. (off, c)) (fl ! c)))"

definition block_of :: "ArenaSlice \<Rightarrow> u32 \<times> nat" where
  "block_of s = (as_offset s, unat (as_class s))"

definition covers :: "nat \<Rightarrow> (u32 \<times> nat) multiset \<Rightarrow> nat" where
  "covers p M = size (filter_mset (\<lambda>b. p \<in> region b) M)"

definition arena_inv :: "ByteArena \<Rightarrow> ArenaSlice multiset \<Rightarrow> bool" where
  "arena_inv a L \<longleftrightarrow> length (ba_free a) = FREE_LIST_COUNT \<and> length (ba_bytes a) < 2 ^ 32
     \<and> (\<forall>p. covers p (free_blocks (ba_free a) + image_mset block_of L) \<le> 1)
     \<and> (\<forall>b \<in># free_blocks (ba_free a) + image_mset block_of L. region b \<subseteq> {..<length (ba_bytes a)})
     \<and> (\<forall>s \<in># L. unat (as_class s) < FREE_LIST_COUNT \<and> unat (as_len s) \<le> 2 ^ (unat (as_class s) + MIN_ARENA_EXP))"

lemma covers_plus [simp]: "covers p (M + N) = covers p M + covers p N"
  by (simp add: covers_def)

lemma covers_add [simp]: "covers p (add_mset b M) = (if p \<in> region b then 1 else 0) + covers p M"
  by (simp add: covers_def)

lemma covers_0: "(\<And>b. b \<in># M \<Longrightarrow> p \<notin> region b) \<Longrightarrow> covers p M = 0"
  unfolding covers_def by (induction M) auto

lemma free_blocks_update:
  assumes "c < length fl"
  shows "free_blocks (fl[c := xs]) + mset (map (\<lambda>off. (off, c)) (fl ! c))
    = free_blocks fl + mset (map (\<lambda>off. (off, c)) xs)"
proof -
  let ?f = "\<lambda>gl d. mset (map (\<lambda>off. (off, d)) (gl ! d))"
  have split: "free_blocks gl = ?f gl c + (\<Sum>d \<in> {..<length fl} - {c}. ?f gl d)" if "length gl = length fl" for gl
    unfolding free_blocks_def that by (rule sum.remove) (use assms in auto)
  have "(\<Sum>d \<in> {..<length fl} - {c}. ?f (fl[c := xs]) d) = (\<Sum>d \<in> {..<length fl} - {c}. ?f fl d)"
    by (rule sum.cong) auto
  with split [of fl] split [of "fl[c := xs]"] assms show ?thesis by (simp add: ac_simps)
qed

lemma trailing_zeros_pow2: "trailing_zeros (2 ^ m) = m"
  by (induction m) (subst trailing_zeros.simps, simp)+

lemma class_for_spec:
  assumes "class_for len = Some (c, cap)"
  shows "c < FREE_LIST_COUNT \<and> cap = 2 ^ (c + MIN_ARENA_EXP) \<and> len \<le> cap"
proof -
  obtain m where m: "next_power_of_two (max len (2 ^ MIN_ARENA_EXP)) = 2 ^ m" "max len (2 ^ MIN_ARENA_EXP) \<le> 2 ^ m"
    using next_power_of_two_spec by blast
  with assms have cap: "cap = 2 ^ m" "(2::nat) ^ m \<le> 2 ^ MAX_ARENA_EXP" "c = m - MIN_ARENA_EXP"
    by (auto simp: class_for_def Let_def trailing_zeros_pow2 split: if_splits)
  have "MIN_ARENA_EXP \<le> m" "m \<le> MAX_ARENA_EXP" using m(2) cap(2) by simp_all
  with cap m(2) show ?thesis by (simp add: arena_consts)
qed

lemma length_copy_at [simp]: "start + length src \<le> length bs \<Longrightarrow> length (copy_at start src bs) = length bs"
  by (simp add: copy_at_def)

lemma copy_at_read: "start + length src \<le> length bs \<Longrightarrow> take (length src) (drop start (copy_at start src bs)) = src"
  by (simp add: copy_at_def)

lemma nth_copy_at:
  "\<lbrakk>start + length src \<le> length bs; i < length bs; i < start \<or> start + length src \<le> i\<rbrakk> \<Longrightarrow> copy_at start src bs ! i = bs ! i"
  by (auto simp: copy_at_def nth_append)

lemma take_drop_cong:
  assumes "length xs = length ys" "off + n \<le> length xs" "\<And>i. \<lbrakk>off \<le> i; i < off + n\<rbrakk> \<Longrightarrow> xs ! i = ys ! i"
  shows "take n (drop off xs) = take n (drop off ys)"
  by (rule nth_equalityI) (use assms in auto)

lemma region_subset: "region (off, c) \<subseteq> {..<n} \<longleftrightarrow> unat off + 2 ^ (c + MIN_ARENA_EXP) \<le> n"
  by (simp add: region_def lessThan_atLeast0)

text \<open>A slice lies in its block, and the block in the arena.\<close>

lemma slice_bounds:
  assumes "arena_inv a L" "s \<in># L"
  shows "{unat (as_offset s) ..< unat (as_offset s) + unat (as_len s)} \<subseteq> region (block_of s)"
    "unat (as_offset s) + unat (as_len s) \<le> length (ba_bytes a)"
proof -
  have len: "unat (as_len s) \<le> 2 ^ (unat (as_class s) + MIN_ARENA_EXP)" using assms by (simp add: arena_inv_def)
  then show sub: "{unat (as_offset s) ..< unat (as_offset s) + unat (as_len s)} \<subseteq> region (block_of s)"
    by (auto simp: region_def block_of_def)
  have "block_of s \<in># free_blocks (ba_free a) + image_mset block_of L" using assms(2) by simp
  then have "region (block_of s) \<subseteq> {..<length (ba_bytes a)}" using assms(1) unfolding arena_inv_def by blast
  then show "unat (as_offset s) + unat (as_len s) \<le> length (ba_bytes a)"
    using len by (simp add: block_of_def region_subset)
qed

definition blocks_ok :: "ByteArena \<Rightarrow> (u32 \<times> nat) multiset \<Rightarrow> bool" where
  "blocks_ok a M \<longleftrightarrow> length (ba_free a) = FREE_LIST_COUNT \<and> length (ba_bytes a) < 2 ^ 32
     \<and> (\<forall>p. covers p (free_blocks (ba_free a) + M) \<le> 1)
     \<and> (\<forall>b \<in># free_blocks (ba_free a) + M. region b \<subseteq> {..<length (ba_bytes a)})"

lemma arena_inv_blocks:
  "arena_inv a L \<longleftrightarrow> blocks_ok a (image_mset block_of L)
     \<and> (\<forall>s \<in># L. unat (as_class s) < FREE_LIST_COUNT \<and> unat (as_len s) \<le> 2 ^ (unat (as_class s) + MIN_ARENA_EXP))"
  by (simp add: arena_inv_def blocks_ok_def)

lemma take_block_ok:
  assumes "blocks_ok a M" "c < FREE_LIST_COUNT" "take_block c (2 ^ (c + MIN_ARENA_EXP)) a = Some (off, a')"
  shows "blocks_ok a' (add_mset (off, c) M) \<and> (\<exists>zs. ba_bytes a' = ba_bytes a @ zs)"
proof (cases "ba_free a ! c = []")
  case False
  then have a': "off = last (ba_free a ! c)" "a' = a\<lparr>ba_free := (ba_free a)[c := butlast (ba_free a ! c)]\<rparr>"
    using assms(3) by (auto simp: take_block_def)
  have c: "c < length (ba_free a)" using assms(1,2) by (simp add: blocks_ok_def)
  obtain ys where ys: "ba_free a ! c = ys @ [off]" using False a' by (metis append_butlast_last_id)
  have "mset (map (\<lambda>off. (off, c)) (ba_free a ! c)) = add_mset (off, c) (mset (map (\<lambda>off. (off, c)) (butlast (ba_free a ! c))))"
    unfolding ys by simp
  with free_blocks_update [OF c, of "butlast (ba_free a ! c)"]
  have "free_blocks (ba_free a) = add_mset (off, c) (free_blocks (ba_free a'))" using a' by simp
  then show ?thesis using assms(1) a' by (simp add: blocks_ok_def)
next
  case True
  let ?n = "length (ba_bytes a)"
  have a': "off = of_nat ?n" "a' = a\<lparr>ba_bytes := ba_bytes a @ replicate (2 ^ (c + MIN_ARENA_EXP)) 0\<rparr>"
    and fit: "?n + 2 ^ (c + MIN_ARENA_EXP) \<le> 2 ^ 32 - 1"
    using assms(3) True by (auto simp: take_block_def Let_def split: if_splits)
  have off: "unat off = ?n" using assms(1) by (simp add: a' blocks_ok_def unat_of_nat take_bit_nat_eq_self)
  let ?B = "free_blocks (ba_free a) + M"
  have old: "region b \<subseteq> {..<?n}" if "b \<in># ?B" for b using assms(1) that unfolding blocks_ok_def by blast
  have new: "region (off, c) = {?n ..< ?n + 2 ^ (c + MIN_ARENA_EXP)}" using off by (simp add: region_def)
  have "covers p ?B = 0" if "p \<in> region (off, c)" for p
    by (rule covers_0) (use old that new in force)
  then have "covers p (add_mset (off, c) ?B) \<le> 1" for p
    using assms(1) by (cases "p \<in> region (off, c)") (simp_all add: blocks_ok_def)
  moreover have "region b \<subseteq> {..<?n + 2 ^ (c + MIN_ARENA_EXP)}" if "b \<in># add_mset (off, c) ?B" for b
    using that old [of b] new by fastforce
  ultimately show ?thesis using assms(1) fit a' by (simp add: blocks_ok_def)
qed

lemma arena_alloc_ok:
  assumes "arena_inv a L" "arena_alloc src a = Some (s, a')"
  shows "arena_inv a' (add_mset s L) \<and> arena_get a' s = src \<and> (\<forall>t \<in># L. arena_get a' t = arena_get a t)"
proof -
  obtain c cap off a1 where ca: "class_for (length src) = Some (c, cap)" and tb: "take_block c cap a = Some (off, a1)"
    and s: "s = \<lparr>as_offset = off, as_len = of_nat (length src), as_class = of_nat c\<rparr>"
    and a': "a' = a1\<lparr>ba_bytes := copy_at (unat off) src (ba_bytes a1)\<rparr>"
    using assms(2) by (auto simp: arena_alloc_def split: option.splits)
  have c: "c < FREE_LIST_COUNT" "cap = 2 ^ (c + MIN_ARENA_EXP)" "length src \<le> 2 ^ (c + MIN_ARENA_EXP)"
    using class_for_spec [OF ca] by simp_all
  have ok: "blocks_ok a (image_mset block_of L)" using assms(1) by (simp add: arena_inv_blocks)
  obtain zs where b1: "blocks_ok a1 (add_mset (off, c) (image_mset block_of L))" and zs: "ba_bytes a1 = ba_bytes a @ zs"
    using take_block_ok [OF ok c(1) tb [unfolded c(2)]] by blast
  have cu: "unat (of_nat c :: u8) = c" using c(1) by (simp add: unat_of_nat take_bit_nat_eq_self arena_consts)
  have "(2::nat) ^ (c + MIN_ARENA_EXP) \<le> 2 ^ 30" using c(1) by (intro power_increasing) (simp_all add: arena_consts)
  then have lu: "unat (of_nat (length src) :: u32) = length src"
    using c(3) by (simp add: unat_of_nat take_bit_nat_eq_self)
  have fits: "unat off + length src \<le> length (ba_bytes a1)"
    using b1 c(3) by (simp add: blocks_ok_def region_subset)
  have "blocks_ok a' (add_mset (off, c) (image_mset block_of L))" using b1 fits by (simp add: blocks_ok_def a')
  then have inv: "arena_inv a' (add_mset s L)"
    using assms(1) c lu cu by (simp add: arena_inv_blocks s block_of_def)
  have get: "arena_get a' s = src" using fits lu by (simp add: arena_get_def a' s copy_at_read)
  have "arena_get a' t = arena_get a t" if t: "t \<in># L" for t
  proof -
    note tb = slice_bounds [OF assms(1) t]
    have disj: "p \<notin> region (off, c)" if "p \<in> region (block_of t)" for p
    proof
      assume "p \<in> region (off, c)"
      moreover obtain L' where "L = add_mset t L'" using multi_member_split [OF t] by blast
      ultimately have "2 \<le> covers p (free_blocks (ba_free a1) + add_mset (off, c) (image_mset block_of L))" using that by simp
      moreover have "covers p (free_blocks (ba_free a1) + add_mset (off, c) (image_mset block_of L)) \<le> 1"
        using b1 unfolding blocks_ok_def by blast
      ultimately show False by linarith
    qed
    have "take (unat (as_len t)) (drop (unat (as_offset t)) (copy_at (unat off) src (ba_bytes a1)))
        = take (unat (as_len t)) (drop (unat (as_offset t)) (ba_bytes a1))"
    proof (rule take_drop_cong)
      fix i
      assume "unat (as_offset t) \<le> i" "i < unat (as_offset t) + unat (as_len t)"
      moreover from this have "i \<notin> region (off, c)" using disj tb(1) by fastforce
      ultimately show "copy_at (unat off) src (ba_bytes a1) ! i = ba_bytes a1 ! i"
        using fits tb(2) c(3) zs by (intro nth_copy_at) (auto simp: region_def)
    qed (use fits tb(2) zs in simp_all)
    then show ?thesis using tb(2) zs by (simp add: arena_get_def a')
  qed
  with inv get show ?thesis by blast
qed

lemma arena_release_ok:
  assumes "arena_inv a (add_mset s L)"
  shows "arena_inv (arena_release s a) L \<and> (\<forall>t. arena_get (arena_release s a) t = arena_get a t)"
proof -
  let ?c = "unat (as_class s)"
  have c: "?c < length (ba_free a)" using assms by (simp add: arena_inv_def)
  have "free_blocks (ba_free (arena_release s a)) = add_mset (block_of s) (free_blocks (ba_free a))"
    using free_blocks_update [OF c, of "ba_free a ! ?c @ [as_offset s]"]
    by (simp add: arena_release_def Let_def block_of_def)
  with assms show ?thesis by (simp add: arena_inv_def arena_release_def Let_def arena_get_def)
qed

interpretation arena: byte_storage arena_inv arena_alloc arena_get arena_release
  by unfold_locales (use arena_alloc_ok arena_release_ok in blast)+

text \<open>Packed strings: only those in the arena occupy it.\<close>

fun slices_of :: "PackedBytes \<Rightarrow> ArenaSlice multiset" where
  "slices_of (PInline _ _) = {#}"
| "slices_of (PArena s) = {#s#}"

definition packed_inv :: "ByteArena \<Rightarrow> PackedBytes multiset \<Rightarrow> bool" where
  "packed_inv a L \<longleftrightarrow> arena_inv a (\<Sum>p \<in># L. slices_of p)"

lemma slices_member: "PArena s \<in># L \<Longrightarrow> s \<in># (\<Sum>p \<in># L. slices_of p)"
  by (induction L) auto

lemma pack_cases:
  assumes "pack src a = Some (p, a')"
  obtains (inline) "length src \<le> INLINE_BYTES" "a' = a" "slices_of p = {#}" "packed_slice b p = src"
  | (arena) s where "p = PArena s" "arena_alloc src a = Some (s, a')"
proof (cases "length src \<le> INLINE_BYTES")
  case True
  have "unat (of_nat (length src) :: u8) = length src"
    using True by (simp add: unat_of_nat take_bit_nat_eq_self arena_consts)
  with True assms inline show thesis by (auto simp: pack_def)
next
  case False
  with assms arena show thesis by (auto simp: pack_def)
qed

interpretation packed: byte_storage packed_inv pack packed_slice packed_release
proof
  fix a L src p a'
  assume inv: "packed_inv a L" and p: "pack src a = Some (p, a')"
  show "packed_inv a' (add_mset p L)"
    using p by (rule pack_cases) (use inv arena.store_inv in \<open>auto simp: packed_inv_def\<close>)
  show "packed_slice a' p = src"
    using p by (rule pack_cases) (use inv arena.store_fetch in \<open>auto simp: packed_inv_def\<close>)
  fix t
  assume t: "t \<in># L"
  show "packed_slice a' t = packed_slice a t"
    using p
  proof (rule pack_cases)
    fix s
    assume s: "arena_alloc src a = Some (s, a')"
    show ?thesis
      using arena.store_frame [OF inv [unfolded packed_inv_def] s] slices_member t by (cases t) auto
  qed simp
next
  fix a p L
  assume inv: "packed_inv a (add_mset p L)"
  show "packed_inv (packed_release p a) L"
    using inv arena.free_inv by (cases p) (auto simp: packed_inv_def)
  fix t
  assume t: "t \<in># L"
  show "packed_slice (packed_release p a) t = packed_slice a t"
  proof (cases p)
    case (PArena s)
    then show ?thesis
      using arena.free_frame [of a s "\<Sum>p \<in># L. slices_of p"] inv slices_member t
      by (cases t) (auto simp: packed_inv_def)
  qed simp
qed

text \<open>Allocation succeeds while the arena has room for the class of the string.\<close>

lemma pack_returns:
  assumes "length src \<le> 2 ^ 30" "length (ba_bytes a) + 2 * max (length src) 32 \<le> 2 ^ 32 - 1"
  obtains p a' where "pack src a = Some (p, a')"
proof (cases "length src \<le> INLINE_BYTES")
  case True
  with that show thesis by (auto simp: pack_def)
next
  case False
  let ?n = "max (length src) (2 ^ MIN_ARENA_EXP)"
  obtain m where m: "next_power_of_two ?n = 2 ^ m" "?n \<le> 2 ^ m" "0 < m \<longrightarrow> 2 ^ m < 2 * ?n"
    using next_power_of_two_spec by blast
  have n: "?n = max (length src) 32" "?n \<le> 2 ^ 30" using assms(1) by (simp_all add: arena_consts)
  have m0: "0 < m" using m(2) by (cases m) (simp_all add: arena_consts)
  then have lt: "2 ^ m < 2 * ?n" using m(3) by blast
  also have "2 * ?n \<le> 2 * 2 ^ 30" using n(2) by (rule mult_le_mono2)
  finally have "(2::nat) ^ m < 2 ^ 31" by simp
  then have "m < 31" by (rule power_less_imp_less_exp [rotated]) simp
  then have "(2::nat) ^ m \<le> 2 ^ MAX_ARENA_EXP" by (intro power_increasing) (simp_all add: arena_consts)
  then have "class_for (length src) = Some (m - MIN_ARENA_EXP, 2 ^ m)"
    using m(1) by (simp add: class_for_def Let_def trailing_zeros_pow2)
  moreover have "length (ba_bytes a) + 2 ^ m \<le> 2 ^ 32 - 1" using lt assms(2) unfolding n(1) by linarith
  ultimately show thesis using that False
    by (cases "ba_free a ! (m - MIN_ARENA_EXP) = []") (auto simp: pack_def arena_alloc_def take_block_def Let_def)
qed

lemma class_for_small:
  assumes "class_for len = Some (c, cap)"
  shows "cap \<le> 2 * max len 32"
proof -
  obtain m where m: "next_power_of_two (max len (2 ^ MIN_ARENA_EXP)) = 2 ^ m" "max len (2 ^ MIN_ARENA_EXP) \<le> 2 ^ m"
    "0 < m \<longrightarrow> 2 ^ m < 2 * max len (2 ^ MIN_ARENA_EXP)"
    using next_power_of_two_spec by blast
  have "0 < m" using m(2) by (cases m) (simp_all add: arena_consts)
  with m(3) have "2 ^ m \<le> 2 * max len 32" by (simp add: arena_consts)
  with assms m(1) show ?thesis by (auto simp: class_for_def Let_def split: if_splits)
qed

lemma pack_growth:
  assumes inv: "packed_inv a L" and run: "pack src a = Some (p, a')"
  shows "length (ba_bytes a') \<le> length (ba_bytes a) + 2 * max (length src) 32"
  using run
proof (rule pack_cases)
  fix s
  assume "arena_alloc src a = Some (s, a')"
  then obtain c cap off a1 where ca: "class_for (length src) = Some (c, cap)" and tb: "take_block c cap a = Some (off, a1)"
    and a': "a' = a1\<lparr>ba_bytes := copy_at (unat off) src (ba_bytes a1)\<rparr>"
    by (auto simp: arena_alloc_def split: option.splits)
  have c: "c < FREE_LIST_COUNT" "cap = 2 ^ (c + MIN_ARENA_EXP)" "length src \<le> 2 ^ (c + MIN_ARENA_EXP)"
    using class_for_spec [OF ca] by simp_all
  have "blocks_ok a (image_mset block_of (\<Sum>p \<in># L. slices_of p))" using inv by (simp add: packed_inv_def arena_inv_blocks)
  from take_block_ok [OF this c(1) tb [unfolded c(2)]] have "unat off + length src \<le> length (ba_bytes a1)"
    using c(3) by (simp add: blocks_ok_def region_subset)
  moreover have "length (ba_bytes a1) \<le> length (ba_bytes a) + cap"
    using tb by (auto simp: take_block_def Let_def split: if_splits)
  ultimately show ?thesis using class_for_small [OF ca] a' by simp
qed simp

end
