(* ===== verification/Cache_Store.thy ===== *)
theory Cache_Store
  imports Cache_Arena Resp
begin

text \<open>
  The shard-local cache of \<open>src/runtime/cache.rs\<close>: entries in slots with generations, the index, the arena and
  the expiration wheel, with every operation of \<open>CacheStore\<close>. The hash function is that of the library
  rustc-hash and an argument of the operations. Times are \<open>u64\<close> milliseconds. An operation that allocates
  returns an option: \<open>None\<close> is the panic of a full arena. A slot number out of range and the other \<open>expect\<close>s
  are excluded by the invariant of \<open>Cache_Refinement\<close>. The scratch buffer of \<open>purge_expired\<close> is empty between
  calls and is not part of the state.
\<close>

subsection \<open>Entries\<close>

datatype CacheValueView = ViewInteger int | ViewBytes bytes

datatype CacheTtl = TtlMissing | TtlPersistent | TtlRemainingMs u64

datatype CacheIncrementError = NotInteger | Overflow

datatype CacheValue = ValInteger int | ValBytes PackedBytes

fun value_view :: "ByteArena \<Rightarrow> CacheValue \<Rightarrow> CacheValueView" where
  "value_view a (ValInteger v) = ViewInteger v"
| "value_view a (ValBytes p) = ViewBytes (packed_slice a p)"

fun value_release :: "CacheValue \<Rightarrow> ByteArena \<Rightarrow> ByteArena" where
  "value_release (ValInteger _) a = a"
| "value_release (ValBytes p) a = packed_release p a"

record Entry =
  en_hash :: u64
  en_key :: PackedBytes
  en_value :: CacheValue
  en_expires_at_ms :: "u64 option"

record EntrySlot =
  sl_generation :: u32
  sl_entry :: "Entry option"

subsection \<open>The expiration wheel\<close>

definition saturating_add :: "u64 \<Rightarrow> u64 \<Rightarrow> u64" where
  "saturating_add a b = (if unat a + unat b < 2 ^ 64 then a + b else -1)"

definition saturating_sub :: "u64 \<Rightarrow> u64 \<Rightarrow> u64" where
  "saturating_sub a b = (if b \<le> a then a - b else 0)"

record ExpirationRef =
  er_slot :: u32
  er_generation :: u32
  er_expires_at_ms :: u64

record ExpirationWheel =
  ew_tick_ms :: u64
  ew_buckets :: "ExpirationRef list list"
  ew_last_tick :: "u64 option"

definition ExpirationWheel_new :: "nat \<Rightarrow> u64 \<Rightarrow> ExpirationWheel" where
  "ExpirationWheel_new bucket_count tick_ms =
     \<lparr>ew_tick_ms = tick_ms, ew_buckets = replicate bucket_count [], ew_last_tick = None\<rparr>"

definition wheel_bucket :: "ExpirationWheel \<Rightarrow> u64 \<Rightarrow> nat" where
  "wheel_bucket w expires = unat ((expires div ew_tick_ms w) mod of_nat (length (ew_buckets w)))"

definition wheel_schedule :: "ExpirationRef \<Rightarrow> u64 \<Rightarrow> ExpirationWheel \<Rightarrow> ExpirationWheel" where
  "wheel_schedule item now_ms w =
     (let b = wheel_bucket w (er_expires_at_ms item) in
      w\<lparr>ew_last_tick := (case ew_last_tick w of None \<Rightarrow> Some (now_ms div ew_tick_ms w) | Some t \<Rightarrow> Some t),
        ew_buckets := (ew_buckets w)[b := ew_buckets w ! b @ [item]]\<rparr>)"

definition drain_candidates :: "u64 \<Rightarrow> ExpirationWheel \<Rightarrow> ExpirationRef list \<times> ExpirationWheel" where
  "drain_candidates now_ms w =
     (let current = now_ms div ew_tick_ms w; n = length (ew_buckets w) in
      case ew_last_tick w of
        None \<Rightarrow> ([], w\<lparr>ew_last_tick := Some current\<rparr>)
      | Some last_tick \<Rightarrow>
          let (out, buckets) =
            (if unat (saturating_sub current last_tick) \<ge> n
             then (concat (ew_buckets w), replicate n [])
             else fold (\<lambda>tick (out, buckets). (out @ buckets ! (tick mod n), buckets[tick mod n := []]))
                    [unat last_tick ..< Suc (unat current)] ([], ew_buckets w))
          in (out, w\<lparr>ew_buckets := buckets, ew_last_tick := Some current\<rparr>))"

subsection \<open>The store\<close>

definition DEFAULT_WHEEL_BUCKETS :: nat where "DEFAULT_WHEEL_BUCKETS = 4096"
definition DEFAULT_WHEEL_TICK_MS :: u64 where "DEFAULT_WHEEL_TICK_MS = 10"

record CacheStats =
  st_hits :: u64
  st_misses :: u64
  st_sets :: u64
  st_deletes :: u64
  st_expirations :: u64

record CacheStore =
  cs_arena :: ByteArena
  cs_slots :: "EntrySlot list"
  cs_free_slots :: "u32 list"
  cs_index :: "Bucket list"
  cs_index_len :: nat
  cs_tombstones :: nat
  cs_expiry :: ExpirationWheel
  cs_stats :: CacheStats

definition CacheStore_new :: CacheStore where
  "CacheStore_new = \<lparr>cs_arena = ByteArena_new, cs_slots = [], cs_free_slots = [],
     cs_index = replicate DEFAULT_INDEX_CAPACITY BUCKET_EMPTY, cs_index_len = 0, cs_tombstones = 0,
     cs_expiry = ExpirationWheel_new DEFAULT_WHEEL_BUCKETS DEFAULT_WHEEL_TICK_MS,
     cs_stats = \<lparr>st_hits = 0, st_misses = 0, st_sets = 0, st_deletes = 0, st_expirations = 0\<rparr>\<rparr>"

definition slot_entry :: "CacheStore \<Rightarrow> u32 \<Rightarrow> Entry option" where
  "slot_entry st s = (case nth_opt (cs_slots st) (unat s) of None \<Rightarrow> None | Some sl \<Rightarrow> sl_entry sl)"

definition find_slot :: "bytes \<Rightarrow> u64 \<Rightarrow> CacheStore \<Rightarrow> u32 option" where
  "find_slot key hash st = find_in_index (cs_index st) hash
     (\<lambda>s. case slot_entry st s of None \<Rightarrow> False | Some e \<Rightarrow> packed_slice (cs_arena st) (en_key e) = key)"

definition remove_slot :: "u32 \<Rightarrow> CacheStore \<Rightarrow> bool \<times> CacheStore" where
  "remove_slot s st =
     (case nth_opt (cs_slots st) (unat s) of
        None \<Rightarrow> (False, st)
      | Some sl \<Rightarrow>
          (case sl_entry sl of
             None \<Rightarrow> (False, st)
           | Some e \<Rightarrow>
               let (index, index_len, tombstones) =
                     remove_bucket (en_hash e) s (cs_index st, cs_index_len st, cs_tombstones st)
               in (True, st\<lparr>cs_slots := (cs_slots st)[unat s := sl\<lparr>sl_entry := None\<rparr>],
                    cs_index := index, cs_index_len := index_len, cs_tombstones := tombstones,
                    cs_arena := value_release (en_value e) (packed_release (en_key e) (cs_arena st)),
                    cs_free_slots := cs_free_slots st @ [s]\<rparr>)))"

definition count_expiration :: "CacheStore \<Rightarrow> CacheStore" where
  "count_expiration st = st\<lparr>cs_stats := (cs_stats st)\<lparr>st_expirations := st_expirations (cs_stats st) + 1\<rparr>\<rparr>"

definition live_slot_id :: "(bytes \<Rightarrow> u64) \<Rightarrow> bytes \<Rightarrow> u64 \<Rightarrow> CacheStore \<Rightarrow> u32 option \<times> CacheStore" where
  "live_slot_id hf key now_ms st =
     (case find_slot key (hf key) st of
        None \<Rightarrow> (None, st)
      | Some slot_id \<Rightarrow>
          let expired = (case slot_entry st slot_id of
                           None \<Rightarrow> False
                         | Some e \<Rightarrow> (case en_expires_at_ms e of None \<Rightarrow> False | Some deadline \<Rightarrow> deadline \<le> now_ms))
          in if expired then (None, count_expiration (snd (remove_slot slot_id st)))
             else (Some slot_id, st))"

definition next_generation :: "u32 \<Rightarrow> u32" where
  "next_generation g = max (g + 1) 1"

definition allocate_slot :: "Entry \<Rightarrow> CacheStore \<Rightarrow> u32 \<times> u32 \<times> CacheStore" where
  "allocate_slot e st =
     (if cs_free_slots st \<noteq> []
      then let s = last (cs_free_slots st); g = next_generation (sl_generation (cs_slots st ! unat s)) in
           (s, g, st\<lparr>cs_free_slots := butlast (cs_free_slots st),
                 cs_slots := (cs_slots st)[unat s := \<lparr>sl_generation = g, sl_entry = Some e\<rparr>]\<rparr>)
      else (of_nat (length (cs_slots st)), 1,
            st\<lparr>cs_slots := cs_slots st @ [\<lparr>sl_generation = 1, sl_entry = Some e\<rparr>]\<rparr>))"

definition schedule_expiry :: "u32 \<Rightarrow> u32 \<Rightarrow> u64 option \<Rightarrow> u64 \<Rightarrow> CacheStore \<Rightarrow> CacheStore" where
  "schedule_expiry s g expires now_ms st =
     (case expires of
        None \<Rightarrow> st
      | Some x \<Rightarrow> st\<lparr>cs_expiry := wheel_schedule \<lparr>er_slot = s, er_generation = g, er_expires_at_ms = x\<rparr> now_ms (cs_expiry st)\<rparr>)"

definition count_set :: "CacheStore \<Rightarrow> CacheStore" where
  "count_set st = st\<lparr>cs_stats := (cs_stats st)\<lparr>st_sets := st_sets (cs_stats st) + 1\<rparr>\<rparr>"

definition set_value :: "(bytes \<Rightarrow> u64) \<Rightarrow> bytes \<Rightarrow> CacheValue \<Rightarrow> u64 option \<Rightarrow> u64 \<Rightarrow> CacheStore \<Rightarrow> CacheStore option" where
  "set_value hf key v ttl_ms now_ms st =
     (let hash = hf key; expires = map_option (saturating_add now_ms) ttl_ms in
      case find_slot key hash st of
        Some s \<Rightarrow>
          (case slot_entry st s of
             None \<Rightarrow> None
           | Some e \<Rightarrow>
               let g = next_generation (sl_generation (cs_slots st ! unat s)) in
               Some (count_set (schedule_expiry s g expires now_ms
                 (st\<lparr>cs_slots := (cs_slots st)[unat s := \<lparr>sl_generation = g,
                        sl_entry = Some (e\<lparr>en_value := v, en_expires_at_ms := expires\<rparr>)\<rparr>],
                     cs_arena := value_release (en_value e) (cs_arena st)\<rparr>))))
      | None \<Rightarrow>
          (case ensure_index_capacity (cs_index st, cs_index_len st, cs_tombstones st) of
             None \<Rightarrow> None
           | Some (index, tombstones) \<Rightarrow>
               (case pack key (cs_arena st) of
                  None \<Rightarrow> None
                | Some (packed_key, arena) \<Rightarrow>
                    let e = \<lparr>en_hash = hash, en_key = packed_key, en_value = v, en_expires_at_ms = expires\<rparr>;
                        (s, g, st) = allocate_slot e
                          (st\<lparr>cs_index := index, cs_tombstones := tombstones, cs_arena := arena\<rparr>)
                    in (case insert_bucket_raw hash s (cs_index st, cs_tombstones st) of
                          None \<Rightarrow> None
                        | Some (index, tombstones) \<Rightarrow>
                            Some (count_set (schedule_expiry s g expires now_ms
                              (st\<lparr>cs_index := index, cs_tombstones := tombstones,
                                  cs_index_len := cs_index_len st + 1\<rparr>)))))))"

definition set_bytes :: "(bytes \<Rightarrow> u64) \<Rightarrow> bytes \<Rightarrow> bytes \<Rightarrow> u64 option \<Rightarrow> u64 \<Rightarrow> CacheStore \<Rightarrow> CacheStore option" where
  "set_bytes hf key v ttl_ms now_ms st =
     (case pack v (cs_arena st) of
        None \<Rightarrow> None
      | Some (p, arena) \<Rightarrow> set_value hf key (ValBytes p) ttl_ms now_ms (st\<lparr>cs_arena := arena\<rparr>))"

definition set_integer :: "(bytes \<Rightarrow> u64) \<Rightarrow> bytes \<Rightarrow> int \<Rightarrow> u64 option \<Rightarrow> u64 \<Rightarrow> CacheStore \<Rightarrow> CacheStore option" where
  "set_integer hf key v ttl_ms now_ms st = set_value hf key (ValInteger v) ttl_ms now_ms st"

definition cache_get :: "(bytes \<Rightarrow> u64) \<Rightarrow> bytes \<Rightarrow> u64 \<Rightarrow> CacheStore \<Rightarrow> CacheValueView option \<times> CacheStore" where
  "cache_get hf key now_ms st =
     (case live_slot_id hf key now_ms st of
        (None, st) \<Rightarrow> (None, st\<lparr>cs_stats := (cs_stats st)\<lparr>st_misses := st_misses (cs_stats st) + 1\<rparr>\<rparr>)
      | (Some s, st) \<Rightarrow>
          (map_option (\<lambda>e. value_view (cs_arena st) (en_value e)) (slot_entry st s),
           st\<lparr>cs_stats := (cs_stats st)\<lparr>st_hits := st_hits (cs_stats st) + 1\<rparr>\<rparr>))"

definition cache_exists :: "(bytes \<Rightarrow> u64) \<Rightarrow> bytes \<Rightarrow> u64 \<Rightarrow> CacheStore \<Rightarrow> bool \<times> CacheStore" where
  "cache_exists hf key now_ms st = (case live_slot_id hf key now_ms st of (r, st) \<Rightarrow> (r \<noteq> None, st))"

definition count_delete :: "bool \<times> CacheStore \<Rightarrow> bool \<times> CacheStore" where
  "count_delete = (\<lambda>(removed, st).
     (removed, if removed then st\<lparr>cs_stats := (cs_stats st)\<lparr>st_deletes := st_deletes (cs_stats st) + 1\<rparr>\<rparr> else st))"

definition cache_delete_at :: "(bytes \<Rightarrow> u64) \<Rightarrow> bytes \<Rightarrow> u64 \<Rightarrow> CacheStore \<Rightarrow> bool \<times> CacheStore" where
  "cache_delete_at hf key now_ms st =
     (case live_slot_id hf key now_ms st of
        (None, st) \<Rightarrow> (False, st)
      | (Some s, st) \<Rightarrow> count_delete (remove_slot s st))"

definition cache_delete :: "(bytes \<Rightarrow> u64) \<Rightarrow> bytes \<Rightarrow> CacheStore \<Rightarrow> bool \<times> CacheStore" where
  "cache_delete hf key st =
     (case find_slot key (hf key) st of
        None \<Rightarrow> (False, st)
      | Some s \<Rightarrow> count_delete (remove_slot s st))"

definition expire_ms :: "(bytes \<Rightarrow> u64) \<Rightarrow> bytes \<Rightarrow> u64 \<Rightarrow> u64 \<Rightarrow> CacheStore \<Rightarrow> bool \<times> CacheStore" where
  "expire_ms hf key ttl_ms now_ms st =
     (case live_slot_id hf key now_ms st of
        (None, st) \<Rightarrow> (False, st)
      | (Some s, st) \<Rightarrow>
          if ttl_ms = 0
          then (case remove_slot s st of (removed, st) \<Rightarrow> (removed, if removed then count_expiration st else st))
          else (case slot_entry st s of
                  None \<Rightarrow> (False, st)
                | Some e \<Rightarrow>
                    let expires = saturating_add now_ms ttl_ms;
                        g = next_generation (sl_generation (cs_slots st ! unat s))
                    in (True, schedule_expiry s g (Some expires) now_ms
                         (st\<lparr>cs_slots := (cs_slots st)[unat s := \<lparr>sl_generation = g,
                               sl_entry = Some (e\<lparr>en_expires_at_ms := Some expires\<rparr>)\<rparr>]\<rparr>))))"

definition cache_ttl :: "(bytes \<Rightarrow> u64) \<Rightarrow> bytes \<Rightarrow> u64 \<Rightarrow> CacheStore \<Rightarrow> CacheTtl \<times> CacheStore" where
  "cache_ttl hf key now_ms st =
     (case live_slot_id hf key now_ms st of
        (None, st) \<Rightarrow> (TtlMissing, st)
      | (Some s, st) \<Rightarrow>
          (case slot_entry st s of
             None \<Rightarrow> (TtlMissing, st)
           | Some e \<Rightarrow>
               (case en_expires_at_ms e of
                  Some deadline \<Rightarrow> TtlRemainingMs (saturating_sub deadline now_ms)
                | None \<Rightarrow> TtlPersistent, st)))"

text \<open>\<open>text.parse::<i64>()\<close>: an optional sign, then at least one decimal digit, in range.\<close>

definition digits_value :: "bytes \<Rightarrow> int option" where
  "digits_value ds =
     (if ds = [] \<or> \<not> list_all is_ascii_digit ds then None
      else Some (foldl (\<lambda>v d. v * 10 + uint (d - 0x30)) 0 ds))"

definition parse_i64 :: "bytes \<Rightarrow> int option" where
  "parse_i64 bs =
     (case bs of
        [] \<Rightarrow> None
      | b # rest \<Rightarrow>
          if b = 0x2D then Option.bind (digits_value rest) (\<lambda>v. checked_i64 (- v))
          else if b = 0x2B then Option.bind (digits_value rest) checked_i64
          else Option.bind (digits_value bs) checked_i64)"

text \<open>A value that is no valid UTF-8 is not an integer either, so both errors of the source are \<open>NotInteger\<close>.\<close>

definition increment :: "(bytes \<Rightarrow> u64) \<Rightarrow> bytes \<Rightarrow> int \<Rightarrow> u64 \<Rightarrow> CacheStore
    \<Rightarrow> ((CacheIncrementError + int) \<times> CacheStore) option" where
  "increment hf key delta now_ms st =
     (case live_slot_id hf key now_ms st of
        (None, st) \<Rightarrow> map_option (\<lambda>st. (Inr delta, st)) (set_integer hf key delta None now_ms st)
      | (Some s, st) \<Rightarrow>
          (case slot_entry st s of
             None \<Rightarrow> None
           | Some e \<Rightarrow>
               (case (case en_value e of ValInteger v \<Rightarrow> Some v | ValBytes p \<Rightarrow> parse_i64 (packed_slice (cs_arena st) p)) of
                  None \<Rightarrow> Some (Inl NotInteger, st)
                | Some base \<Rightarrow>
                    (case checked_i64 (base + delta) of
                       None \<Rightarrow> Some (Inl Overflow, st)
                     | Some n \<Rightarrow>
                         Some (Inr n, st\<lparr>cs_arena := value_release (en_value e) (cs_arena st),
                           cs_slots := (cs_slots st)[unat s := (cs_slots st ! unat s)\<lparr>sl_entry := Some (e\<lparr>en_value := ValInteger n\<rparr>)\<rparr>]\<rparr>)))))"

text \<open>One candidate of \<open>purge_expired\<close>: \<open>expired\<close> counts the entries removed so far.\<close>

definition purge_item :: "u64 \<Rightarrow> nat \<Rightarrow> ExpirationRef \<Rightarrow> nat \<times> CacheStore \<Rightarrow> nat \<times> CacheStore" where
  "purge_item now_ms max_items item = (\<lambda>(expired, st).
     if expired \<ge> max_items then (expired, st\<lparr>cs_expiry := wheel_schedule item now_ms (cs_expiry st)\<rparr>)
     else case nth_opt (cs_slots st) (unat (er_slot item)) of
       None \<Rightarrow> (expired, st)
     | Some sl \<Rightarrow>
         if sl_generation sl \<noteq> er_generation item then (expired, st)
         else case sl_entry sl of
           None \<Rightarrow> (expired, st)
         | Some e \<Rightarrow>
             if en_expires_at_ms e \<noteq> Some (er_expires_at_ms item) then (expired, st)
             else if er_expires_at_ms item > now_ms
             then (expired, st\<lparr>cs_expiry := wheel_schedule item now_ms (cs_expiry st)\<rparr>)
             else case remove_slot (er_slot item) st of
                    (removed, st) \<Rightarrow> if removed then (Suc expired, count_expiration st) else (expired, st))"

definition purge_expired :: "u64 \<Rightarrow> nat \<Rightarrow> CacheStore \<Rightarrow> nat \<times> CacheStore" where
  "purge_expired now_ms max_items st =
     (let (candidates, wheel) = drain_candidates now_ms (cs_expiry st)
      in fold (purge_item now_ms max_items) candidates (0, st\<lparr>cs_expiry := wheel\<rparr>))"

definition cache_len :: "CacheStore \<Rightarrow> nat" where
  "cache_len st = cs_index_len st"

record CacheMemoryStats =
  ms_entries :: nat
  ms_index_capacity :: nat
  ms_arena_reserved_bytes :: nat
  ms_reusable_slots :: nat

definition memory_stats :: "CacheStore \<Rightarrow> CacheMemoryStats" where
  "memory_stats st = \<lparr>ms_entries = cs_index_len st, ms_index_capacity = length (cs_index st),
     ms_arena_reserved_bytes = reserved_bytes (cs_arena st), ms_reusable_slots = length (cs_free_slots st)\<rparr>"

subsection \<open>Key slots\<close>

definition REDIS_CLUSTER_SLOTS :: u16 where "REDIS_CLUSTER_SLOTS = 16384"

fun crc_bits :: "nat \<Rightarrow> u16 \<Rightarrow> u16" where
  "crc_bits 0 crc = crc"
| "crc_bits (Suc n) crc =
     crc_bits n (if crc AND 0x8000 \<noteq> 0 then push_bit 1 crc XOR 0x1021 else push_bit 1 crc)"

definition crc16_xmodem :: "bytes \<Rightarrow> u16" where
  "crc16_xmodem bs = foldl (\<lambda>crc b. crc_bits 8 (crc XOR push_bit 8 (ucast b))) 0 bs"

definition redis_hash_tag :: "bytes \<Rightarrow> bytes option" where
  "redis_hash_tag key =
     (case position (\<lambda>b. b = 0x7B) key of
        None \<Rightarrow> None
      | Some i \<Rightarrow>
          let rest = drop (i + 1) key in
          (case position (\<lambda>b. b = 0x7D) rest of
             None \<Rightarrow> None
           | Some close \<Rightarrow> if close = 0 then None else Some (take close rest)))"

definition redis_slot :: "bytes \<Rightarrow> u16" where
  "redis_slot key =
     crc16_xmodem (case redis_hash_tag key of None \<Rightarrow> key | Some t \<Rightarrow> t) AND (REDIS_CLUSTER_SLOTS - 1)"

text \<open>The assertion on \<open>shard_count\<close> is the result \<open>None\<close>.\<close>

definition default_physical_shard :: "u16 \<Rightarrow> nat \<Rightarrow> nat option" where
  "default_physical_shard slot shard_count = (if shard_count > 0 then Some (unat slot mod shard_count) else None)"

end
