(* ===== verification/Cache_Refinement.thy ===== *)
theory Cache_Refinement
  imports Cache_Store
begin

text \<open>
  The cache of \<open>Cache_Store\<close> refines a finite map from keys to values with an optional deadline. The invariant
  ties the index, the slots, the free list and the arena together; the abstraction reads the entries through
  the arena. Every operation does on the map what its name says, with entries past their deadline removed when
  they are touched.
\<close>

subsection \<open>Sums over slots\<close>

lemma sum_at_remove:
  fixes F :: "nat \<Rightarrow> 'b::comm_monoid_add"
  shows "i < n \<Longrightarrow> (\<Sum>k < n. F k) = F i + (\<Sum>k \<in> {..<n} - {i}. F k)"
  by (rule sum.remove) auto

fun value_handles :: "CacheValue \<Rightarrow> PackedBytes multiset" where
  "value_handles (ValInteger _) = {#}"
| "value_handles (ValBytes p) = {#p#}"

definition handles :: "Entry \<Rightarrow> PackedBytes multiset" where
  "handles e = add_mset (en_key e) (value_handles (en_value e))"

definition slot_handles :: "EntrySlot \<Rightarrow> PackedBytes multiset" where
  "slot_handles sl = (case sl_entry sl of None \<Rightarrow> {#} | Some e \<Rightarrow> handles e)"

definition total_handles :: "EntrySlot list \<Rightarrow> PackedBytes multiset" where
  "total_handles slots = (\<Sum>i < length slots. slot_handles (slots ! i))"

definition other_handles :: "EntrySlot list \<Rightarrow> nat \<Rightarrow> PackedBytes multiset" where
  "other_handles slots i = (\<Sum>k \<in> {..<length slots} - {i}. slot_handles (slots ! k))"

definition slot_pair :: "nat \<Rightarrow> EntrySlot \<Rightarrow> (u64 \<times> u32) multiset" where
  "slot_pair i sl = (case sl_entry sl of None \<Rightarrow> {#} | Some e \<Rightarrow> {#(en_hash e, of_nat i)#})"

definition slot_pairs :: "EntrySlot list \<Rightarrow> (u64 \<times> u32) multiset" where
  "slot_pairs slots = (\<Sum>i < length slots. slot_pair i (slots ! i))"

text \<open>Two slot lists that differ in slot \<open>i\<close> only, which may be new in the second.\<close>

definition agree :: "nat \<Rightarrow> EntrySlot list \<Rightarrow> EntrySlot list \<Rightarrow> bool" where
  "agree i slots slots' \<longleftrightarrow> i < length slots'
     \<and> (\<forall>k. k \<noteq> i \<longrightarrow> (k < length slots' \<longleftrightarrow> k < length slots) \<and> (k < length slots \<longrightarrow> slots' ! k = slots ! k))"

lemma agree_update: "i < length slots \<Longrightarrow> agree i slots (slots[i := sl])"
  by (simp add: agree_def)

lemma agree_snoc: "agree (length slots) slots (slots @ [sl])"
  by (auto simp: agree_def nth_append)

lemma agree_sum:
  assumes "agree i slots slots'"
  shows "(\<Sum>k \<in> {..<length slots'} - {i}. F k (slots' ! k)) = (\<Sum>k \<in> {..<length slots} - {i}. F k (slots ! k))"
proof (rule sum.cong)
  show "{..<length slots'} - {i} = {..<length slots} - {i}"
    by (rule set_eqI) (use assms in \<open>simp add: agree_def, blast\<close>)
  show "F k (slots' ! k) = F k (slots ! k)" if "k \<in> {..<length slots} - {i}" for k
    using assms that by (simp add: agree_def)
qed

lemma agree_other: "agree i slots slots' \<Longrightarrow> other_handles slots' i = other_handles slots i"
  unfolding other_handles_def by (rule agree_sum)

lemma total_other: "i < length slots \<Longrightarrow> total_handles slots = slot_handles (slots ! i) + other_handles slots i"
  unfolding total_handles_def other_handles_def by (rule sum_at_remove)

lemma other_beyond: "length slots \<le> i \<Longrightarrow> other_handles slots i = total_handles slots"
  unfolding total_handles_def other_handles_def by (rule sum.cong) auto

lemma slot_pairs_agree:
  assumes "agree i slots slots'"
  shows "slot_pairs slots' + (if i < length slots then slot_pair i (slots ! i) else {#}) = slot_pairs slots + slot_pair i (slots' ! i)"
proof -
  let ?R = "\<Sum>k \<in> {..<length slots} - {i}. slot_pair k (slots ! k)"
  have "(\<Sum>k \<in> {..<length slots'} - {i}. slot_pair k (slots' ! k)) = ?R" by (rule agree_sum [OF assms])
  then have "slot_pairs slots' = slot_pair i (slots' ! i) + ?R"
    using assms sum_at_remove [of i "length slots'" "\<lambda>k. slot_pair k (slots' ! k)"] by (simp add: slot_pairs_def agree_def)
  moreover have "slot_pairs slots = (if i < length slots then slot_pair i (slots ! i) else {#}) + ?R"
  proof (cases "i < length slots")
    case True
    then show ?thesis using sum_at_remove [of i "length slots" "\<lambda>k. slot_pair k (slots ! k)"] by (simp add: slot_pairs_def)
  next
    case False
    then have "{..<length slots} - {i} = {..<length slots}" by auto
    with False show ?thesis by (simp add: slot_pairs_def)
  qed
  ultimately show ?thesis by (simp add: ac_simps)
qed

definition entry_at :: "EntrySlot list \<Rightarrow> nat \<Rightarrow> Entry \<Rightarrow> bool" where
  "entry_at slots i e \<longleftrightarrow> i < length slots \<and> sl_entry (slots ! i) = Some e"

lemma in_slot_pairs: "(h, s) \<in># slot_pairs slots \<longleftrightarrow> (\<exists>i e. entry_at slots i e \<and> en_hash e = h \<and> s = of_nat i)"
  by (auto simp: slot_pairs_def set_mset_sum slot_pair_def entry_at_def split: option.splits)

lemma handles_other:
  assumes "entry_at slots j f" "j \<noteq> i" "p \<in># handles f"
  shows "p \<in># other_handles slots i"
  using assms by (auto simp: other_handles_def set_mset_sum slot_handles_def entry_at_def intro!: bexI [of _ j])

subsection \<open>The entries as a map\<close>

definition entry_view :: "ByteArena \<Rightarrow> Entry \<Rightarrow> bytes \<times> CacheValueView \<times> u64 option" where
  "entry_view a e = (packed_slice a (en_key e), value_view a (en_value e), en_expires_at_ms e)"

type_synonym cache_map = "bytes \<Rightarrow> (CacheValueView \<times> u64 option) option"

definition data_abs :: "ByteArena \<Rightarrow> EntrySlot list \<Rightarrow> cache_map" where
  "data_abs a slots = map_of (List.map_filter (\<lambda>sl. map_option (entry_view a) (sl_entry sl)) slots)"

abbreviation key_of :: "ByteArena \<Rightarrow> Entry \<Rightarrow> bytes" where
  "key_of a e \<equiv> packed_slice a (en_key e)"

definition keys_unique :: "ByteArena \<Rightarrow> EntrySlot list \<Rightarrow> bool" where
  "keys_unique a slots \<longleftrightarrow>
     (\<forall>i j e f. entry_at slots i e \<and> entry_at slots j f \<and> key_of a e = key_of a f \<longrightarrow> i = j)"

definition data_ok :: "(bytes \<Rightarrow> u64) \<Rightarrow> ByteArena \<Rightarrow> EntrySlot list \<Rightarrow> bool" where
  "data_ok hf a slots \<longleftrightarrow> (\<forall>i e. entry_at slots i e \<longrightarrow> en_hash e = hf (key_of a e))
     \<and> keys_unique a slots \<and> packed_inv a (total_handles slots)"

lemma data_abs_iff:
  assumes "keys_unique a slots"
  shows "data_abs a slots k = Some w \<longleftrightarrow> (\<exists>i e. entry_at slots i e \<and> entry_view a e = (k, w))"
proof -
  let ?xs = "List.map_filter (\<lambda>sl. map_option (entry_view a) (sl_entry sl)) slots"
  have mem: "(k, v) \<in> set ?xs \<longleftrightarrow> (\<exists>i e. entry_at slots i e \<and> entry_view a e = (k, v))" for v
    by (fastforce simp: map_filter_def entry_at_def in_set_conv_nth image_iff)
  have uniq: "v = v'" if "(k, v) \<in> set ?xs" "(k, v') \<in> set ?xs" for v v'
  proof -
    obtain i e j f where *: "entry_at slots i e" "entry_view a e = (k, v)" "entry_at slots j f" "entry_view a f = (k, v')"
      using \<open>(k, v) \<in> set ?xs\<close> \<open>(k, v') \<in> set ?xs\<close> unfolding mem by blast
    have "i = j" using assms * unfolding keys_unique_def entry_view_def by (metis prod.inject)
    with * show ?thesis by (simp add: entry_at_def)
  qed
  have "map_of ?xs k = Some w \<longleftrightarrow> (k, w) \<in> set ?xs"
  proof
    assume "(k, w) \<in> set ?xs"
    then obtain v where "map_of ?xs k = Some v" by (meson weak_map_of_SomeI)
    with uniq \<open>(k, w) \<in> set ?xs\<close> show "map_of ?xs k = Some w" by (metis map_of_SomeD)
  qed (rule map_of_SomeD)
  then show ?thesis unfolding data_abs_def mem .
qed

lemma data_ok_entry:
  assumes "data_ok hf a slots" "entry_at slots i e"
  shows "en_hash e = hf (key_of a e)"
    and "data_abs a slots (key_of a e) = Some (value_view a (en_value e), en_expires_at_ms e)"
proof -
  show "en_hash e = hf (key_of a e)" using assms by (simp add: data_ok_def)
  have "keys_unique a slots" using assms(1) by (simp add: data_ok_def)
  from data_abs_iff [OF this] assms(2)
  show "data_abs a slots (key_of a e) = Some (value_view a (en_value e), en_expires_at_ms e)"
    by (auto simp: entry_view_def)
qed

definition old_entry :: "EntrySlot list \<Rightarrow> nat \<Rightarrow> Entry option" where
  "old_entry slots i = (if i < length slots then sl_entry (slots ! i) else None)"

definition drop_entry :: "ByteArena \<Rightarrow> Entry option \<Rightarrow> cache_map \<Rightarrow> cache_map" where
  "drop_entry a o' m = (case o' of None \<Rightarrow> m | Some e \<Rightarrow> m(key_of a e := None))"

definition put_entry :: "ByteArena \<Rightarrow> Entry option \<Rightarrow> cache_map \<Rightarrow> cache_map" where
  "put_entry a o' m = (case o' of None \<Rightarrow> m | Some e \<Rightarrow> m(key_of a e \<mapsto> (value_view a (en_value e), en_expires_at_ms e)))"

lemma entry_view_frame:
  assumes "\<forall>p \<in># handles e. packed_slice a' p = packed_slice a p"
  shows "entry_view a' e = entry_view a e"
  using assms by (cases "en_value e") (simp_all add: entry_view_def handles_def)

text \<open>What changing one slot does, when the arena still reads the handles of all other slots the same.\<close>

lemma data_change:
  assumes ok: "data_ok hf a slots" and ag: "agree i slots slots'"
    and inv: "packed_inv a' (slot_handles (slots' ! i) + other_handles slots i)"
    and frame: "\<forall>p \<in># other_handles slots i. packed_slice a' p = packed_slice a p"
    and new: "\<And>e. sl_entry (slots' ! i) = Some e \<Longrightarrow> en_hash e = hf (key_of a' e)"
    and fresh: "\<And>e j f. \<lbrakk>sl_entry (slots' ! i) = Some e; entry_at slots j f; j \<noteq> i\<rbrakk> \<Longrightarrow> key_of a f \<noteq> key_of a' e"
  shows "data_ok hf a' slots'"
    and "data_abs a' slots' = put_entry a' (sl_entry (slots' ! i)) (drop_entry a (old_entry slots i) (data_abs a slots))"
proof -
  have i: "i < length slots'" using ag by (simp add: agree_def)
  have at: "entry_at slots' j f \<longleftrightarrow> entry_at slots j f" if "j \<noteq> i" for j f
    using ag that by (auto simp: agree_def entry_at_def)
  have at_i: "entry_at slots' i f \<longleftrightarrow> sl_entry (slots' ! i) = Some f" for f using i by (simp add: entry_at_def)
  have view: "entry_view a' f = entry_view a f" if "entry_at slots j f" "j \<noteq> i" for j f
    by (rule entry_view_frame) (use handles_other [OF that] frame in blast)
  then have key: "key_of a' f = key_of a f" if "entry_at slots j f" "j \<noteq> i" for j f
    using view [OF that] by (simp add: entry_view_def)
  have ku: "keys_unique a slots" and hs: "\<And>j f. entry_at slots j f \<Longrightarrow> en_hash f = hf (key_of a f)"
    using ok by (simp_all add: data_ok_def)
  have ku': "keys_unique a' slots'"
    unfolding keys_unique_def
  proof (intro allI impI)
    fix j k e f
    assume *: "entry_at slots' j e \<and> entry_at slots' k f \<and> key_of a' e = key_of a' f"
    show "j = k"
    proof (cases "j = i"; cases "k = i")
      assume "j = i" "k \<noteq> i"
      then show ?thesis using * at at_i fresh key by metis
    next
      assume "j \<noteq> i" "k = i"
      then show ?thesis using * at at_i fresh key by metis
    next
      assume "j \<noteq> i" "k \<noteq> i"
      then show ?thesis using * at key ku unfolding keys_unique_def by metis
    qed simp
  qed
  have "en_hash f = hf (key_of a' f)" if "entry_at slots' j f" for j f
    using that at at_i new hs key by (cases "j = i") simp_all
  moreover have "total_handles slots' = slot_handles (slots' ! i) + other_handles slots i"
    using total_other [OF i] agree_other [OF ag] by simp
  ultimately show "data_ok hf a' slots'" using ku' inv by (simp add: data_ok_def)
  show "data_abs a' slots' = put_entry a' (sl_entry (slots' ! i)) (drop_entry a (old_entry slots i) (data_abs a slots))"
  proof
    fix k
    have old: "drop_entry a (old_entry slots i) (data_abs a slots) k = Some w
        \<longleftrightarrow> (\<exists>j f. j \<noteq> i \<and> entry_at slots j f \<and> entry_view a f = (k, w))" for w
    proof (cases "\<exists>e. entry_at slots i e \<and> key_of a e = k")
      case True
      then obtain e where e: "entry_at slots i e" "key_of a e = k" by blast
      then have "\<not> (j \<noteq> i \<and> entry_at slots j f \<and> entry_view a f = (k, w))" for j f
        using ku by (auto simp: keys_unique_def entry_view_def)
      with e show ?thesis by (auto simp: drop_entry_def old_entry_def entry_at_def)
    next
      case False
      then have eq: "drop_entry a (old_entry slots i) (data_abs a slots) k = data_abs a slots k"
        by (auto simp: drop_entry_def old_entry_def entry_at_def split: option.splits)
      have "j \<noteq> i" if "entry_at slots j f" "entry_view a f = (k, w)" for j f
        using that False by (auto simp: entry_view_def)
      then show ?thesis unfolding eq data_abs_iff [OF ku] by blast
    qed
    have lhs: "data_abs a' slots' k = Some w \<longleftrightarrow> (\<exists>e. sl_entry (slots' ! i) = Some e \<and> entry_view a' e = (k, w))
        \<or> (\<exists>j f. j \<noteq> i \<and> entry_at slots j f \<and> entry_view a f = (k, w))" for w
    proof -
      have "(\<exists>j f. entry_at slots' j f \<and> entry_view a' f = (k, w)) \<longleftrightarrow> (\<exists>f. entry_at slots' i f \<and> entry_view a' f = (k, w))
          \<or> (\<exists>j f. j \<noteq> i \<and> entry_at slots' j f \<and> entry_view a' f = (k, w))"
        by (safe; metis)
      moreover have "(\<exists>j f. j \<noteq> i \<and> entry_at slots' j f \<and> entry_view a' f = (k, w))
          \<longleftrightarrow> (\<exists>j f. j \<noteq> i \<and> entry_at slots j f \<and> entry_view a f = (k, w))"
        by (intro ex_cong1 conj_cong refl) (use at view in simp_all)
      ultimately show ?thesis unfolding data_abs_iff [OF ku'] by (simp add: at_i)
    qed
    have "data_abs a' slots' k = Some w \<longleftrightarrow> put_entry a' (sl_entry (slots' ! i)) (drop_entry a (old_entry slots i) (data_abs a slots)) k = Some w" for w
    proof (cases "\<exists>e. sl_entry (slots' ! i) = Some e \<and> key_of a' e = k")
      case True
      then obtain e where e: "sl_entry (slots' ! i) = Some e" "key_of a' e = k" by blast
      then have "\<not> (j \<noteq> i \<and> entry_at slots j f \<and> entry_view a f = (k, w))" for j f
        using fresh [OF e(1), of j f] by (auto simp: entry_view_def)
      with e show ?thesis unfolding lhs by (auto simp: put_entry_def entry_view_def)
    next
      case False
      then have "put_entry a' (sl_entry (slots' ! i)) m k = m k" for m
        by (auto simp: put_entry_def split: option.splits)
      with False show ?thesis unfolding lhs by (auto simp: old entry_view_def)
    qed
    then show "data_abs a' slots' k = put_entry a' (sl_entry (slots' ! i)) (drop_entry a (old_entry slots i) (data_abs a slots)) k"
      by (metis not_Some_eq)
  qed
qed

lemma packed_release_bytes [simp]: "ba_bytes (packed_release p a) = ba_bytes a"
  by (cases p) (simp_all add: arena_release_def Let_def)

lemma value_release_bytes [simp]: "ba_bytes (value_release v a) = ba_bytes a"
  by (cases v) simp_all

lemma value_release_ok:
  assumes "packed_inv a (value_handles v + L)"
  shows "packed_inv (value_release v a) L \<and> (\<forall>p \<in># L. packed_slice (value_release v a) p = packed_slice a p)"
  using assms packed.free_inv packed.free_frame by (cases v) auto

lemma handles_release_ok:
  assumes "packed_inv a (handles e + L)"
  shows "packed_inv (value_release (en_value e) (packed_release (en_key e) a)) L
    \<and> (\<forall>p \<in># L. packed_slice (value_release (en_value e) (packed_release (en_key e) a)) p = packed_slice a p)"
proof -
  let ?V = "value_handles (en_value e) + L"
  have k: "packed_inv a (add_mset (en_key e) ?V)" using assms by (simp add: handles_def)
  note v = value_release_ok [OF packed.free_inv [OF k]]
  have "packed_slice (value_release (en_value e) (packed_release (en_key e) a)) p = packed_slice a p" if "p \<in># L" for p
    using v packed.free_frame [OF k, of p] that by simp
  with v show ?thesis by blast
qed

subsection \<open>The invariant of the store\<close>

definition index_inv :: "CacheStore \<Rightarrow> bool" where
  "index_inv st \<longleftrightarrow> idx_inv (cs_index st) \<and> cs_tombstones st = tombs (cs_index st)
     \<and> cs_index_len st = size (pairs (cs_index st)) \<and> DEFAULT_INDEX_CAPACITY \<le> length (cs_index st)
     \<and> 10 * (cs_index_len st + cs_tombstones st) < 7 * length (cs_index st)"

definition free_ok :: "u32 list \<Rightarrow> EntrySlot list \<Rightarrow> bool" where
  "free_ok fl slots \<longleftrightarrow> distinct fl \<and> (\<forall>s \<in> set fl. unat s < length slots \<and> sl_entry (slots ! unat s) = None)"

definition cache_inv :: "(bytes \<Rightarrow> u64) \<Rightarrow> CacheStore \<Rightarrow> bool" where
  "cache_inv hf st \<longleftrightarrow> index_inv st \<and> data_ok hf (cs_arena st) (cs_slots st)
     \<and> pairs (cs_index st) = slot_pairs (cs_slots st) \<and> length (cs_slots st) \<le> 2 ^ 32 - 2
     \<and> free_ok (cs_free_slots st) (cs_slots st)"

definition cache_abs :: "CacheStore \<Rightarrow> cache_map" where
  "cache_abs st = data_abs (cs_arena st) (cs_slots st)"

lemma cache_inv_new: "cache_inv hf CacheStore_new"
proof -
  have "covers p {#} = 0" for p by (simp add: covers_def)
  moreover have "free_blocks (replicate n []) = {#}" for n by (simp add: free_blocks_def)
  ultimately have "packed_inv ByteArena_new {#}"
    by (simp add: packed_inv_def arena_inv_def ByteArena_new_def)
  moreover have "idx_inv (replicate DEFAULT_INDEX_CAPACITY BUCKET_EMPTY)"
    by (rule empty_index) (auto simp: DEFAULT_INDEX_CAPACITY_def intro: exI [of _ 6])
  ultimately show ?thesis
    by (simp add: cache_inv_def CacheStore_new_def index_inv_def data_ok_def entry_at_def keys_unique_def
        total_handles_def slot_pairs_def free_ok_def empty_index DEFAULT_INDEX_CAPACITY_def)
qed

lemma cache_abs_new: "cache_abs CacheStore_new = Map.empty"
  by (simp add: cache_abs_def CacheStore_new_def data_abs_def map_filter_def)

lemma unat_of_slot: "i < 2 ^ 32 \<Longrightarrow> unat (of_nat i :: u32) = i"
  by (simp add: unat_of_nat take_bit_nat_eq_self)

lemma slot_entry_at: "slot_entry st s = Some e \<longleftrightarrow> entry_at (cs_slots st) (unat s) e"
  by (simp add: slot_entry_def nth_opt_def entry_at_def)

lemma find_slot_iff:
  assumes "cache_inv hf st"
  shows "find_slot key (hf key) st = Some s
    \<longleftrightarrow> (\<exists>e. entry_at (cs_slots st) (unat s) e \<and> key_of (cs_arena st) e = key)"
proof -
  let ?K = "\<lambda>s. case slot_entry st s of None \<Rightarrow> False | Some e \<Rightarrow> packed_slice (cs_arena st) (en_key e) = key"
  have K: "?K s \<longleftrightarrow> (\<exists>e. entry_at (cs_slots st) (unat s) e \<and> key_of (cs_arena st) e = key)" for s
    unfolding slot_entry_at [symmetric] by (cases "slot_entry st s") simp_all
  have idx: "idx_inv (cs_index st)" using assms by (simp add: cache_inv_def index_inv_def)
  have ku: "keys_unique (cs_arena st) (cs_slots st)" using assms by (simp add: cache_inv_def data_ok_def)
  have uniq: "s = s'" if "?K s" "?K s'" for s s'
  proof -
    from that obtain e f where "entry_at (cs_slots st) (unat s) e" "entry_at (cs_slots st) (unat s') f"
      "key_of (cs_arena st) e = key_of (cs_arena st) f" unfolding K by auto
    with ku have "unat s = unat s'" unfolding keys_unique_def by blast
    then show ?thesis by (rule unsigned_word_eqI)
  qed
  have pair: "(hf key, s) \<in># pairs (cs_index st)" if at: "?K s"
  proof -
    obtain e where e: "entry_at (cs_slots st) (unat s) e" "key_of (cs_arena st) e = key"
      using at unfolding K by blast
    moreover have "en_hash e = hf (key_of (cs_arena st) e)"
      using data_ok_entry(1) e(1) assms unfolding cache_inv_def by blast
    ultimately have "(hf key, of_nat (unat s)) \<in># slot_pairs (cs_slots st)"
      unfolding in_slot_pairs by (intro exI [of _ "unat s"] exI [of _ e]) simp
    then have "(hf key, s) \<in># slot_pairs (cs_slots st)" by simp
    then show ?thesis using assms by (simp add: cache_inv_def)
  qed
  have "find_in_index (cs_index st) (hf key) ?K = Some s \<longleftrightarrow> (hf key, s) \<in># pairs (cs_index st) \<and> ?K s"
    by (rule probing.lookup_unique [OF idx]) (rule uniq)
  then have "find_slot key (hf key) st = Some s \<longleftrightarrow> ?K s" unfolding find_slot_def using pair by argo
  then show ?thesis unfolding K .
qed

lemma find_slot_None:
  assumes "cache_inv hf st"
  shows "find_slot key (hf key) st = None \<longleftrightarrow> cache_abs st key = None"
proof -
  have ku: "keys_unique (cs_arena st) (cs_slots st)" and len: "length (cs_slots st) < 2 ^ 32"
    using assms by (simp_all add: cache_inv_def data_ok_def)
  have at: "find_slot key (hf key) st \<noteq> None \<longleftrightarrow> (\<exists>i e. entry_at (cs_slots st) i e \<and> key_of (cs_arena st) e = key)"
  proof
    assume "find_slot key (hf key) st \<noteq> None"
    then show "\<exists>i e. entry_at (cs_slots st) i e \<and> key_of (cs_arena st) e = key" using find_slot_iff [OF assms] by blast
  next
    assume "\<exists>i e. entry_at (cs_slots st) i e \<and> key_of (cs_arena st) e = key"
    then obtain i e where e: "entry_at (cs_slots st) i e" "key_of (cs_arena st) e = key" by blast
    then have "unat (of_nat i :: u32) = i" using len by (intro unat_of_slot) (simp add: entry_at_def)
    with e have "find_slot key (hf key) st = Some (of_nat i)" unfolding find_slot_iff [OF assms] by auto
    then show "find_slot key (hf key) st \<noteq> None" by simp
  qed
  have "cache_abs st key \<noteq> None \<longleftrightarrow> (\<exists>i e. entry_at (cs_slots st) i e \<and> key_of (cs_arena st) e = key)"
    unfolding cache_abs_def not_None_eq data_abs_iff [OF ku] by (auto simp: entry_view_def)
  with at show ?thesis by blast
qed

lemma cache_change:
  assumes inv: "cache_inv hf st" and ag: "agree i (cs_slots st) (cs_slots st')"
    and "packed_inv (cs_arena st') (slot_handles (cs_slots st' ! i) + other_handles (cs_slots st) i)"
    and "\<forall>p \<in># other_handles (cs_slots st) i. packed_slice (cs_arena st') p = packed_slice (cs_arena st) p"
    and "\<And>e. sl_entry (cs_slots st' ! i) = Some e \<Longrightarrow> en_hash e = hf (key_of (cs_arena st') e)"
    and "\<And>e j f. \<lbrakk>sl_entry (cs_slots st' ! i) = Some e; entry_at (cs_slots st) j f; j \<noteq> i\<rbrakk>
      \<Longrightarrow> key_of (cs_arena st) f \<noteq> key_of (cs_arena st') e"
    and idx: "index_inv st'" and prs: "pairs (cs_index st') + (if i < length (cs_slots st) then slot_pair i (cs_slots st ! i) else {#})
      = pairs (cs_index st) + slot_pair i (cs_slots st' ! i)"
    and len: "length (cs_slots st') \<le> 2 ^ 32 - 2" and free: "free_ok (cs_free_slots st') (cs_slots st')"
  shows "cache_inv hf st' \<and> cache_abs st' = put_entry (cs_arena st') (sl_entry (cs_slots st' ! i))
    (drop_entry (cs_arena st) (old_entry (cs_slots st) i) (cache_abs st))"
proof -
  have ok: "data_ok hf (cs_arena st) (cs_slots st)" using inv by (simp add: cache_inv_def)
  note dc = data_change [OF ok ag assms(3-6)]
  have "pairs (cs_index st') = slot_pairs (cs_slots st')"
    using slot_pairs_agree [OF ag] prs inv unfolding cache_inv_def by (metis add_right_cancel)
  then have "cache_inv hf st'" using dc(1) idx len free by (simp add: cache_inv_def)
  then show ?thesis using dc(2) by (simp add: cache_abs_def)
qed

lemma remove_slot_ok:
  assumes inv: "cache_inv hf st" and e: "entry_at (cs_slots st) (unat s) e"
  obtains st' where "remove_slot s st = (True, st')" "cache_inv hf st'"
    "cache_abs st' = (cache_abs st)(key_of (cs_arena st) e := None)"
    "cs_slots st' = (cs_slots st)[unat s := (cs_slots st ! unat s)\<lparr>sl_entry := None\<rparr>]"
    "cs_expiry st' = cs_expiry st" "ba_bytes (cs_arena st') = ba_bytes (cs_arena st)"
    "cs_index_len st = Suc (cs_index_len st')"
proof -
  let ?i = "unat s" and ?sl = "(cs_slots st ! unat s)\<lparr>sl_entry := None\<rparr>"
  let ?a = "value_release (en_value e) (packed_release (en_key e) (cs_arena st))"
  have i: "?i < length (cs_slots st)" and ei: "sl_entry (cs_slots st ! ?i) = Some e" using e by (simp_all add: entry_at_def)
  have ix: "idx_inv (cs_index st)" "pairs (cs_index st) = slot_pairs (cs_slots st)" "cs_tombstones st = tombs (cs_index st)"
    using inv by (simp_all add: cache_inv_def index_inv_def)
  have "(en_hash e, of_nat ?i) \<in># pairs (cs_index st)" unfolding ix(2) in_slot_pairs using e by blast
  then have mem: "(en_hash e, s) \<in># pairs (cs_index st)" by simp
  obtain index' where r: "remove_bucket (en_hash e) s (cs_index st, cs_index_len st, tombs (cs_index st))
        = (index', cs_index_len st - 1, tombs index')"
    and r': "idx_inv index'" "pairs index' = pairs (cs_index st) - {#(en_hash e, s)#}"
      "length index' = length (cs_index st)" "tombs index' = Suc (tombs (cs_index st))"
    by (rule remove_bucket_ok [OF ix(1) mem])
  define st' where "st' = st\<lparr>cs_slots := (cs_slots st)[?i := ?sl], cs_index := index', cs_index_len := cs_index_len st - 1,
    cs_tombstones := tombs index', cs_arena := ?a, cs_free_slots := cs_free_slots st @ [s]\<rparr>"
  have st: "remove_slot s st = (True, st')"
    using i ei r by (simp add: remove_slot_def nth_opt_def st'_def ix(3))
  have new: "sl_entry (cs_slots st' ! ?i) = None" using i by (simp add: st'_def)
  have "packed_inv (cs_arena st) (handles e + other_handles (cs_slots st) ?i)"
    using inv total_other [OF i] ei by (simp add: cache_inv_def data_ok_def slot_handles_def)
  note rel = handles_release_ok [OF this]
  have sz: "0 < size (pairs (cs_index st))" using mem by (metis nonempty_has_size empty_not_add_mset multi_member_split)
  have "index_inv st'"
    using inv r' sz mem by (auto simp: cache_inv_def index_inv_def st'_def size_Diff_singleton)
  moreover have "pairs (cs_index st') + (if ?i < length (cs_slots st) then slot_pair ?i (cs_slots st ! ?i) else {#})
      = pairs (cs_index st) + slot_pair ?i (cs_slots st' ! ?i)"
    using i ei mem r' by (simp add: st'_def slot_pair_def)
  moreover have "free_ok (cs_free_slots st') (cs_slots st')"
    using inv i ei by (auto simp: cache_inv_def free_ok_def st'_def nth_list_update)
  ultimately have "cache_inv hf st' \<and> cache_abs st' = put_entry (cs_arena st') (sl_entry (cs_slots st' ! ?i))
      (drop_entry (cs_arena st) (old_entry (cs_slots st) ?i) (cache_abs st))"
    using rel new i inv
    by (intro cache_change [OF inv]) (simp_all add: st'_def agree_update slot_handles_def cache_inv_def)
  then have ok: "cache_inv hf st'" "cache_abs st' = (cache_abs st)(key_of (cs_arena st) e := None)"
    using new i ei by (simp_all add: put_entry_def drop_entry_def old_entry_def)
  have "0 < cs_index_len st" using inv sz by (simp add: cache_inv_def index_inv_def)
  then show thesis by (intro that [OF st ok]) (simp_all add: st'_def)
qed

lemma cache_ignores [simp]:
  "cache_inv hf (st\<lparr>cs_stats := x\<rparr>) = cache_inv hf st" "cache_abs (st\<lparr>cs_stats := x\<rparr>) = cache_abs st"
  "cache_inv hf (st\<lparr>cs_expiry := w\<rparr>) = cache_inv hf st" "cache_abs (st\<lparr>cs_expiry := w\<rparr>) = cache_abs st"
  by (simp_all add: cache_inv_def index_inv_def cache_abs_def)

lemma counters_ignored [simp]:
  "cache_inv hf (count_expiration st) = cache_inv hf st" "cache_abs (count_expiration st) = cache_abs st"
  "cache_inv hf (count_set st) = cache_inv hf st" "cache_abs (count_set st) = cache_abs st"
  "cache_inv hf (schedule_expiry s g x now st) = cache_inv hf st" "cache_abs (schedule_expiry s g x now st) = cache_abs st"
  by (simp_all add: count_expiration_def count_set_def schedule_expiry_def split: option.split)

lemma entry_abs:
  assumes "cache_inv hf st" "entry_at (cs_slots st) i e"
  shows "cache_abs st (key_of (cs_arena st) e) = Some (value_view (cs_arena st) (en_value e), en_expires_at_ms e)"
  using assms data_ok_entry(2) unfolding cache_inv_def cache_abs_def by blast

lemma same_key_slot:
  assumes "cache_inv hf st" "entry_at (cs_slots st) i e" "entry_at (cs_slots st) j f"
    "key_of (cs_arena st) e = key_of (cs_arena st) f"
  shows "i = j"
  using assms unfolding cache_inv_def data_ok_def keys_unique_def by blast

text \<open>Replacing the entry of a slot by one with the same key.\<close>

lemma replace_entry_ok:
  assumes inv: "cache_inv hf st" and e: "entry_at (cs_slots st) i e"
    and e': "en_key e' = en_key e" "en_hash e' = en_hash e" "sl_entry sl' = Some e'"
    and a': "packed_inv (cs_arena st') (handles e' + other_handles (cs_slots st) i)"
    and key: "key_of (cs_arena st') e = key_of (cs_arena st) e"
    and fr: "\<forall>p \<in># other_handles (cs_slots st) i. packed_slice (cs_arena st') p = packed_slice (cs_arena st) p"
    and st': "cs_slots st' = (cs_slots st)[i := sl']" "cs_index st' = cs_index st" "cs_index_len st' = cs_index_len st"
      "cs_tombstones st' = cs_tombstones st" "cs_free_slots st' = cs_free_slots st"
  shows "cache_inv hf st' \<and> cache_abs st' = (cache_abs st)(key_of (cs_arena st) e
    \<mapsto> (value_view (cs_arena st') (en_value e'), en_expires_at_ms e'))"
proof -
  have i: "i < length (cs_slots st)" and ei: "sl_entry (cs_slots st ! i) = Some e" using e by (simp_all add: entry_at_def)
  have hash: "en_hash e = hf (key_of (cs_arena st) e)" using inv e data_ok_entry(1) unfolding cache_inv_def by blast
  have fresh: "key_of (cs_arena st) f \<noteq> key_of (cs_arena st) e" if "entry_at (cs_slots st) j f" "j \<noteq> i" for j f
    using same_key_slot [OF inv that(1) e] that(2) by blast
  have "free_ok (cs_free_slots st') (cs_slots st')"
    using inv i ei by (auto simp: cache_inv_def free_ok_def st' nth_list_update)
  moreover have "index_inv st" using inv by (simp add: cache_inv_def)
  then have "index_inv st'" by (simp add: index_inv_def st')
  ultimately have "cache_inv hf st' \<and> cache_abs st' = put_entry (cs_arena st') (sl_entry (cs_slots st' ! i))
      (drop_entry (cs_arena st) (old_entry (cs_slots st) i) (cache_abs st))"
    using a' fr i e' hash key fresh inv ei
    by (intro cache_change [OF inv]) (auto simp: st' agree_update slot_handles_def slot_pair_def cache_inv_def)
  then show ?thesis using i ei e' key by (simp add: put_entry_def drop_entry_def old_entry_def st')
qed

subsection \<open>Reading\<close>

definition expired_at :: "u64 \<Rightarrow> CacheValueView \<times> u64 option \<Rightarrow> bool" where
  "expired_at now w = (case snd w of None \<Rightarrow> False | Some deadline \<Rightarrow> deadline \<le> now)"

text \<open>What every access to a key does first: an entry past its deadline goes.\<close>

definition touch :: "u64 \<Rightarrow> bytes \<Rightarrow> cache_map \<Rightarrow> cache_map" where
  "touch now key m = (case m key of None \<Rightarrow> m | Some w \<Rightarrow> if expired_at now w then m(key := None) else m)"

lemma live_slot_id_ok:
  assumes inv: "cache_inv hf st"
  obtains (absent) st' where "live_slot_id hf key now st = (None, st')" "cache_inv hf st'"
      "cache_abs st' = touch now key (cache_abs st)" "cache_abs st' key = None"
      "length (cs_slots st') = length (cs_slots st)" "ba_bytes (cs_arena st') = ba_bytes (cs_arena st)"
  | (live) s e where "live_slot_id hf key now st = (Some s, st)" "entry_at (cs_slots st) (unat s) e"
      "key_of (cs_arena st) e = key" "touch now key (cache_abs st) = cache_abs st"
      "cache_abs st key = Some (value_view (cs_arena st) (en_value e), en_expires_at_ms e)"
proof (cases "find_slot key (hf key) st")
  case None
  then have "cache_abs st key = None" using find_slot_None [OF inv] by blast
  with None inv show thesis by (intro absent) (simp_all add: live_slot_id_def touch_def)
next
  case (Some s)
  then obtain e where e: "entry_at (cs_slots st) (unat s) e" "key_of (cs_arena st) e = key"
    using find_slot_iff [OF inv] by blast
  have se: "slot_entry st s = Some e" using e by (simp add: slot_entry_at)
  have ab: "cache_abs st key = Some (value_view (cs_arena st) (en_value e), en_expires_at_ms e)"
    using entry_abs [OF inv e(1)] e(2) by simp
  show thesis
  proof (cases "case en_expires_at_ms e of None \<Rightarrow> False | Some deadline \<Rightarrow> deadline \<le> now")
    case True
    obtain st1 where r: "remove_slot s st = (True, st1)" "cache_inv hf st1"
      "cache_abs st1 = (cache_abs st)(key_of (cs_arena st) e := None)"
      "cs_slots st1 = (cs_slots st)[unat s := (cs_slots st ! unat s)\<lparr>sl_entry := None\<rparr>]"
      "ba_bytes (cs_arena st1) = ba_bytes (cs_arena st)"
      by (rule remove_slot_ok [OF inv e(1)])
    have "live_slot_id hf key now st = (None, count_expiration st1)"
      using Some se r(1) True by (simp add: live_slot_id_def)
    then show thesis
      by (rule absent) (use r e ab True in \<open>simp_all add: touch_def expired_at_def count_expiration_def\<close>)
  next
    case False
    then have "live_slot_id hf key now st = (Some s, st)" using Some se by (simp add: live_slot_id_def)
    then show thesis by (rule live [OF _ e]) (use ab False in \<open>simp_all add: touch_def expired_at_def\<close>)
  qed
qed

subsection \<open>Writing\<close>

lemma packed_slice_release [simp]: "packed_slice (value_release v a) p = packed_slice a p"
  by (cases p) (simp_all add: arena_get_def)

lemma value_view_frame: "(\<And>p. p \<in># value_handles v \<Longrightarrow> packed_slice a' p = packed_slice a p) \<Longrightarrow> value_view a' v = value_view a v"
  by (cases v) simp_all

lemma old_None:
  assumes "old_entry slots i = None"
  shows "other_handles slots i = total_handles slots" "(if i < length slots then slot_pair i (slots ! i) else {#}) = {#}"
  using assms total_other [of i slots] other_beyond [of slots i]
  by (auto simp: old_entry_def slot_handles_def slot_pair_def split: if_splits)

lemma allocate_slot_ok:
  assumes "free_ok (cs_free_slots st) (cs_slots st)" "length (cs_slots st) < 2 ^ 32 - 2"
  obtains s g slots' fl where "allocate_slot e st = (s, g, st\<lparr>cs_free_slots := fl, cs_slots := slots'\<rparr>)"
    "agree (unat s) (cs_slots st) slots'" "old_entry (cs_slots st) (unat s) = None"
    "slots' ! unat s = \<lparr>sl_generation = g, sl_entry = Some e\<rparr>" "free_ok fl slots'"
    "length slots' \<le> Suc (length (cs_slots st))" "unat s < 2 ^ 32 - 2"
proof (cases "cs_free_slots st = []")
  case True
  let ?n = "length (cs_slots st)"
  let ?sl = "\<lparr>sl_generation = 1, sl_entry = Some e\<rparr>"
  have al: "allocate_slot e st = (of_nat ?n, 1, st\<lparr>cs_free_slots := [], cs_slots := cs_slots st @ [?sl]\<rparr>)"
    using True by (cases st) (simp add: allocate_slot_def)
  have n: "unat (of_nat ?n :: u32) = ?n" using assms(2) by (intro unat_of_slot) simp
  show thesis
    by (rule that [OF al]) (use assms(2) in \<open>simp_all add: n agree_snoc old_entry_def free_ok_def\<close>)
next
  case False
  define s where "s = last (cs_free_slots st)"
  define fl where "fl = butlast (cs_free_slots st)"
  let ?g = "next_generation (sl_generation (cs_slots st ! unat s))"
  let ?sl = "\<lparr>sl_generation = ?g, sl_entry = Some e\<rparr>"
  have fs: "cs_free_slots st = fl @ [s]" using False by (simp add: s_def fl_def)
  have al: "allocate_slot e st = (s, ?g, st\<lparr>cs_free_slots := fl, cs_slots := (cs_slots st)[unat s := ?sl]\<rparr>)"
    by (simp add: allocate_slot_def fs Let_def)
  have s: "unat s < length (cs_slots st)" "sl_entry (cs_slots st ! unat s) = None" "distinct (fl @ [s])"
    using assms(1) by (simp_all add: free_ok_def fs)
  have "unat s \<noteq> unat t" if "t \<in> set fl" for t using s(3) that by (auto dest: unsigned_word_eqI)
  then have "free_ok fl ((cs_slots st)[unat s := ?sl])"
    using assms(1) s(1) by (simp add: free_ok_def fs nth_list_update)
  then show thesis
    by (intro that [OF al]) (use s assms(2) in \<open>simp_all add: agree_update old_entry_def\<close>)
qed

lemma find_slot_arena:
  assumes "\<forall>p \<in># total_handles (cs_slots st). packed_slice a p = packed_slice (cs_arena st) p"
  shows "find_slot key h (st\<lparr>cs_arena := a\<rparr>) = find_slot key h st"
proof -
  have "packed_slice a (en_key e) = packed_slice (cs_arena st) (en_key e)" if "slot_entry st s = Some e" for s e
  proof -
    have "entry_at (cs_slots st) (unat s) e" using that by (simp add: slot_entry_at)
    then have "en_key e \<in># total_handles (cs_slots st)"
      using total_other [of "unat s" "cs_slots st"] by (simp add: entry_at_def slot_handles_def handles_def)
    with assms show ?thesis by blast
  qed
  then have "(\<lambda>s. case slot_entry st s of None \<Rightarrow> False | Some e \<Rightarrow> packed_slice a (en_key e) = key)
      = (\<lambda>s. case slot_entry st s of None \<Rightarrow> False | Some e \<Rightarrow> packed_slice (cs_arena st) (en_key e) = key)"
    by (auto split: option.split)
  moreover have "slot_entry (st\<lparr>cs_arena := a\<rparr>) = slot_entry st" by (rule ext) (simp add: slot_entry_def)
  ultimately show ?thesis by (simp add: find_slot_def cong del: option.case_cong_weak)
qed

text \<open>
  Storing a value whose bytes are already in the arena. The arena may have grown over that of the store; it reads the
  handles of the store the same. The only failure is an arena without room for a new key.
\<close>

lemma set_value_new:
  assumes inv: "cache_inv hf st0" and a: "packed_inv a (value_handles v + total_handles (cs_slots st0))"
    and fr: "\<forall>p \<in># total_handles (cs_slots st0). packed_slice a p = packed_slice (cs_arena st0) p"
    and room: "length (cs_slots st0) < 2 ^ 32 - 2"
    and none: "cache_abs st0 key = None" and pk: "pack key a = Some (pkey, a1)"
  obtains st' where "set_value hf key v ttl now (st0\<lparr>cs_arena := a\<rparr>) = Some st'" "cache_inv hf st'"
    "cache_abs st' = (cache_abs st0)(key \<mapsto> (value_view a v, map_option (saturating_add now) ttl))"
proof -
  let ?x = "map_option (saturating_add now) ttl" and ?T = "total_handles (cs_slots st0)"
  let ?e = "\<lparr>en_hash = hf key, en_key = pkey, en_value = v, en_expires_at_ms = ?x\<rparr>"
  have fs: "find_slot key (hf key) (st0\<lparr>cs_arena := a\<rparr>) = None"
    using find_slot_arena [OF fr] find_slot_None [OF inv] none by simp
  have ix: "idx_inv (cs_index st0)" "cs_index_len st0 = size (pairs (cs_index st0))" "DEFAULT_INDEX_CAPACITY \<le> length (cs_index st0)"
    "10 * (cs_index_len st0 + tombs (cs_index st0)) < 7 * length (cs_index st0) + 10" "cs_tombstones st0 = tombs (cs_index st0)"
    using inv by (auto simp: cache_inv_def index_inv_def)
  obtain index1 where i1: "ensure_index_capacity (cs_index st0, cs_index_len st0, tombs (cs_index st0)) = Some (index1, tombs index1)"
    "idx_inv index1" "pairs index1 = pairs (cs_index st0)" "DEFAULT_INDEX_CAPACITY \<le> length index1"
    "10 * (cs_index_len st0 + tombs index1 + 1) < 7 * length index1"
    by (rule ensure_index_capacity_ok [OF ix(1-4)])
  let ?st1 = "st0\<lparr>cs_index := index1, cs_tombstones := tombs index1, cs_arena := a1\<rparr>"
  have "free_ok (cs_free_slots ?st1) (cs_slots ?st1)" "length (cs_slots ?st1) < 2 ^ 32 - 2"
    using inv room by (simp_all add: cache_inv_def)
  then obtain s g slots' fl where al: "allocate_slot ?e ?st1 = (s, g, ?st1\<lparr>cs_free_slots := fl, cs_slots := slots'\<rparr>)"
    and al': "agree (unat s) (cs_slots ?st1) slots'" "old_entry (cs_slots ?st1) (unat s) = None"
      "slots' ! unat s = \<lparr>sl_generation = g, sl_entry = Some ?e\<rparr>" "free_ok fl slots'"
      "length slots' \<le> Suc (length (cs_slots ?st1))" "unat s < 2 ^ 32 - 2"
    by (rule allocate_slot_ok)
  have "s \<noteq> EMPTY_SLOT" "s \<noteq> TOMBSTONE_SLOT"
    using al'(6) by (auto simp: EMPTY_SLOT_def TOMBSTONE_SLOT_def unsigned_minus_1_eq_mask mask_eq_exp_minus_1)
  moreover have "size (pairs index1) + tombs index1 + 1 < length index1" using i1(3,5) ix(2) by simp
  ultimately obtain index2 where i2: "insert_bucket_raw (hf key) s (index1, tombs index1) = Some (index2, tombs index2)" "idx_inv index2"
    "pairs index2 = add_mset (hf key, s) (pairs index1)" "length index2 = length index1" "tombs index2 \<le> tombs index1"
    using insert_bucket_ok [OF i1(2)] by metis
  define st2 where "st2 = ?st1\<lparr>cs_free_slots := fl, cs_slots := slots', cs_index := index2, cs_tombstones := tombs index2,
    cs_index_len := cs_index_len st0 + 1\<rparr>"
  have run: "set_value hf key v ttl now (st0\<lparr>cs_arena := a\<rparr>) = Some (count_set (schedule_expiry s g ?x now st2))"
    using fs i1(1) pk al i2(1) by (simp add: set_value_def Let_def ix(5) st2_def)
  have key: "packed_slice a1 pkey = key" using packed.store_fetch [OF a pk] .
  have frame: "packed_slice a1 p = packed_slice a p" if "p \<in># value_handles v + ?T" for p
    using packed.store_frame [OF a pk that] .
  have o: "old_entry (cs_slots st0) (unat s) = None" using al'(2) by simp
  have fresh: "key_of (cs_arena st0) f \<noteq> key" if "entry_at (cs_slots st0) j f" for j f
    using entry_abs [OF inv that] none by auto
  have "index_inv st2" using i1 i2 ix(2) by (simp add: index_inv_def st2_def)
  moreover have "packed_inv a1 (slot_handles (slots' ! unat s) + other_handles (cs_slots st0) (unat s))"
    using packed.store_inv [OF a pk] al'(3) by (simp add: slot_handles_def handles_def old_None(1) [OF o])
  moreover have "\<forall>p \<in># other_handles (cs_slots st0) (unat s). packed_slice a1 p = packed_slice (cs_arena st0) p"
    using frame fr by (simp add: old_None(1) [OF o])
  ultimately have "cache_inv hf st2 \<and> cache_abs st2 = put_entry (cs_arena st2) (sl_entry (cs_slots st2 ! unat s))
      (drop_entry (cs_arena st0) (old_entry (cs_slots st0) (unat s)) (cache_abs st0))"
    using al' room key fresh i1(3) i2(3)
    by (intro cache_change [OF inv]) (auto simp: st2_def old_None(2) [OF o] slot_pair_def)
  moreover have "value_view a1 v = value_view a v" by (rule value_view_frame) (simp add: frame)
  ultimately have "cache_inv hf st2" "cache_abs st2 = (cache_abs st0)(key \<mapsto> (value_view a v, ?x))"
    using al'(3) key o by (simp_all add: put_entry_def drop_entry_def st2_def)
  then show thesis by (intro that [OF run]) simp_all
qed

lemma set_value_existing:
  assumes inv: "cache_inv hf st0" and a: "packed_inv a (value_handles v + total_handles (cs_slots st0))"
    and fr: "\<forall>p \<in># total_handles (cs_slots st0). packed_slice a p = packed_slice (cs_arena st0) p"
    and some: "cache_abs st0 key \<noteq> None"
  obtains st' where "set_value hf key v ttl now (st0\<lparr>cs_arena := a\<rparr>) = Some st'" "cache_inv hf st'"
    "cache_abs st' = (cache_abs st0)(key \<mapsto> (value_view a v, map_option (saturating_add now) ttl))"
proof -
  let ?x = "map_option (saturating_add now) ttl"
  obtain s where s: "find_slot key (hf key) st0 = Some s" using find_slot_None [OF inv, of key] some by blast
  then obtain e where e: "entry_at (cs_slots st0) (unat s) e" "key_of (cs_arena st0) e = key"
    using find_slot_iff [OF inv] by blast
  have i: "unat s < length (cs_slots st0)" using e(1) by (simp add: entry_at_def)
  have fs: "find_slot key (hf key) (st0\<lparr>cs_arena := a\<rparr>) = Some s" using find_slot_arena [OF fr] s by simp
  have se: "slot_entry (st0\<lparr>cs_arena := a\<rparr>) s = Some e" using e(1) by (simp add: slot_entry_at)
  let ?g = "next_generation (sl_generation (cs_slots st0 ! unat s))"
  let ?e = "e\<lparr>en_value := v, en_expires_at_ms := ?x\<rparr>"
  define st1 where "st1 = st0\<lparr>cs_slots := (cs_slots st0)[unat s := \<lparr>sl_generation = ?g, sl_entry = Some ?e\<rparr>],
    cs_arena := value_release (en_value e) a\<rparr>"
  have run: "set_value hf key v ttl now (st0\<lparr>cs_arena := a\<rparr>) = Some (count_set (schedule_expiry s ?g ?x now st1))"
    using fs se by (simp add: set_value_def Let_def st1_def)
  let ?O = "other_handles (cs_slots st0) (unat s)"
  have T: "total_handles (cs_slots st0) = add_mset (en_key e) (value_handles (en_value e) + ?O)"
    using total_other [OF i] e(1) by (simp add: entry_at_def slot_handles_def handles_def)
  have "packed_inv a (value_handles (en_value e) + (handles ?e + ?O))" using a T by (simp add: handles_def ac_simps)
  then have "packed_inv (value_release (en_value e) a) (handles ?e + ?O)" using value_release_ok by blast
  moreover have "key_of a e = key_of (cs_arena st0) e" "\<forall>p \<in># ?O. packed_slice a p = packed_slice (cs_arena st0) p"
    using fr T by simp_all
  ultimately have "cache_inv hf st1 \<and> cache_abs st1 = (cache_abs st0)(key_of (cs_arena st0) e
      \<mapsto> (value_view (cs_arena st1) (en_value ?e), en_expires_at_ms ?e))"
    by (intro replace_entry_ok [OF inv e(1)]) (simp_all add: st1_def)
  moreover have "value_view (value_release (en_value e) a) v = value_view a v" by (rule value_view_frame) simp
  ultimately have "cache_inv hf st1" "cache_abs st1 = (cache_abs st0)(key \<mapsto> (value_view a v, ?x))"
    using e(2) by (simp_all add: st1_def)
  then show thesis by (intro that [OF run]) simp_all
qed

end
