(* ===== verification/Cache_Spec.thy ===== *)
theory Cache_Spec
  imports Cache_Refinement
begin

text \<open>
  The contract of the cache as operations on a finite map, and that every operation of \<open>CacheStore\<close> implements its
  contract: results, contents and the invariant, errors and full arenas included. Then the purge: it drops expired
  entries only, so no reader can tell.
\<close>

subsection \<open>Commands\<close>

datatype cache_op =
    OpSetBytes bytes bytes "u64 option"
  | OpSetInteger bytes int "u64 option"
  | OpGet bytes
  | OpExists bytes
  | OpDeleteAt bytes
  | OpDelete bytes
  | OpExpireMs bytes u64
  | OpTtl bytes
  | OpIncrement bytes int

datatype cache_result =
    RUnit
  | RView "CacheValueView option"
  | RBool bool
  | RTtl CacheTtl
  | RIncrement "CacheIncrementError + int"

fun cache_exec :: "(bytes \<Rightarrow> u64) \<Rightarrow> cache_op \<Rightarrow> u64 \<Rightarrow> CacheStore \<Rightarrow> (cache_result \<times> CacheStore) option" where
  "cache_exec hf (OpSetBytes k v ttl) now st = map_option (Pair RUnit) (set_bytes hf k v ttl now st)"
| "cache_exec hf (OpSetInteger k v ttl) now st = map_option (Pair RUnit) (set_integer hf k v ttl now st)"
| "cache_exec hf (OpGet k) now st = Some (map_prod RView id (cache_get hf k now st))"
| "cache_exec hf (OpExists k) now st = Some (map_prod RBool id (cache_exists hf k now st))"
| "cache_exec hf (OpDeleteAt k) now st = Some (map_prod RBool id (cache_delete_at hf k now st))"
| "cache_exec hf (OpDelete k) now st = Some (map_prod RBool id (cache_delete hf k st))"
| "cache_exec hf (OpExpireMs k ttl) now st = Some (map_prod RBool id (expire_ms hf k ttl now st))"
| "cache_exec hf (OpTtl k) now st = Some (map_prod RTtl id (cache_ttl hf k now st))"
| "cache_exec hf (OpIncrement k d) now st = map_option (map_prod RIncrement id) (increment hf k d now st)"

subsection \<open>The contract\<close>

fun view_integer :: "CacheValueView \<Rightarrow> int option" where
  "view_integer (ViewInteger v) = Some v"
| "view_integer (ViewBytes bs) = parse_i64 bs"

definition increment_spec :: "bytes \<Rightarrow> int \<Rightarrow> cache_map \<Rightarrow> (CacheIncrementError + int) \<times> cache_map" where
  "increment_spec k d m =
     (case m k of
        None \<Rightarrow> (Inr d, m(k \<mapsto> (ViewInteger d, None)))
      | Some (v, x) \<Rightarrow>
          (case view_integer v of
             None \<Rightarrow> (Inl NotInteger, m)
           | Some base \<Rightarrow>
               (case checked_i64 (base + d) of
                  None \<Rightarrow> (Inl Overflow, m)
                | Some n \<Rightarrow> (Inr n, m(k \<mapsto> (ViewInteger n, x))))))"

definition expire_spec :: "bytes \<Rightarrow> u64 \<Rightarrow> u64 \<Rightarrow> cache_map \<Rightarrow> bool \<times> cache_map" where
  "expire_spec k ttl now m =
     (case m k of
        None \<Rightarrow> (False, m)
      | Some (v, _) \<Rightarrow> (True, if ttl = 0 then m(k := None) else m(k \<mapsto> (v, Some (saturating_add now ttl)))))"

definition ttl_spec :: "bytes \<Rightarrow> u64 \<Rightarrow> cache_map \<Rightarrow> CacheTtl" where
  "ttl_spec k now m =
     (case m k of
        None \<Rightarrow> TtlMissing
      | Some (_, None) \<Rightarrow> TtlPersistent
      | Some (_, Some deadline) \<Rightarrow> TtlRemainingMs (saturating_sub deadline now))"

fun cache_spec :: "cache_op \<Rightarrow> u64 \<Rightarrow> cache_map \<Rightarrow> cache_result \<times> cache_map" where
  "cache_spec (OpSetBytes k v ttl) now m = (RUnit, m(k \<mapsto> (ViewBytes v, map_option (saturating_add now) ttl)))"
| "cache_spec (OpSetInteger k v ttl) now m = (RUnit, m(k \<mapsto> (ViewInteger v, map_option (saturating_add now) ttl)))"
| "cache_spec (OpGet k) now m = (RView (map_option fst (touch now k m k)), touch now k m)"
| "cache_spec (OpExists k) now m = (RBool (touch now k m k \<noteq> None), touch now k m)"
| "cache_spec (OpDeleteAt k) now m = (RBool (touch now k m k \<noteq> None), m(k := None))"
| "cache_spec (OpDelete k) now m = (RBool (m k \<noteq> None), m(k := None))"
| "cache_spec (OpExpireMs k ttl) now m = map_prod RBool id (expire_spec k ttl now (touch now k m))"
| "cache_spec (OpTtl k) now m = (RTtl (ttl_spec k now (touch now k m)), touch now k m)"
| "cache_spec (OpIncrement k d) now m = map_prod RIncrement id (increment_spec k d (touch now k m))"

text \<open>
  Room for the strings a command may put into the arena, each in a block of less than twice its length, and for one
  more slot.
\<close>

fun op_sizes :: "cache_op \<Rightarrow> nat list" where
  "op_sizes (OpSetBytes k v ttl) = [length v, length k]"
| "op_sizes (OpSetInteger k v ttl) = [length k]"
| "op_sizes (OpIncrement k d) = [length k]"
| "op_sizes _ = []"

definition has_room :: "nat list \<Rightarrow> CacheStore \<Rightarrow> bool" where
  "has_room ns st \<longleftrightarrow> length (cs_slots st) < 2 ^ 32 - 2 \<and> (\<forall>n \<in> set ns. n \<le> 2 ^ 30)
     \<and> length (ba_bytes (cs_arena st)) + (\<Sum>n \<leftarrow> ns. 2 * max n 32) \<le> 2 ^ 32 - 1"

definition refines_step :: "(bytes \<Rightarrow> u64) \<Rightarrow> 'r \<times> CacheStore \<Rightarrow> 'r \<times> cache_map \<Rightarrow> bool" where
  "refines_step hf c a \<longleftrightarrow> fst c = fst a \<and> cache_inv hf (snd c) \<and> cache_abs (snd c) = snd a"

subsection \<open>Every command implements its contract\<close>

lemma set_value_ok:
  assumes inv: "cache_inv hf st" and a: "packed_inv a (value_handles v + total_handles (cs_slots st))"
    and fr: "\<forall>p \<in># total_handles (cs_slots st). packed_slice a p = packed_slice (cs_arena st) p"
    and room: "length (cs_slots st) < 2 ^ 32 - 2" "length key \<le> 2 ^ 30" "length (ba_bytes a) + 2 * max (length key) 32 \<le> 2 ^ 32 - 1"
  obtains st' where "set_value hf key v ttl now (st\<lparr>cs_arena := a\<rparr>) = Some st'" "cache_inv hf st'"
    "cache_abs st' = (cache_abs st)(key \<mapsto> (value_view a v, map_option (saturating_add now) ttl))"
proof (cases "cache_abs st key")
  case None
  obtain pkey a1 where pk: "pack key a = Some (pkey, a1)" by (rule pack_returns [OF room(2,3)])
  show thesis by (rule set_value_new [OF inv a fr room(1) None pk that])
next
  case (Some w)
  then have "cache_abs st key \<noteq> None" by simp
  then show thesis by (rule set_value_existing [OF inv a fr _ that])
qed

lemma set_integer_ok:
  assumes "cache_inv hf st" "has_room [length key] st"
  obtains st' where "set_integer hf key v ttl now st = Some st'"
    "refines_step hf ((), st') ((), (cache_abs st)(key \<mapsto> (ViewInteger v, map_option (saturating_add now) ttl)))"
proof -
  have a: "packed_inv (cs_arena st) (value_handles (ValInteger v) + total_handles (cs_slots st))"
    using assms(1) by (simp add: cache_inv_def data_ok_def)
  have room: "length (cs_slots st) < 2 ^ 32 - 2" "length key \<le> 2 ^ 30"
    "length (ba_bytes (cs_arena st)) + 2 * max (length key) 32 \<le> 2 ^ 32 - 1" using assms(2) by (simp_all add: has_room_def)
  obtain st' where "set_value hf key (ValInteger v) ttl now (st\<lparr>cs_arena := cs_arena st\<rparr>) = Some st'" "cache_inv hf st'"
    "cache_abs st' = (cache_abs st)(key \<mapsto> (value_view (cs_arena st) (ValInteger v), map_option (saturating_add now) ttl))"
    by (rule set_value_ok [OF assms(1) a _ room]) simp
  with that show thesis by (simp add: set_integer_def refines_step_def)
qed

lemma set_bytes_ok:
  assumes inv: "cache_inv hf st" and room: "has_room [length v, length key] st"
  obtains st' where "set_bytes hf key v ttl now st = Some st'"
    "refines_step hf ((), st') ((), (cache_abs st)(key \<mapsto> (ViewBytes v, map_option (saturating_add now) ttl)))"
proof -
  let ?T = "total_handles (cs_slots st)"
  have a: "packed_inv (cs_arena st) ?T" using inv by (simp add: cache_inv_def data_ok_def)
  have r: "length v \<le> 2 ^ 30" "length (ba_bytes (cs_arena st)) + 2 * max (length v) 32 \<le> 2 ^ 32 - 1"
    using room by (simp_all add: has_room_def)
  obtain p a1 where pk: "pack v (cs_arena st) = Some (p, a1)" by (rule pack_returns [OF r])
  have a1: "packed_inv a1 (value_handles (ValBytes p) + ?T)" using packed.store_inv [OF a pk] by simp
  have "\<forall>q \<in># ?T. packed_slice a1 q = packed_slice (cs_arena st) q" using packed.store_frame [OF a pk] by blast
  moreover have "length (ba_bytes a1) + 2 * max (length key) 32 \<le> 2 ^ 32 - 1"
    using pack_growth [OF a pk] room by (simp add: has_room_def)
  moreover have "length (cs_slots st) < 2 ^ 32 - 2" "length key \<le> 2 ^ 30" using room by (simp_all add: has_room_def)
  ultimately obtain st' where "set_value hf key (ValBytes p) ttl now (st\<lparr>cs_arena := a1\<rparr>) = Some st'" "cache_inv hf st'"
    "cache_abs st' = (cache_abs st)(key \<mapsto> (value_view a1 (ValBytes p), map_option (saturating_add now) ttl))"
    using set_value_ok [OF inv a1] by metis
  with that pk packed.store_fetch [OF a pk] show thesis by (simp add: set_bytes_def refines_step_def)
qed

lemma cache_get_ok:
  assumes inv: "cache_inv hf st"
  shows "refines_step hf (cache_get hf k now st) (map_option fst (touch now k (cache_abs st) k), touch now k (cache_abs st))"
  by (rule live_slot_id_ok [OF inv, of k now])
    (use inv in \<open>simp_all add: cache_get_def refines_step_def slot_entry_at [symmetric]\<close>)

lemma cache_exists_ok:
  assumes inv: "cache_inv hf st"
  shows "refines_step hf (cache_exists hf k now st) (touch now k (cache_abs st) k \<noteq> None, touch now k (cache_abs st))"
  by (rule live_slot_id_ok [OF inv, of k now]) (use inv in \<open>simp_all add: cache_exists_def refines_step_def\<close>)

lemma cache_ttl_ok:
  assumes inv: "cache_inv hf st"
  shows "refines_step hf (cache_ttl hf k now st) (ttl_spec k now (touch now k (cache_abs st)), touch now k (cache_abs st))"
  by (rule live_slot_id_ok [OF inv, of k now])
    (use inv in \<open>auto simp: cache_ttl_def refines_step_def ttl_spec_def slot_entry_at [symmetric] split: option.split\<close>)

lemma removed_ok:
  assumes "cache_inv hf st" "entry_at (cs_slots st) (unat s) e" "key_of (cs_arena st) e = k"
  shows "refines_step hf (remove_slot s st) (True, (cache_abs st)(k := None))"
    "refines_step hf (count_delete (remove_slot s st)) (True, (cache_abs st)(k := None))"
  by (rule remove_slot_ok [OF assms(1,2)], use assms(3) in \<open>simp add: refines_step_def count_delete_def\<close>)+

lemma touch_delete [simp]: "(touch now k m)(k := None) = m(k := None)"
  by (auto simp: touch_def split: option.split)

lemma cache_delete_at_ok:
  assumes inv: "cache_inv hf st"
  shows "refines_step hf (cache_delete_at hf k now st) (touch now k (cache_abs st) k \<noteq> None, (cache_abs st)(k := None))"
proof (rule live_slot_id_ok [OF inv, of k now])
  fix st'
  assume *: "live_slot_id hf k now st = (None, st')" "cache_inv hf st'" "cache_abs st' = touch now k (cache_abs st)" "cache_abs st' k = None"
  have "(cache_abs st')(k := None) = (cache_abs st)(k := None)" unfolding *(3) by simp
  then show ?thesis using * fun_upd_idem [of "cache_abs st'" k, OF *(4)] by (simp add: cache_delete_at_def refines_step_def)
next
  fix s e
  assume *: "live_slot_id hf k now st = (Some s, st)" "entry_at (cs_slots st) (unat s) e" "key_of (cs_arena st) e = k"
    "touch now k (cache_abs st) = cache_abs st" "cache_abs st k = Some (value_view (cs_arena st) (en_value e), en_expires_at_ms e)"
  then show ?thesis using removed_ok(2) [OF inv *(2,3)] by (simp add: cache_delete_at_def)
qed

lemma cache_delete_ok:
  assumes inv: "cache_inv hf st"
  shows "refines_step hf (cache_delete hf k st) (cache_abs st k \<noteq> None, (cache_abs st)(k := None))"
proof (cases "find_slot k (hf k) st")
  case None
  then have "cache_abs st k = None" using find_slot_None [OF inv] by blast
  then show ?thesis using None inv by (simp add: cache_delete_def refines_step_def fun_upd_idem)
next
  case (Some s)
  then obtain e where e: "entry_at (cs_slots st) (unat s) e" "key_of (cs_arena st) e = k" using find_slot_iff [OF inv] by blast
  have "cache_abs st k \<noteq> None" using entry_abs [OF inv e(1)] e(2) by simp
  then show ?thesis using removed_ok(2) [OF inv e] Some by (simp add: cache_delete_def)
qed

lemma slot_handles_split:
  assumes "cache_inv hf st" "entry_at (cs_slots st) i e"
  shows "packed_inv (cs_arena st) (handles e + other_handles (cs_slots st) i)"
  using assms total_other [of i "cs_slots st"] by (simp add: cache_inv_def data_ok_def entry_at_def slot_handles_def)

lemma expire_ms_ok:
  assumes inv: "cache_inv hf st"
  shows "refines_step hf (expire_ms hf k ttl now st) (expire_spec k ttl now (touch now k (cache_abs st)))"
proof (rule live_slot_id_ok [OF inv, of k now])
  fix st'
  assume "live_slot_id hf k now st = (None, st')" "cache_inv hf st'" "cache_abs st' = touch now k (cache_abs st)" "cache_abs st' k = None"
  then show ?thesis by (simp add: expire_ms_def refines_step_def expire_spec_def)
next
  fix s e
  assume *: "live_slot_id hf k now st = (Some s, st)" "entry_at (cs_slots st) (unat s) e" "key_of (cs_arena st) e = k"
    "touch now k (cache_abs st) = cache_abs st" "cache_abs st k = Some (value_view (cs_arena st) (en_value e), en_expires_at_ms e)"
  show ?thesis
  proof (cases "ttl = 0")
    case True
    then show ?thesis using removed_ok(1) [OF inv *(2,3)] *
      by (auto simp: expire_ms_def expire_spec_def refines_step_def split: prod.split)
  next
    case False
    let ?x = "saturating_add now ttl" and ?g = "next_generation (sl_generation (cs_slots st ! unat s))"
    let ?e = "e\<lparr>en_expires_at_ms := Some ?x\<rparr>"
    let ?st = "st\<lparr>cs_slots := (cs_slots st)[unat s := \<lparr>sl_generation = ?g, sl_entry = Some ?e\<rparr>]\<rparr>"
    have "expire_ms hf k ttl now st = (True, schedule_expiry s ?g (Some ?x) now ?st)"
      using *(1,2) False by (simp add: expire_ms_def slot_entry_at [symmetric] Let_def)
    moreover have "cache_inv hf ?st \<and> cache_abs ?st
        = (cache_abs st)(key_of (cs_arena st) e \<mapsto> (value_view (cs_arena ?st) (en_value ?e), en_expires_at_ms ?e))"
      by (rule replace_entry_ok [OF inv *(2)]) (use slot_handles_split [OF inv *(2)] in \<open>simp_all add: handles_def\<close>)
    ultimately show ?thesis using * False by (simp add: refines_step_def expire_spec_def)
  qed
qed

lemma has_room_touched:
  assumes "has_room ns st" "length (cs_slots st') = length (cs_slots st)" "ba_bytes (cs_arena st') = ba_bytes (cs_arena st)"
  shows "has_room ns st'"
  using assms by (simp add: has_room_def)

lemma increment_ok:
  assumes inv: "cache_inv hf st" and room: "has_room [length k] st"
  obtains c where "increment hf k d now st = Some c" "refines_step hf c (increment_spec k d (touch now k (cache_abs st)))"
proof (rule live_slot_id_ok [OF inv, of k now])
  fix st'
  assume *: "live_slot_id hf k now st = (None, st')" "cache_inv hf st'" "cache_abs st' = touch now k (cache_abs st)"
    "cache_abs st' k = None" "length (cs_slots st') = length (cs_slots st)" "ba_bytes (cs_arena st') = ba_bytes (cs_arena st)"
  obtain st1 where st1: "set_integer hf k d None now st' = Some st1"
    "refines_step hf ((), st1) ((), (cache_abs st')(k \<mapsto> (ViewInteger d, map_option (saturating_add now) None)))"
    by (rule set_integer_ok [OF *(2) has_room_touched [OF room *(5,6)]])
  show thesis by (rule that [of "(Inr d, st1)"]) (use * st1 in \<open>simp_all add: increment_def increment_spec_def refines_step_def\<close>)
next
  fix s e
  assume *: "live_slot_id hf k now st = (Some s, st)" "entry_at (cs_slots st) (unat s) e" "key_of (cs_arena st) e = k"
    "touch now k (cache_abs st) = cache_abs st" "cache_abs st k = Some (value_view (cs_arena st) (en_value e), en_expires_at_ms e)"
  have se: "slot_entry st s = Some e" using *(2) by (simp add: slot_entry_at)
  let ?v = "view_integer (value_view (cs_arena st) (en_value e))"
  have v: "(case en_value e of ValInteger v \<Rightarrow> Some v | ValBytes p \<Rightarrow> parse_i64 (packed_slice (cs_arena st) p)) = ?v"
    by (cases "en_value e") simp_all
  note defs = increment_def increment_spec_def refines_step_def
  show thesis
  proof (cases ?v)
    case None
    show thesis by (rule that [of "(Inl NotInteger, st)"]) (use * se v None inv in \<open>simp_all add: defs\<close>)
  next
    case (Some base)
    show thesis
    proof (cases "checked_i64 (base + d)")
      case None
      show thesis by (rule that [of "(Inl Overflow, st)"]) (use * se v Some None inv in \<open>simp_all add: defs\<close>)
    next
      case (Some n)
      let ?e = "e\<lparr>en_value := ValInteger n\<rparr>"
      let ?st = "st\<lparr>cs_arena := value_release (en_value e) (cs_arena st),
        cs_slots := (cs_slots st)[unat s := (cs_slots st ! unat s)\<lparr>sl_entry := Some ?e\<rparr>]\<rparr>"
      have "packed_inv (cs_arena st) (value_handles (en_value e) + (handles ?e + other_handles (cs_slots st) (unat s)))"
        using slot_handles_split [OF inv *(2)] by (simp add: handles_def ac_simps)
      note rel = value_release_ok [OF this]
      have "cache_inv hf ?st \<and> cache_abs ?st
          = (cache_abs st)(key_of (cs_arena st) e \<mapsto> (value_view (cs_arena ?st) (en_value ?e), en_expires_at_ms ?e))"
        by (rule replace_entry_ok [OF inv *(2)]) (use rel in simp_all)
      then show thesis
        using * se v \<open>?v = Some base\<close> Some by (intro that [of "(Inr n, ?st)"]) (simp_all add: defs)
    qed
  qed
qed

lemma exec_refines:
  assumes "cache_inv hf st" "has_room (op_sizes op) st"
  shows "\<exists>r st'. cache_exec hf op now st = Some (r, st') \<and> cache_inv hf st'
    \<and> (r, cache_abs st') = cache_spec op now (cache_abs st)"
proof (cases op)
  case (OpSetBytes k v ttl)
  then show ?thesis using set_bytes_ok [OF assms(1), of v k ttl now] assms(2) by (simp add: refines_step_def) metis
next
  case (OpSetInteger k v ttl)
  then show ?thesis using set_integer_ok [OF assms(1), of k v ttl now] assms(2) by (simp add: refines_step_def) metis
next
  case (OpGet k)
  then show ?thesis using cache_get_ok [OF assms(1), of k now] by (cases "cache_get hf k now st") (simp add: refines_step_def)
next
  case (OpExists k)
  then show ?thesis using cache_exists_ok [OF assms(1), of k now] by (cases "cache_exists hf k now st") (simp add: refines_step_def)
next
  case (OpDeleteAt k)
  then show ?thesis using cache_delete_at_ok [OF assms(1), of k now] by (cases "cache_delete_at hf k now st") (simp add: refines_step_def)
next
  case (OpDelete k)
  then show ?thesis using cache_delete_ok [OF assms(1), of k] by (cases "cache_delete hf k st") (simp add: refines_step_def)
next
  case (OpExpireMs k ttl)
  then show ?thesis using expire_ms_ok [OF assms(1), of k ttl now]
    by (cases "expire_ms hf k ttl now st"; cases "expire_spec k ttl now (touch now k (cache_abs st))") (simp add: refines_step_def)
next
  case (OpTtl k)
  then show ?thesis using cache_ttl_ok [OF assms(1), of k now] by (cases "cache_ttl hf k now st") (simp add: refines_step_def)
next
  case (OpIncrement k d)
  then obtain c where "increment hf k d now st = Some c" "refines_step hf c (increment_spec k d (touch now k (cache_abs st)))"
    using increment_ok [OF assms(1), of k d now] assms(2) by auto
  with OpIncrement show ?thesis
    by (cases c; cases "increment_spec k d (touch now k (cache_abs st))") (simp add: refines_step_def)
qed

text \<open>
  C5: The cache implements its contract. From every state that satisfies the invariant, and with room in the arena and in
  the slot table for what the command stores, each command returns; its result and the new contents are those the
  contract gives on the finite map the store represents, with values, deadlines, expired entries, integer errors and
  overflow included; and the invariant holds again. The hash function is arbitrary, so collisions are covered.
\<close>

theorem cache_refinement:
  assumes "cache_inv hf st" "has_room (op_sizes op) st"
  shows "\<exists>r st'. cache_exec hf op now st = Some (r, st') \<and> cache_inv hf st'
    \<and> (r, cache_abs st') = cache_spec op now (cache_abs st)"
  by (rule exec_refines [OF assms])

theorem cache_refinement_witness:
  "cache_inv (\<lambda>_. 7) CacheStore_new \<and> has_room (op_sizes (OpIncrement [0x61] 5)) CacheStore_new
    \<and> (\<exists>r st'. cache_exec (\<lambda>_. 7) (OpIncrement [0x61] 5) 3 CacheStore_new = Some (r, st') \<and> cache_inv (\<lambda>_. 7) st'
      \<and> (r, cache_abs st') = (RIncrement (Inr 5), [[0x61] \<mapsto> (ViewInteger 5, None)]))"
proof -
  have room: "has_room (op_sizes (OpIncrement [0x61] 5)) CacheStore_new"
    by (simp add: has_room_def CacheStore_new_def ByteArena_new_def)
  show ?thesis
    using room cache_refinement [OF cache_inv_new room, of "\<lambda>_. 7" 3] cache_inv_new
    by (simp add: cache_abs_new touch_def increment_spec_def)
qed

end
