(* ===== verification/Cache_Expiry.thy ===== *)
theory Cache_Expiry
  imports Cache_Spec
begin

text \<open>
  The purge of expired entries. Whatever is in the wheel, a purge drops expired entries only. In every history with a
  clock that does not go back, each entry with a deadline has its reference in the bucket of its deadline, not before
  the last tick drained; so a purge whose budget covers the entries leaves no expired entry behind. A purge that runs
  out of its budget does not keep that promise.
\<close>

subsection \<open>Only expired entries go\<close>

definition only_expired :: "u64 \<Rightarrow> cache_map \<Rightarrow> cache_map \<Rightarrow> bool" where
  "only_expired now m m' \<longleftrightarrow> (\<forall>k. m' k = m k \<or> m' k = None \<and> (\<exists>w. m k = Some w \<and> expired_at now w))"

lemma only_expired_refl [simp]: "only_expired now m m"
  by (simp add: only_expired_def)

lemma only_expired_trans:
  assumes "only_expired now m m'" "only_expired now m' m''"
  shows "only_expired now m m''"
  unfolding only_expired_def
proof
  fix k
  show "m'' k = m k \<or> m'' k = None \<and> (\<exists>w. m k = Some w \<and> expired_at now w)"
    using assms [unfolded only_expired_def, THEN spec, of k] by metis
qed

definition purge_ok :: "(bytes \<Rightarrow> u64) \<Rightarrow> u64 \<Rightarrow> nat \<Rightarrow> CacheStore \<Rightarrow> nat \<times> CacheStore \<Rightarrow> bool" where
  "purge_ok hf now max_items st0 c \<longleftrightarrow> cache_inv hf (snd c) \<and> only_expired now (cache_abs st0) (cache_abs (snd c))
     \<and> fst c + cache_len (snd c) = cache_len st0 \<and> fst c \<le> max_items"

text \<open>One candidate: it is dropped as stale, put back, or the entry it stands for is removed.\<close>

lemma purge_item_cases:
  assumes inv: "cache_inv hf st"
  obtains (again) "n \<ge> max_items \<or> now < er_expires_at_ms item"
      "purge_item now max_items item (n, st) = (n, st\<lparr>cs_expiry := wheel_schedule item now (cs_expiry st)\<rparr>)"
  | (stale) "n < max_items" "purge_item now max_items item (n, st) = (n, st)"
      "\<And>i e. \<lbrakk>unat (er_slot item) = i; entry_at (cs_slots st) i e; sl_generation (cs_slots st ! i) = er_generation item\<rbrakk>
        \<Longrightarrow> en_expires_at_ms e \<noteq> Some (er_expires_at_ms item)"
  | (removed) e st' where "n < max_items" "entry_at (cs_slots st) (unat (er_slot item)) e"
      "en_expires_at_ms e = Some (er_expires_at_ms item)" "er_expires_at_ms item \<le> now"
      "remove_slot (er_slot item) st = (True, st')"
      "purge_item now max_items item (n, st) = (Suc n, count_expiration st')"
proof (cases "n \<ge> max_items")
  case True
  then show thesis by (intro again) (simp_all add: purge_item_def)
next
  case lt: False
  let ?i = "unat (er_slot item)"
  show thesis
  proof (cases "\<exists>e. entry_at (cs_slots st) ?i e \<and> sl_generation (cs_slots st ! ?i) = er_generation item
      \<and> en_expires_at_ms e = Some (er_expires_at_ms item)")
    case False
    then have "purge_item now max_items item (n, st) = (n, st)"
      using lt by (auto simp: purge_item_def nth_opt_def entry_at_def split: option.split)
    then show thesis using lt False by (intro stale) auto
  next
    case True
    then obtain e where e: "entry_at (cs_slots st) ?i e" "sl_generation (cs_slots st ! ?i) = er_generation item"
      "en_expires_at_ms e = Some (er_expires_at_ms item)" by blast
    have at: "nth_opt (cs_slots st) ?i = Some (cs_slots st ! ?i)" "sl_entry (cs_slots st ! ?i) = Some e"
      using e(1) by (simp_all add: nth_opt_def entry_at_def)
    show thesis
    proof (cases "now < er_expires_at_ms item")
      case True
      then show thesis using lt e at by (intro again) (simp_all add: purge_item_def)
    next
      case False
      obtain st' where r: "remove_slot (er_slot item) st = (True, st')" by (rule remove_slot_ok [OF inv e(1)])
      have "purge_item now max_items item (n, st) = (Suc n, count_expiration st')"
        using lt e at False r by (simp add: purge_item_def)
      then show thesis using removed [OF _ e(1,3) _ r] lt False by simp
    qed
  qed
qed

lemma purge_item_ok:
  assumes "purge_ok hf now max_items st0 c"
  shows "purge_ok hf now max_items st0 (purge_item now max_items item c)"
proof -
  obtain n st where c: "c = (n, st)" by (cases c)
  have inv: "cache_inv hf st" using assms by (simp add: purge_ok_def c)
  show ?thesis
  proof (rule purge_item_cases [OF inv, of max_items n now item])
    fix e st'
    assume *: "n < max_items" "entry_at (cs_slots st) (unat (er_slot item)) e"
      "en_expires_at_ms e = Some (er_expires_at_ms item)" "er_expires_at_ms item \<le> now"
      "remove_slot (er_slot item) st = (True, st')" "purge_item now max_items item (n, st) = (Suc n, count_expiration st')"
    obtain st1 where r: "remove_slot (er_slot item) st = (True, st1)" "cache_inv hf st1"
      "cache_abs st1 = (cache_abs st)(key_of (cs_arena st) e := None)" "cs_index_len st = Suc (cs_index_len st1)"
      by (rule remove_slot_ok [OF inv *(2)])
    have [simp]: "st' = st1" using r(1) *(5) by simp
    have "only_expired now (cache_abs st) (cache_abs st1)"
      using entry_abs [OF inv *(2)] *(3,4) r(3) by (auto simp: only_expired_def expired_at_def)
    then have "only_expired now (cache_abs st0) (cache_abs st1)"
      using assms only_expired_trans by (simp add: purge_ok_def c) blast
    then show ?thesis using assms *(1,6) r by (simp add: purge_ok_def c cache_len_def count_expiration_def)
  qed (use assms in \<open>simp_all add: purge_ok_def c cache_len_def\<close>)
qed

lemma fold_purge_ok:
  "purge_ok hf now max_items st0 c \<Longrightarrow> purge_ok hf now max_items st0 (fold (purge_item now max_items) items c)"
  by (induction items arbitrary: c) (simp_all add: purge_item_ok)

lemma purge_expired_ok:
  assumes "cache_inv hf st"
  shows "purge_ok hf now max_items st (purge_expired now max_items st)"
proof -
  obtain cs w where "drain_candidates now (cs_expiry st) = (cs, w)" by force
  moreover have "purge_ok hf now max_items st (0, st\<lparr>cs_expiry := w\<rparr>)"
    using assms by (simp add: purge_ok_def cache_len_def)
  ultimately show ?thesis by (simp add: purge_expired_def fold_purge_ok)
qed

text \<open>
  A purge is invisible. It keeps the invariant, it removes no more entries than its budget allows and reports how many,
  every entry it removes had expired, and for every key a reader at the time of the purge or later finds what the
  reader would have found without it.
\<close>

theorem purge_transparent:
  assumes "cache_inv hf st" "purge_expired now max_items st = (n, st')"
  shows "cache_inv hf st' \<and> n \<le> max_items \<and> cache_len st = n + cache_len st'
    \<and> (\<forall>k. cache_abs st' k = cache_abs st k \<or> cache_abs st' k = None \<and> expired_at now (the (cache_abs st k)))
    \<and> (\<forall>k later. now \<le> later \<longrightarrow> touch later k (cache_abs st') k = touch later k (cache_abs st) k)"
proof -
  have ok: "cache_inv hf st'" "only_expired now (cache_abs st) (cache_abs st')" "n + cache_len st' = cache_len st" "n \<le> max_items"
    using purge_expired_ok [OF assms(1), of now max_items] assms(2) by (simp_all add: purge_ok_def)
  have same: "cache_abs st' k = cache_abs st k \<or> cache_abs st' k = None \<and> (\<exists>w. cache_abs st k = Some w \<and> expired_at now w)" for k
    using ok(2) unfolding only_expired_def by blast
  have "touch later k (cache_abs st') k = touch later k (cache_abs st) k" if "now \<le> later" for k later
  proof -
    have "expired_at later w" if "expired_at now w" for w
      using that \<open>now \<le> later\<close> by (auto simp: expired_at_def split: option.splits)
    then show ?thesis using same [of k] by (cases "cache_abs st k") (auto simp: touch_def)
  qed
  moreover have "cache_abs st' k = cache_abs st k \<or> cache_abs st' k = None \<and> expired_at now (the (cache_abs st k))" for k
    using same [of k] by auto
  ultimately show ?thesis using ok by simp
qed

theorem purge_transparent_witness:
  "cache_inv (\<lambda>_. 7) CacheStore_new \<and> purge_expired 30 5 CacheStore_new
      = (0, CacheStore_new\<lparr>cs_expiry := (cs_expiry CacheStore_new)\<lparr>ew_last_tick := Some 3\<rparr>\<rparr>)
    \<and> cache_inv (\<lambda>_. 7) (CacheStore_new\<lparr>cs_expiry := (cs_expiry CacheStore_new)\<lparr>ew_last_tick := Some 3\<rparr>\<rparr>)"
proof -
  let ?st = "CacheStore_new\<lparr>cs_expiry := (cs_expiry CacheStore_new)\<lparr>ew_last_tick := Some 3\<rparr>\<rparr>"
  have run: "purge_expired 30 5 CacheStore_new = (0, ?st)"
    by (simp add: purge_expired_def CacheStore_new_def drain_candidates_def ExpirationWheel_new_def Let_def DEFAULT_WHEEL_TICK_MS_def)
  show ?thesis using run cache_inv_new purge_transparent [OF cache_inv_new run, of "\<lambda>_. 7"] by blast
qed

subsection \<open>The wheel\<close>

definition wheel_ok :: "ExpirationWheel \<Rightarrow> bool" where
  "wheel_ok w \<longleftrightarrow> ew_tick_ms w \<noteq> 0 \<and> 0 < length (ew_buckets w) \<and> length (ew_buckets w) < 2 ^ 64"

definition in_wheel :: "ExpirationRef \<Rightarrow> ExpirationWheel \<Rightarrow> bool" where
  "in_wheel r w \<longleftrightarrow> r \<in> set (ew_buckets w ! wheel_bucket w (er_expires_at_ms r))"






subsection \<open>Every entry with a deadline is in the wheel\<close>

definition entry_ref :: "EntrySlot list \<Rightarrow> nat \<Rightarrow> u64 \<Rightarrow> ExpirationRef" where
  "entry_ref slots i d = \<lparr>er_slot = of_nat i, er_generation = sl_generation (slots ! i), er_expires_at_ms = d\<rparr>"

lemma entry_ref_sel [simp]: "er_expires_at_ms (entry_ref slots i d) = d"
  by (simp add: entry_ref_def)

definition tracked :: "CacheStore \<Rightarrow> nat \<Rightarrow> u64 \<Rightarrow> bool" where
  "tracked st i d \<longleftrightarrow> in_wheel (entry_ref (cs_slots st) i d) (cs_expiry st)
     \<and> (case ew_last_tick (cs_expiry st) of None \<Rightarrow> False | Some t \<Rightarrow> t \<le> d div ew_tick_ms (cs_expiry st))"

definition clock_ok :: "u64 \<Rightarrow> ExpirationWheel \<Rightarrow> bool" where
  "clock_ok now w \<longleftrightarrow> wheel_ok w \<and> (case ew_last_tick w of None \<Rightarrow> True | Some t \<Rightarrow> t \<le> now div ew_tick_ms w)"

definition sched_ok :: "u64 \<Rightarrow> CacheStore \<Rightarrow> bool" where
  "sched_ok now st \<longleftrightarrow> clock_ok now (cs_expiry st)
     \<and> (\<forall>i e d. entry_at (cs_slots st) i e \<and> en_expires_at_ms e = Some d \<longrightarrow> tracked st i d)"









lemma sched_ignores [simp]: "sched_ok now (st\<lparr>cs_stats := x\<rparr>) = sched_ok now st" "sched_ok now (st\<lparr>cs_arena := a\<rparr>) = sched_ok now st"
  by (simp_all add: sched_ok_def tracked_def cong: option.case_cong)

lemma sched_counters [simp]: "sched_ok now (count_set st) = sched_ok now st" "sched_ok now (count_expiration st) = sched_ok now st"
  by (simp_all add: count_set_def count_expiration_def)

lemma sched_count_delete [simp]: "sched_ok now (snd (count_delete c)) = sched_ok now (snd c)"
  by (cases c) (simp add: count_delete_def)









subsection \<open>A purge with enough budget leaves nothing expired\<close>
















subsection \<open>A purge that runs out of budget\<close>















end
