(* ===== verification/Resp_Cache.thy ===== *)
theory Resp_Cache
  imports Cache_Spec
begin

text \<open>
  The command layer of \<open>src/runtime/resp_cache.rs\<close>: a frame parsed by the parser of \<open>Resp\<close> is executed on the store of
  \<open>Cache_Store\<close>, and the reply is appended to the output buffer. \<open>None\<close> is a panic: a full arena, or an \<open>expect\<close> on an
  argument that is missing.
\<close>

subsection \<open>Names and messages\<close>

definition bstr :: "string \<Rightarrow> bytes" where
  "bstr s = map of_char s"

definition to_ascii_lowercase :: "u8 \<Rightarrow> u8" where
  "to_ascii_lowercase b = (if 0x41 \<le> b \<and> b \<le> 0x5A then b + 0x20 else b)"

definition eq_ignore_ascii_case :: "bytes \<Rightarrow> bytes \<Rightarrow> bool" where
  "eq_ignore_ascii_case a b \<longleftrightarrow> map to_ascii_lowercase a = map to_ascii_lowercase b"

definition ERR_INTEGER :: bytes where "ERR_INTEGER = bstr ''ERR value is not an integer or out of range''"
definition ERR_SYNTAX :: bytes where "ERR_SYNTAX = bstr ''ERR syntax error''"
definition ERR_SET_EXPIRE :: bytes where
  "ERR_SET_EXPIRE = bstr ''ERR invalid expire time in '' @ [0x27] @ bstr ''set'' @ [0x27] @ bstr '' command''"
definition ERR_CROSS_SLOT :: bytes where
  "ERR_CROSS_SLOT = bstr ''CROSSSLOT Keys in request don'' @ [0x27] @ bstr ''t hash to the same slot''"
definition ERR_UNKNOWN :: bytes where "ERR_UNKNOWN = bstr ''ERR unknown command''"

definition wrong_arity :: "bytes \<Rightarrow> bytes \<Rightarrow> bytes" where
  "wrong_arity command out = out @ bstr ''-ERR wrong number of arguments for '' @ [0x27] @ command @ [0x27] @ bstr '' command'' @ [CR, LF]"

fun write_value :: "CacheValueView option \<Rightarrow> bytes \<Rightarrow> bytes" where
  "write_value (Some (ViewBytes v)) out = write_bulk v out"
| "write_value (Some (ViewInteger v)) out = write_bulk_integer v out"
| "write_value None out = write_null_bulk out"

subsection \<open>Slots\<close>

datatype RespCommandSlot = Unkeyed | Slot u16 | CrossSlot

definition same_slot :: "bytes list \<Rightarrow> bool" where
  "same_slot keys = (case keys of [] \<Rightarrow> True | first # rest \<Rightarrow> list_all (\<lambda>key. redis_slot key = redis_slot first) rest)"

text \<open>The loops over keys and values: a value is skipped after each key.\<close>

fun pairs_in_slot :: "u16 \<Rightarrow> bytes list \<Rightarrow> bool" where
  "pairs_in_slot slot [] \<longleftrightarrow> True"
| "pairs_in_slot slot (key # rest) \<longleftrightarrow> redis_slot key = slot \<and> pairs_in_slot slot (drop 1 rest)"

definition same_slot_pairs :: "bytes list \<Rightarrow> bool" where
  "same_slot_pairs as = (case as of [] \<Rightarrow> True | key # rest \<Rightarrow> pairs_in_slot (redis_slot key) (drop 1 rest))"

definition route_key_args :: "bytes list \<Rightarrow> RespCommandSlot" where
  "route_key_args keys = (case keys of [] \<Rightarrow> Unkeyed
     | first # rest \<Rightarrow> if list_all (\<lambda>key. redis_slot key = redis_slot first) rest then Slot (redis_slot first) else CrossSlot)"

definition route_key_value_args :: "bytes list \<Rightarrow> RespCommandSlot" where
  "route_key_value_args as = (case as of [] \<Rightarrow> Unkeyed
     | key # rest \<Rightarrow> if pairs_in_slot (redis_slot key) (drop 1 rest) then Slot (redis_slot key) else CrossSlot)"

definition command_slot :: "RespCommand \<Rightarrow> RespCommandSlot option" where
  "command_slot c =
     (let name = rc_name c; is = (\<lambda>s. eq_ignore_ascii_case name (bstr s));
          first = (case args c of [] \<Rightarrow> None | key # _ \<Rightarrow> Some (Slot (redis_slot key))) in
      if is ''GET'' \<or> is ''INCR'' \<or> is ''TTL'' then if rc_argc c = 1 then first else Some Unkeyed
      else if is ''SET'' then if rc_argc c = 2 \<or> rc_argc c = 4 then first else Some Unkeyed
      else if is ''EXPIRE'' then if rc_argc c = 2 then first else Some Unkeyed
      else if is ''DEL'' \<or> is ''EXISTS'' \<or> is ''MGET'' then Some (if rc_argc c = 0 then Unkeyed else route_key_args (args c))
      else if is ''MSET'' then Some (if rc_argc c = 0 \<or> rc_argc c mod 2 \<noteq> 0 then Unkeyed else route_key_value_args (args c))
      else Some Unkeyed)"

subsection \<open>Commands\<close>

type_synonym exec = "(CacheStore \<times> bytes) option"

definition checked_mul :: "u64 \<Rightarrow> u64 \<Rightarrow> u64 option" where
  "checked_mul a b = (if unat a * unat b < 2 ^ 64 then Some (a * b) else None)"

definition execute_ping :: "CacheStore \<Rightarrow> RespCommand \<Rightarrow> bytes \<Rightarrow> exec" where
  "execute_ping st c out =
     (if rc_argc c = 0 then Some (st, write_simple (bstr ''PONG'') out)
      else if rc_argc c = 1 then (case args c of v # _ \<Rightarrow> Some (st, write_bulk v out) | [] \<Rightarrow> None)
      else Some (st, wrong_arity (bstr ''ping'') out))"

definition execute_get :: "(bytes \<Rightarrow> u64) \<Rightarrow> CacheStore \<Rightarrow> RespCommand \<Rightarrow> u64 \<Rightarrow> bytes \<Rightarrow> exec" where
  "execute_get hf st c now out =
     (if rc_argc c \<noteq> 1 then Some (st, wrong_arity (bstr ''get'') out)
      else case args c of
        key # _ \<Rightarrow> (case cache_get hf key now st of (v, st') \<Rightarrow> Some (st', write_value v out))
      | [] \<Rightarrow> None)"

text \<open>The expiration options of \<open>SET\<close>: the milliseconds, or the error to answer.\<close>

definition set_ttl :: "bytes \<Rightarrow> bytes \<Rightarrow> bytes + u64" where
  "set_ttl option raw_ttl =
     (case parse_i64 raw_ttl of
        None \<Rightarrow> Inl ERR_INTEGER
      | Some amount \<Rightarrow>
          if amount \<le> 0 then Inl ERR_SET_EXPIRE
          else if eq_ignore_ascii_case option (bstr ''PX'') then Inr (of_int amount)
          else if eq_ignore_ascii_case option (bstr ''EX'') then
            (case checked_mul (of_int amount) 1000 of None \<Rightarrow> Inl ERR_SET_EXPIRE | Some ms \<Rightarrow> Inr ms)
          else Inl ERR_SYNTAX)"

definition execute_set :: "(bytes \<Rightarrow> u64) \<Rightarrow> CacheStore \<Rightarrow> RespCommand \<Rightarrow> u64 \<Rightarrow> bytes \<Rightarrow> exec" where
  "execute_set hf st c now out =
     (if rc_argc c \<noteq> 2 \<and> rc_argc c \<noteq> 4 then Some (st, wrong_arity (bstr ''set'') out)
      else case args c of
        key # v # rest \<Rightarrow>
          (case (if rc_argc c = 4 then (case rest of option # raw_ttl # _ \<Rightarrow> Some (map_sum id Some (set_ttl option raw_ttl)) | _ \<Rightarrow> None)
                 else Some (Inr None)) of
             None \<Rightarrow> None
           | Some (Inl e) \<Rightarrow> Some (st, write_error e out)
           | Some (Inr ttl_ms) \<Rightarrow> map_option (\<lambda>st'. (st', write_simple (bstr ''OK'') out)) (set_bytes hf key v ttl_ms now st))
      | _ \<Rightarrow> None)"

definition execute_del :: "(bytes \<Rightarrow> u64) \<Rightarrow> CacheStore \<Rightarrow> RespCommand \<Rightarrow> u64 \<Rightarrow> bytes \<Rightarrow> exec" where
  "execute_del hf st c now out =
     (if rc_argc c = 0 then Some (st, wrong_arity (bstr ''del'') out)
      else if \<not> same_slot (args c) then Some (st, write_error ERR_CROSS_SLOT out)
      else case fold (\<lambda>key (deleted, st). case cache_delete_at hf key now st of (b, st') \<Rightarrow> (if b then deleted + 1 else deleted, st'))
             (args c) (0 :: int, st) of
        (deleted, st') \<Rightarrow> Some (st', write_integer deleted out))"

definition execute_exists :: "(bytes \<Rightarrow> u64) \<Rightarrow> CacheStore \<Rightarrow> RespCommand \<Rightarrow> u64 \<Rightarrow> bytes \<Rightarrow> exec" where
  "execute_exists hf st c now out =
     (if rc_argc c = 0 then Some (st, wrong_arity (bstr ''exists'') out)
      else if \<not> same_slot (args c) then Some (st, write_error ERR_CROSS_SLOT out)
      else case fold (\<lambda>key (found, st). case cache_exists hf key now st of (b, st') \<Rightarrow> (if b then found + 1 else found, st'))
             (args c) (0 :: int, st) of
        (found, st') \<Rightarrow> Some (st', write_integer found out))"

definition execute_incr :: "(bytes \<Rightarrow> u64) \<Rightarrow> CacheStore \<Rightarrow> RespCommand \<Rightarrow> u64 \<Rightarrow> bytes \<Rightarrow> exec" where
  "execute_incr hf st c now out =
     (if rc_argc c \<noteq> 1 then Some (st, wrong_arity (bstr ''incr'') out)
      else case args c of
        key # _ \<Rightarrow> map_option (\<lambda>(r, st'). (st', case r of Inr v \<Rightarrow> write_integer v out | Inl _ \<Rightarrow> write_error ERR_INTEGER out))
                     (increment hf key 1 now st)
      | [] \<Rightarrow> None)"

definition execute_expire :: "(bytes \<Rightarrow> u64) \<Rightarrow> CacheStore \<Rightarrow> RespCommand \<Rightarrow> u64 \<Rightarrow> bytes \<Rightarrow> exec" where
  "execute_expire hf st c now out =
     (if rc_argc c \<noteq> 2 then Some (st, wrong_arity (bstr ''expire'') out)
      else case args c of
        key # raw # _ \<Rightarrow>
          (case parse_i64 raw of
             None \<Rightarrow> Some (st, write_error ERR_INTEGER out)
           | Some seconds \<Rightarrow>
               (case (if seconds \<le> 0 then Some (cache_delete_at hf key now st)
                      else map_option (\<lambda>ttl_ms. expire_ms hf key ttl_ms now st) (checked_mul (of_int seconds) 1000)) of
                  None \<Rightarrow> Some (st, write_error ERR_INTEGER out)
                | Some (changed, st') \<Rightarrow> Some (st', write_integer (if changed then 1 else 0) out)))
      | _ \<Rightarrow> None)"

definition execute_ttl :: "(bytes \<Rightarrow> u64) \<Rightarrow> CacheStore \<Rightarrow> RespCommand \<Rightarrow> u64 \<Rightarrow> bytes \<Rightarrow> exec" where
  "execute_ttl hf st c now out =
     (if rc_argc c \<noteq> 1 then Some (st, wrong_arity (bstr ''ttl'') out)
      else case args c of
        key # _ \<Rightarrow>
          (case cache_ttl hf key now st of
             (t, st') \<Rightarrow> Some (st', write_integer
               (case t of TtlMissing \<Rightarrow> - 2 | TtlPersistent \<Rightarrow> - 1 | TtlRemainingMs ms \<Rightarrow> sint (ms div 1000)) out))
      | [] \<Rightarrow> None)"

definition execute_mget :: "(bytes \<Rightarrow> u64) \<Rightarrow> CacheStore \<Rightarrow> RespCommand \<Rightarrow> u64 \<Rightarrow> bytes \<Rightarrow> exec" where
  "execute_mget hf st c now out =
     (if rc_argc c = 0 then Some (st, wrong_arity (bstr ''mget'') out)
      else if \<not> same_slot (args c) then Some (st, write_error ERR_CROSS_SLOT out)
      else Some (fold (\<lambda>key (st, out). case cache_get hf key now st of (v, st') \<Rightarrow> (st', write_value v out))
             (args c) (st, write_array_len (rc_argc c) out)))"

fun mset_loop :: "(bytes \<Rightarrow> u64) \<Rightarrow> u64 \<Rightarrow> bytes list \<Rightarrow> CacheStore \<Rightarrow> CacheStore option" where
  "mset_loop hf now (key # v # rest) st = Option.bind (set_bytes hf key v None now st) (mset_loop hf now rest)"
| "mset_loop hf now [key] st = None"
| "mset_loop hf now [] st = Some st"

definition execute_mset :: "(bytes \<Rightarrow> u64) \<Rightarrow> CacheStore \<Rightarrow> RespCommand \<Rightarrow> u64 \<Rightarrow> bytes \<Rightarrow> exec" where
  "execute_mset hf st c now out =
     (if rc_argc c = 0 \<or> rc_argc c mod 2 \<noteq> 0 then Some (st, wrong_arity (bstr ''mset'') out)
      else if \<not> same_slot_pairs (args c) then Some (st, write_error ERR_CROSS_SLOT out)
      else map_option (\<lambda>st'. (st', write_simple (bstr ''OK'') out)) (mset_loop hf now (args c) st))"

definition execute_command :: "(bytes \<Rightarrow> u64) \<Rightarrow> CacheStore \<Rightarrow> RespCommand \<Rightarrow> u64 \<Rightarrow> bytes \<Rightarrow> exec" where
  "execute_command hf st c now out =
     (let is = (\<lambda>s. eq_ignore_ascii_case (rc_name c) (bstr s)) in
      if is ''PING'' then execute_ping st c out
      else if is ''GET'' then execute_get hf st c now out
      else if is ''SET'' then execute_set hf st c now out
      else if is ''DEL'' then execute_del hf st c now out
      else if is ''EXISTS'' then execute_exists hf st c now out
      else if is ''INCR'' then execute_incr hf st c now out
      else if is ''EXPIRE'' then execute_expire hf st c now out
      else if is ''TTL'' then execute_ttl hf st c now out
      else if is ''MGET'' then execute_mget hf st c now out
      else if is ''MSET'' then execute_mset hf st c now out
      else Some (st, write_error ERR_UNKNOWN out))"

text \<open>The result of a frame: a protocol error, or the number of bytes consumed, if the frame is complete.\<close>

definition execute_frame :: "(bytes \<Rightarrow> u64) \<Rightarrow> CacheStore \<Rightarrow> bytes \<Rightarrow> u64 \<Rightarrow> bytes
    \<Rightarrow> ((RespParseError + nat option) \<times> CacheStore \<times> bytes) option" where
  "execute_frame hf st input now out =
     (case parse_command input of
        Inl e \<Rightarrow> Some (Inl e, st, out)
      | Inr None \<Rightarrow> Some (Inr None, st, out)
      | Inr (Some (c, consumed)) \<Rightarrow>
          map_option (\<lambda>(st', out'). (Inr (Some consumed), st', out')) (execute_command hf st c now out))"

subsection \<open>The contract\<close>

text \<open>
  What a client sees: the entries that are not expired. Each command is a function on that map that gives the reply and the
  map after it.
\<close>

definition visible :: "u64 \<Rightarrow> cache_map \<Rightarrow> cache_map" where
  "visible now m = (\<lambda>k. touch now k m k)"

definition arity_reply :: "string \<Rightarrow> cache_map \<Rightarrow> bytes \<times> cache_map" where
  "arity_reply s M = (wrong_arity (bstr s) [], M)"

definition ok_reply :: "cache_map \<Rightarrow> bytes \<times> cache_map" where
  "ok_reply M = (write_simple (bstr ''OK'') [], M)"

definition error_reply :: "bytes \<Rightarrow> cache_map \<Rightarrow> bytes \<times> cache_map" where
  "error_reply e M = (write_error e [], M)"

definition int_reply :: "int \<Rightarrow> cache_map \<Rightarrow> bytes \<times> cache_map" where
  "int_reply n M = (write_integer n [], M)"

definition ping_spec :: "bytes list \<Rightarrow> cache_map \<Rightarrow> bytes \<times> cache_map" where
  "ping_spec vs M = (case vs of [] \<Rightarrow> (write_simple (bstr ''PONG'') [], M) | [v] \<Rightarrow> (write_bulk v [], M) | _ \<Rightarrow> arity_reply ''ping'' M)"

definition get_spec :: "bytes list \<Rightarrow> cache_map \<Rightarrow> bytes \<times> cache_map" where
  "get_spec vs M = (case vs of [k] \<Rightarrow> (write_value (map_option fst (M k)) [], M) | _ \<Rightarrow> arity_reply ''get'' M)"

definition set_spec :: "bytes list \<Rightarrow> u64 \<Rightarrow> cache_map \<Rightarrow> bytes \<times> cache_map" where
  "set_spec vs now M =
     (case vs of
        [k, v] \<Rightarrow> ok_reply (M(k \<mapsto> (ViewBytes v, None)))
      | [k, v, option, raw] \<Rightarrow>
          (case set_ttl option raw of
             Inl e \<Rightarrow> error_reply e M
           | Inr ms \<Rightarrow> ok_reply (M(k \<mapsto> (ViewBytes v, Some (saturating_add now ms)))))
      | _ \<Rightarrow> arity_reply ''set'' M)"

definition del_spec :: "bytes list \<Rightarrow> cache_map \<Rightarrow> bytes \<times> cache_map" where
  "del_spec vs M =
     (if vs = [] then arity_reply ''del'' M else if \<not> same_slot vs then error_reply ERR_CROSS_SLOT M
      else int_reply (int (card (set vs \<inter> dom M))) (M |` (- set vs)))"

definition exists_spec :: "bytes list \<Rightarrow> cache_map \<Rightarrow> bytes \<times> cache_map" where
  "exists_spec vs M =
     (if vs = [] then arity_reply ''exists'' M else if \<not> same_slot vs then error_reply ERR_CROSS_SLOT M
      else int_reply (int (length (filter (\<lambda>k. M k \<noteq> None) vs))) M)"

definition incr_spec :: "bytes list \<Rightarrow> cache_map \<Rightarrow> bytes \<times> cache_map" where
  "incr_spec vs M =
     (case vs of
        [k] \<Rightarrow> (case increment_spec k 1 M of (Inr n, M') \<Rightarrow> int_reply n M' | (Inl _, M') \<Rightarrow> error_reply ERR_INTEGER M')
      | _ \<Rightarrow> arity_reply ''incr'' M)"

definition expire_cmd_spec :: "bytes list \<Rightarrow> u64 \<Rightarrow> cache_map \<Rightarrow> bytes \<times> cache_map" where
  "expire_cmd_spec vs now M =
     (case vs of
        [k, raw] \<Rightarrow>
          (case parse_i64 raw of
             None \<Rightarrow> error_reply ERR_INTEGER M
           | Some seconds \<Rightarrow>
               if seconds \<le> 0 then int_reply (if M k = None then 0 else 1) (M(k := None))
               else case checked_mul (of_int seconds) 1000 of
                 None \<Rightarrow> error_reply ERR_INTEGER M
               | Some ms \<Rightarrow>
                   (case M k of None \<Rightarrow> int_reply 0 M | Some (v, _) \<Rightarrow> int_reply 1 (M(k \<mapsto> (v, Some (saturating_add now ms))))))
      | _ \<Rightarrow> arity_reply ''expire'' M)"

definition ttl_cmd_spec :: "bytes list \<Rightarrow> u64 \<Rightarrow> cache_map \<Rightarrow> bytes \<times> cache_map" where
  "ttl_cmd_spec vs now M =
     (case vs of
        [k] \<Rightarrow> int_reply (case M k of None \<Rightarrow> - 2 | Some (_, None) \<Rightarrow> - 1 | Some (_, Some deadline) \<Rightarrow> uint (deadline - now) div 1000) M
      | _ \<Rightarrow> arity_reply ''ttl'' M)"

definition mget_spec :: "bytes list \<Rightarrow> cache_map \<Rightarrow> bytes \<times> cache_map" where
  "mget_spec vs M =
     (if vs = [] then arity_reply ''mget'' M else if \<not> same_slot vs then error_reply ERR_CROSS_SLOT M
      else (write_array_len (length vs) [] @ concat (map (\<lambda>k. write_value (map_option fst (M k)) []) vs), M))"

fun put_pairs :: "bytes list \<Rightarrow> cache_map \<Rightarrow> cache_map" where
  "put_pairs (k # v # rest) M = put_pairs rest (M(k \<mapsto> (ViewBytes v, None)))"
| "put_pairs _ M = M"

definition mset_spec :: "bytes list \<Rightarrow> cache_map \<Rightarrow> bytes \<times> cache_map" where
  "mset_spec vs M =
     (if vs = [] \<or> odd (length vs) then arity_reply ''mset'' M else if \<not> same_slot_pairs vs then error_reply ERR_CROSS_SLOT M
      else ok_reply (put_pairs vs M))"

definition redis_spec :: "bytes \<Rightarrow> bytes list \<Rightarrow> u64 \<Rightarrow> cache_map \<Rightarrow> bytes \<times> cache_map" where
  "redis_spec name vs now M =
     (let is = (\<lambda>s. eq_ignore_ascii_case name (bstr s)) in
      if is ''PING'' then ping_spec vs M
      else if is ''GET'' then get_spec vs M
      else if is ''SET'' then set_spec vs now M
      else if is ''DEL'' then del_spec vs M
      else if is ''EXISTS'' then exists_spec vs M
      else if is ''INCR'' then incr_spec vs M
      else if is ''EXPIRE'' then expire_cmd_spec vs now M
      else if is ''TTL'' then ttl_cmd_spec vs now M
      else if is ''MGET'' then mget_spec vs M
      else if is ''MSET'' then mset_spec vs M
      else error_reply ERR_UNKNOWN M)"

subsection \<open>Replies are appended\<close>

lemma write_u64_append: "write_u64_decimal v out = out @ write_u64_decimal v []"
  by (simp add: write_u64_decimal_def)

lemma writers_append:
  "write_simple v out = out @ write_simple v []" "write_error v out = out @ write_error v []"
  "write_integer n out = out @ write_integer n []" "write_bulk v out = out @ write_bulk v []"
  "write_bulk_integer n out = out @ write_bulk_integer n []" "write_null_bulk out = out @ write_null_bulk []"
  "write_array_len k out = out @ write_array_len k []" "wrong_arity c out = out @ wrong_arity c []"
  using write_u64_append [of "of_nat (length v)" "out @ [0x24]"] write_u64_append [of "of_nat (length v)" "[0x24]"]
    write_u64_append [of "of_nat (length (encode_i64_decimal n))" "out @ [0x24]"] write_u64_append [of "of_nat (length (encode_i64_decimal n))" "[0x24]"]
    write_u64_append [of "of_nat k" "out @ [0x2A]"] write_u64_append [of "of_nat k" "[0x2A]"]
  by (simp_all add: write_simple_def write_error_def write_integer_def write_i64_decimal_def write_bulk_def write_bulk_integer_def
      write_null_bulk_def write_array_len_def wrong_arity_def Let_def)

lemma write_value_append: "write_value v out = out @ write_value v []"
proof (cases v)
  case None
  then show ?thesis using writers_append(6) [of out] by simp
next
  case (Some w)
  then show ?thesis using writers_append(4) [of _ out] writers_append(5) [of _ out] by (cases w) auto
qed

subsection \<open>What is visible\<close>

lemma visible_alt: "visible now m k = (case m k of None \<Rightarrow> None | Some w \<Rightarrow> if expired_at now w then None else Some w)"
  by (simp add: visible_def touch_def split: option.split)

lemma visible_touch [simp]: "visible now (touch now k m) = visible now m"
  by (auto simp: visible_alt touch_def fun_eq_iff split: option.split)

lemma touch_at: "touch now k m k = visible now m k"
  by (simp add: visible_def)

lemma visible_delete [simp]: "visible now (m(k := None)) = (visible now m)(k := None)"
  by (auto simp: visible_alt fun_eq_iff)

lemma visible_update: "\<not> expired_at now w \<Longrightarrow> visible now (m(k \<mapsto> w)) = (visible now m)(k \<mapsto> w)"
  by (auto simp: visible_alt fun_eq_iff)

lemma visible_live: "visible now m k = Some w \<Longrightarrow> \<not> expired_at now w"
  by (auto simp: visible_alt split: option.splits if_splits)

lemma deadline_live:
  assumes "now \<noteq> - 1" "ms \<noteq> 0"
  shows "\<not> expired_at now (v, Some (saturating_add now ms))"
proof -
  have now: "now < - 1" using assms(1) word_order.not_eq_extremum by blast
  have "0 < unat ms" using assms(2) by (simp add: unat_gt_0)
  then have "now < saturating_add now ms"
    using now by (auto simp: saturating_add_def word_less_nat_alt unat_word_ariths)
  then show ?thesis by (simp add: expired_at_def)
qed

lemma no_deadline_live [simp]: "\<not> expired_at now (v, None)"
  by (simp add: expired_at_def)

lemma expired_at_deadline: "expired_at now (v, x) = expired_at now (v', x)"
  by (simp add: expired_at_def)

lemma increment_visible:
  "map_prod id (visible now) (increment_spec k d (touch now k m)) = increment_spec k d (visible now m)"
proof (cases "visible now m k")
  case None
  then show ?thesis by (simp add: increment_spec_def touch_at visible_update)
next
  case (Some w)
  obtain v x where w: "w = (v, x)" by (cases w)
  have "\<not> expired_at now (ViewInteger n, x)" for n
    using visible_live [OF Some] expired_at_deadline [of now v x] by (simp add: w)
  then show ?thesis using Some w by (simp add: increment_spec_def touch_at visible_update split: option.split)
qed

lemma expire_visible:
  assumes "now \<noteq> - 1" "ms \<noteq> 0"
  shows "map_prod id (visible now) (expire_spec k ms now (touch now k m)) =
    (case visible now m k of None \<Rightarrow> (False, visible now m) | Some (v, _) \<Rightarrow> (True, (visible now m)(k \<mapsto> (v, Some (saturating_add now ms)))))"
  using assms(2) by (simp add: expire_spec_def touch_at visible_update deadline_live [OF assms] split: option.split)

subsection \<open>Every command answers as its contract says\<close>

definition answers :: "(bytes \<Rightarrow> u64) \<Rightarrow> u64 \<Rightarrow> bytes \<Rightarrow> exec \<Rightarrow> bytes \<times> cache_map \<Rightarrow> bool" where
  "answers hf now out res spec \<longleftrightarrow> (\<exists>st. res = Some (st, out @ fst spec) \<and> cache_inv hf st \<and> visible now (cache_abs st) = snd spec)"

lemmas reply_defs = arity_reply_def ok_reply_def error_reply_def int_reply_def

lemma answers_same:
  assumes "cache_inv hf st"
  shows "answers hf now out (Some (st, wrong_arity (bstr s) out)) (arity_reply s (visible now (cache_abs st)))"
    "answers hf now out (Some (st, write_error e out)) (error_reply e (visible now (cache_abs st)))"
    "answers hf now out (Some (st, write_simple v out)) (write_simple v [], visible now (cache_abs st))"
    "answers hf now out (Some (st, write_bulk v out)) (write_bulk v [], visible now (cache_abs st))"
  using assms writers_append(8) [of "bstr s" out] writers_append(2) [of e out] writers_append(1,4) [of v out]
  by (auto simp: answers_def reply_defs)

definition room :: "bytes list \<Rightarrow> CacheStore \<Rightarrow> bool" where
  "room vs st \<longleftrightarrow> length (cs_slots st) + length vs < 2 ^ 32 - 2 \<and> (\<forall>v \<in> set vs. length v \<le> 2 ^ 30)
     \<and> length (ba_bytes (cs_arena st)) + (\<Sum>v \<leftarrow> vs. 2 * max (length v) 32) \<le> 2 ^ 32 - 1"

lemma ping_answers:
  assumes "cache_inv hf st" "args c = vs" "rc_argc c = length vs"
  shows "answers hf now out (execute_ping st c out) (ping_spec vs (visible now (cache_abs st)))"
  using assms answers_same [OF assms(1), of now out]
  by (cases vs rule: remdups_adj.cases) (auto simp: execute_ping_def ping_spec_def)

lemma get_visible:
  assumes "cache_inv hf st" "cache_get hf k now st = (v, st')"
  shows "v = map_option fst (visible now (cache_abs st) k)" "cache_inv hf st'" "visible now (cache_abs st') = visible now (cache_abs st)"
  using cache_get_ok [OF assms(1), of k now] assms(2) by (simp_all add: refines_step_def touch_at)

lemma get_answers:
  assumes "cache_inv hf st" "args c = vs" "rc_argc c = length vs"
  shows "answers hf now out (execute_get hf st c now out) (get_spec vs (visible now (cache_abs st)))"
proof (cases vs rule: remdups_adj.cases)
  case (2 k)
  obtain v st' where g: "cache_get hf k now st = (v, st')" by (rule prod.exhaust)
  then show ?thesis using 2 assms get_visible [OF assms(1) g] write_value_append [of v out]
    by (auto simp: execute_get_def get_spec_def answers_def)
qed (use assms answers_same [OF assms(1), of now out] in \<open>auto simp: execute_get_def get_spec_def\<close>)

lemma parse_i64_range: "parse_i64 bs = Some n \<Longrightarrow> n \<le> i64_max"
  by (auto simp: parse_i64_def checked_i64_def split: list.splits if_splits bind_splits)

lemma of_int_positive: "\<lbrakk>0 < n; n \<le> i64_max\<rbrakk> \<Longrightarrow> (of_int n :: u64) \<noteq> 0"
  by (auto simp: word_of_int_eq_0_iff i64_max_def dest: zdvd_imp_le)

lemma checked_mul_positive: "\<lbrakk>checked_mul a b = Some ms; a \<noteq> 0; b \<noteq> 0\<rbrakk> \<Longrightarrow> ms \<noteq> 0"
proof -
  assume a: "checked_mul a b = Some ms" "a \<noteq> 0" "b \<noteq> 0"
  then have "unat ms = unat a * unat b" by (auto simp: checked_mul_def unat_word_ariths split: if_splits)
  with a(2,3) show ?thesis by (metis mult_eq_0_iff unat_eq_zero)
qed

lemma set_ttl_positive: "set_ttl option raw = Inr ms \<Longrightarrow> ms \<noteq> 0"
  using checked_mul_positive [of _ 1000 ms] of_int_positive parse_i64_range [of raw]
  by (fastforce simp: set_ttl_def not_le split: option.splits if_splits)

lemma set_bytes_visible:
  assumes "cache_inv hf st" "room (k # v # vs) st" "ttl = None \<or> now \<noteq> - 1 \<and> ttl \<noteq> Some 0"
  obtains st' where "set_bytes hf k v ttl now st = Some st'" "cache_inv hf st'"
    "visible now (cache_abs st') = (visible now (cache_abs st))(k \<mapsto> (ViewBytes v, map_option (saturating_add now) ttl))"
proof -
  have "has_room [length v, length k] st" using assms(2) by (simp add: room_def has_room_def)
  then obtain st' where st': "set_bytes hf k v ttl now st = Some st'"
    "refines_step hf ((), st') ((), (cache_abs st)(k \<mapsto> (ViewBytes v, map_option (saturating_add now) ttl)))"
    by (rule set_bytes_ok [OF assms(1)])
  have "\<not> expired_at now (ViewBytes v, map_option (saturating_add now) ttl)"
    using assms(3) deadline_live by (cases ttl) auto
  with st' that show thesis by (simp add: refines_step_def visible_update)
qed

lemma set_answers:
  assumes inv: "cache_inv hf st" and c: "args c = vs" "rc_argc c = length vs" and r: "room vs st" and now: "now \<noteq> - 1"
  shows "answers hf now out (execute_set hf st c now out) (set_spec vs now (visible now (cache_abs st)))"
proof -
  have stored: "answers hf now out (map_option (\<lambda>st'. (st', write_simple (bstr ''OK'') out)) (set_bytes hf k v ttl now st))
      (ok_reply ((visible now (cache_abs st))(k \<mapsto> (ViewBytes v, map_option (saturating_add now) ttl))))"
    if a: "room (k # v # ws) st" "ttl \<noteq> Some 0" for k v ws ttl
  proof -
    obtain st' where "set_bytes hf k v ttl now st = Some st'" "cache_inv hf st'"
      "visible now (cache_abs st') = (visible now (cache_abs st))(k \<mapsto> (ViewBytes v, map_option (saturating_add now) ttl))"
      by (rule set_bytes_visible [OF inv a(1)]) (use now a(2) in auto)
    then show ?thesis using writers_append(1) [of "bstr ''OK''" out] by (simp add: answers_def ok_reply_def)
  qed
  consider k v where "vs = [k, v]" | k v option raw where "vs = [k, v, option, raw]" | "length vs \<noteq> 2" "length vs \<noteq> 4"
    by (cases vs rule: remdups_adj.cases) (auto simp: length_Suc_conv numeral_eq_Suc)
  then show ?thesis
  proof cases
    case (1 k v)
    then show ?thesis using stored [of k v "[]" None] r c by (simp add: execute_set_def set_spec_def)
  next
    case (2 k v option raw)
    show ?thesis
    proof (cases "set_ttl option raw")
      case (Inl e)
      then show ?thesis using 2 c answers_same(2) [OF inv] by (simp add: execute_set_def set_spec_def)
    next
      case (Inr ms)
      then show ?thesis using 2 c r stored [of k v "[option, raw]" "Some ms"] set_ttl_positive [OF Inr]
        by (simp add: execute_set_def set_spec_def)
    qed
  next
    case 3
    then have "set_spec vs now M = arity_reply ''set'' M" for M by (auto simp: set_spec_def split: list.split)
    then show ?thesis using 3 c answers_same(1) [OF inv] by (simp add: execute_set_def)
  qed
qed

lemma delete_visible:
  assumes "cache_inv hf st" "cache_delete_at hf k now st = (b, st')"
  shows "b \<longleftrightarrow> visible now (cache_abs st) k \<noteq> None" "cache_inv hf st'" "visible now (cache_abs st') = (visible now (cache_abs st))(k := None)"
  using cache_delete_at_ok [OF assms(1), of k now] assms(2) by (simp_all add: refines_step_def touch_at)

lemma delete_loop:
  assumes "cache_inv hf st"
  obtains st' where "fold (\<lambda>key (deleted, st). case cache_delete_at hf key now st of (b, st') \<Rightarrow> (if b then deleted + 1 else deleted, st')) vs (n, st)
      = (n + int (card (set vs \<inter> dom (visible now (cache_abs st)))), st')" "cache_inv hf st'"
    "visible now (cache_abs st') = visible now (cache_abs st) |` (- set vs)"
  using assms
proof (induction vs arbitrary: n st thesis)
  case (Cons k vs)
  obtain b st1 where d: "cache_delete_at hf k now st = (b, st1)" by (rule prod.exhaust)
  note v = delete_visible [OF Cons.prems(2) d]
  let ?M = "visible now (cache_abs st)" and ?n = "if b then n + 1 else n"
  obtain st2 where s: "fold (\<lambda>key (deleted, st). case cache_delete_at hf key now st of (b, st') \<Rightarrow> (if b then deleted + 1 else deleted, st')) vs (?n, st1)
      = (?n + int (card (set vs \<inter> dom (visible now (cache_abs st1)))), st2)" "cache_inv hf st2"
    "visible now (cache_abs st2) = visible now (cache_abs st1) |` (- set vs)" using Cons.IH [OF _ v(2)] by blast
  have "set (k # vs) \<inter> dom ?M = (if ?M k \<noteq> None then insert k else id) (set vs \<inter> dom (?M(k := None)))" by auto
  then have "int (card (set (k # vs) \<inter> dom ?M)) = (if b then 1 else 0) + int (card (set vs \<inter> dom (?M(k := None))))"
    using v(1) by simp
  moreover have "?M(k := None) |` (- set vs) = ?M |` (- set (k # vs))" by (auto simp: restrict_map_def fun_eq_iff)
  ultimately show ?case using Cons.prems(1) [of st2] s d v(3) by simp
qed (simp add: restrict_map_def)

lemma del_answers:
  assumes "cache_inv hf st" "args c = vs" "rc_argc c = length vs"
  shows "answers hf now out (execute_del hf st c now out) (del_spec vs (visible now (cache_abs st)))"
proof (cases "vs = [] \<or> \<not> same_slot vs")
  case True
  then show ?thesis using assms answers_same [OF assms(1), of now out] by (auto simp: execute_del_def del_spec_def)
next
  case False
  obtain st' where "fold (\<lambda>key (deleted, st). case cache_delete_at hf key now st of (b, st') \<Rightarrow> (if b then deleted + 1 else deleted, st')) vs (0, st)
      = (0 + int (card (set vs \<inter> dom (visible now (cache_abs st)))), st')" "cache_inv hf st'"
    "visible now (cache_abs st') = visible now (cache_abs st) |` (- set vs)" by (rule delete_loop [OF assms(1)])
  then show ?thesis using False assms writers_append(3) [of _ out] by (simp add: execute_del_def del_spec_def answers_def int_reply_def)
qed

lemma exists_visible:
  assumes "cache_inv hf st" "cache_exists hf k now st = (b, st')"
  shows "b \<longleftrightarrow> visible now (cache_abs st) k \<noteq> None" "cache_inv hf st'" "visible now (cache_abs st') = visible now (cache_abs st)"
  using cache_exists_ok [OF assms(1), of k now] assms(2) by (simp_all add: refines_step_def touch_at)

lemma exists_loop:
  assumes "cache_inv hf st"
  obtains st' where "fold (\<lambda>key (found, st). case cache_exists hf key now st of (b, st') \<Rightarrow> (if b then found + 1 else found, st')) vs (n, st)
      = (n + int (length (filter (\<lambda>k. visible now (cache_abs st) k \<noteq> None) vs)), st')" "cache_inv hf st'"
    "visible now (cache_abs st') = visible now (cache_abs st)"
  using assms
proof (induction vs arbitrary: n st thesis)
  case (Cons k vs)
  obtain b st1 where d: "cache_exists hf k now st = (b, st1)" by (rule prod.exhaust)
  note v = exists_visible [OF Cons.prems(2) d]
  let ?n = "if b then n + 1 else n"
  obtain st2 where s: "fold (\<lambda>key (found, st). case cache_exists hf key now st of (b, st') \<Rightarrow> (if b then found + 1 else found, st')) vs (?n, st1)
      = (?n + int (length (filter (\<lambda>k. visible now (cache_abs st1) k \<noteq> None) vs)), st2)" "cache_inv hf st2"
    "visible now (cache_abs st2) = visible now (cache_abs st1)" using Cons.IH [OF _ v(2)] by blast
  show ?case using Cons.prems(1) [of st2] s d v(1,3) by simp
qed simp

lemma exists_answers:
  assumes "cache_inv hf st" "args c = vs" "rc_argc c = length vs"
  shows "answers hf now out (execute_exists hf st c now out) (exists_spec vs (visible now (cache_abs st)))"
proof (cases "vs = [] \<or> \<not> same_slot vs")
  case True
  then show ?thesis using assms answers_same [OF assms(1), of now out] by (auto simp: execute_exists_def exists_spec_def)
next
  case False
  obtain st' where "fold (\<lambda>key (found, st). case cache_exists hf key now st of (b, st') \<Rightarrow> (if b then found + 1 else found, st')) vs (0, st)
      = (0 + int (length (filter (\<lambda>k. visible now (cache_abs st) k \<noteq> None) vs)), st')" "cache_inv hf st'"
    "visible now (cache_abs st') = visible now (cache_abs st)" by (rule exists_loop [OF assms(1)])
  then show ?thesis using False assms writers_append(3) [of _ out] by (simp add: execute_exists_def exists_spec_def answers_def int_reply_def)
qed

lemma incr_answers:
  assumes "cache_inv hf st" "args c = vs" "rc_argc c = length vs" "room vs st"
  shows "answers hf now out (execute_incr hf st c now out) (incr_spec vs (visible now (cache_abs st)))"
proof (cases vs rule: remdups_adj.cases)
  case (2 k)
  have "has_room [length k] st" using assms(4) 2 by (simp add: room_def has_room_def)
  then obtain q where q: "increment hf k 1 now st = Some q" "refines_step hf q (increment_spec k 1 (touch now k (cache_abs st)))"
    by (rule increment_ok [OF assms(1)])
  obtain r st' where qr: "q = (r, st')" by (cases q)
  have "increment_spec k 1 (visible now (cache_abs st)) = (r, visible now (cache_abs st'))" "cache_inv hf st'"
    using increment_visible [of now k 1 "cache_abs st", symmetric] q(2) by (auto simp: refines_step_def qr prod_eq_iff)
  then show ?thesis using 2 assms q(1) qr writers_append(2) [of ERR_INTEGER out] writers_append(3) [of _ out]
    by (cases r) (auto simp: execute_incr_def incr_spec_def answers_def reply_defs)
qed (use assms answers_same [OF assms(1), of now out] in \<open>auto simp: execute_incr_def incr_spec_def\<close>)

lemma expire_answers:
  assumes inv: "cache_inv hf st" and c: "args c = vs" "rc_argc c = length vs" and now: "now \<noteq> - 1"
  shows "answers hf now out (execute_expire hf st c now out) (expire_cmd_spec vs now (visible now (cache_abs st)))"
proof (cases "length vs = 2")
  case False
  then have "expire_cmd_spec vs now M = arity_reply ''expire'' M" for M by (auto simp: expire_cmd_spec_def split: list.split)
  then show ?thesis using False c answers_same(1) [OF inv] by (simp add: execute_expire_def)
next
  case True
  then obtain k raw where vs: "vs = [k, raw]" by (auto simp: length_Suc_conv numeral_eq_Suc)
  note defs = execute_expire_def expire_cmd_spec_def
  have fin: "answers hf now out (Some (st', write_integer n out)) (int_reply n (visible now (cache_abs st')))" if "cache_inv hf st'" for st' n
    using that writers_append(3) [of n out] by (simp add: answers_def int_reply_def)
  show ?thesis
  proof (cases "parse_i64 raw")
    case None
    then show ?thesis using vs c answers_same(2) [OF inv] by (simp add: defs)
  next
    case (Some seconds)
    show ?thesis
    proof (cases "seconds \<le> 0")
      case True
      obtain b st' where d: "cache_delete_at hf k now st = (b, st')" by (rule prod.exhaust)
      show ?thesis using fin [OF delete_visible(2) [OF inv d], of "if b then 1 else 0"] delete_visible [OF inv d] True Some vs c d
        by (auto simp: defs split: if_splits)
    next
      case False
      show ?thesis
      proof (cases "checked_mul (of_int seconds) 1000")
        case None
        then show ?thesis using False Some vs c answers_same(2) [OF inv] by (simp add: defs)
      next
        case (Some ms)
        have ms: "ms \<noteq> 0"
          using checked_mul_positive [OF Some of_int_positive] False parse_i64_range [OF \<open>parse_i64 raw = Some seconds\<close>] by simp
        obtain b st' where e: "expire_ms hf k ms now st = (b, st')" by (rule prod.exhaust)
        have r: "cache_inv hf st'" "(b, visible now (cache_abs st')) =
            (case visible now (cache_abs st) k of None \<Rightarrow> (False, visible now (cache_abs st))
             | Some (v, _) \<Rightarrow> (True, (visible now (cache_abs st))(k \<mapsto> (v, Some (saturating_add now ms)))))"
          using expire_ms_ok [OF inv, of k ms now] expire_visible [OF now ms, of k "cache_abs st", symmetric] e
          by (auto simp: refines_step_def prod_eq_iff)
        then show ?thesis
          using fin [OF r(1), of "if b then 1 else 0"] False Some \<open>parse_i64 raw = Some seconds\<close> vs c e
          by (auto simp: defs split: option.splits)
      qed
    qed
  qed
qed

lemma ttl_answers:
  assumes "cache_inv hf st" "args c = vs" "rc_argc c = length vs"
  shows "answers hf now out (execute_ttl hf st c now out) (ttl_cmd_spec vs now (visible now (cache_abs st)))"
proof (cases vs rule: remdups_adj.cases)
  case (2 k)
  obtain t st' where t: "cache_ttl hf k now st = (t, st')" by (rule prod.exhaust)
  have r: "t = ttl_spec k now (touch now k (cache_abs st))" "cache_inv hf st'" "visible now (cache_abs st') = visible now (cache_abs st)"
    using cache_ttl_ok [OF assms(1), of k now] t by (simp_all add: refines_step_def)
  have "sint (ms div 1000) = uint ms div 1000" for ms :: u64
  proof -
    have "uint ms < 2 ^ 64" using uint_lt2p [of ms] by simp
    then have "uint ms div 1000 < 2 ^ 63" "- (2 ^ 63) \<le> uint ms div 1000"
      using pos_imp_zdiv_nonneg_iff [of 1000 "uint ms"] by (auto simp: div_less_iff_less_mult intro: order_trans [of _ 0])
    then show ?thesis using signed_take_bit_int_eq_self [of 63 "uint ms div 1000"] by (simp add: sint_uint uint_div)
  qed
  then have "(case t of TtlMissing \<Rightarrow> - 2 | TtlPersistent \<Rightarrow> - 1 | TtlRemainingMs ms \<Rightarrow> sint (ms div 1000)) =
      (case visible now (cache_abs st) k of None \<Rightarrow> - 2 | Some (_, None) \<Rightarrow> - 1 | Some (_, Some deadline) \<Rightarrow> uint (deadline - now) div 1000)"
    using visible_live [of now "cache_abs st" k]
    by (auto simp: r(1) ttl_spec_def touch_at saturating_sub_def expired_at_def split: option.splits)
  then show ?thesis using 2 assms t r(2,3) writers_append(3) [of _ out]
    by (simp add: execute_ttl_def ttl_cmd_spec_def answers_def int_reply_def)
qed (use assms answers_same [OF assms(1), of now out] in \<open>auto simp: execute_ttl_def ttl_cmd_spec_def\<close>)

lemma get_loop:
  assumes "cache_inv hf st"
  obtains st' where "fold (\<lambda>key (st, out). case cache_get hf key now st of (v, st') \<Rightarrow> (st', write_value v out)) vs (st, out)
      = (st', out @ concat (map (\<lambda>k. write_value (map_option fst (visible now (cache_abs st) k)) []) vs))" "cache_inv hf st'"
    "visible now (cache_abs st') = visible now (cache_abs st)"
  using assms
proof (induction vs arbitrary: out st thesis)
  case (Cons k vs)
  obtain v st1 where d: "cache_get hf k now st = (v, st1)" by (rule prod.exhaust)
  note g = get_visible [OF Cons.prems(2) d]
  obtain st2 where s: "fold (\<lambda>key (st, out). case cache_get hf key now st of (v, st') \<Rightarrow> (st', write_value v out)) vs (st1, write_value v out)
      = (st2, write_value v out @ concat (map (\<lambda>k. write_value (map_option fst (visible now (cache_abs st1) k)) []) vs))" "cache_inv hf st2"
    "visible now (cache_abs st2) = visible now (cache_abs st1)" using Cons.IH [OF _ g(2)] by blast
  show ?case using Cons.prems(1) [of st2] s d g(1,3) write_value_append [of v out] by simp
qed simp

lemma mget_answers:
  assumes "cache_inv hf st" "args c = vs" "rc_argc c = length vs"
  shows "answers hf now out (execute_mget hf st c now out) (mget_spec vs (visible now (cache_abs st)))"
proof (cases "vs = [] \<or> \<not> same_slot vs")
  case True
  then show ?thesis using assms answers_same [OF assms(1), of now out] by (auto simp: execute_mget_def mget_spec_def)
next
  case False
  obtain st' where "fold (\<lambda>key (st, out). case cache_get hf key now st of (v, st') \<Rightarrow> (st', write_value v out)) vs (st, write_array_len (length vs) out)
      = (st', write_array_len (length vs) out @ concat (map (\<lambda>k. write_value (map_option fst (visible now (cache_abs st) k)) []) vs))"
    "cache_inv hf st'" "visible now (cache_abs st') = visible now (cache_abs st)" by (rule get_loop [OF assms(1)])
  then show ?thesis using False assms writers_append(7) [of "length vs" out] by (simp add: execute_mget_def mget_spec_def answers_def)
qed

lemma set_bytes_growth:
  assumes inv: "cache_inv hf st" and s: "set_bytes hf k v ttl now st = Some st'"
  shows "length (cs_slots st') \<le> Suc (length (cs_slots st))"
    "length (ba_bytes (cs_arena st')) \<le> length (ba_bytes (cs_arena st)) + 2 * max (length v) 32 + 2 * max (length k) 32"
proof -
  have a: "packed_inv (cs_arena st) (total_handles (cs_slots st))" using inv by (simp add: cache_inv_def data_ok_def)
  obtain p a1 where p: "pack v (cs_arena st) = Some (p, a1)" and sv: "set_value hf k (ValBytes p) ttl now (st\<lparr>cs_arena := a1\<rparr>) = Some st'"
    using s by (auto simp: set_bytes_def split: option.splits)
  have a1: "packed_inv a1 ({#p#} + total_handles (cs_slots st))" using packed.store_inv [OF a p] by simp
  have g: "length (ba_bytes a1) \<le> length (ba_bytes (cs_arena st)) + 2 * max (length v) 32" by (rule pack_growth [OF a p])
  have "length (cs_slots st') \<le> Suc (length (cs_slots st)) \<and> length (ba_bytes (cs_arena st')) \<le> length (ba_bytes a1) + 2 * max (length k) 32"
  proof (cases "find_slot k (hf k) (st\<lparr>cs_arena := a1\<rparr>)")
    case (Some slot)
    then show ?thesis using sv
      by (auto simp: set_value_def count_set_def schedule_expiry_def Let_def split: option.splits)
  next
    case None
    then show ?thesis using sv pack_growth [OF a1, of k]
      by (auto simp: set_value_def count_set_def schedule_expiry_def allocate_slot_def Let_def split: option.splits if_splits)
  qed
  with g show "length (cs_slots st') \<le> Suc (length (cs_slots st))"
    "length (ba_bytes (cs_arena st')) \<le> length (ba_bytes (cs_arena st)) + 2 * max (length v) 32 + 2 * max (length k) 32" by auto
qed

lemma room_after: "\<lbrakk>cache_inv hf st; set_bytes hf k v ttl now st = Some st'; room (k # v # vs) st\<rbrakk> \<Longrightarrow> room vs st'"
  using set_bytes_growth [of hf st k v ttl now st'] by (auto simp: room_def)

lemma mset_loop_ok:
  assumes "cache_inv hf st" "room vs st" "even (length vs)"
  obtains st' where "mset_loop hf now vs st = Some st'" "cache_inv hf st'" "visible now (cache_abs st') = put_pairs vs (visible now (cache_abs st))"
  using assms
proof (induction hf now vs st arbitrary: thesis rule: mset_loop.induct)
  case (1 hf now k v rest st)
  obtain st1 where s: "set_bytes hf k v None now st = Some st1" "cache_inv hf st1"
    "visible now (cache_abs st1) = (visible now (cache_abs st))(k \<mapsto> (ViewBytes v, map_option (saturating_add now) None))"
    by (rule set_bytes_visible [OF "1.prems"(2,3) disjI1 [OF refl]])
  have r: "room rest st1" "even (length rest)" using room_after [OF "1.prems"(2) s(1) "1.prems"(3)] "1.prems"(4) by simp_all
  obtain st2 where "mset_loop hf now rest st1 = Some st2" "cache_inv hf st2"
    "visible now (cache_abs st2) = put_pairs rest (visible now (cache_abs st1))" using "1.IH" [OF s(1) _ s(2) r] by blast
  with "1.prems"(1) [of st2] s show ?case by simp
qed simp_all

lemma mset_answers:
  assumes "cache_inv hf st" "args c = vs" "rc_argc c = length vs" "room vs st"
  shows "answers hf now out (execute_mset hf st c now out) (mset_spec vs (visible now (cache_abs st)))"
proof (cases "vs = [] \<or> odd (length vs) \<or> \<not> same_slot_pairs vs")
  case True
  then show ?thesis using assms answers_same [OF assms(1), of now out] by (auto simp: execute_mset_def mset_spec_def odd_iff_mod_2_eq_one)
next
  case False
  obtain st' where "mset_loop hf now vs st = Some st'" "cache_inv hf st'" "visible now (cache_abs st') = put_pairs vs (visible now (cache_abs st))"
    by (rule mset_loop_ok [OF assms(1,4)]) (use False in auto)
  then show ?thesis using False assms writers_append(1) [of "bstr ''OK''" out]
    by (auto simp: execute_mset_def mset_spec_def answers_def ok_reply_def odd_iff_mod_2_eq_one)
qed

lemma command_answers:
  assumes "cache_inv hf st" "args c = vs" "rc_argc c = length vs" "room vs st" "now \<noteq> - 1"
  shows "answers hf now out (execute_command hf st c now out) (redis_spec (rc_name c) vs now (visible now (cache_abs st)))"
  unfolding execute_command_def redis_spec_def Let_def
  using ping_answers [OF assms(1-3)] get_answers [OF assms(1-3)] set_answers [OF assms(1-5)] del_answers [OF assms(1-3)]
    exists_answers [OF assms(1-3)] incr_answers [OF assms(1-4)] expire_answers [OF assms(1-3,5)] ttl_answers [OF assms(1-3)]
    mget_answers [OF assms(1-3)] mset_answers [OF assms(1-4)] answers_same(2) [OF assms(1)]
  by simp

subsection \<open>Routing\<close>

definition spelled :: "bytes \<Rightarrow> string \<Rightarrow> bool" where
  "spelled name s \<longleftrightarrow> map to_ascii_lowercase name = map to_ascii_lowercase (bstr s)"

lemma names_differ:
  "spelled name ''SET'' \<Longrightarrow> \<not> spelled name ''GET'' \<and> \<not> spelled name ''INCR'' \<and> \<not> spelled name ''TTL''"
  "spelled name ''EXPIRE'' \<Longrightarrow> \<not> spelled name ''GET'' \<and> \<not> spelled name ''INCR'' \<and> \<not> spelled name ''TTL'' \<and> \<not> spelled name ''SET''"
  "spelled name ''DEL'' \<Longrightarrow> \<not> spelled name ''GET'' \<and> \<not> spelled name ''INCR'' \<and> \<not> spelled name ''TTL'' \<and> \<not> spelled name ''SET'' \<and> \<not> spelled name ''EXPIRE''"
  "spelled name ''MSET'' \<Longrightarrow> \<not> spelled name ''GET'' \<and> \<not> spelled name ''INCR'' \<and> \<not> spelled name ''TTL'' \<and> \<not> spelled name ''SET'' \<and> \<not> spelled name ''EXPIRE''
     \<and> \<not> spelled name ''DEL'' \<and> \<not> spelled name ''EXISTS'' \<and> \<not> spelled name ''MGET''"
  by (auto simp: spelled_def bstr_def to_ascii_lowercase_def)

lemma same_slot_member: "\<lbrakk>same_slot vs; k \<in> set vs\<rbrakk> \<Longrightarrow> redis_slot k = redis_slot (hd vs)"
  by (cases vs) (auto simp: same_slot_def list_all_iff)

lemma put_pairs_other:
  "\<lbrakk>pairs_in_slot slot vs; redis_slot k \<noteq> slot; even (length vs)\<rbrakk> \<Longrightarrow> put_pairs vs M k = M k"
  by (induction vs M rule: put_pairs.induct) auto

lemma spec_changes:
  "snd (set_spec vs now M) k \<noteq> M k \<Longrightarrow> (length vs = 2 \<or> length vs = 4) \<and> vs \<noteq> [] \<and> k = hd vs"
  "snd (incr_spec vs M) k \<noteq> M k \<Longrightarrow> length vs = 1 \<and> vs \<noteq> [] \<and> k = hd vs"
  "snd (expire_cmd_spec vs now M) k \<noteq> M k \<Longrightarrow> length vs = 2 \<and> vs \<noteq> [] \<and> k = hd vs"
  "snd (del_spec vs M) k \<noteq> M k \<Longrightarrow> vs \<noteq> [] \<and> same_slot vs \<and> k \<in> set vs"
  by (auto simp: set_spec_def incr_spec_def expire_cmd_spec_def del_spec_def increment_spec_def reply_defs restrict_map_def
      split: list.splits sum.splits option.splits if_splits prod.splits)

lemma mset_changes:
  assumes "snd (mset_spec vs M) k \<noteq> M k"
  shows "vs \<noteq> []" "even (length vs)" "same_slot_pairs vs" "redis_slot k = redis_slot (hd vs)"
proof -
  show ev: "vs \<noteq> []" "even (length vs)" "same_slot_pairs vs" using assms by (auto simp: mset_spec_def reply_defs split: if_splits)
  then obtain k0 v rest where vs: "vs = k0 # v # rest" by (cases vs rule: remdups_adj.cases) auto
  have p: "pairs_in_slot (redis_slot k0) vs" "put_pairs vs M k \<noteq> M k"
    using ev vs assms by (auto simp: same_slot_pairs_def mset_spec_def ok_reply_def)
  show "redis_slot k = redis_slot (hd vs)" using put_pairs_other [OF p(1) _ ev(2), of k M] p(2) vs by auto
qed

lemma slot_of_command:
  assumes "args c = vs" "rc_argc c = length vs" "vs \<noteq> []"
  shows "\<lbrakk>spelled (rc_name c) ''SET''; length vs = 2 \<or> length vs = 4\<rbrakk> \<Longrightarrow> command_slot c = Some (Slot (redis_slot (hd vs)))"
    "\<lbrakk>spelled (rc_name c) ''INCR''; length vs = 1\<rbrakk> \<Longrightarrow> command_slot c = Some (Slot (redis_slot (hd vs)))"
    "\<lbrakk>spelled (rc_name c) ''EXPIRE''; length vs = 2\<rbrakk> \<Longrightarrow> command_slot c = Some (Slot (redis_slot (hd vs)))"
    "\<lbrakk>spelled (rc_name c) ''DEL''; same_slot vs\<rbrakk> \<Longrightarrow> command_slot c = Some (Slot (redis_slot (hd vs)))"
    "\<lbrakk>spelled (rc_name c) ''MSET''; even (length vs); same_slot_pairs vs\<rbrakk> \<Longrightarrow> command_slot c = Some (Slot (redis_slot (hd vs)))"
proof -
  obtain k0 ws where vs: "vs = k0 # ws" using assms(3) by (cases vs) auto
  note d = command_slot_def Let_def eq_ignore_ascii_case_def spelled_def [symmetric]
  show "command_slot c = Some (Slot (redis_slot (hd vs)))" if "spelled (rc_name c) ''SET''" "length vs = 2 \<or> length vs = 4"
    using that assms vs names_differ(1) [OF that(1)] by (auto simp: d)
  show "command_slot c = Some (Slot (redis_slot (hd vs)))" if "spelled (rc_name c) ''INCR''" "length vs = 1"
    using that assms vs by (auto simp: d)
  show "command_slot c = Some (Slot (redis_slot (hd vs)))" if "spelled (rc_name c) ''EXPIRE''" "length vs = 2"
    using that assms vs names_differ(2) [OF that(1)] by (auto simp: d)
  show "command_slot c = Some (Slot (redis_slot (hd vs)))" if "spelled (rc_name c) ''DEL''" "same_slot vs"
    using that assms vs names_differ(3) [OF that(1)] by (auto simp: d route_key_args_def same_slot_def)
  show "command_slot c = Some (Slot (redis_slot (hd vs)))" if "spelled (rc_name c) ''MSET''" "even (length vs)" "same_slot_pairs vs"
    using that assms vs names_differ(4) [OF that(1)] by (auto simp: d route_key_value_args_def same_slot_pairs_def)
qed

lemma spec_in_slot:
  assumes c: "args c = vs" "rc_argc c = length vs" and change: "snd (redis_spec (rc_name c) vs now M) k \<noteq> M k"
  shows "command_slot c = Some (Slot (redis_slot k))"
proof -
  let ?is = "spelled (rc_name c)"
  consider "?is ''SET''" "snd (set_spec vs now M) k \<noteq> M k" | "?is ''DEL''" "snd (del_spec vs M) k \<noteq> M k"
    | "?is ''INCR''" "snd (incr_spec vs M) k \<noteq> M k" | "?is ''EXPIRE''" "snd (expire_cmd_spec vs now M) k \<noteq> M k"
    | "?is ''MSET''" "snd (mset_spec vs M) k \<noteq> M k"
    using change by (auto simp: redis_spec_def Let_def eq_ignore_ascii_case_def spelled_def [symmetric] ping_spec_def get_spec_def
        exists_spec_def ttl_cmd_spec_def mget_spec_def reply_defs split: if_splits list.splits)
  then show ?thesis
  proof cases
    case 1
    then show ?thesis using slot_of_command(1) [OF c] spec_changes(1) [OF 1(2)] by auto
  next
    case 2
    then show ?thesis using slot_of_command(4) [OF c] spec_changes(4) [OF 2(2)] same_slot_member [of vs k] by auto
  next
    case 3
    then show ?thesis using slot_of_command(2) [OF c] spec_changes(2) [OF 3(2)] by auto
  next
    case 4
    then show ?thesis using slot_of_command(3) [OF c] spec_changes(3) [OF 4(2)] by auto
  next
    case 5
    then show ?thesis using slot_of_command(5) [OF c mset_changes(1) [OF 5(2)]] mset_changes [OF 5(2)] by auto
  qed
qed

subsection \<open>Properties\<close>

text \<open>
  C6: The command layer, from the bytes of a request to the bytes of the reply. For every command name and arguments a
  client encodes, with anything behind them in the buffer, and every state of the store with room for the arguments, the
  frame is consumed exactly; the reply appended and the entries visible afterwards are those that the contract of the
  command gives on the map of the entries visible before: values, counts, deadlines, arity, slot and integer errors. Many
  keys in different slots are refused before any change. Expired entries play no part.
\<close>

theorem resp_cache_refinement:
  assumes "cache_inv hf st" "room vs st" "now \<noteq> - 1" "length (encode_command (name # vs)) < 2 ^ 63"
  shows "\<exists>st' reply. execute_frame hf st (encode_command (name # vs) @ rest) now out
      = Some (Inr (Some (length (encode_command (name # vs)))), st', out @ reply)
    \<and> cache_inv hf st' \<and> (reply, visible now (cache_abs st')) = redis_spec name vs now (visible now (cache_abs st))"
proof -
  obtain c where c: "parse_command (encode_command (name # vs) @ rest) = Inr (Some (c, length (encode_command (name # vs))))"
    "rc_name c = name" "args c = vs" "rc_argc c = length vs"
    using command_read_back [OF _ assms(4), of rest] by auto
  from command_answers [OF assms(1) c(3,4) assms(2,3), of out] c(1,2) show ?thesis
    by (cases "redis_spec name vs now (visible now (cache_abs st))") (auto simp: answers_def execute_frame_def)
qed

theorem resp_cache_refinement_witness:
  "let st = CacheStore_new; vs = [[0x6B], [0x76]] in cache_inv (\<lambda>_. 7) st \<and> room vs st \<and> (5 :: u64) \<noteq> - 1
    \<and> length (encode_command (bstr ''set'' # vs)) < 2 ^ 63
    \<and> (\<exists>st' reply. execute_frame (\<lambda>_. 7) st (encode_command (bstr ''set'' # vs) @ [0x2A]) 5 []
        = Some (Inr (Some (length (encode_command (bstr ''set'' # vs)))), st', [] @ reply)
      \<and> cache_inv (\<lambda>_. 7) st' \<and> reply = write_simple (bstr ''OK'') [] \<and> visible 5 (cache_abs st') = [[0x6B] \<mapsto> (ViewBytes [0x76], None)])"
proof -
  have r: "room [[0x6B], [0x76]] CacheStore_new" by (simp add: room_def CacheStore_new_def ByteArena_new_def)
  have l: "length (encode_command (bstr ''set'' # [[0x6B], [0x76]])) < 2 ^ 63"
    by (simp add: encode_command_def write_bulk_def write_array_len_def write_u64_decimal_def decimal_loop.simps bstr_def)
  have s: "redis_spec (bstr ''set'') [[0x6B], [0x76]] 5 M = (write_simple (bstr ''OK'') [], M([0x6B] \<mapsto> (ViewBytes [0x76], None)))" for M
    by (simp add: redis_spec_def eq_ignore_ascii_case_def to_ascii_lowercase_def bstr_def set_spec_def ok_reply_def)
  have v: "visible 5 (cache_abs CacheStore_new) = Map.empty" by (simp add: cache_abs_new visible_alt fun_eq_iff)
  show ?thesis
    using resp_cache_refinement [OF cache_inv_new r _ l, of 5 "\<lambda>_. 7" "[0x2A]" "[]"] cache_inv_new r l unfolding s v Let_def by auto
qed

text \<open>
  C14: Routing is sound. A command changes no visible entry outside the slot that \<open>command_slot\<close> routes it to; in
  particular a command that is routed nowhere, or whose keys are in different slots, changes nothing that is visible. So a
  shard that owns the slot can run the command on its own.
\<close>

theorem routing_sound:
  assumes "cache_inv hf st" "args c = vs" "rc_argc c = length vs" "room vs st" "now \<noteq> - 1" "command_slot c \<noteq> Some (Slot (redis_slot k))"
  shows "\<exists>st' out'. execute_command hf st c now out = Some (st', out') \<and> visible now (cache_abs st') k = visible now (cache_abs st) k"
proof -
  have "snd (redis_spec (rc_name c) vs now (visible now (cache_abs st))) k = visible now (cache_abs st) k"
    using spec_in_slot [OF assms(2,3), of now "visible now (cache_abs st)" k] assms(6) by blast
  then show ?thesis using command_answers [OF assms(1-5), of out] by (auto simp: answers_def)
qed

theorem routing_sound_witness:
  "let st = CacheStore_new; c = \<lparr>rc_name = bstr ''incr'', rc_args_bytes = bulk [0x61] @ bulk [0x62], rc_argc = 2\<rparr> in
    cache_inv (\<lambda>_. 7) st \<and> args c = [[0x61], [0x62]] \<and> room [[0x61], [0x62]] st \<and> command_slot c = Some Unkeyed
    \<and> (\<exists>st' out'. execute_command (\<lambda>_. 7) st c 5 [] = Some (st', out') \<and> visible 5 (cache_abs st') [0x61] = visible 5 (cache_abs st) [0x61])"
proof -
  let ?c = "\<lparr>rc_name = bstr ''incr'', rc_args_bytes = bulk [0x61] @ bulk [0x62], rc_argc = 2\<rparr>"
  have "\<forall>v \<in> set [[0x61], [0x62 :: u8]]. length (bulk v) < 2 ^ 63" by (simp add: dec_def decimal_loop.simps)
  then have a: "args ?c = [[0x61], [0x62]]" using resp_args_written [of "[[0x61], [0x62]]"] by (simp add: args_def numeral_2_eq_2)
  have cs: "command_slot ?c = Some Unkeyed"
    by (simp add: command_slot_def eq_ignore_ascii_case_def bstr_def to_ascii_lowercase_def)
  have r: "room [[0x61], [0x62]] CacheStore_new" by (simp add: room_def CacheStore_new_def ByteArena_new_def)
  show ?thesis
    using routing_sound [OF cache_inv_new a _ r, of 5 "[0x61]" "\<lambda>_. 7" "[]"] cs a r cache_inv_new by (simp add: Let_def)
qed

end
