(* ===== verification/Cache_Routing.thy ===== *)
theory Cache_Routing
  imports Cache_Store
begin

text \<open>
  The placement of the logical slots of \<open>src/runtime/cache_routing.rs\<close>: a table with one owner for each of the 16384 slots,
  its description as ranges, and the update by a validated batch of ranges with a newer epoch. The fields of the table are
  private, so that its length is an invariant; an index into it is a slot number.
\<close>

record CacheShardOwner =
  so_node_id :: u64
  so_shard :: u16

record CacheSlotRange =
  sr_start :: u16
  sr_end :: u16
  sr_owner :: CacheShardOwner

datatype CachePlacementError =
    InvalidShardCount
  | InvalidRange u16 u16
  | OverlappingRange u16 u16 u16 u16
  | StaleEpoch u64 u64

datatype CacheRoute = Local u16 u16 | Remote u16 u64 u16

record CacheSlotMap =
  sm_epoch :: u64
  sm_owners :: "CacheShardOwner list"

definition new_local :: "u64 \<Rightarrow> u16 \<Rightarrow> CachePlacementError + CacheSlotMap" where
  "new_local node_id shard_count =
     (if shard_count = 0 \<or> shard_count > REDIS_CLUSTER_SLOTS then Inl InvalidShardCount
      else Inr \<lparr>sm_epoch = 0, sm_owners = map (\<lambda>slot. \<lparr>so_node_id = node_id,
        so_shard = ucast ((of_nat slot :: u32) * ucast shard_count div ucast REDIS_CLUSTER_SLOTS)\<rparr>)
          [0 ..< unat REDIS_CLUSTER_SLOTS]\<rparr>)"

definition owner_for_slot :: "CacheSlotMap \<Rightarrow> u16 \<Rightarrow> CacheShardOwner option" where
  "owner_for_slot m slot = nth_opt (sm_owners m) (unat slot)"

definition owner_for_key :: "CacheSlotMap \<Rightarrow> bytes \<Rightarrow> CacheShardOwner" where
  "owner_for_key m key = sm_owners m ! unat (redis_slot key)"

text \<open>One iteration of the loop of \<open>slot_ranges\<close>: the ranges so far, the start and the owner of the range that is open.\<close>

definition range_step :: "CacheShardOwner list \<Rightarrow> nat \<Rightarrow> CacheSlotRange list \<times> u16 \<times> CacheShardOwner
    \<Rightarrow> CacheSlotRange list \<times> u16 \<times> CacheShardOwner" where
  "range_step owners slot = (\<lambda>(ranges, start, owner).
     if owners ! slot \<noteq> owner
     then (ranges @ [\<lparr>sr_start = start, sr_end = of_nat slot - 1, sr_owner = owner\<rparr>], of_nat slot, owners ! slot)
     else (ranges, start, owner))"

definition slot_ranges :: "CacheSlotMap \<Rightarrow> CacheSlotRange list" where
  "slot_ranges m =
     (if sm_owners m = [] then []
      else case fold (range_step (sm_owners m)) [1 ..< unat REDIS_CLUSTER_SLOTS] ([], 0, sm_owners m ! 0) of
        (ranges, start, owner) \<Rightarrow> ranges @ [\<lparr>sr_start = start, sr_end = REDIS_CLUSTER_SLOTS - 1, sr_owner = owner\<rparr>])"

definition route_key :: "CacheSlotMap \<Rightarrow> u64 \<Rightarrow> bytes \<Rightarrow> CacheRoute" where
  "route_key m local_node_id key =
     (let slot = redis_slot key; owner = sm_owners m ! unat slot in
      if so_node_id owner = local_node_id then Local slot (so_shard owner) else Remote slot (so_node_id owner) (so_shard owner))"

definition range_valid :: "CacheSlotRange \<Rightarrow> bool" where
  "range_valid r \<longleftrightarrow> \<not> (sr_start r > sr_end r \<or> sr_end r \<ge> REDIS_CLUSTER_SLOTS)"

definition overlaps :: "CacheSlotRange \<Rightarrow> CacheSlotRange \<Rightarrow> bool" where
  "overlaps a b \<longleftrightarrow> sr_start a \<le> sr_end b \<and> sr_start b \<le> sr_end a"

fun first_overlap :: "CacheSlotRange list \<Rightarrow> (CacheSlotRange \<times> CacheSlotRange) option" where
  "first_overlap [] = None"
| "first_overlap (first # rest) =
     (case find (overlaps first) rest of Some second \<Rightarrow> Some (first, second) | None \<Rightarrow> first_overlap rest)"

definition assign_range :: "CacheSlotRange \<Rightarrow> CacheShardOwner list \<Rightarrow> CacheShardOwner list" where
  "assign_range r owners = fold (\<lambda>slot os. os[slot := sr_owner r]) [unat (sr_start r) ..< Suc (unat (sr_end r))] owners"

definition apply_epoch :: "u64 \<Rightarrow> CacheSlotRange list \<Rightarrow> CacheSlotMap \<Rightarrow> CachePlacementError + CacheSlotMap" where
  "apply_epoch proposed_epoch assignments m =
     (if proposed_epoch \<le> sm_epoch m then Inl (StaleEpoch (sm_epoch m) proposed_epoch)
      else case find (\<lambda>r. \<not> range_valid r) assignments of
        Some r \<Rightarrow> Inl (InvalidRange (sr_start r) (sr_end r))
      | None \<Rightarrow>
          (case first_overlap assignments of
             Some (a, b) \<Rightarrow> Inl (OverlappingRange (sr_start a) (sr_end a) (sr_start b) (sr_end b))
           | None \<Rightarrow> Inr (m\<lparr>sm_owners := fold assign_range assignments (sm_owners m), sm_epoch := proposed_epoch\<rparr>)))"

subsection \<open>Ranges describe the table\<close>

definition table_ok :: "CacheSlotMap \<Rightarrow> bool" where
  "table_ok m \<longleftrightarrow> length (sm_owners m) = 16384"

lemma slots_16384: "unat REDIS_CLUSTER_SLOTS = 16384"
  by (simp add: REDIS_CLUSTER_SLOTS_def)

definition in_slots :: "CacheSlotRange \<Rightarrow> nat \<Rightarrow> bool" where
  "in_slots r i \<longleftrightarrow> unat (sr_start r) \<le> i \<and> i \<le> unat (sr_end r)"

text \<open>Ranges that follow each other without a gap from \<open>a\<close> up to \<open>b\<close>.\<close>

fun tiles :: "nat \<Rightarrow> CacheSlotRange list \<Rightarrow> nat \<Rightarrow> bool" where
  "tiles a [] b \<longleftrightarrow> a = b"
| "tiles a (r # rs) b \<longleftrightarrow> unat (sr_start r) = a \<and> a \<le> unat (sr_end r) \<and> tiles (Suc (unat (sr_end r))) rs b"

lemma tiles_snoc: "tiles a (rs @ [r]) b \<longleftrightarrow> tiles a rs (unat (sr_start r)) \<and> unat (sr_start r) \<le> unat (sr_end r) \<and> b = Suc (unat (sr_end r))"
  by (induction rs arbitrary: a) auto

lemma tiles_le: "tiles a rs b \<Longrightarrow> a \<le> b"
  by (induction a rs b rule: tiles.induct) auto

lemma tiles_start: "\<lbrakk>tiles a rs b; r \<in> set rs\<rbrakk> \<Longrightarrow> a \<le> unat (sr_start r)"
proof (induction a rs b rule: tiles.induct)
  case (2 a q rs b)
  then show ?case by (cases "r = q") auto
qed simp

lemma tiles_unique:
  "\<lbrakk>tiles a rs b; a \<le> i; i < b\<rbrakk> \<Longrightarrow> \<exists>!n. n < length rs \<and> in_slots (rs ! n) i"
proof (induction a rs b rule: tiles.induct)
  case (2 a r rs b)
  have r: "unat (sr_start r) = a" "tiles (Suc (unat (sr_end r))) rs b" using 2(2) by simp_all
  show ?case
  proof (cases "i \<le> unat (sr_end r)")
    case True
    have rest: "\<not> in_slots (rs ! n) i" if "n < length rs" for n
      using tiles_start [OF r(2) nth_mem [OF that]] True by (simp add: in_slots_def)
    show ?thesis
    proof (rule ex1I [of _ 0])
      show "0 < length (r # rs) \<and> in_slots ((r # rs) ! 0) i" using True r(1) 2(3) by (simp add: in_slots_def)
      show "n = 0" if "n < length (r # rs) \<and> in_slots ((r # rs) ! n) i" for n using that rest by (cases n) auto
    qed
  next
    case False
    then have ex: "\<exists>!n. n < length rs \<and> in_slots (rs ! n) i" using 2(1) [OF r(2)] 2(4) by simp
    then obtain n where n: "n < length rs" "in_slots (rs ! n) i" by blast
    show ?thesis
    proof (rule ex1I [of _ "Suc n"])
      show "Suc n < length (r # rs) \<and> in_slots ((r # rs) ! Suc n) i" using n by simp
      show "k = Suc n" if "k < length (r # rs) \<and> in_slots ((r # rs) ! k) i" for k
      proof (cases k)
        case 0
        then show ?thesis using that False by (simp add: in_slots_def)
      next
        case (Suc j)
        then have "j < length rs \<and> in_slots (rs ! j) i" using that by simp
        with ex n have "j = n" by blast
        with Suc show ?thesis by simp
      qed
    qed
  qed
qed simp

definition ranges_upto :: "CacheShardOwner list \<Rightarrow> nat \<Rightarrow> CacheSlotRange list \<times> u16 \<times> CacheShardOwner \<Rightarrow> bool" where
  "ranges_upto owners n = (\<lambda>(ranges, start, owner). tiles 0 ranges (unat start) \<and> unat start < n
     \<and> (\<forall>r \<in> set ranges. \<forall>i. in_slots r i \<longrightarrow> owners ! i = sr_owner r)
     \<and> (\<forall>i. unat start \<le> i \<longrightarrow> i < n \<longrightarrow> owners ! i = owner)
     \<and> successively (\<lambda>a b. sr_owner a \<noteq> sr_owner b) ranges \<and> (ranges \<noteq> [] \<longrightarrow> sr_owner (last ranges) \<noteq> owner))"

lemma range_step_upto:
  assumes "ranges_upto owners n s" "n < 2 ^ 16" "0 < n"
  shows "ranges_upto owners (Suc n) (range_step owners n s)"
proof -
  obtain ranges start owner where s: "s = (ranges, start, owner)" by (cases s)
  have n: "unat (of_nat n :: u16) = n" using assms(2) by (simp add: unat_of_nat)
  have p: "unat (of_nat n - 1 :: u16) = n - 1" using n assms(3) by (subst unat_sub) (auto simp: word_le_nat_alt)
  show ?thesis using assms(1,3)
    by (auto simp: ranges_upto_def range_step_def s n p tiles_snoc in_slots_def successively_append_iff less_Suc_eq)
qed

lemma range_fold_upto:
  assumes "n \<le> 2 ^ 16" "1 \<le> n"
  shows "ranges_upto owners n (fold (range_step owners) [1 ..< n] ([], 0, owners ! 0))"
  using assms
proof (induction n)
  case (Suc n)
  show ?case
  proof (cases "n = 0")
    case True
    then show ?thesis by (simp add: ranges_upto_def)
  next
    case False
    then show ?thesis using Suc range_step_upto [of owners n] by simp
  qed
qed simp

lemma slot_ranges_tile:
  assumes "table_ok m"
  shows "tiles 0 (slot_ranges m) 16384" "\<forall>r \<in> set (slot_ranges m). \<forall>i. in_slots r i \<longrightarrow> sm_owners m ! i = sr_owner r"
    "successively (\<lambda>a b. sr_owner a \<noteq> sr_owner b) (slot_ranges m)"
proof -
  obtain ranges start owner where f: "fold (range_step (sm_owners m)) [1 ..< 16384] ([], 0, sm_owners m ! 0) = (ranges, start, owner)"
    by (rule prod_cases3)
  have u: "ranges_upto (sm_owners m) 16384 (ranges, start, owner)"
    using range_fold_upto [of 16384 "sm_owners m"] unfolding f by simp
  have "sm_owners m \<noteq> []" using assms by (auto simp: table_ok_def)
  then have s: "slot_ranges m = ranges @ [\<lparr>sr_start = start, sr_end = REDIS_CLUSTER_SLOTS - 1, sr_owner = owner\<rparr>]"
    using f by (simp only: slot_ranges_def slots_16384 if_False split_conv prod.case)
  have e: "unat (REDIS_CLUSTER_SLOTS - 1) = 16383" by (simp add: REDIS_CLUSTER_SLOTS_def)
  show "tiles 0 (slot_ranges m) 16384" using u unfolding s by (auto simp: tiles_snoc ranges_upto_def e)
  show "\<forall>r \<in> set (slot_ranges m). \<forall>i. in_slots r i \<longrightarrow> sm_owners m ! i = sr_owner r"
    using u unfolding s by (auto simp: ranges_upto_def in_slots_def e)
  show "successively (\<lambda>a b. sr_owner a \<noteq> sr_owner b) (slot_ranges m)"
    using u unfolding s by (auto simp: ranges_upto_def successively_append_iff)
qed

subsection \<open>Updates\<close>

lemma length_assign_range [simp]: "length (assign_range r os) = length os"
proof -
  have "length (fold (\<lambda>slot os. os[slot := x]) ns os) = length os" for ns x by (induction ns arbitrary: os) auto
  then show ?thesis by (simp add: assign_range_def)
qed

lemma fold_update_nth: "i < length os \<Longrightarrow> fold (\<lambda>slot os. os[slot := x]) ns os ! i = (if i \<in> set ns then x else os ! i)"
  by (induction ns arbitrary: os) (auto simp: nth_list_update)

lemma assign_range_nth: "i < length os \<Longrightarrow> assign_range r os ! i = (if in_slots r i then sr_owner r else os ! i)"
  unfolding assign_range_def by (subst fold_update_nth) (auto simp: in_slots_def)

lemma find_SomeD: "find P xs = Some x \<Longrightarrow> x \<in> set xs \<and> P x"
  by (auto simp: find_Some_iff)

lemma length_assign_all [simp]: "length (fold assign_range rs os) = length os"
  by (induction rs arbitrary: os) auto

lemma assign_all_other: "\<lbrakk>i < length os; \<forall>r \<in> set rs. \<not> in_slots r i\<rbrakk> \<Longrightarrow> fold assign_range rs os ! i = os ! i"
  by (induction rs arbitrary: os) (auto simp: assign_range_nth)

lemma shared_slot_overlaps: "\<lbrakk>in_slots a i; in_slots b i\<rbrakk> \<Longrightarrow> overlaps a b"
  by (auto simp: in_slots_def overlaps_def word_le_nat_alt)

lemma assign_all_covered:
  "\<lbrakk>i < length os; sorted_wrt (\<lambda>a b. \<not> overlaps a b) rs; r \<in> set rs; in_slots r i\<rbrakk> \<Longrightarrow> fold assign_range rs os ! i = sr_owner r"
proof (induction rs arbitrary: os)
  case (Cons q rs)
  show ?case
  proof (cases "r \<in> set rs")
    case True
    then show ?thesis using Cons by simp
  next
    case False
    then have "q = r" using Cons.prems(3) by simp
    then have "\<forall>p \<in> set rs. \<not> in_slots p i" using Cons.prems(2,4) shared_slot_overlaps by auto
    then show ?thesis using Cons.prems(1,4) \<open>q = r\<close> by (simp add: assign_all_other assign_range_nth)
  qed
qed simp

lemma first_overlap_None: "first_overlap rs = None \<longleftrightarrow> sorted_wrt (\<lambda>a b. \<not> overlaps a b) rs"
  by (induction rs rule: first_overlap.induct) (auto simp: find_None_iff dest: find_SomeD split: option.splits)

lemma apply_epoch_iff:
  "(\<exists>m'. apply_epoch e as m = Inr m') \<longleftrightarrow> sm_epoch m < e \<and> (\<forall>r \<in> set as. range_valid r) \<and> sorted_wrt (\<lambda>a b. \<not> overlaps a b) as"
  using first_overlap_None [of as]
  by (auto simp: apply_epoch_def find_None_iff not_le dest: find_SomeD split: option.splits if_splits)

subsection \<open>Properties\<close>

text \<open>
  C17: The topology that is reported is the placement in force. The ranges of \<open>slot_ranges\<close> partition the 16384 slots: every
  slot is in exactly one of them and has its owner, and neighbouring ranges have different owners, so that no shorter list
  would do.
\<close>

theorem slot_ranges_exact:
  assumes "table_ok m"
  shows "(\<forall>i < 16384. \<exists>!n. n < length (slot_ranges m) \<and> in_slots (slot_ranges m ! n) i)
    \<and> (\<forall>n i. n < length (slot_ranges m) \<and> in_slots (slot_ranges m ! n) i \<longrightarrow> sm_owners m ! i = sr_owner (slot_ranges m ! n))
    \<and> successively (\<lambda>a b. sr_owner a \<noteq> sr_owner b) (slot_ranges m)"
  using slot_ranges_tile [OF assms] tiles_unique [of 0 "slot_ranges m" 16384] by (auto dest: nth_mem)

theorem slot_ranges_exact_witness:
  "let m = \<lparr>sm_epoch = 0, sm_owners = replicate 16384 \<lparr>so_node_id = 7, so_shard = 0\<rparr>\<rparr> in table_ok m
    \<and> (\<exists>!n. n < length (slot_ranges m) \<and> in_slots (slot_ranges m ! n) 5)"
proof -
  let ?m = "\<lparr>sm_epoch = 0, sm_owners = replicate 16384 \<lparr>so_node_id = 7, so_shard = 0\<rparr>\<rparr>"
  have "table_ok ?m" by (simp add: table_ok_def)
  with slot_ranges_exact [OF this] show ?thesis by (simp add: Let_def)
qed

text \<open>
  C16: Placement updates are all or nothing. A batch is accepted just when its epoch is newer, every range is well-formed
  and no two ranges overlap; then each slot of a range has the owner of that range, every other slot keeps its owner, and
  the epoch is the new one.
\<close>

theorem apply_epoch_exact:
  assumes "table_ok m"
  shows "case apply_epoch e as m of
      Inr m' \<Rightarrow> sm_epoch m < e \<and> (\<forall>r \<in> set as. range_valid r) \<and> sorted_wrt (\<lambda>a b. \<not> overlaps a b) as
        \<and> sm_epoch m' = e \<and> table_ok m'
        \<and> (\<forall>r \<in> set as. \<forall>i. in_slots r i \<longrightarrow> sm_owners m' ! i = sr_owner r)
        \<and> (\<forall>i < 16384. (\<forall>r \<in> set as. \<not> in_slots r i) \<longrightarrow> sm_owners m' ! i = sm_owners m ! i)
    | Inl _ \<Rightarrow> \<not> (sm_epoch m < e \<and> (\<forall>r \<in> set as. range_valid r) \<and> sorted_wrt (\<lambda>a b. \<not> overlaps a b) as)"
proof (cases "apply_epoch e as m")
  case (Inl err)
  then show ?thesis using apply_epoch_iff [of e as m] by auto
next
  case (Inr m')
  then have ok: "sm_epoch m < e" "\<forall>r \<in> set as. range_valid r" "sorted_wrt (\<lambda>a b. \<not> overlaps a b) as"
    using apply_epoch_iff [of e as m] by auto
  have m': "m' = m\<lparr>sm_owners := fold assign_range as (sm_owners m), sm_epoch := e\<rparr>"
    using Inr by (auto simp: apply_epoch_def split: if_splits option.splits)
  have "i < length (sm_owners m)" if "r \<in> set as" "in_slots r i" for r i
    using ok(2) that assms by (auto simp: range_valid_def in_slots_def table_ok_def word_le_nat_alt slots_16384)
  then show ?thesis using Inr ok m' assms assign_all_covered [OF _ ok(3)] assign_all_other [of _ "sm_owners m" as]
    by (auto simp: table_ok_def)
qed

theorem apply_epoch_exact_witness:
  "let m = \<lparr>sm_epoch = 0, sm_owners = replicate 16384 \<lparr>so_node_id = 1, so_shard = 0\<rparr>\<rparr>;
       r = \<lparr>sr_start = 100, sr_end = 199, sr_owner = \<lparr>so_node_id = 2, so_shard = 7\<rparr>\<rparr> in table_ok m
    \<and> (\<exists>m'. apply_epoch 1 [r] m = Inr m' \<and> sm_epoch m' = 1 \<and> sm_owners m' ! 150 = sr_owner r \<and> sm_owners m' ! 5 = sm_owners m ! 5)"
proof -
  let ?m = "\<lparr>sm_epoch = 0, sm_owners = replicate 16384 \<lparr>so_node_id = 1, so_shard = 0\<rparr>\<rparr>"
  let ?r = "\<lparr>sr_start = 100, sr_end = 199, sr_owner = \<lparr>so_node_id = 2, so_shard = 7\<rparr>\<rparr>"
  have t: "table_ok ?m" by (simp add: table_ok_def)
  obtain m' where m': "apply_epoch 1 [?r] ?m = Inr m'"
    using apply_epoch_iff [of 1 "[?r]" ?m] by (auto simp: range_valid_def REDIS_CLUSTER_SLOTS_def)
  have "in_slots ?r 150" "\<not> in_slots ?r 5" by (simp_all add: in_slots_def)
  then show ?thesis using apply_epoch_exact [OF t, of 1 "[?r]"] t m' by (auto simp: Let_def)
qed

end
