(* ===== verification/Cache_Cluster.thy ===== *)
theory Cache_Cluster
  imports Resp_Cache Cache_Routing
begin

text \<open>
  The topology commands of \<open>src/runtime/cache_cluster.rs\<close>: advertised endpoints, node identifiers and the replies to
  \<open>CLUSTER KEYSLOT\<close>, \<open>SLOTS\<close> and \<open>SHARDS\<close>. \<open>None\<close> is the panic of an argument that is missing.
\<close>

datatype CacheRoutingMode = Transparent | Redirect

record CacheAdvertisedEndpoint =
  ep_host :: bytes
  ep_port :: u16
  ep_target :: bytes

type_synonym CacheEndpointMap = "(CacheShardOwner \<times> CacheAdvertisedEndpoint) list"

datatype CacheClusterCommandError = ClusterMissingEndpoint CacheShardOwner

definition write_u16_decimal :: "u16 \<Rightarrow> bytes \<Rightarrow> bytes" where
  "write_u16_decimal v out = (if v = 0 then out @ [0x30] else out @ decimal_loop (unat v) [])"

definition CacheAdvertisedEndpoint_new :: "bytes \<Rightarrow> u16 \<Rightarrow> CacheAdvertisedEndpoint" where
  "CacheAdvertisedEndpoint_new host port = \<lparr>ep_host = host, ep_port = port, ep_target = write_u16_decimal port (host @ [0x3A])\<rparr>"

definition endpoint_insert :: "CacheShardOwner \<Rightarrow> CacheAdvertisedEndpoint \<Rightarrow> CacheEndpointMap \<Rightarrow> CacheAdvertisedEndpoint option \<times> CacheEndpointMap" where
  "endpoint_insert owner ep m = (map_of m owner, hm_insert owner ep m)"

definition hex_nibble :: "u8 \<Rightarrow> u8" where
  "hex_nibble v = (if v \<le> 9 then 0x30 + v else 0x61 + (v - 10))"

definition redis_node_id :: "CacheShardOwner \<Rightarrow> bytes" where
  "redis_node_id owner =
     concat (map (\<lambda>byte. [hex_nibble (drop_bit 4 byte), hex_nibble (take_bit 4 byte)])
       (to_be 8 (so_node_id owner) @ to_be 2 (so_shard owner) @ to_be 8 (word_rotl 23 (so_node_id owner)) @ to_be 2 (word_rotl 7 (so_shard owner))))"

definition write_slot_range :: "CacheEndpointMap \<Rightarrow> CacheSlotRange \<Rightarrow> bytes \<Rightarrow> bytes option" where
  "write_slot_range endpoints r out =
     map_option (\<lambda>ep.
       write_bulk (redis_node_id (sr_owner r)) (write_integer (uint (ep_port ep)) (write_bulk (ep_host ep) (write_array_len 3
         (write_integer (uint (sr_end r)) (write_integer (uint (sr_start r)) (write_array_len 3 out)))))))
       (map_of endpoints (sr_owner r))"

text \<open>The result carries the output; an error comes before the first byte.\<close>

definition write_cluster_slots :: "CacheSlotMap \<Rightarrow> CacheEndpointMap \<Rightarrow> bytes \<Rightarrow> ((CacheClusterCommandError + unit) \<times> bytes) option" where
  "write_cluster_slots placement endpoints out =
     (let ranges = slot_ranges placement in
      case find (\<lambda>r. map_of endpoints (sr_owner r) = None) ranges of
        Some r \<Rightarrow> Some (Inl (ClusterMissingEndpoint (sr_owner r)), out)
      | None \<Rightarrow> map_option (Pair (Inr ()))
          (fold (\<lambda>r acc. Option.bind acc (write_slot_range endpoints r)) ranges (Some (write_array_len (length ranges) out))))"

fun add_shard :: "CacheSlotRange \<Rightarrow> (CacheShardOwner \<times> (u16 \<times> u16) list) list \<Rightarrow> (CacheShardOwner \<times> (u16 \<times> u16) list) list" where
  "add_shard r [] = [(sr_owner r, [(sr_start r, sr_end r)])]"
| "add_shard r ((owner, rs) # shards) =
     (if owner = sr_owner r then (owner, rs @ [(sr_start r, sr_end r)]) # shards else (owner, rs) # add_shard r shards)"

definition write_shard :: "CacheEndpointMap \<Rightarrow> CacheShardOwner \<times> (u16 \<times> u16) list \<Rightarrow> bytes \<Rightarrow> bytes option" where
  "write_shard endpoints = (\<lambda>(owner, ranges) out.
     map_option (\<lambda>ep.
       let out = write_array_len (length ranges * 2) (write_bulk (bstr ''slots'') (write_array_len 4 out));
           out = fold (\<lambda>(start, fin) out. write_integer (uint fin) (write_integer (uint start) out)) ranges out;
           out = write_array_len 14 (write_array_len 1 (write_bulk (bstr ''nodes'') out));
           out = write_bulk (redis_node_id owner) (write_bulk (bstr ''id'') out);
           out = write_integer (uint (ep_port ep)) (write_bulk (bstr ''port'') out);
           out = write_bulk [] (write_bulk (bstr ''ip'') out);
           out = write_bulk (ep_host ep) (write_bulk (bstr ''endpoint'') out);
           out = write_bulk (bstr ''master'') (write_bulk (bstr ''role'') out);
           out = write_integer 0 (write_bulk (bstr ''replication-offset'') out)
       in write_bulk (bstr ''online'') (write_bulk (bstr ''health'') out))
       (map_of endpoints owner))"

definition write_cluster_shards :: "CacheSlotMap \<Rightarrow> CacheEndpointMap \<Rightarrow> bytes \<Rightarrow> ((CacheClusterCommandError + unit) \<times> bytes) option" where
  "write_cluster_shards placement endpoints out =
     (let shards = fold add_shard (slot_ranges placement) [] in
      case find (\<lambda>(owner, _). map_of endpoints owner = None) shards of
        Some (owner, _) \<Rightarrow> Some (Inl (ClusterMissingEndpoint owner), out)
      | None \<Rightarrow> map_option (Pair (Inr ()))
          (fold (\<lambda>s acc. Option.bind acc (write_shard endpoints s)) shards (Some (write_array_len (length shards) out))))"

definition arity_error :: "string \<Rightarrow> bytes" where
  "arity_error s = bstr ''ERR wrong number of arguments for '' @ [0x27] @ bstr s @ [0x27] @ bstr '' command''"

text \<open>\<open>None\<close> inside the result: the command is not \<open>CLUSTER\<close>.\<close>

definition execute_cluster_command :: "RespCommand \<Rightarrow> CacheSlotMap \<Rightarrow> CacheEndpointMap \<Rightarrow> bytes
    \<Rightarrow> ((CacheClusterCommandError + unit) option \<times> bytes) option" where
  "execute_cluster_command c placement endpoints out =
     (if \<not> eq_ignore_ascii_case (rc_name c) (bstr ''CLUSTER'') then Some (None, out)
      else if rc_argc c = 0 then Some (Some (Inr ()), write_error (arity_error ''cluster'') out)
      else case args c of
        [] \<Rightarrow> None
      | sub # rest \<Rightarrow>
          if eq_ignore_ascii_case sub (bstr ''KEYSLOT'') then
            if rc_argc c \<noteq> 2 then Some (Some (Inr ()), write_error (arity_error ''cluster|keyslot'') out)
            else (case rest of [] \<Rightarrow> None | key # _ \<Rightarrow> Some (Some (Inr ()), write_integer (uint (redis_slot key)) out))
          else if eq_ignore_ascii_case sub (bstr ''SLOTS'') then
            if rc_argc c \<noteq> 1 then Some (Some (Inr ()), write_error (arity_error ''cluster|slots'') out)
            else map_option (map_prod Some id) (write_cluster_slots placement endpoints out)
          else if eq_ignore_ascii_case sub (bstr ''SHARDS'') then
            if rc_argc c \<noteq> 1 then Some (Some (Inr ()), write_error (arity_error ''cluster|shards'') out)
            else map_option (map_prod Some id) (write_cluster_shards placement endpoints out)
          else Some (Some (Inr ()), write_error (bstr ''ERR unknown CLUSTER subcommand'') out))"

subsection \<open>Topology replies are whole or absent\<close>

lemma fold_bind_Some:
  assumes "\<And>r out. r \<in> set rs \<Longrightarrow> \<exists>out'. f r out = Some out'"
  shows "\<exists>out'. fold (\<lambda>r acc. Option.bind acc (f r)) rs (Some out) = Some out'"
  using assms
proof (induction rs arbitrary: out)
  case (Cons r rs)
  obtain out1 where "f r out = Some out1" using Cons.prems by (metis list.set_intros(1))
  then show ?case using Cons.IH [of out1] Cons.prems by simp
qed simp

lemma cluster_slots_total:
  "\<exists>out'. write_cluster_slots m eps out = Some (Inr (), out') \<or> (\<exists>r \<in> set (slot_ranges m). map_of eps (sr_owner r) = None
     \<and> write_cluster_slots m eps out = Some (Inl (ClusterMissingEndpoint (sr_owner r)), out))"
proof (cases "find (\<lambda>r. map_of eps (sr_owner r) = None) (slot_ranges m)")
  case (Some r)
  then show ?thesis using find_SomeD [OF Some] by (auto simp: write_cluster_slots_def Let_def)
next
  case None
  then have "\<exists>out'. write_slot_range eps r out = Some out'" if "r \<in> set (slot_ranges m)" for r out
    using that by (auto simp: find_None_iff write_slot_range_def)
  from fold_bind_Some [of "slot_ranges m" "write_slot_range eps", OF this] None show ?thesis
    by (auto simp: write_cluster_slots_def Let_def)
qed

lemma cluster_shards_total:
  "\<exists>r out'. write_cluster_shards m eps out = Some (r, out') \<and> (\<forall>e. r = Inl e \<longrightarrow> out' = out)"
proof (cases "find (\<lambda>(owner, _). map_of eps owner = None) (fold add_shard (slot_ranges m) [])")
  case (Some s)
  then show ?thesis by (cases s) (auto simp: write_cluster_shards_def Let_def)
next
  case None
  then have "\<exists>out'. write_shard eps s out = Some out'" if "s \<in> set (fold add_shard (slot_ranges m) [])" for s out
    using that by (auto simp: find_None_iff write_shard_def Let_def split: prod.splits)
  from fold_bind_Some [of "fold add_shard (slot_ranges m) []" "write_shard eps", OF this] None show ?thesis
    by (auto simp: write_cluster_shards_def Let_def)
qed

lemma cluster_command_total:
  assumes "args c = vs" "rc_argc c = length vs"
  shows "\<exists>r out'. execute_cluster_command c m eps out = Some (r, out') \<and> (r = None \<longrightarrow> out' = out)"
proof (cases vs rule: remdups_adj.cases)
  case 1
  then show ?thesis using assms by (auto simp: execute_cluster_command_def)
next
  case (2 v)
  then show ?thesis using assms cluster_slots_total [of m eps out] cluster_shards_total [of m eps out]
    by (auto simp: execute_cluster_command_def)
next
  case (3 v w ws)
  then show ?thesis using assms by (auto simp: execute_cluster_command_def)
qed

subsection \<open>Node identifiers\<close>

lemma hex_nibble_inj:
  assumes "hex_nibble a = hex_nibble b" "a < 16" "b < 16"
  shows "a = b"
proof -
  have v: "unat (hex_nibble v) = (if unat v \<le> 9 then 48 + unat v else 87 + unat v)" if "v < 16" for v
    using that by (simp add: hex_nibble_def word_le_nat_alt word_less_nat_alt unat_word_ariths unat_sub)
  have "unat a < 16" "unat b < 16" using assms(2,3) by (simp_all add: word_less_nat_alt)
  then have "unat a = unat b" using v [OF assms(2)] v [OF assms(3)] assms(1) by (auto split: if_splits)
  then show ?thesis by (rule unsigned_word_eqI)
qed

lemma byte_digits_inj:
  assumes "hex_nibble (drop_bit 4 a) = hex_nibble (drop_bit 4 b)" "hex_nibble (take_bit 4 a) = hex_nibble (take_bit 4 b)"
  shows "a = b"
proof -
  have d: "drop_bit 4 v < 16" for v :: u8
  proof -
    have "unat v < 2 ^ LENGTH(8)" by (rule unsigned_less)
    then show ?thesis by (simp add: word_less_nat_alt drop_bit_eq_div unat_div_distrib less_mult_imp_div_less)
  qed
  have t: "take_bit 4 v < 16" for v :: u8
    using take_bit_nat_less_exp [of 4 "unat v"] by (simp add: word_less_nat_alt unsigned_take_bit_eq)
  then have "drop_bit 4 a = drop_bit 4 b" "take_bit 4 a = take_bit 4 b" using assms hex_nibble_inj [OF _ d d] hex_nibble_inj [OF _ t t] by blast+
  then show ?thesis by (metis bits_ident)
qed

lemma hex_digits_inj:
  "\<lbrakk>concat (map (\<lambda>b. [hex_nibble (drop_bit 4 b), hex_nibble (take_bit 4 b)]) xs) = concat (map (\<lambda>b. [hex_nibble (drop_bit 4 b), hex_nibble (take_bit 4 b)]) ys)\<rbrakk>
   \<Longrightarrow> xs = ys"
proof (induction xs arbitrary: ys)
  case Nil
  then show ?case by (cases ys) auto
next
  case (Cons x xs)
  then show ?case using byte_digits_inj by (cases ys) auto
qed

lemma redis_node_id_inj: "redis_node_id a = redis_node_id b \<Longrightarrow> a = b"
proof -
  assume "redis_node_id a = redis_node_id b"
  from hex_digits_inj [OF this [unfolded redis_node_id_def]]
  have n: "to_be 8 (so_node_id a) = to_be 8 (so_node_id b)" "to_be 2 (so_shard a) = to_be 2 (so_shard b)" by simp_all
  have "so_node_id a = so_node_id b" using arg_cong [OF n(1), of "from_be :: _ \<Rightarrow> u64"] by simp
  moreover have "so_shard a = so_shard b"
    using arg_cong [OF n(2), of "from_be :: _ \<Rightarrow> u16"] by (simp add: from_be_to_be_take take_bit_word_eq_self)
  ultimately show ?thesis by simp
qed

end
