(* ===== verification/Cache_Dispatch.thy ===== *)
theory Cache_Dispatch
  imports Cache_Cluster
begin

text \<open>
  The dispatch of requests to shards of \<open>src/runtime/cache_dispatch.rs\<close>. The channels of the standard library are state: one
  bounded queue per shard (\<open>None\<close> when its receiver is gone) and one slot per reply channel, named by its number. A
  waker is a number; waking only unparks a thread and has no effect here. \<open>None\<close> as a result is a panic of the command layer.
\<close>

subsection \<open>Channels\<close>

datatype CacheDispatchConfigError = ConfigInvalidShardCount | InvalidQueueCapacity | InvalidLocalShard u16 u16 | WakeAlreadyInstalled u16

datatype CacheDispatchError =
    DispatchParse RespParseError
  | UnknownSlot u16
  | UnknownLocalShard u16
  | QueueFull u16
  | QueueDisconnected u16
  | MissingEndpoint CacheShardOwner

datatype CacheReplyError = ReplyEmpty | ReplyDisconnected | ReplyParse RespParseError

text \<open>A reply channel: nothing sent yet, a result sent, or no sender left and nothing to read.\<close>

datatype reply_slot = Waiting | Sent "RespParseError + bytes" | Gone

record CacheShardRequest =
  rq_frame :: bytes
  rq_now_ms :: u64
  rq_reply :: nat

record CacheDispatchChannels =
  ch_capacity :: nat
  ch_queues :: "CacheShardRequest list option list"
  ch_wakers :: "nat option list"
  ch_replies :: "reply_slot list"

definition CacheDispatchChannels_new :: "u16 \<Rightarrow> nat \<Rightarrow> CacheDispatchConfigError + CacheDispatchChannels" where
  "CacheDispatchChannels_new shard_count queue_capacity =
     (if shard_count = 0 then Inl ConfigInvalidShardCount
      else if queue_capacity = 0 then Inl InvalidQueueCapacity
      else Inr \<lparr>ch_capacity = queue_capacity, ch_queues = replicate (unat shard_count) (Some []),
        ch_wakers = replicate (unat shard_count) None, ch_replies = []\<rparr>)"

definition shard_count :: "CacheDispatchChannels \<Rightarrow> u16" where
  "shard_count ch = of_nat (length (ch_queues ch))"

definition install_waker :: "u16 \<Rightarrow> nat \<Rightarrow> CacheDispatchChannels \<Rightarrow> CacheDispatchConfigError + CacheDispatchChannels" where
  "install_waker shard waker ch =
     (case nth_opt (ch_wakers ch) (unat shard) of
        None \<Rightarrow> Inl (InvalidLocalShard shard (shard_count ch))
      | Some None \<Rightarrow> Inr (ch\<lparr>ch_wakers := (ch_wakers ch)[unat shard := Some waker]\<rparr>)
      | Some (Some _) \<Rightarrow> Inl (WakeAlreadyInstalled shard))"

text \<open>\<open>CacheLocalReply::try_recv\<close> on the slots.\<close>

definition reply_try_recv :: "nat \<Rightarrow> reply_slot list \<Rightarrow> (CacheReplyError + bytes option) \<times> reply_slot list" where
  "reply_try_recv i slots =
     (case nth_opt slots i of
        Some Waiting \<Rightarrow> (Inr None, slots)
      | Some (Sent (Inr v)) \<Rightarrow> (Inr (Some v), slots[i := Gone])
      | Some (Sent (Inl e)) \<Rightarrow> (Inl (ReplyParse e), slots[i := Gone])
      | _ \<Rightarrow> (Inl ReplyDisconnected, slots))"

text \<open>The blocking \<open>recv\<close>: \<open>None\<close> while there is nothing to read and a sender is left.\<close>

definition reply_recv :: "nat \<Rightarrow> reply_slot list \<Rightarrow> ((CacheReplyError + bytes) \<times> reply_slot list) option" where
  "reply_recv i slots =
     (case nth_opt slots i of
        Some Waiting \<Rightarrow> None
      | Some (Sent (Inr v)) \<Rightarrow> Some (Inr v, slots[i := Gone])
      | Some (Sent (Inl e)) \<Rightarrow> Some (Inl (ReplyParse e), slots[i := Gone])
      | _ \<Rightarrow> Some (Inl ReplyDisconnected, slots))"

definition try_send :: "u16 \<Rightarrow> CacheShardRequest \<Rightarrow> CacheDispatchChannels \<Rightarrow> CacheDispatchError + CacheDispatchChannels" where
  "try_send shard request ch =
     (case nth_opt (ch_queues ch) (unat shard) of
        None \<Rightarrow> Inl (UnknownLocalShard shard)
      | Some None \<Rightarrow> Inl (QueueDisconnected shard)
      | Some (Some q) \<Rightarrow>
          if length q \<ge> ch_capacity ch then Inl (QueueFull shard)
          else Inr (ch\<lparr>ch_queues := (ch_queues ch)[unat shard := Some (q @ [request])]\<rparr>))"

text \<open>The owner of a shard takes one request, executes it on its store and answers.\<close>

definition try_process_one :: "(bytes \<Rightarrow> u64) \<Rightarrow> u16 \<Rightarrow> CacheStore \<Rightarrow> CacheDispatchChannels
    \<Rightarrow> (bool \<times> CacheStore \<times> CacheDispatchChannels) option" where
  "try_process_one hf shard st ch =
     (case nth_opt (ch_queues ch) (unat shard) of
        Some (Some (request # q)) \<Rightarrow>
          map_option (\<lambda>(r, st', out).
            let result = (case r of
                  Inr (Some consumed) \<Rightarrow> if consumed = length (rq_frame request) then Inr out else Inl InvalidLength
                | Inr None \<Rightarrow> Inl InvalidLength
                | Inl e \<Rightarrow> Inl e)
            in (True, st', ch\<lparr>ch_queues := (ch_queues ch)[unat shard := Some q],
                  ch_replies := (ch_replies ch)[rq_reply request := Sent result]\<rparr>))
            (execute_frame hf st (rq_frame request) (rq_now_ms request) [])
      | _ \<Rightarrow> Some (False, st, ch))"

fun inbox_drain :: "(bytes \<Rightarrow> u64) \<Rightarrow> u16 \<Rightarrow> nat \<Rightarrow> CacheStore \<Rightarrow> CacheDispatchChannels
    \<Rightarrow> (nat \<times> CacheStore \<times> CacheDispatchChannels) option" where
  "inbox_drain hf shard 0 st ch = Some (0, st, ch)"
| "inbox_drain hf shard (Suc max_commands) st ch =
     (case try_process_one hf shard st ch of
        None \<Rightarrow> None
      | Some (False, st', ch') \<Rightarrow> Some (0, st', ch')
      | Some (True, st', ch') \<Rightarrow> map_option (map_prod Suc id) (inbox_drain hf shard max_commands st' ch'))"

subsection \<open>The dispatcher\<close>

record CacheRemoteRequest =
  rr_slot :: u16
  rr_owner :: CacheShardOwner
  rr_placement_epoch :: u64
  rr_frame :: bytes

datatype CacheDispatchOutcome =
    Executed nat
  | LocalQueued nat u16 nat
  | RemoteHandoff nat CacheRemoteRequest
  | Redirected nat u16 CacheShardOwner

record CacheDispatcher =
  cd_local_node_id :: u64
  cd_local_shard :: u16
  cd_placement :: CacheSlotMap
  cd_routing_mode :: CacheRoutingMode
  cd_endpoints :: CacheEndpointMap

definition CacheDispatcher_new :: "u64 \<Rightarrow> u16 \<Rightarrow> CacheSlotMap \<Rightarrow> CacheDispatchChannels \<Rightarrow> CacheDispatchConfigError + CacheDispatcher" where
  "CacheDispatcher_new local_node_id local_shard placement ch =
     (if local_shard \<ge> shard_count ch then Inl (InvalidLocalShard local_shard (shard_count ch))
      else Inr \<lparr>cd_local_node_id = local_node_id, cd_local_shard = local_shard, cd_placement = placement,
        cd_routing_mode = Transparent, cd_endpoints = []\<rparr>)"

definition with_endpoints :: "CacheEndpointMap \<Rightarrow> CacheDispatcher \<Rightarrow> CacheDispatcher" where
  "with_endpoints endpoints d = d\<lparr>cd_endpoints := endpoints\<rparr>"

definition with_cluster_redirects :: "CacheEndpointMap \<Rightarrow> CacheDispatcher \<Rightarrow> CacheDispatcher" where
  "with_cluster_redirects endpoints d = d\<lparr>cd_routing_mode := Redirect, cd_endpoints := endpoints\<rparr>"

definition install_placement :: "CacheSlotMap \<Rightarrow> CacheDispatcher \<Rightarrow> CacheDispatcher" where
  "install_placement placement d = d\<lparr>cd_placement := placement\<rparr>"

text \<open>The part of \<open>dispatch_frame\<close> behind the routing: the slot is known and so is its owner.\<close>

definition dispatch_to_owner :: "(bytes \<Rightarrow> u64) \<Rightarrow> CacheDispatcher \<Rightarrow> CacheStore \<Rightarrow> CacheDispatchChannels \<Rightarrow> RespCommand \<Rightarrow> nat \<Rightarrow> u16
    \<Rightarrow> CacheShardOwner \<Rightarrow> bytes \<Rightarrow> u64 \<Rightarrow> bytes
    \<Rightarrow> ((CacheDispatchError + CacheDispatchOutcome option) \<times> CacheStore \<times> CacheDispatchChannels \<times> bytes) option" where
  "dispatch_to_owner hf d st ch c consumed slot owner input now out =
     (let is_local_owner = (so_node_id owner = cd_local_node_id d \<and> so_shard owner = cd_local_shard d) in
      if \<not> is_local_owner \<and> cd_routing_mode d = Redirect then
        (case map_of (cd_endpoints d) owner of
           None \<Rightarrow> Some (Inl (MissingEndpoint owner), st, ch, out)
         | Some ep \<Rightarrow> Some (Inr (Some (Redirected consumed slot owner)), st, ch, write_moved slot (ep_target ep) out))
      else if so_node_id owner \<noteq> cd_local_node_id d then
        Some (Inr (Some (RemoteHandoff consumed \<lparr>rr_slot = slot, rr_owner = owner, rr_placement_epoch = sm_epoch (cd_placement d),
          rr_frame = take consumed input\<rparr>)), st, ch, out)
      else if so_shard owner = cd_local_shard d then
        map_option (\<lambda>(st', out'). (Inr (Some (Executed consumed)), st', ch, out')) (execute_command hf st c now out)
      else
        (let reply = length (ch_replies ch) in
         case try_send (so_shard owner) \<lparr>rq_frame = take consumed input, rq_now_ms = now, rq_reply = reply\<rparr> ch of
           Inl e \<Rightarrow> Some (Inl e, st, ch\<lparr>ch_replies := ch_replies ch @ [Gone]\<rparr>, out)
         | Inr ch' \<Rightarrow> Some (Inr (Some (LocalQueued consumed (so_shard owner) reply)), st, ch'\<lparr>ch_replies := ch_replies ch @ [Waiting]\<rparr>, out)))"

definition dispatch_frame :: "(bytes \<Rightarrow> u64) \<Rightarrow> CacheDispatcher \<Rightarrow> CacheStore \<Rightarrow> CacheDispatchChannels \<Rightarrow> bytes \<Rightarrow> u64 \<Rightarrow> bytes
    \<Rightarrow> ((CacheDispatchError + CacheDispatchOutcome option) \<times> CacheStore \<times> CacheDispatchChannels \<times> bytes) option" where
  "dispatch_frame hf d st ch input now out =
     (case parse_command input of
        Inl e \<Rightarrow> Some (Inl (DispatchParse e), st, ch, out)
      | Inr None \<Rightarrow> Some (Inr None, st, ch, out)
      | Inr (Some (c, consumed)) \<Rightarrow>
          (case execute_cluster_command c (cd_placement d) (cd_endpoints d) out of
             None \<Rightarrow> None
           | Some (Some (Inr _), out') \<Rightarrow> Some (Inr (Some (Executed consumed)), st, ch, out')
           | Some (Some (Inl (ClusterMissingEndpoint owner)), out') \<Rightarrow> Some (Inl (MissingEndpoint owner), st, ch, out')
           | Some (None, out') \<Rightarrow>
               (case command_slot c of
                  None \<Rightarrow> None
                | Some (Slot slot) \<Rightarrow>
                    (case owner_for_slot (cd_placement d) slot of
                       None \<Rightarrow> Some (Inl (UnknownSlot slot), st, ch, out')
                     | Some owner \<Rightarrow> dispatch_to_owner hf d st ch c consumed slot owner input now out')
                | Some _ \<Rightarrow>
                    map_option (\<lambda>(st', out'). (Inr (Some (Executed consumed)), st', ch, out')) (execute_command hf st c now out'))))"

text \<open>The receiver of a shard is dropped, and with it the requests that wait there and their reply senders.\<close>

definition inbox_dropped :: "u16 \<Rightarrow> CacheDispatchChannels \<Rightarrow> CacheDispatchChannels" where
  "inbox_dropped shard ch =
     (case nth_opt (ch_queues ch) (unat shard) of
        Some (Some q) \<Rightarrow> ch\<lparr>ch_queues := (ch_queues ch)[unat shard := None],
          ch_replies := fold (\<lambda>rq slots. slots[rq_reply rq := Gone]) q (ch_replies ch)\<rparr>
      | _ \<Rightarrow> ch)"

subsection \<open>Interleavings of the connections and the shard owners\<close>

text \<open>One call on the shared channels, by any connection or any shard owner.\<close>

inductive channel_step :: "(bytes \<Rightarrow> u64) \<Rightarrow> CacheDispatchChannels \<Rightarrow> CacheDispatchChannels \<Rightarrow> bool" for hf where
  dispatched: "dispatch_frame hf d st ch input now out = Some (r, st', ch', out') \<Longrightarrow> channel_step hf ch ch'"
| served: "try_process_one hf shard st ch = Some (b, st', ch') \<Longrightarrow> channel_step hf ch ch'"
| received: "reply_try_recv i (ch_replies ch) = (r, slots) \<Longrightarrow> channel_step hf ch (ch\<lparr>ch_replies := slots\<rparr>)"
| waker: "install_waker shard w ch = Inr ch' \<Longrightarrow> channel_step hf ch ch'"
| dropped: "channel_step hf ch (inbox_dropped shard ch)"

definition channel_reach :: "(bytes \<Rightarrow> u64) \<Rightarrow> CacheDispatchChannels \<Rightarrow> bool" where
  "channel_reach hf ch \<longleftrightarrow> (\<exists>n cap ch0. CacheDispatchChannels_new n cap = Inr ch0 \<and> (channel_step hf)\<^sup>*\<^sup>* ch0 ch)"

definition queued :: "CacheDispatchChannels \<Rightarrow> CacheShardRequest list" where
  "queued ch = concat (map (case_option [] id) (ch_queues ch))"

definition whole_frame :: "CacheShardRequest \<Rightarrow> bool" where
  "whole_frame rq \<longleftrightarrow> (\<exists>c. parse_command (rq_frame rq) = Inr (Some (c, length (rq_frame rq))))"

text \<open>Every queued request is one whole frame with a reply channel of its own that has not been answered; no queue is above its capacity.\<close>

definition channels_ok :: "CacheDispatchChannels \<Rightarrow> bool" where
  "channels_ok ch \<longleftrightarrow> distinct (map rq_reply (queued ch))
     \<and> (\<forall>rq \<in> set (queued ch). nth_opt (ch_replies ch) (rq_reply rq) = Some Waiting \<and> whole_frame rq)
     \<and> (\<forall>q. Some q \<in> set (ch_queues ch) \<longrightarrow> length q \<le> ch_capacity ch)"

lemma nth_opt_split: "nth_opt xs i = Some x \<Longrightarrow> \<exists>as bs. xs = as @ x # bs \<and> length as = i"
  by (metis id_take_nth_drop length_take min.absorb4 nth_opt_def option.distinct(1) option.inject)

lemma nth_opt_append: "nth_opt (xs @ ys) i = (if i < length xs then nth_opt xs i else nth_opt ys (i - length xs))"
  by (auto simp: nth_opt_def nth_append)

lemma queued_split:
  assumes "nth_opt (ch_queues ch) s = Some x"
  shows "\<exists>us vs. queued ch = us @ case_option [] id x @ vs
    \<and> (\<forall>y rs. queued (ch\<lparr>ch_queues := (ch_queues ch)[s := y], ch_replies := rs\<rparr>) = us @ case_option [] id y @ vs)
    \<and> (\<forall>y q rs. Some q \<in> set ((ch_queues ch)[s := y]) \<longrightarrow> Some q \<in> set (ch_queues ch) \<or> y = Some q)"
proof -
  obtain as bs where s: "ch_queues ch = as @ x # bs" "length as = s" using nth_opt_split [OF assms] by blast
  have "(ch_queues ch)[s := y] = as @ y # bs" for y unfolding s(1) s(2) [symmetric] by simp
  then show ?thesis using s(1) by (auto simp: queued_def intro!: exI)
qed

lemma ok_new: "CacheDispatchChannels_new n cap = Inr ch \<Longrightarrow> channels_ok ch"
  by (auto simp: CacheDispatchChannels_new_def channels_ok_def queued_def split: if_splits)

lemma try_send_ok:
  assumes "channels_ok ch" "try_send shard rq ch = Inr ch'" "rq_reply rq = length (ch_replies ch)" "whole_frame rq"
  shows "channels_ok (ch'\<lparr>ch_replies := ch_replies ch @ [Waiting]\<rparr>)"
proof -
  obtain q where q: "nth_opt (ch_queues ch) (unat shard) = Some (Some q)" "length q < ch_capacity ch"
    "ch' = ch\<lparr>ch_queues := (ch_queues ch)[unat shard := Some (q @ [rq])]\<rparr>"
    using assms(2) by (auto simp: try_send_def split: option.splits if_splits)
  from queued_split [OF q(1)] obtain us vs where s: "queued ch = us @ q @ vs"
    "\<And>y rs. queued (ch\<lparr>ch_queues := (ch_queues ch)[unat shard := y], ch_replies := rs\<rparr>) = us @ case_option [] id y @ vs"
    "\<And>y p. Some p \<in> set ((ch_queues ch)[unat shard := y]) \<Longrightarrow> Some p \<in> set (ch_queues ch) \<or> y = Some p" by auto
  have lt: "rq_reply r < length (ch_replies ch)" if "r \<in> set (queued ch)" for r
    using assms(1) that by (auto simp: channels_ok_def nth_opt_def split: if_splits)
  have "nth_opt (ch_replies ch @ [Waiting]) (rq_reply r) = Some Waiting \<and> whole_frame r" if "r \<in> set (us @ (q @ [rq]) @ vs)" for r
  proof (cases "r = rq")
    case True
    then show ?thesis using assms(3,4) by (simp add: nth_opt_append) (simp add: nth_opt_def)
  next
    case False
    then have "r \<in> set (queued ch)" using that s(1) by auto
    then show ?thesis using assms(1) lt by (simp add: channels_ok_def nth_opt_append)
  qed
  moreover have "distinct (map rq_reply (us @ (q @ [rq]) @ vs))"
    using assms(1,3) lt by (force simp: channels_ok_def s(1))
  moreover have "length p \<le> ch_capacity ch" if "Some p \<in> set ((ch_queues ch)[unat shard := Some (q @ [rq])])" for p
    using s(3) [OF that] assms(1) q(2) by (auto simp: channels_ok_def)
  ultimately show ?thesis by (simp add: channels_ok_def q(3) s(2))
qed

text \<open>What a call of \<open>dispatch_frame\<close> does to the channels.\<close>

lemma owner_channels:
  assumes "dispatch_to_owner hf d st ch c k slot owner input now out = Some (r, st', ch', out')"
  obtains (same) "ch' = ch" "\<And>k s i. r \<noteq> Inr (Some (LocalQueued k s i))"
  | (full) "ch' = ch\<lparr>ch_replies := ch_replies ch @ [Gone]\<rparr>" "\<And>k s i. r \<noteq> Inr (Some (LocalQueued k s i))"
  | (queue) s ch1 where "r = Inr (Some (LocalQueued k s (length (ch_replies ch))))"
      "owner = \<lparr>so_node_id = cd_local_node_id d, so_shard = s\<rparr>" "s \<noteq> cd_local_shard d" "st' = st" "out' = out"
      "try_send s \<lparr>rq_frame = take k input, rq_now_ms = now, rq_reply = length (ch_replies ch)\<rparr> ch = Inr ch1"
      "ch' = ch1\<lparr>ch_replies := ch_replies ch @ [Waiting]\<rparr>"
proof (cases "so_node_id owner = cd_local_node_id d \<and> so_shard owner \<noteq> cd_local_shard d \<and> cd_routing_mode d \<noteq> Redirect")
  case True
  show ?thesis
  proof (cases "try_send (so_shard owner) \<lparr>rq_frame = take k input, rq_now_ms = now, rq_reply = length (ch_replies ch)\<rparr> ch")
    case (Inl e)
    then show ?thesis using assms True full by (auto simp: dispatch_to_owner_def Let_def)
  next
    case (Inr ch1)
    then show ?thesis using assms True by (intro queue [OF _ _ _ _ _ Inr]) (auto simp: dispatch_to_owner_def Let_def)
  qed
next
  case False
  then show ?thesis using assms same by (auto simp: dispatch_to_owner_def Let_def split: if_splits option.splits)
qed

lemma dispatch_channels:
  assumes "dispatch_frame hf d st ch input now out = Some (r, st', ch', out')"
  obtains (same) "ch' = ch" "\<And>k s i. r \<noteq> Inr (Some (LocalQueued k s i))"
  | (full) "ch' = ch\<lparr>ch_replies := ch_replies ch @ [Gone]\<rparr>" "\<And>k s i. r \<noteq> Inr (Some (LocalQueued k s i))"
  | (queue) c k s ch1 where "parse_command input = Inr (Some (c, k))" "r = Inr (Some (LocalQueued k s (length (ch_replies ch))))"
      "try_send s \<lparr>rq_frame = take k input, rq_now_ms = now, rq_reply = length (ch_replies ch)\<rparr> ch = Inr ch1"
      "ch' = ch1\<lparr>ch_replies := ch_replies ch @ [Waiting]\<rparr>"
      "\<exists>slot. command_slot c = Some (Slot slot) \<and> owner_for_slot (cd_placement d) slot = Some \<lparr>so_node_id = cd_local_node_id d, so_shard = s\<rparr>"
      "s \<noteq> cd_local_shard d" "st' = st"
proof (cases "\<exists>c k slot owner out1. parse_command input = Inr (Some (c, k))
    \<and> command_slot c = Some (Slot slot) \<and> owner_for_slot (cd_placement d) slot = Some owner
    \<and> dispatch_to_owner hf d st ch c k slot owner input now out1 = Some (r, st', ch', out')")
  case True
  then obtain c k slot owner out1 where p: "parse_command input = Inr (Some (c, k))"
    "command_slot c = Some (Slot slot)" "owner_for_slot (cd_placement d) slot = Some owner"
    and o: "dispatch_to_owner hf d st ch c k slot owner input now out1 = Some (r, st', ch', out')" by blast
  from o show ?thesis using same full queue [OF p(1)] p(2,3) by (cases rule: owner_channels) auto
next
  case False
  then have "ch' = ch \<and> (\<forall>k s i. r \<noteq> Inr (Some (LocalQueued k s i)))"
    using assms by (fastforce simp: dispatch_frame_def split: sum.splits option.splits prod.splits RespCommandSlot.splits CacheClusterCommandError.splits)
  then show ?thesis using same by blast
qed


lemma dispatch_ok:
  assumes "channels_ok ch" "dispatch_frame hf d st ch input now out = Some (r, st', ch', out')"
  shows "channels_ok ch'"
  using assms(2)
proof (cases rule: dispatch_channels)
  case full
  have "nth_opt (ch_replies ch @ [Gone]) i = Some Waiting" if "nth_opt (ch_replies ch) i = Some Waiting" for i
    using that by (auto simp: nth_opt_def nth_append split: if_splits)
  then show ?thesis using assms(1) full by (simp add: channels_ok_def queued_def)
next
  case (queue c k s ch1)
  have "length (take k input) = k" using command_bound [OF queue(1)] by simp
  then have "whole_frame \<lparr>rq_frame = take k input, rq_now_ms = now, rq_reply = length (ch_replies ch)\<rparr>"
    using command_exact [OF queue(1)] by (simp add: whole_frame_def)
  from try_send_ok [OF assms(1) queue(3) _ this] queue(4) show ?thesis by simp
qed (use assms(1) in simp)

lemma served_reply:
  assumes "channels_ok ch" "nth_opt (ch_queues ch) (unat s) = Some (Some (rq # q))"
    "parse_command (rq_frame rq) = Inr (Some (c, k))"
  shows "try_process_one hf s st ch = map_option (\<lambda>(st', out). (True, st', ch\<lparr>ch_queues := (ch_queues ch)[unat s := Some q],
      ch_replies := (ch_replies ch)[rq_reply rq := Sent (Inr out)]\<rparr>)) (execute_command hf st c (rq_now_ms rq) [])"
proof -
  have "rq \<in> set (queued ch)" using nth_opt_split [OF assms(2)] by (auto simp: queued_def)
  then have "k = length (rq_frame rq)" using assms(1,3) by (auto simp: channels_ok_def whole_frame_def)
  then show ?thesis using assms(2,3)
    by (cases "execute_command hf st c (rq_now_ms rq) []") (auto simp: try_process_one_def execute_frame_def Let_def)
qed

lemma answer_ok:
  assumes "channels_ok ch" "nth_opt (ch_queues ch) s = Some (Some (rq # q))"
  shows "channels_ok (ch\<lparr>ch_queues := (ch_queues ch)[s := Some q], ch_replies := (ch_replies ch)[rq_reply rq := x]\<rparr>)"
proof -
  from queued_split [OF assms(2)] obtain us vs where s: "queued ch = us @ (rq # q) @ vs"
    "\<And>y rs. queued (ch\<lparr>ch_queues := (ch_queues ch)[s := y], ch_replies := rs\<rparr>) = us @ case_option [] id y @ vs"
    "\<And>y p. Some p \<in> set ((ch_queues ch)[s := y]) \<Longrightarrow> Some p \<in> set (ch_queues ch) \<or> y = Some p" by auto
  have d: "rq_reply r \<noteq> rq_reply rq" if "r \<in> set (us @ q @ vs)" for r
    using assms(1) that by (auto simp: channels_ok_def s(1) image_iff)
  have "nth_opt ((ch_replies ch)[rq_reply rq := x]) (rq_reply r) = Some Waiting \<and> whole_frame r" if "r \<in> set (us @ q @ vs)" for r
    using assms(1) d [OF that] that by (auto simp: channels_ok_def s(1) nth_opt_def split: if_splits)
  moreover have "distinct (map rq_reply (us @ q @ vs))" using assms(1) by (auto simp: channels_ok_def s(1))
  moreover have "length p \<le> ch_capacity ch" if "Some p \<in> set ((ch_queues ch)[s := Some q])" for p
  proof -
    have "Some (rq # q) \<in> set (ch_queues ch)" using nth_opt_split [OF assms(2)] by auto
    then have "length (rq # q) \<le> ch_capacity ch" using assms(1) unfolding channels_ok_def by blast
    then show ?thesis using s(3) [OF that] assms(1) by (auto simp: channels_ok_def)
  qed
  ultimately show ?thesis by (simp add: channels_ok_def s(2))
qed


lemma received_ok:
  assumes "channels_ok ch" "reply_try_recv i (ch_replies ch) = (r, slots)"
  shows "channels_ok (ch\<lparr>ch_replies := slots\<rparr>)"
proof -
  have "nth_opt slots j = Some Waiting" if "nth_opt (ch_replies ch) j = Some Waiting" for j
    using assms(2) that by (auto simp: reply_try_recv_def nth_opt_def nth_list_update split: if_splits reply_slot.splits sum.splits option.splits)
  then show ?thesis using assms(1) by (simp add: channels_ok_def queued_def)
qed

lemma length_mark_gone [simp]: "length (fold (\<lambda>rq slots. slots[rq_reply rq := Gone]) q slots) = length slots"
  by (induction q arbitrary: slots) simp_all

lemma nth_mark_gone:
  "i < length slots \<Longrightarrow> fold (\<lambda>rq slots. slots[rq_reply rq := Gone]) q slots ! i = (if i \<in> rq_reply ` set q then Gone else slots ! i)"
  by (induction q arbitrary: slots) (auto simp: nth_list_update)

lemma dropped_ok:
  assumes "channels_ok ch"
  shows "channels_ok (inbox_dropped shard ch)"
proof (cases "nth_opt (ch_queues ch) (unat shard)")
  case (Some x)
  show ?thesis
  proof (cases x)
    case None
    then show ?thesis using Some assms by (simp add: inbox_dropped_def)
  next
    case q: (Some q)
    let ?slots = "fold (\<lambda>rq slots. slots[rq_reply rq := Gone]) q (ch_replies ch)"
    from queued_split [OF Some [unfolded q]] obtain us vs where s: "queued ch = us @ q @ vs"
      "\<And>y rs. queued (ch\<lparr>ch_queues := (ch_queues ch)[unat shard := y], ch_replies := rs\<rparr>) = us @ case_option [] id y @ vs"
      "\<And>y p. Some p \<in> set ((ch_queues ch)[unat shard := y]) \<Longrightarrow> Some p \<in> set (ch_queues ch) \<or> y = Some p" by auto
    have "nth_opt ?slots (rq_reply r) = Some Waiting \<and> whole_frame r" if "r \<in> set (us @ vs)" for r
    proof -
      have "rq_reply r \<notin> rq_reply ` set q" using assms that by (auto simp: channels_ok_def s(1))
      moreover have "rq_reply r < length (ch_replies ch)" "ch_replies ch ! rq_reply r = Waiting" "whole_frame r"
        using assms that by (auto simp: channels_ok_def s(1) nth_opt_def split: if_splits)
      ultimately show ?thesis by (simp add: nth_opt_def nth_mark_gone)
    qed
    moreover have "distinct (map rq_reply (us @ vs))" using assms by (auto simp: channels_ok_def s(1))
    moreover have "length p \<le> ch_capacity ch" if "Some p \<in> set ((ch_queues ch)[unat shard := None])" for p
      using s(3) [OF that] assms by (auto simp: channels_ok_def)
    ultimately show ?thesis using Some q by (simp add: inbox_dropped_def channels_ok_def s(2))
  qed
qed (use assms in \<open>simp add: inbox_dropped_def\<close>)

text \<open>A shard owner that finds its queue empty changes nothing; otherwise it answers the first request.\<close>

lemma served_cases:
  assumes "channels_ok ch" "try_process_one hf s st ch = Some (b, st', ch')"
  obtains (idle) "ch' = ch"
  | (answer) rq q out where "nth_opt (ch_queues ch) (unat s) = Some (Some (rq # q))"
      "ch' = ch\<lparr>ch_queues := (ch_queues ch)[unat s := Some q], ch_replies := (ch_replies ch)[rq_reply rq := Sent (Inr out)]\<rparr>"
proof (cases "\<exists>rq q. nth_opt (ch_queues ch) (unat s) = Some (Some (rq # q))")
  case True
  then obtain rq q where q: "nth_opt (ch_queues ch) (unat s) = Some (Some (rq # q))" by blast
  have "rq \<in> set (queued ch)" using nth_opt_split [OF q] by (auto simp: queued_def)
  then obtain c k where c: "parse_command (rq_frame rq) = Inr (Some (c, k))" using assms(1) by (auto simp: channels_ok_def whole_frame_def)
  from assms(2) [unfolded served_reply [OF assms(1) q c]] show ?thesis using answer [OF q] by auto
next
  case False
  then show ?thesis using assms(2) idle by (auto simp: try_process_one_def split: option.splits list.splits)
qed


text \<open>
  How the calls move the reply channels: one that is answered is only ever read, one that is waiting may be answered or
  given up, and a new one has no answer yet.
\<close>

definition slots_step :: "reply_slot list \<Rightarrow> reply_slot list \<Rightarrow> bool" where
  "slots_step xs ys \<longleftrightarrow> length xs \<le> length ys
     \<and> (\<forall>i < length xs. xs ! i = Waiting \<or> ys ! i = xs ! i \<or> ys ! i = Gone)
     \<and> (\<forall>i < length ys. length xs \<le> i \<longrightarrow> ys ! i = Waiting \<or> ys ! i = Gone)"

lemma slots_step_refl [simp]: "slots_step xs xs"
  by (simp add: slots_step_def)

lemma slots_step_snoc [simp]: "slots_step xs (xs @ [y]) \<longleftrightarrow> y = Waiting \<or> y = Gone"
  by (auto simp: slots_step_def nth_append)

lemma slots_step_update: "xs ! i = Waiting \<or> y = Gone \<Longrightarrow> slots_step xs (xs[i := y])"
  by (auto simp: slots_step_def) (metis nth_list_update_eq nth_list_update_neq)+

lemma slots_step_received: "reply_try_recv i xs = (r, ys) \<Longrightarrow> slots_step xs ys"
  by (auto simp: reply_try_recv_def slots_step_update split: reply_slot.splits sum.splits option.splits)

text \<open>The request waits in the queue of the shard.\<close>

definition waits :: "CacheDispatchChannels \<Rightarrow> nat \<Rightarrow> CacheShardRequest \<Rightarrow> bool" where
  "waits ch s rq \<longleftrightarrow> (\<exists>q. nth_opt (ch_queues ch) s = Some (Some q) \<and> rq \<in> set q)"

lemma waits_queued: "waits ch s rq \<Longrightarrow> rq \<in> set (queued ch)"
  using nth_opt_split by (fastforce simp: waits_def queued_def)

lemma waits_update:
  assumes "nth_opt (ch_queues ch) s = Some x"
  shows "waits (ch\<lparr>ch_queues := (ch_queues ch)[s := y], ch_replies := rs\<rparr>) t rq
    \<longleftrightarrow> (if t = s then (\<exists>q. y = Some q \<and> rq \<in> set q) else waits ch t rq)"
  using assms by (auto simp: waits_def nth_opt_def split: if_splits)

lemma waits_sent:
  assumes "try_send s rq ch = Inr ch1" "waits (ch1\<lparr>ch_replies := rs\<rparr>) t r"
  shows "waits ch t r \<or> t = unat s \<and> r = rq"
proof -
  obtain q where q: "nth_opt (ch_queues ch) (unat s) = Some (Some q)" "ch1 = ch\<lparr>ch_queues := (ch_queues ch)[unat s := Some (q @ [rq])]\<rparr>"
    using assms(1) by (auto simp: try_send_def split: option.splits if_splits)
  show ?thesis using assms(2) q waits_update [OF q(1)] by (auto simp: waits_def split: if_splits)
qed

lemma waits_dropped: "waits (inbox_dropped shard ch) t rq \<Longrightarrow> waits ch t rq"
  using waits_update [of ch "unat shard"] by (auto simp: inbox_dropped_def split: option.splits if_splits)

lemma channel_step_ok:
  assumes "channel_step hf ch ch'" "channels_ok ch"
  shows "channels_ok ch' \<and> slots_step (ch_replies ch) (ch_replies ch')
    \<and> (\<forall>t rq. waits ch' t rq \<longrightarrow> waits ch t rq \<or> length (ch_replies ch) \<le> rq_reply rq)"
  using assms
proof (cases rule: channel_step.cases)
  case (dispatched d st input now out r st' out')
  note ok = dispatch_ok [OF assms(2) dispatched]
  from dispatched show ?thesis
  proof (cases rule: dispatch_channels)
    case (queue c k s ch1)
    show ?thesis using ok queue(4) waits_sent [OF queue(3)] by fastforce
  qed (use ok in \<open>auto simp: waits_def\<close>)
next
  case (served shard st b st')
  from assms(2) served show ?thesis
  proof (cases rule: served_cases)
    case (answer rq q out)
    have "waits ch (unat shard) rq" using answer(1) by (simp add: waits_def)
    then have "ch_replies ch ! rq_reply rq = Waiting"
      using assms(2) waits_queued by (fastforce simp: channels_ok_def nth_opt_def split: if_splits)
    moreover have "waits ch t r" if "waits ch' t r" for t r
      using that answer waits_update [OF answer(1)] by (auto simp: waits_def split: if_splits)
    ultimately show ?thesis using answer_ok [OF assms(2) answer(1)] answer(2) by (auto intro: slots_step_update)
  qed (use assms(2) in simp)
next
  case (received i r slots)
  then show ?thesis using received_ok [OF assms(2) received(2)] slots_step_received [OF received(2)] by (simp add: waits_def)
next
  case (waker shard w)
  then show ?thesis using assms(2) by (auto simp: install_waker_def channels_ok_def queued_def waits_def split: option.splits)
next
  case (dropped shard)
  have "slots_step (ch_replies ch) (ch_replies (inbox_dropped shard ch))"
    by (auto simp: inbox_dropped_def slots_step_def nth_mark_gone split: option.split)
  then show ?thesis using dropped dropped_ok [OF assms(2)] waits_dropped by blast
qed

lemma channel_steps_ok:
  assumes "(channel_step hf)\<^sup>*\<^sup>* ch ch'" "channels_ok ch"
  shows "channels_ok ch' \<and> length (ch_replies ch) \<le> length (ch_replies ch')
    \<and> (\<forall>t rq. waits ch' t rq \<longrightarrow> waits ch t rq \<or> length (ch_replies ch) \<le> rq_reply rq)"
  using assms(1)
proof (induction rule: rtranclp_induct)
  case (step y z)
  then show ?case using channel_step_ok [OF step(2)] by (fastforce simp: slots_step_def)
qed (use assms(2) in simp)

lemma channel_reach_ok: "channel_reach hf ch \<Longrightarrow> channels_ok ch"
  using channel_steps_ok ok_new by (force simp: channel_reach_def)

lemma drain_steps: "inbox_drain hf shard n st ch = Some (k, st', ch') \<Longrightarrow> (channel_step hf)\<^sup>*\<^sup>* ch ch'"
proof (induction hf shard n st ch arbitrary: k rule: inbox_drain.induct)
  case (2 hf shard n st ch)
  obtain b st1 ch1 where p: "try_process_one hf shard st ch = Some (b, st1, ch1)" using "2.prems" by (auto split: option.splits)
  have "channel_step hf ch ch1" using p by (rule served)
  then show ?case using 2 p by (cases b) (auto intro: converse_rtranclp_into_rtranclp)
qed simp


subsection \<open>A queued request is answered as if it were executed directly\<close>

text \<open>
  C8: A request that a connection hands to another shard of its node: whatever the other connections and the shard owners
  do in between, once the request is at the front of its queue, the owner of the shard executes exactly the command that
  was parsed from the input, at the time it was received, on the store of the shard; it never takes it for malformed, and
  the connection reads exactly the bytes that the direct execution gives.
\<close>

theorem queued_request_served:
  assumes "channel_reach hf ch"
    "dispatch_frame hf d st ch input now out = Some (Inr (Some (LocalQueued k s i)), st1, ch1, out1)"
    "(channel_step hf)\<^sup>*\<^sup>* ch1 ch2"
    "nth_opt (ch_queues ch2) (unat t) = Some (Some (rq # q))" "rq_reply rq = i"
  shows "t = s \<and> (\<exists>c slot. parse_command input = Inr (Some (c, k)) \<and> command_slot c = Some (Slot slot)
    \<and> owner_for_slot (cd_placement d) slot = Some \<lparr>so_node_id = cd_local_node_id d, so_shard = s\<rparr>
    \<and> (\<forall>sst. case execute_command hf sst c now [] of
          None \<Rightarrow> try_process_one hf s sst ch2 = None
        | Some (sst', reply) \<Rightarrow> (\<exists>ch3. try_process_one hf s sst ch2 = Some (True, sst', ch3)
            \<and> reply_try_recv i (ch_replies ch3) = (Inr (Some reply), (ch_replies ch3)[i := Gone]))))"
proof -
  have ok: "channels_ok ch" using assms(1) by (rule channel_reach_ok)
  note after = channel_steps_ok [OF assms(3) dispatch_ok [OF ok assms(2)]]
  let ?rq = "\<lparr>rq_frame = take k input, rq_now_ms = now, rq_reply = length (ch_replies ch)\<rparr>"
  from assms(2) obtain c slot where c: "parse_command input = Inr (Some (c, k))" "command_slot c = Some (Slot slot)"
    "owner_for_slot (cd_placement d) slot = Some \<lparr>so_node_id = cd_local_node_id d, so_shard = s\<rparr>"
    and fresh: "i = length (ch_replies ch)" "length (ch_replies ch1) = Suc i"
      "\<And>u r. waits ch1 u r \<Longrightarrow> waits ch u r \<or> u = unat s \<and> r = ?rq"
  proof (cases rule: dispatch_channels)
    case (queue c' k' s' ch')
    then show ?thesis using that waits_sent [OF queue(3)] by auto
  qed auto
  have "waits ch1 (unat t) rq" using after fresh(1,2) assms(4,5) by (fastforce simp: waits_def)
  moreover have "\<not> waits ch (unat t) rq"
    using waits_queued ok fresh(1) assms(5) by (fastforce simp: channels_ok_def nth_opt_def split: if_splits)
  ultimately have rq: "rq = ?rq" and u: "unat t = unat s" using fresh(3) by blast+
  have t: "t = s" using u by (rule unsigned_word_eqI)
  have "parse_command (rq_frame rq) = Inr (Some (c, k))" using command_exact [OF c(1)] rq by simp
  from served_reply [OF _ assms(4) this] after
  have p: "try_process_one hf s sst ch2 = map_option (\<lambda>(st', out). (True, st', ch2\<lparr>ch_queues := (ch_queues ch2)[unat s := Some q],
      ch_replies := (ch_replies ch2)[i := Sent (Inr out)]\<rparr>)) (execute_command hf sst c now [])" for sst
    using assms(5) rq t by simp
  have "i < length (ch_replies ch2)" using after fresh(2) by simp
  then show ?thesis using t c p by (auto simp: reply_try_recv_def nth_opt_def split: option.split)
qed


theorem queued_request_served_witness:
  "let input = encode_command [[0x47, 0x45, 0x54], [0x61]];
       d = \<lparr>cd_local_node_id = 1, cd_local_shard = 0, cd_placement = \<lparr>sm_epoch = 0, sm_owners = replicate 16384 \<lparr>so_node_id = 1, so_shard = 1\<rparr>\<rparr>,
         cd_routing_mode = Transparent, cd_endpoints = []\<rparr>;
       rq = \<lparr>rq_frame = input, rq_now_ms = 5, rq_reply = 0\<rparr>;
       ch = \<lparr>ch_capacity = 4, ch_queues = [Some [], Some []], ch_wakers = [None, None], ch_replies = []\<rparr>;
       ch1 = \<lparr>ch_capacity = 4, ch_queues = [Some [], Some [rq]], ch_wakers = [None, None], ch_replies = [Waiting]\<rparr> in
    channel_reach (\<lambda>_. 7) ch
    \<and> dispatch_frame (\<lambda>_. 7) d CacheStore_new ch input 5 [] = Some (Inr (Some (LocalQueued (length input) 1 0)), CacheStore_new, ch1, [])
    \<and> (\<exists>c. parse_command input = Inr (Some (c, length input))
      \<and> (\<forall>sst. case execute_command (\<lambda>_. 7) sst c 5 [] of None \<Rightarrow> try_process_one (\<lambda>_. 7) 1 sst ch1 = None
        | Some (sst', reply) \<Rightarrow> (\<exists>ch3. try_process_one (\<lambda>_. 7) 1 sst ch1 = Some (True, sst', ch3)
            \<and> reply_try_recv 0 (ch_replies ch3) = (Inr (Some reply), (ch_replies ch3)[0 := Gone]))))"
proof -
  let ?in = "encode_command [[0x47, 0x45, 0x54], [0x61]]"
  let ?d = "\<lparr>cd_local_node_id = 1, cd_local_shard = 0, cd_placement = \<lparr>sm_epoch = 0, sm_owners = replicate 16384 \<lparr>so_node_id = 1, so_shard = 1\<rparr>\<rparr>,
         cd_routing_mode = Transparent, cd_endpoints = []\<rparr>"
  let ?ch = "\<lparr>ch_capacity = 4, ch_queues = [Some [], Some []], ch_wakers = [None, None], ch_replies = []\<rparr>"
  let ?rq = "\<lparr>rq_frame = ?in, rq_now_ms = 5, rq_reply = 0\<rparr>"
  let ?ch1 = "\<lparr>ch_capacity = 4, ch_queues = [Some [], Some [?rq]], ch_wakers = [None, None], ch_replies = [Waiting]\<rparr>"
  have "length ?in < 2 ^ 63"
    by (simp add: encode_command_def write_bulk_def write_array_len_def write_u64_decimal_def decimal_loop.simps)
  from command_read_back [OF _ this, of "[]"] obtain c where c: "parse_command ?in = Inr (Some (c, length ?in))"
    "rc_name c = [0x47, 0x45, 0x54]" "args c = [[0x61]]" "rc_argc c = 1" by auto
  have two: "replicate 2 x = [x, x]" for x :: 'b by (simp add: numeral_2_eq_2)
  have new: "CacheDispatchChannels_new 2 4 = Inr ?ch" by (simp add: CacheDispatchChannels_new_def two)
  then have r: "channel_reach (\<lambda>_. 7) ?ch" unfolding channel_reach_def by blast
  have slot: "command_slot c = Some (Slot (redis_slot [0x61]))"
    using c by (simp add: command_slot_def eq_ignore_ascii_case_def bstr_def to_ascii_lowercase_def)
  have "redis_slot [0x61] \<le> REDIS_CLUSTER_SLOTS - 1" unfolding redis_slot_def by (rule word_and_le1)
  then have "unat (redis_slot [0x61]) < 16384" by (simp add: REDIS_CLUSTER_SLOTS_def word_le_nat_alt)
  then have own: "owner_for_slot (cd_placement ?d) (redis_slot [0x61]) = Some \<lparr>so_node_id = 1, so_shard = 1\<rparr>"
    by (simp add: owner_for_slot_def nth_opt_def)
  have cl: "execute_cluster_command c m eps out = Some (None, out)" for m eps out
    using c by (simp add: execute_cluster_command_def eq_ignore_ascii_case_def bstr_def to_ascii_lowercase_def)
  have disp: "dispatch_frame (\<lambda>_. 7) ?d CacheStore_new ?ch ?in 5 [] = Some (Inr (Some (LocalQueued (length ?in) 1 0)), CacheStore_new, ?ch1, [])"
    using c(1) slot own cl by (simp add: dispatch_frame_def dispatch_to_owner_def try_send_def nth_opt_def)
  show ?thesis
    using queued_request_served [OF r disp rtranclp.rtrancl_refl, of 1 ?rq "[]"] r disp by (simp add: nth_opt_def Let_def) blast
qed

end
