(* ===== verification/Cache_Pipeline.thy ===== *)
theory Cache_Pipeline
  imports Cache_Dispatch
begin

text \<open>
  The response pipeline of a connection, \<open>src/runtime/cache_pipeline.rs\<close>. Requests of one connection may be answered by
  other shards and by other nodes in any order; the pipeline writes the replies to the socket in the order of the requests.
  A local reply is the number of its channel in \<open>ch_replies\<close>. The buffer \<open>direct_scratch\<close> is cleared before each use, so it
  is the empty output that \<open>dispatch_frame\<close> gets. Byte counts are natural numbers with the saturation of \<open>usize\<close>.
\<close>

subsection \<open>Data\<close>

datatype CachePipelineError =
    Dispatch CacheDispatchError
  | Reply CacheReplyError
  | PipelineFull
  | UnknownRemoteRequest u64

record CacheSequencedRemoteRequest =
  sq_request_id :: u64
  sq_request :: CacheRemoteRequest

record CachePipelineSubmit =
  ps_consumed :: nat
  ps_remote :: "CacheSequencedRemoteRequest option"

datatype PendingResponse = Ready bytes | PLocal nat | PRemote u64

record CacheResponsePipeline =
  pp_max_pending :: nat
  pp_max_pending_bytes :: nat
  pp_pending_bytes :: nat
  pp_next_request_id :: u64
  pp_pending :: "PendingResponse list"
  pp_remote_ready :: "(u64, bytes) hashmap"

definition usize_add :: "nat \<Rightarrow> nat \<Rightarrow> nat" where
  "usize_add a b = min (a + b) (2 ^ 64 - 1)"

text \<open>\<open>None\<close> is a failed assertion.\<close>

definition with_limits :: "nat \<Rightarrow> nat \<Rightarrow> CacheResponsePipeline option" where
  "with_limits max_pending max_pending_bytes =
     (if max_pending = 0 \<or> max_pending_bytes = 0 then None
      else Some \<lparr>pp_max_pending = max_pending, pp_max_pending_bytes = max_pending_bytes, pp_pending_bytes = 0,
        pp_next_request_id = 1, pp_pending = [], pp_remote_ready = []\<rparr>)"

definition CacheResponsePipeline_new :: "nat \<Rightarrow> CacheResponsePipeline option" where
  "CacheResponsePipeline_new max_pending = with_limits max_pending (8 * 1024 * 1024)"

subsection \<open>Operations\<close>

fun collect_loop :: "PendingResponse list \<Rightarrow> nat \<Rightarrow> reply_slot list
    \<Rightarrow> (CacheReplyError + unit) \<times> PendingResponse list \<times> nat \<times> reply_slot list" where
  "collect_loop [] b slots = (Inr (), [], b, slots)"
| "collect_loop (PLocal i # ps) b slots =
     (case reply_try_recv i slots of
        (Inl e, slots') \<Rightarrow> (Inl e, PLocal i # ps, b, slots')
      | (Inr None, slots') \<Rightarrow> (case collect_loop ps b slots' of (r, ps', rest) \<Rightarrow> (r, PLocal i # ps', rest))
      | (Inr (Some v), slots') \<Rightarrow> (case collect_loop ps (usize_add b (length v)) slots' of (r, ps', rest) \<Rightarrow> (r, Ready v # ps', rest)))"
| "collect_loop (p # ps) b slots = (case collect_loop ps b slots of (r, ps', rest) \<Rightarrow> (r, p # ps', rest))"

definition collect_ready_local :: "CacheResponsePipeline \<Rightarrow> CacheDispatchChannels
    \<Rightarrow> (CachePipelineError + unit) \<times> CacheResponsePipeline \<times> CacheDispatchChannels" where
  "collect_ready_local p ch =
     (case collect_loop (pp_pending p) (pp_pending_bytes p) (ch_replies ch) of
        (r, pending, b, slots) \<Rightarrow> (map_sum Reply id r, p\<lparr>pp_pending := pending, pp_pending_bytes := b\<rparr>, ch\<lparr>ch_replies := slots\<rparr>))"

fun drain_loop :: "PendingResponse list \<Rightarrow> nat \<Rightarrow> (u64, bytes) hashmap \<Rightarrow> reply_slot list \<Rightarrow> bytes \<Rightarrow> nat
    \<Rightarrow> (CacheReplyError + nat) \<times> PendingResponse list \<times> nat \<times> (u64, bytes) hashmap \<times> reply_slot list \<times> bytes" where
  "drain_loop [] b ready slots out flushed = (Inr flushed, [], b, ready, slots, out)"
| "drain_loop (Ready v # ps) b ready slots out flushed = drain_loop ps (b - length v) ready slots (out @ v) (Suc flushed)"
| "drain_loop (PLocal i # ps) b ready slots out flushed =
     (case reply_try_recv i slots of
        (Inl e, slots') \<Rightarrow> (Inl e, PLocal i # ps, b, ready, slots', out)
      | (Inr None, slots') \<Rightarrow> (Inr flushed, PLocal i # ps, b, ready, slots', out)
      | (Inr (Some v), slots') \<Rightarrow> drain_loop ps b ready slots' (out @ v) (Suc flushed))"
| "drain_loop (PRemote rid # ps) b ready slots out flushed =
     (case map_of ready rid of
        None \<Rightarrow> (Inr flushed, PRemote rid # ps, b, ready, slots, out)
      | Some v \<Rightarrow> drain_loop ps (b - length v) (AList.delete rid ready) slots (out @ v) (Suc flushed))"

definition drain_ready :: "CacheResponsePipeline \<Rightarrow> CacheDispatchChannels \<Rightarrow> bytes
    \<Rightarrow> (CachePipelineError + nat) \<times> CacheResponsePipeline \<times> CacheDispatchChannels \<times> bytes" where
  "drain_ready p ch out =
     (case drain_loop (pp_pending p) (pp_pending_bytes p) (pp_remote_ready p) (ch_replies ch) out 0 of
        (r, pending, b, ready, slots, out') \<Rightarrow>
          (map_sum Reply id r, p\<lparr>pp_pending := pending, pp_pending_bytes := b, pp_remote_ready := ready\<rparr>, ch\<lparr>ch_replies := slots\<rparr>, out'))"

definition complete_remote :: "u64 \<Rightarrow> bytes \<Rightarrow> CacheResponsePipeline \<Rightarrow> CacheDispatchChannels
    \<Rightarrow> (CachePipelineError + unit) \<times> CacheResponsePipeline \<times> CacheDispatchChannels" where
  "complete_remote request_id response p ch =
     (case collect_ready_local p ch of
        (Inl e, p, ch) \<Rightarrow> (Inl e, p, ch)
      | (Inr _, p, ch) \<Rightarrow>
          if PRemote request_id \<notin> set (pp_pending p) then (Inl (UnknownRemoteRequest request_id), p, ch)
          else
            let is_front = (case pp_pending p of PRemote rid # _ \<Rightarrow> rid = request_id | _ \<Rightarrow> False);
                previous_len = (case map_of (pp_remote_ready p) request_id of None \<Rightarrow> 0 | Some previous \<Rightarrow> length previous);
                retained_without_previous = pp_pending_bytes p - previous_len in
            if previous_len = 0 \<and> retained_without_previous \<ge> pp_max_pending_bytes p \<and> \<not> is_front then (Inl PipelineFull, p, ch)
            else (Inr (), p\<lparr>pp_pending_bytes := usize_add retained_without_previous (length response),
              pp_remote_ready := hm_insert request_id response (pp_remote_ready p)\<rparr>, ch))"

text \<open>The first half of \<open>submit_frame\<close>, up to the dispatch, with the scratch buffer; \<open>None\<close> is a panic of the command layer.\<close>

definition dispatch_admitted :: "(bytes \<Rightarrow> u64) \<Rightarrow> CacheDispatcher \<Rightarrow> CacheResponsePipeline \<Rightarrow> CacheStore \<Rightarrow> CacheDispatchChannels \<Rightarrow> bytes
    \<Rightarrow> u64 \<Rightarrow> bytes \<Rightarrow> ((CachePipelineError + (CacheDispatchOutcome \<times> bytes) option)
      \<times> CacheResponsePipeline \<times> CacheStore \<times> CacheDispatchChannels \<times> bytes) option" where
  "dispatch_admitted hf d p st ch input now socket_out =
     (case collect_ready_local p ch of
        (Inl e, p, ch) \<Rightarrow> Some (Inl e, p, st, ch, socket_out)
      | (Inr _, p, ch) \<Rightarrow>
          (case drain_ready p ch socket_out of
             (Inl e, p, ch, out) \<Rightarrow> Some (Inl e, p, st, ch, out)
           | (Inr _, p, ch, out) \<Rightarrow>
               if length (pp_pending p) \<ge> pp_max_pending p \<or> pp_pending_bytes p \<ge> pp_max_pending_bytes p
               then Some (Inl PipelineFull, p, st, ch, out)
               else map_option (\<lambda>(r, st', ch', scratch). (case r of
                        Inl e \<Rightarrow> Inl (Dispatch e)
                      | Inr outcome \<Rightarrow> Inr (map_option (\<lambda>oc. (oc, scratch)) outcome), p, st', ch', out))
                      (dispatch_frame hf d st ch input now [])))"

text \<open>The second half: the outcome takes its place in the order.\<close>

fun enqueue :: "CacheDispatchOutcome \<Rightarrow> bytes \<Rightarrow> CacheResponsePipeline \<Rightarrow> bytes \<Rightarrow> CachePipelineSubmit \<times> CacheResponsePipeline \<times> bytes" where
  "enqueue (LocalQueued consumed shard i) scratch p out =
     (\<lparr>ps_consumed = consumed, ps_remote = None\<rparr>, p\<lparr>pp_pending := pp_pending p @ [PLocal i]\<rparr>, out)"
| "enqueue (RemoteHandoff consumed request) scratch p out =
     (\<lparr>ps_consumed = consumed, ps_remote = Some \<lparr>sq_request_id = pp_next_request_id p, sq_request = request\<rparr>\<rparr>,
      p\<lparr>pp_next_request_id := max (pp_next_request_id p + 1) 1, pp_pending := pp_pending p @ [PRemote (pp_next_request_id p)]\<rparr>, out)"
| "enqueue oc scratch p out =
     (\<lparr>ps_consumed = (case oc of Executed consumed \<Rightarrow> consumed | Redirected consumed _ _ \<Rightarrow> consumed), ps_remote = None\<rparr>,
      if pp_pending p = [] then (p, out @ scratch)
      else (p\<lparr>pp_pending_bytes := usize_add (pp_pending_bytes p) (length scratch), pp_pending := pp_pending p @ [Ready scratch]\<rparr>, out))"

definition submit_frame :: "(bytes \<Rightarrow> u64) \<Rightarrow> CacheDispatcher \<Rightarrow> CacheResponsePipeline \<Rightarrow> CacheStore \<Rightarrow> CacheDispatchChannels \<Rightarrow> bytes
    \<Rightarrow> u64 \<Rightarrow> bytes \<Rightarrow> ((CachePipelineError + CachePipelineSubmit option)
      \<times> CacheResponsePipeline \<times> CacheStore \<times> CacheDispatchChannels \<times> bytes) option" where
  "submit_frame hf d p st ch input now socket_out =
     map_option (\<lambda>(r, p, st, ch, out).
       case r of
         Inl e \<Rightarrow> (Inl e, p, st, ch, out)
       | Inr None \<Rightarrow> (Inr None, p, st, ch, out)
       | Inr (Some (oc, scratch)) \<Rightarrow>
           (case enqueue oc scratch p out of
              (submit, p, out) \<Rightarrow>
                (case drain_ready p ch out of
                   (Inl e, p, ch, out) \<Rightarrow> (Inl e, p, st, ch, out)
                 | (Inr _, p, ch, out) \<Rightarrow> (Inr (Some submit), p, st, ch, out))))
       (dispatch_admitted hf d p st ch input now socket_out)"

subsection \<open>Requests, replies and their order\<close>

text \<open>Where the reply of a request comes from: the connection itself, a reply channel of another shard, or another node.\<close>

datatype origin = Direct bytes | FromShard nat | FromPeer u64

text \<open>
  A connection with its history: the requests it took in, in their order, what the shards sent on each reply channel and
  what other nodes answered, by the position of the request.
\<close>

record connection =
  cn_pipe :: CacheResponsePipeline
  cn_channels :: CacheDispatchChannels
  cn_socket :: bytes
  cn_log :: "origin list"
  cn_sent :: "nat \<Rightarrow> bytes option"
  cn_got :: "nat \<Rightarrow> bytes option"

fun reply_at :: "(nat \<Rightarrow> bytes option) \<Rightarrow> (nat \<Rightarrow> bytes option) \<Rightarrow> nat \<Rightarrow> origin \<Rightarrow> bytes option" where
  "reply_at sent got k (Direct b) = Some b"
| "reply_at sent got k (FromShard i) = sent i"
| "reply_at sent got k (FromPeer rid) = got k"

definition reply_of :: "connection \<Rightarrow> nat \<Rightarrow> bytes option" where
  "reply_of s k = reply_at (cn_sent s) (cn_got s) k (cn_log s ! k)"

definition observe :: "reply_slot list \<Rightarrow> (nat \<Rightarrow> bytes option) \<Rightarrow> nat \<Rightarrow> bytes option" where
  "observe slots sent i = (case nth_opt slots i of Some (Sent (Inr v)) \<Rightarrow> Some v | _ \<Rightarrow> sent i)"

text \<open>The request that holds an identifier is the last one that was given it.\<close>

definition last_issued :: "u64 \<Rightarrow> origin list \<Rightarrow> nat option" where
  "last_issued rid log = find (\<lambda>k. log ! k = FromPeer rid) (rev [0 ..< length log])"

definition taken_in :: "CacheResponsePipeline \<Rightarrow> CachePipelineError + (CacheDispatchOutcome \<times> bytes) option \<Rightarrow> origin list" where
  "taken_in p r =
     (case r of
        Inr (Some (Executed _, scratch)) \<Rightarrow> [Direct scratch]
      | Inr (Some (Redirected _ _ _, scratch)) \<Rightarrow> [Direct scratch]
      | Inr (Some (LocalQueued _ _ i, _)) \<Rightarrow> [FromShard i]
      | Inr (Some (RemoteHandoff _ _, _)) \<Rightarrow> [FromPeer (pp_next_request_id p)]
      | _ \<Rightarrow> [])"

text \<open>
  The histories of a connection: its own calls in any order, with any dispatcher, and any calls of the other connections
  and the shard owners on the shared channels.
\<close>

inductive connection_run :: "(bytes \<Rightarrow> u64) \<Rightarrow> nat \<Rightarrow> nat \<Rightarrow> connection \<Rightarrow> bool" for hf max_pending max_bytes where
  opened: "\<lbrakk>with_limits max_pending max_bytes = Some p; channel_reach hf ch\<rbrakk>
    \<Longrightarrow> connection_run hf max_pending max_bytes \<lparr>cn_pipe = p, cn_channels = ch, cn_socket = [], cn_log = [],
      cn_sent = observe (ch_replies ch) (\<lambda>_. None), cn_got = (\<lambda>_. None)\<rparr>"
| submit: "\<lbrakk>connection_run hf max_pending max_bytes s;
    dispatch_admitted hf d (cn_pipe s) st (cn_channels s) input now (cn_socket s) = Some (r, p1, rest);
    submit_frame hf d (cn_pipe s) st (cn_channels s) input now (cn_socket s) = Some (res, p', st', ch', out')\<rbrakk>
    \<Longrightarrow> connection_run hf max_pending max_bytes (s\<lparr>cn_pipe := p', cn_channels := ch', cn_socket := out', cn_log := cn_log s @ taken_in p1 r\<rparr>)"
| complete: "\<lbrakk>connection_run hf max_pending max_bytes s;
    complete_remote rid response (cn_pipe s) (cn_channels s) = (res, p', ch')\<rbrakk>
    \<Longrightarrow> connection_run hf max_pending max_bytes (s\<lparr>cn_pipe := p', cn_channels := ch',
      cn_got := (case (res, last_issued rid (cn_log s)) of (Inr _, Some k) \<Rightarrow> (cn_got s)(k \<mapsto> response) | _ \<Rightarrow> cn_got s)\<rparr>)"
| drain: "\<lbrakk>connection_run hf max_pending max_bytes s; drain_ready (cn_pipe s) (cn_channels s) (cn_socket s) = (res, p', ch', out')\<rbrakk>
    \<Longrightarrow> connection_run hf max_pending max_bytes (s\<lparr>cn_pipe := p', cn_channels := ch', cn_socket := out'\<rparr>)"
| others: "\<lbrakk>connection_run hf max_pending max_bytes s; channel_step hf (cn_channels s) ch'\<rbrakk>
    \<Longrightarrow> connection_run hf max_pending max_bytes (s\<lparr>cn_channels := ch', cn_sent := observe (ch_replies ch') (cn_sent s)\<rparr>)"

subsection \<open>Reply channels\<close>

definition slots_ok :: "reply_slot list \<Rightarrow> (nat \<Rightarrow> bytes option) \<Rightarrow> bool" where
  "slots_ok slots sent \<longleftrightarrow> (\<forall>i v. i < length slots \<longrightarrow> slots ! i = Sent (Inr v) \<longrightarrow> sent i = Some v)
     \<and> (\<forall>i v. sent i = Some v \<longrightarrow> i < length slots \<and> slots ! i \<noteq> Waiting)"

lemma slots_okD:
  assumes "slots_ok slots sent"
  shows "\<lbrakk>i < length slots; slots ! i = Sent (Inr v)\<rbrakk> \<Longrightarrow> sent i = Some v" "sent i = Some v \<Longrightarrow> i < length slots"
    "sent i = Some v \<Longrightarrow> slots ! i \<noteq> Waiting"
  using assms unfolding slots_ok_def by blast+

lemma slots_okI:
  assumes "\<And>i v. \<lbrakk>i < length slots; slots ! i = Sent (Inr v)\<rbrakk> \<Longrightarrow> sent i = Some v" "\<And>i v. sent i = Some v \<Longrightarrow> i < length slots"
    "\<And>i v. sent i = Some v \<Longrightarrow> slots ! i \<noteq> Waiting"
  shows "slots_ok slots sent"
  using assms unfolding slots_ok_def by blast

lemma recv_cases:
  assumes "reply_try_recv i slots = (r, slots')"
  obtains (kept) "slots' = slots" "\<And>v. r \<noteq> Inr (Some v)"
  | (taken) x where "i < length slots" "slots ! i = Sent x" "slots' = slots[i := Gone]" "\<And>v. r = Inr (Some v) \<Longrightarrow> x = Inr v"
proof (cases "nth_opt slots i")
  case None
  then show ?thesis using assms kept by (auto simp: reply_try_recv_def)
next
  case (Some y)
  then have i: "i < length slots" "slots ! i = y" by (auto simp: nth_opt_def split: if_splits)
  show ?thesis
  proof (cases y)
    case (Sent x)
    then show ?thesis using assms Some i by (intro taken [of x]) (auto simp: reply_try_recv_def split: sum.splits)
  qed (use assms Some kept in \<open>auto simp: reply_try_recv_def\<close>)
qed

lemma nth_gone: "j < length xs \<Longrightarrow> xs[i := Gone] ! j = (if j = i then Gone else xs ! j)"
  by (simp add: nth_list_update)

lemma slots_ok_gone:
  assumes "slots_ok slots sent"
  shows "slots_ok (slots[i := Gone]) sent"
proof (rule slots_okI)
  show "sent j = Some v" if "j < length (slots[i := Gone])" "slots[i := Gone] ! j = Sent (Inr v)" for j v
    using that slots_okD(1) [OF assms] by (simp add: nth_gone split: if_splits)
  show "j < length (slots[i := Gone])" if "sent j = Some v" for j v using slots_okD(2) [OF assms that] by simp
  show "slots[i := Gone] ! j \<noteq> Waiting" if "sent j = Some v" for j v using slots_okD(2,3) [OF assms that] by (simp add: nth_gone)
qed

lemma recv_ok:
  assumes "reply_try_recv i slots = (r, slots')" "slots_ok slots sent"
  shows "slots_ok slots' sent" "r = Inr (Some v) \<Longrightarrow> sent i = Some v"
proof -
  show "slots_ok slots' sent" using assms(1) by (cases rule: recv_cases) (simp_all add: assms(2) slots_ok_gone)
  show "sent i = Some v" if "r = Inr (Some v)"
    using assms(1)
  proof (cases rule: recv_cases)
    case (taken x)
    then show ?thesis using slots_okD(1) [OF assms(2) taken(1)] that by simp
  qed (use that in blast)
qed

lemma slots_ok_snoc:
  assumes "slots_ok slots sent" "x = Waiting \<or> x = Gone"
  shows "slots_ok (slots @ [x]) sent"
proof (rule slots_okI)
  show "sent i = Some v" if "i < length (slots @ [x])" "(slots @ [x]) ! i = Sent (Inr v)" for i v
  proof (cases "i < length slots")
    case True
    then show ?thesis using that(2) slots_okD(1) [OF assms(1)] by (simp add: nth_append)
  next
    case False
    then have "i = length slots" using that(1) by simp
    then show ?thesis using that(2) assms(2) by auto
  qed
  show "i < length (slots @ [x])" "(slots @ [x]) ! i \<noteq> Waiting" if "sent i = Some v" for i v
    using slots_okD(2,3) [OF assms(1) that] by (simp_all add: nth_append)
qed

lemma observe_old:
  assumes "slots_ok slots sent" "slots_step slots slots'" "sent i = Some v"
  shows "observe slots' sent i = Some v" "i < length slots'" "slots' ! i \<noteq> Waiting"
proof -
  have i: "i < length slots" "slots ! i \<noteq> Waiting" using slots_okD(2,3) [OF assms(1,3)] by auto
  then have s: "i < length slots'" "slots' ! i = slots ! i \<or> slots' ! i = Gone" using assms(2) by (auto simp: slots_step_def)
  then show "i < length slots'" "slots' ! i \<noteq> Waiting" using i by auto
  show "observe slots' sent i = Some v"
    using s i(1) slots_okD(1) [OF assms(1) i(1)] assms(3) by (auto simp: observe_def nth_opt_def split: reply_slot.split sum.split)
qed

lemma observe_step:
  assumes "slots_ok slots sent" "slots_step slots slots'"
  shows "slots_ok slots' (observe slots' sent)"
proof (rule slots_okI)
  show "observe slots' sent i = Some v" if "i < length slots'" "slots' ! i = Sent (Inr v)" for i v
    using that by (simp add: observe_def nth_opt_def)
  show "i < length slots'" "slots' ! i \<noteq> Waiting" if "observe slots' sent i = Some v" for i v
    using that observe_old(2,3) [OF assms, of i] by (auto simp: observe_def nth_opt_def split: if_splits reply_slot.splits)
qed

lemma observe_initial: "slots_ok slots (observe slots (\<lambda>_. None))"
  by (rule slots_okI) (auto simp: observe_def nth_opt_def split: if_splits reply_slot.splits)


subsection \<open>The order of the pipeline\<close>

text \<open>A pending response belongs to the request at position \<open>k\<close>.\<close>

fun belongs :: "origin list \<Rightarrow> (nat \<Rightarrow> bytes option) \<Rightarrow> (nat \<Rightarrow> bytes option) \<Rightarrow> (u64 \<rightharpoonup> bytes) \<Rightarrow> nat \<Rightarrow> PendingResponse \<Rightarrow> bool" where
  "belongs log sent got ready k (Ready b) \<longleftrightarrow> log ! k = Direct b \<or> (\<exists>i. log ! k = FromShard i \<and> sent i = Some b)"
| "belongs log sent got ready k (PLocal i) \<longleftrightarrow> log ! k = FromShard i"
| "belongs log sent got ready k (PRemote rid) \<longleftrightarrow> log ! k = FromPeer rid \<and> (\<forall>b. ready rid = Some b \<longrightarrow> got k = Some b)"

fun placed :: "origin list \<Rightarrow> (nat \<Rightarrow> bytes option) \<Rightarrow> (nat \<Rightarrow> bytes option) \<Rightarrow> (u64 \<rightharpoonup> bytes) \<Rightarrow> nat \<Rightarrow> PendingResponse list \<Rightarrow> bool" where
  "placed log sent got ready n [] \<longleftrightarrow> n = length log"
| "placed log sent got ready n (p # ps) \<longleftrightarrow> n < length log \<and> belongs log sent got ready n p \<and> placed log sent got ready (Suc n) ps"

definition written :: "origin list \<Rightarrow> (nat \<Rightarrow> bytes option) \<Rightarrow> (nat \<Rightarrow> bytes option) \<Rightarrow> nat \<Rightarrow> bytes \<Rightarrow> bool" where
  "written log sent got n out \<longleftrightarrow> (\<exists>chunks. map (\<lambda>k. reply_at sent got k (log ! k)) [0 ..< n] = map Some chunks \<and> out = concat chunks)"

lemma placed_length: "placed log sent got ready n ps \<Longrightarrow> n + length ps = length log"
  by (induction ps arbitrary: n) fastforce+

lemma belongs_mono:
  assumes "belongs log sent got ready k p" "sent \<subseteq>\<^sub>m sent'" "ready' \<subseteq>\<^sub>m ready"
  shows "belongs log sent' got ready' k p"
  using assms by (cases p) (force simp: map_le_def dom_def)+

lemma placed_mono:
  "\<lbrakk>placed log sent got ready n ps; sent \<subseteq>\<^sub>m sent'; ready' \<subseteq>\<^sub>m ready\<rbrakk> \<Longrightarrow> placed log sent' got ready' n ps"
  using belongs_mono by (induction ps arbitrary: n) auto

lemma placed_snoc:
  assumes "placed log sent got ready n ps" "belongs (log @ [x]) sent got ready (length log) p"
  shows "placed (log @ [x]) sent got ready n (ps @ [p])"
proof -
  have "belongs (log @ [x]) sent got ready k q" if "belongs log sent got ready k q" "k < length log" for k q
    using that by (cases q) (auto simp: nth_append)
  then show ?thesis using assms by (induction ps arbitrary: n) auto
qed

lemma written_Suc: "\<lbrakk>written log sent got n out; reply_at sent got n (log ! n) = Some v\<rbrakk> \<Longrightarrow> written log sent got (Suc n) (out @ v)"
  unfolding written_def by (auto intro: exI [of _ "_ @ [v]"])

lemma written_cong:
  assumes "written log sent got n out" "\<And>k v. \<lbrakk>k < n; reply_at sent got k (log ! k) = Some v\<rbrakk> \<Longrightarrow> reply_at sent' got' k (log' ! k) = Some v"
  shows "written log' sent' got' n out"
proof -
  obtain chunks where c: "map (\<lambda>k. reply_at sent got k (log ! k)) [0 ..< n] = map Some chunks" "out = concat chunks"
    using assms(1) by (auto simp: written_def)
  have "length chunks = n" using arg_cong [OF c(1), of length] by simp
  moreover have "reply_at sent got k (log ! k) = Some (chunks ! k)" if "k < n" for k
    using arg_cong [OF c(1), of "\<lambda>xs. xs ! k"] that calculation by simp
  ultimately have "map (\<lambda>k. reply_at sent' got' k (log' ! k)) [0 ..< n] = map Some chunks"
    using assms(2) by (intro nth_equalityI) auto
  then show ?thesis using c(2) by (auto simp: written_def)
qed

subsection \<open>Retained bytes\<close>

fun held :: "PendingResponse list \<Rightarrow> nat" where
  "held [] = 0"
| "held (Ready v # ps) = length v + held ps"
| "held (p # ps) = held ps"

fun remotes :: "PendingResponse list \<Rightarrow> u64 list" where
  "remotes [] = []"
| "remotes (PRemote rid # ps) = rid # remotes ps"
| "remotes (p # ps) = remotes ps"

definition weight :: "(u64, bytes) hashmap \<Rightarrow> nat" where
  "weight ready = sum_list (map (\<lambda>(_, v). length v) ready)"

lemma weight_delete: "\<lbrakk>hm_wf ready; map_of ready rid = Some v\<rbrakk> \<Longrightarrow> weight (AList.delete rid ready) + length v = weight ready"
proof (induction ready)
  case (Cons e ready)
  obtain r w where e: "e = (r, w)" by (cases e)
  show ?case
  proof (cases "r = rid")
    case True
    then have "AList.delete rid ready = ready" using Cons.prems(1) e by (simp add: delete_idem)
    then show ?thesis using True Cons.prems e by (simp add: weight_def)
  next
    case False
    then show ?thesis using Cons e by (simp add: weight_def)
  qed
qed simp

lemma weight_insert:
  "hm_wf ready \<Longrightarrow> weight (hm_insert rid v ready) + (case map_of ready rid of None \<Rightarrow> 0 | Some w \<Rightarrow> length w) = weight ready + length v"
proof (induction ready)
  case (Cons e ready)
  obtain r w where e: "e = (r, w)" by (cases e)
  have "map_of ready r = None" using Cons.prems e by (simp add: map_of_eq_None_iff)
  then show ?case using Cons e by (simp add: weight_def)
qed (simp add: weight_def)


lemma collect_loop_ok:
  assumes "collect_loop ps b slots = (r, ps', b', slots')" "placed log sent got ready n ps" "slots_ok slots sent"
  shows "placed log sent got ready n ps' \<and> slots_ok slots' sent \<and> length ps' = length ps \<and> remotes ps' = remotes ps \<and> b' + held ps \<le> b + held ps'"
  using assms
proof (induction ps b slots arbitrary: n r ps' b' slots' rule: collect_loop.induct)
  case (2 i ps b slots)
  obtain q slots1 where q: "reply_try_recv i slots = (q, slots1)" by force
  note ok = recv_ok [OF q "2.prems"(3)]
  consider e where "q = Inl e" | "q = Inr None" | v where "q = Inr (Some v)" by (cases q) auto
  then show ?case
  proof cases
    case 1
    then show ?thesis using "2.prems" q ok(1) by auto
  next
    case 2
    obtain ps1 where c: "collect_loop ps b slots1 = (r, ps1, b', slots')" "ps' = PLocal i # ps1"
      using "2.prems"(1) q 2 by (auto split: prod.splits)
    from "2.IH"(1) [OF q [symmetric] _ _ c(1) _ ok(1)] 2 show ?thesis using "2.prems"(2) c(2) by auto
  next
    case (3 v)
    obtain ps1 where c: "collect_loop ps (usize_add b (length v)) slots1 = (r, ps1, b', slots')" "ps' = Ready v # ps1"
      using "2.prems"(1) q 3 by (auto split: prod.splits)
    have "placed log sent got ready (Suc n) ps1 \<and> slots_ok slots' sent \<and> length ps1 = length ps \<and> remotes ps1 = remotes ps
        \<and> b' + held ps \<le> usize_add b (length v) + held ps1"
      using "2.IH"(2) [OF q [symmetric] _ _ c(1) _ ok(1)] 3 "2.prems"(2) by auto
    moreover have "usize_add b (length v) \<le> b + length v" by (simp add: usize_add_def)
    ultimately show ?thesis using "2.prems"(2) c(2) ok(2) [OF 3] by auto
  qed
qed (auto split: prod.splits)

lemma drain_loop_ok:
  assumes "drain_loop ps b ready slots out flushed = (r, ps', b', ready', slots', out')"
    "placed log sent got (map_of ready) n ps" "written log sent got n out" "slots_ok slots sent" "hm_wf ready"
    "distinct (remotes ps)" "fst ` set ready \<subseteq> set (remotes ps)" "b \<le> held ps + weight ready"
  shows "\<exists>n'. placed log sent got (map_of ready') n' ps' \<and> written log sent got n' out' \<and> slots_ok slots' sent \<and> hm_wf ready'
    \<and> fst ` set ready' \<subseteq> set (remotes ps') \<and> b' \<le> held ps' + weight ready' \<and> length ps' \<le> length ps"
  using assms
proof (induction ps b ready slots out flushed arbitrary: n rule: drain_loop.induct)
  case (2 v ps b ready slots out flushed)
  have "reply_at sent got n (log ! n) = Some v" using "2.prems"(2) by auto
  from "2.IH" [OF _ _ written_Suc [OF "2.prems"(3) this]] "2.prems" show ?case by fastforce
next
  case (3 i ps b ready slots out flushed)
  obtain q slots1 where q: "reply_try_recv i slots = (q, slots1)" by force
  note ok = recv_ok [OF q "3.prems"(4)]
  consider "\<And>v. q \<noteq> Inr (Some v)" | v where "q = Inr (Some v)" by blast
  then show ?case
  proof cases
    case 1
    then have "ps' = PLocal i # ps \<and> b' = b \<and> ready' = ready \<and> slots' = slots1 \<and> out' = out"
      using "3.prems"(1) q by (auto split: sum.splits option.splits)
    then show ?thesis using "3.prems" ok(1) by (intro exI [of _ n]) simp
  next
    case (2 v)
    have "reply_at sent got n (log ! n) = Some v" using "3.prems"(2) ok(2) [OF 2] by simp
    from "3.IH" [OF q [symmetric] 2 refl _ _ written_Suc [OF "3.prems"(3) this] ok(1)] "3.prems" q 2 show ?thesis by fastforce
  qed
next
  case (4 rid ps b ready slots out flushed)
  show ?case
  proof (cases "map_of ready rid")
    case None
    then show ?thesis using "4.prems" by (intro exI [of _ n]) simp
  next
    case (Some v)
    let ?ready = "AList.delete rid ready"
    have v: "reply_at sent got n (log ! n) = Some v" using "4.prems"(2) Some by simp
    have p: "placed log sent got (map_of ?ready) (Suc n) ps"
      using "4.prems"(2) by (auto intro: placed_mono simp: map_le_def delete_conv')
    have k: "fst ` set ?ready \<subseteq> set (remotes ps)" using "4.prems"(7) by (auto simp: AList.delete_eq)
    have w: "b - length v \<le> held ps + weight ?ready" using "4.prems"(8) weight_delete [OF "4.prems"(5) Some] by simp
    from "4.IH" [OF Some _ p written_Suc [OF "4.prems"(3) v] "4.prems"(4) distinct_delete [OF "4.prems"(5)] _ k w] "4.prems"(1,6) Some
    show ?thesis by fastforce
  qed
qed auto


subsection \<open>Request identifiers\<close>

text \<open>The identifiers run from 1 to the largest one and start again at 1.\<close>

definition request_id_at :: "nat \<Rightarrow> u64" where
  "request_id_at c = of_nat (c mod (2 ^ 64 - 1)) + 1"

lemma unat_Suc_of_nat:
  assumes "Suc r < 2 ^ 64"
  shows "unat (of_nat r + 1 :: u64) = Suc r"
proof -
  have e: "(of_nat r + 1 :: u64) = of_nat (Suc r)" by simp
  show ?thesis unfolding e unat_of_nat using assms by simp
qed

lemma unat_request_id: "unat (request_id_at c) = Suc (c mod (2 ^ 64 - 1))"
proof -
  have "c mod (2 ^ 64 - 1) < 2 ^ 64 - 1" by (rule mod_less_divisor) simp
  then have "Suc (c mod (2 ^ 64 - 1)) < 2 ^ 64" by linarith
  then show ?thesis unfolding request_id_at_def by (rule unat_Suc_of_nat)
qed

lemma next_request_id: "max (request_id_at c + 1) 1 = request_id_at (Suc c)"
proof (cases "Suc (c mod (2 ^ 64 - 1)) = 2 ^ 64 - 1")
  case True
  then have "request_id_at c + 1 = 0" by (simp add: request_id_at_def)
  then show ?thesis using True by (simp add: request_id_at_def mod_Suc)
next
  case False
  have lt: "c mod (2 ^ 64 - 1) < 2 ^ 64 - 1" by simp
  have "request_id_at (Suc c) = request_id_at c + 1" using False by (simp add: request_id_at_def mod_Suc)
  moreover have "1 \<le> request_id_at (Suc c)" by (simp add: unat_request_id word_le_nat_alt)
  ultimately show ?thesis by (simp add: max_absorb1)
qed

lemma request_ids_distinct:
  assumes "m \<le> 2 ^ 64 - 1"
  shows "distinct (map request_id_at [c ..< c + m])"
proof -
  have "inj_on request_id_at {c ..< c + m}"
  proof (rule linorder_inj_onI)
    fix a b assume ab: "a < b" "a \<in> {c ..< c + m}" "b \<in> {c ..< c + m}"
    show "request_id_at a \<noteq> request_id_at b"
    proof
      assume "request_id_at a = request_id_at b"
      then have "a mod (2 ^ 64 - 1) = b mod (2 ^ 64 - 1)" using unat_request_id [of a] unat_request_id [of b] by simp
      then have "(2 ^ 64 - 1) dvd b - a" using ab(1) mod_eq_dvd_iff_nat [of a b] by (metis less_imp_le)
      moreover have "0 < b - a" "b - a < 2 ^ 64 - 1" using ab assms by auto
      ultimately show False using nat_dvd_not_less by blast
    qed
  qed auto
  then show ?thesis by (simp add: distinct_map)
qed

fun peer_ids :: "origin list \<Rightarrow> u64 list" where
  "peer_ids [] = []"
| "peer_ids (FromPeer rid # log) = rid # peer_ids log"
| "peer_ids (x # log) = peer_ids log"

lemma peer_ids_append [simp]: "peer_ids (xs @ ys) = peer_ids xs @ peer_ids ys"
  by (induction xs rule: peer_ids.induct) auto

lemma placed_remotes: "placed log sent got ready n ps \<Longrightarrow> remotes ps = peer_ids (drop n log)"
proof (induction ps arbitrary: n)
  case (Cons p ps)
  then have "drop n log = log ! n # drop (Suc n) log" by (simp add: Cons_nth_drop_Suc)
  then show ?case using Cons by (cases p) auto
qed simp

definition ids_ok :: "origin list \<Rightarrow> u64 \<Rightarrow> bool" where
  "ids_ok log next_id \<longleftrightarrow> peer_ids log = map request_id_at [0 ..< length (peer_ids log)] \<and> next_id = request_id_at (length (peer_ids log))"

lemma remotes_ids:
  assumes "ids_ok log next_id" "placed log sent got ready n ps"
  obtains c where "remotes ps = map request_id_at [c ..< c + length (remotes ps)]" "next_id = request_id_at (c + length (remotes ps))"
proof -
  let ?c = "length (peer_ids (take n log))" and ?m = "length (remotes ps)"
  have split: "peer_ids log = peer_ids (take n log) @ remotes ps"
    unfolding placed_remotes [OF assms(2)] by (simp flip: peer_ids_append)
  have len: "length (peer_ids log) = ?c + ?m" by (simp add: split)
  then have "peer_ids log = map request_id_at [0 ..< ?c] @ map request_id_at [?c ..< ?c + ?m]" "next_id = request_id_at (?c + ?m)"
    using assms(1) unfolding ids_ok_def by (metis map_append upt_add_eq_append zero_le)+
  then show ?thesis using split that [of ?c] by (auto simp: append_eq_append_conv)
qed

lemma remotes_distinct:
  assumes "ids_ok log next_id" "placed log sent got ready n ps"
  shows "length (remotes ps) \<le> 2 ^ 64 - 1 \<Longrightarrow> distinct (remotes ps)" "length (remotes ps) < 2 ^ 64 - 1 \<Longrightarrow> next_id \<notin> set (remotes ps)"
proof -
  obtain c where c: "remotes ps = map request_id_at [c ..< c + length (remotes ps)]" "next_id = request_id_at (c + length (remotes ps))"
    using remotes_ids [OF assms] .
  show "distinct (remotes ps)" if "length (remotes ps) \<le> 2 ^ 64 - 1" using request_ids_distinct [OF that, of c] c(1) by simp
  assume "length (remotes ps) < 2 ^ 64 - 1"
  then have d: "distinct (map request_id_at [c ..< c + Suc (length (remotes ps))])" by (intro request_ids_distinct) simp
  have e: "map request_id_at [c ..< c + Suc (length (remotes ps))] = remotes ps @ [next_id]" using c by simp
  show "next_id \<notin> set (remotes ps)" using d unfolding e by simp
qed

lemma length_remotes: "length (remotes ps) \<le> length ps"
  by (induction ps rule: remotes.induct) auto


subsection \<open>The invariant\<close>

definition pipe_ok :: "nat \<Rightarrow> origin list \<Rightarrow> (nat \<Rightarrow> bytes option) \<Rightarrow> (nat \<Rightarrow> bytes option) \<Rightarrow> CacheResponsePipeline \<Rightarrow> reply_slot list \<Rightarrow> bytes \<Rightarrow> bool" where
  "pipe_ok max_pending log sent got p slots out \<longleftrightarrow>
     pp_max_pending p = max_pending \<and> length (pp_pending p) \<le> max_pending \<and> ids_ok log (pp_next_request_id p) \<and> hm_wf (pp_remote_ready p)
     \<and> fst ` set (pp_remote_ready p) \<subseteq> set (remotes (pp_pending p)) \<and> pp_pending_bytes p \<le> held (pp_pending p) + weight (pp_remote_ready p)
     \<and> slots_ok slots sent
     \<and> (\<exists>n. placed log sent got (map_of (pp_remote_ready p)) n (pp_pending p) \<and> written log sent got n out)"

lemma pipe_ok_distinct:
  assumes "pipe_ok m log sent got p slots out" "m < 2 ^ 64"
  shows "distinct (remotes (pp_pending p))"
proof -
  obtain n where "placed log sent got (map_of (pp_remote_ready p)) n (pp_pending p)" "ids_ok log (pp_next_request_id p)" "length (pp_pending p) \<le> m"
    using assms(1) by (auto simp: pipe_ok_def)
  then show ?thesis using remotes_distinct(1) length_remotes [of "pp_pending p"] assms(2) by fastforce
qed

lemma pipe_ok_new: "\<lbrakk>with_limits m b = Some p; slots_ok slots sent\<rbrakk> \<Longrightarrow> pipe_ok m [] sent got p slots []"
  by (auto simp: with_limits_def pipe_ok_def ids_ok_def request_id_at_def written_def split: if_splits)

lemma collect_ok:
  assumes "collect_ready_local p ch = (r, p', ch')" "pipe_ok m log sent got p (ch_replies ch) out"
  shows "pipe_ok m log sent got p' (ch_replies ch') out"
proof -
  obtain q ps b slots where c: "collect_loop (pp_pending p) (pp_pending_bytes p) (ch_replies ch) = (q, ps, b, slots)" by (metis prod_cases4)
  then have p': "p' = p\<lparr>pp_pending := ps, pp_pending_bytes := b\<rparr>" "ch_replies ch' = slots" using assms(1) by (auto simp: collect_ready_local_def)
  obtain n where n: "placed log sent got (map_of (pp_remote_ready p)) n (pp_pending p)" "written log sent got n out" "slots_ok (ch_replies ch) sent"
    using assms(2) by (auto simp: pipe_ok_def)
  from collect_loop_ok [OF c n(1,3)] show ?thesis using assms(2) n(2) p' by (auto simp: pipe_ok_def)
qed

lemma drain_ok:
  assumes "drain_ready p ch out = (r, p', ch', out')" "pipe_ok m log sent got p (ch_replies ch) out" "m < 2 ^ 64"
  shows "pipe_ok m log sent got p' (ch_replies ch') out'"
proof -
  obtain q ps b ready slots where c:
    "drain_loop (pp_pending p) (pp_pending_bytes p) (pp_remote_ready p) (ch_replies ch) out 0 = (q, ps, b, ready, slots, out')"
    and p': "p' = p\<lparr>pp_pending := ps, pp_pending_bytes := b, pp_remote_ready := ready\<rparr>" "ch_replies ch' = slots"
    using assms(1) by (auto simp: drain_ready_def split: prod.splits)
  obtain n where n: "placed log sent got (map_of (pp_remote_ready p)) n (pp_pending p)" "written log sent got n out" "slots_ok (ch_replies ch) sent"
    "hm_wf (pp_remote_ready p)" "fst ` set (pp_remote_ready p) \<subseteq> set (remotes (pp_pending p))"
    "pp_pending_bytes p \<le> held (pp_pending p) + weight (pp_remote_ready p)"
    using assms(2) by (auto simp: pipe_ok_def)
  from drain_loop_ok [OF c n(1-4) pipe_ok_distinct [OF assms(2,3)] n(5,6)] show ?thesis using assms(2) p' by (auto simp: pipe_ok_def)
qed

lemma held_append [simp]: "held (ps @ qs) = held ps + held qs"
  by (induction ps rule: held.induct) auto

lemma remotes_append [simp]: "remotes (ps @ qs) = remotes ps @ remotes qs"
  by (induction ps rule: remotes.induct) auto

lemma written_snoc: "\<lbrakk>written log sent got n out; n \<le> length log\<rbrakk> \<Longrightarrow> written (log @ [x]) sent got n out"
  by (erule written_cong) (simp add: nth_append)


lemma usize_add_le: "usize_add a b \<le> a + b"
  by (simp add: usize_add_def)

lemma push_ok:
  assumes "pipe_ok m log sent got p slots out" "length (pp_pending p) < m"
    "belongs (log @ [x]) sent got (map_of (pp_remote_ready p)) (length log) q" "b \<le> pp_pending_bytes p + held [q]" "ids_ok (log @ [x]) rid"
  shows "pipe_ok m (log @ [x]) sent got (p\<lparr>pp_next_request_id := rid, pp_pending_bytes := b, pp_pending := pp_pending p @ [q]\<rparr>) slots out"
proof -
  obtain n where n: "placed log sent got (map_of (pp_remote_ready p)) n (pp_pending p)" "written log sent got n out"
    using assms(1) by (auto simp: pipe_ok_def)
  have "placed (log @ [x]) sent got (map_of (pp_remote_ready p)) n (pp_pending p @ [q])" using placed_snoc [OF n(1) assms(3)] .
  moreover have "written (log @ [x]) sent got n out" using written_snoc [OF n(2)] placed_length [OF n(1)] by simp
  ultimately show ?thesis using assms by (auto simp: pipe_ok_def)
qed

lemma ids_ok_other: "ids_ok log rid \<Longrightarrow> (\<And>r. x \<noteq> FromPeer r) \<Longrightarrow> ids_ok (log @ [x]) rid"
  by (cases x) (auto simp: ids_ok_def)

lemma ids_ok_peer: "ids_ok log rid \<Longrightarrow> ids_ok (log @ [FromPeer rid]) (max (rid + 1) 1)"
  by (auto simp: ids_ok_def next_request_id)

lemma direct_ok:
  assumes "pipe_ok m log sent got p slots out" "pp_pending p = []"
  shows "pipe_ok m (log @ [Direct v]) sent got p slots (out @ v)"
proof -
  have "written log sent got (length log) out" "ids_ok log (pp_next_request_id p)" using assms by (auto simp: pipe_ok_def)
  then have "written (log @ [Direct v]) sent got (Suc (length log)) (out @ v)" "ids_ok (log @ [Direct v]) (pp_next_request_id p)"
    using written_Suc [OF written_snoc [OF _ order_refl]] ids_ok_other by auto
  then show ?thesis using assms by (auto simp: pipe_ok_def)
qed

lemma enqueue_ok:
  assumes "pipe_ok m log sent got p slots out" "length (pp_pending p) < m" "m < 2 ^ 64" "enqueue oc scratch p out = (sub, p', out')"
  shows "pipe_ok m (log @ taken_in p (Inr (Some (oc, scratch)))) sent got p' slots out'"
proof -
  have ids: "ids_ok log (pp_next_request_id p)" using assms(1) by (simp add: pipe_ok_def)
  have direct: "pipe_ok m (log @ [Direct scratch]) sent got p' slots out'"
    if "(p', out') = (if pp_pending p = [] then (p, out @ scratch) else
      (p\<lparr>pp_pending_bytes := usize_add (pp_pending_bytes p) (length scratch), pp_pending := pp_pending p @ [Ready scratch]\<rparr>, out))"
  proof (cases "pp_pending p = []")
    case True
    then show ?thesis using that direct_ok [OF assms(1)] by simp
  next
    case False
    then show ?thesis
      using that push_ok [OF assms(1,2), of "Direct scratch" "Ready scratch" "usize_add (pp_pending_bytes p) (length scratch)" "pp_next_request_id p"]
        ids_ok_other [OF ids] usize_add_le by simp
  qed
  show ?thesis
  proof (cases oc)
    case (LocalQueued k s i)
    then show ?thesis using assms(4) push_ok [OF assms(1,2), of "FromShard i" "PLocal i" "pp_pending_bytes p" "pp_next_request_id p"] ids_ok_other [OF ids]
      by (auto simp: taken_in_def)
  next
    case (RemoteHandoff k request)
    obtain n where n: "placed log sent got (map_of (pp_remote_ready p)) n (pp_pending p)" using assms(1) by (auto simp: pipe_ok_def)
    have "pp_next_request_id p \<notin> set (remotes (pp_pending p))"
      using remotes_distinct(2) [OF ids n] length_remotes [of "pp_pending p"] assms(2,3) by simp
    then have "pp_next_request_id p \<notin> fst ` set (pp_remote_ready p)" using assms(1) by (auto simp: pipe_ok_def)
    then have "map_of (pp_remote_ready p) (pp_next_request_id p) = None" by (simp add: map_of_eq_None_iff)
    then show ?thesis
      using RemoteHandoff assms(4) ids_ok_peer [OF ids] push_ok [OF assms(1,2), of "FromPeer (pp_next_request_id p)" "PRemote (pp_next_request_id p)" "pp_pending_bytes p"]
      by (auto simp: taken_in_def)
  qed (use assms(4) direct in \<open>auto simp: taken_in_def\<close>)
qed


subsection \<open>Every call keeps the order\<close>

lemma pipe_ok_slots: "\<lbrakk>pipe_ok m log sent got p slots out; slots_ok slots' sent\<rbrakk> \<Longrightarrow> pipe_ok m log sent got p slots' out"
  by (simp add: pipe_ok_def)

lemma dispatch_slots_ok:
  assumes "dispatch_frame hf d st ch input now out = Some (r, st', ch', out')" "slots_ok (ch_replies ch) sent"
  shows "slots_ok (ch_replies ch') sent"
  using assms(1) by (cases rule: dispatch_channels) (use assms(2) in \<open>auto intro: slots_ok_snoc\<close>)

lemma admitted_ok:
  assumes "dispatch_admitted hf d p st ch input now out = Some (r, p1, st1, ch1, out1)" "pipe_ok m log sent got p (ch_replies ch) out" "m < 2 ^ 64"
  shows "pipe_ok m log sent got p1 (ch_replies ch1) out1 \<and> (\<forall>x. r = Inr (Some x) \<longrightarrow> length (pp_pending p1) < m)"
proof -
  obtain a pa cha where a: "collect_ready_local p ch = (a, pa, cha)" by (metis prod_cases3)
  note oka = collect_ok [OF a assms(2)]
  obtain b pb chb outb where b: "drain_ready pa cha out = (b, pb, chb, outb)" by (metis prod_cases4)
  note okb = drain_ok [OF b oka assms(3)]
  show ?thesis
  proof (cases "isl a \<or> isl b \<or> length (pp_pending pb) \<ge> pp_max_pending pb \<or> pp_pending_bytes pb \<ge> pp_max_pending_bytes pb")
    case True
    then show ?thesis using assms(1) a b oka okb by (cases a; cases b) (auto simp: dispatch_admitted_def split: if_splits)
  next
    case False
    then obtain q st' ch' scratch where d: "dispatch_frame hf d st chb input now [] = Some (q, st', ch', scratch)"
      "r = (case q of Inl e \<Rightarrow> Inl (Dispatch e) | Inr outcome \<Rightarrow> Inr (map_option (\<lambda>oc. (oc, scratch)) outcome))"
      "p1 = pb" "ch1 = ch'" "out1 = outb"
      using assms(1) a b by (cases a; cases b) (auto simp: dispatch_admitted_def)
    have "slots_ok (ch_replies chb) sent" using okb by (simp add: pipe_ok_def)
    from dispatch_slots_ok [OF d(1) this] show ?thesis using pipe_ok_slots [OF okb] okb False d by (simp add: pipe_ok_def)
  qed
qed

lemma submit_ok:
  assumes "dispatch_admitted hf d p st ch input now out = Some (r, p1, rest)"
    "submit_frame hf d p st ch input now out = Some (res, p', st', ch', out')" "pipe_ok m log sent got p (ch_replies ch) out" "m < 2 ^ 64"
  shows "pipe_ok m (log @ taken_in p1 r) sent got p' (ch_replies ch') out'"
proof -
  obtain st1 ch1 out1 where r: "rest = (st1, ch1, out1)" by (cases rest)
  note ok = admitted_ok [OF assms(1) [unfolded r] assms(3,4)]
  consider "\<And>x. r \<noteq> Inr (Some x)" | oc scratch where "r = Inr (Some (oc, scratch))" by (metis prod.exhaust)
  then show ?thesis
  proof cases
    case 1
    then have "p' = p1 \<and> ch' = ch1 \<and> out' = out1" "taken_in p1 r = []"
      using assms(1,2) r by (auto simp: submit_frame_def taken_in_def split: sum.splits option.splits)
    then show ?thesis using ok by simp
  next
    case (2 oc scratch)
    obtain sub p2 out2 where e: "enqueue oc scratch p1 out1 = (sub, p2, out2)" by (metis prod_cases3)
    have ok2: "pipe_ok m (log @ taken_in p1 r) sent got p2 (ch_replies ch1) out2"
      using enqueue_ok [OF conjunct1 [OF ok] _ assms(4) e] ok 2 by simp
    obtain q p3 ch3 out3 where d: "drain_ready p2 ch1 out2 = (q, p3, ch3, out3)" by (metis prod_cases4)
    have "p' = p3 \<and> ch' = ch3 \<and> out' = out3"
      using assms(1,2) r 2 e d by (cases q) (auto simp: submit_frame_def)
    then show ?thesis using drain_ok [OF d ok2 assms(4)] by simp
  qed
qed

lemma peer_position_unique:
  "\<lbrakk>distinct (peer_ids xs); i < length xs; j < length xs; xs ! i = FromPeer r; xs ! j = FromPeer r\<rbrakk> \<Longrightarrow> i = j"
proof (induction xs arbitrary: i j)
  case (Cons x xs)
  have mem: "r \<in> set (peer_ids xs)" if "k < length xs" "xs ! k = FromPeer r" for k
    using that by (metis id_take_nth_drop in_set_conv_decomp peer_ids.simps(2) peer_ids_append)
  have "distinct (peer_ids xs)" using Cons.prems(1) by (cases x) auto
  then show ?case using Cons mem by (cases i; cases j) auto
qed simp

lemma last_issued_eq:
  assumes "k < length log" "log ! k = FromPeer rid" "\<And>j. \<lbrakk>k < j; j < length log\<rbrakk> \<Longrightarrow> log ! j \<noteq> FromPeer rid"
  shows "last_issued rid log = Some k"
proof -
  let ?i = "length log - Suc k"
  have "?i < length (rev [0 ..< length log])" "rev [0 ..< length log] ! ?i = k" using assms(1) by (auto simp: rev_nth)
  moreover have "log ! (rev [0 ..< length log] ! j) \<noteq> FromPeer rid" if "j < ?i" for j
    using that assms(1) by (intro assms(3)) (auto simp: rev_nth)
  ultimately show ?thesis unfolding last_issued_def find_Some_iff using assms(2) by (intro exI [of _ ?i]) metis
qed

lemma placed_remote_at: "\<lbrakk>placed log sent got ready n ps; PRemote rid \<in> set ps\<rbrakk> \<Longrightarrow> \<exists>k. n \<le> k \<and> k < length log \<and> log ! k = FromPeer rid"
proof (induction ps arbitrary: n)
  case (Cons p ps)
  show ?case
  proof (cases "p = PRemote rid")
    case False
    then obtain k where "Suc n \<le> k \<and> k < length log \<and> log ! k = FromPeer rid" using Cons by fastforce
    then show ?thesis by (intro exI [of _ k]) simp
  qed (use Cons.prems in auto)
qed simp

lemma placed_answer:
  "\<lbrakk>placed log sent got ready n ps; \<And>j. \<lbrakk>n \<le> j; j < length log; log ! j = FromPeer rid\<rbrakk> \<Longrightarrow> j = k; log ! k = FromPeer rid\<rbrakk>
   \<Longrightarrow> placed log sent (got(k \<mapsto> v)) (ready(rid \<mapsto> v)) n ps"
proof (induction ps arbitrary: n)
  case (Cons p ps)
  have "belongs log sent (got(k \<mapsto> v)) (ready(rid \<mapsto> v)) n p" using Cons.prems by (cases p) auto
  moreover have "placed log sent (got(k \<mapsto> v)) (ready(rid \<mapsto> v)) (Suc n) ps" using Cons.prems by (intro Cons.IH) auto
  ultimately show ?case using Cons.prems(1) by (simp del: fun_upd_apply)
qed simp


lemma set_remotes: "rid \<in> set (remotes ps) \<longleftrightarrow> PRemote rid \<in> set ps"
  by (induction ps rule: remotes.induct) auto

lemma answer_placed:
  assumes "placed log sent got ready n ps" "PRemote rid \<in> set ps" "distinct (remotes ps)"
  obtains k where "last_issued rid log = Some k" "n \<le> k" "\<And>v. placed log sent (got(k \<mapsto> v)) (ready(rid \<mapsto> v)) n ps"
proof -
  obtain k where k: "n \<le> k" "k < length log" "log ! k = FromPeer rid" using placed_remote_at [OF assms(1,2)] by blast
  have d: "distinct (peer_ids (drop n log))" using assms(3) placed_remotes [OF assms(1)] by simp
  have u: "j = k" if "n \<le> j" "j < length log" "log ! j = FromPeer rid" for j
  proof -
    have "j - n < length (drop n log)" "k - n < length (drop n log)" "drop n log ! (j - n) = FromPeer rid" "drop n log ! (k - n) = FromPeer rid"
      using that k by simp_all
    from peer_position_unique [OF d this] show ?thesis using that(1) k(1) by simp
  qed
  have "log ! j \<noteq> FromPeer rid" if "k < j" "j < length log" for j using u [of j] that k(1) by auto
  from last_issued_eq [OF k(2,3) this] have l: "last_issued rid log = Some k" by simp
  have "placed log sent (got(k \<mapsto> v)) (ready(rid \<mapsto> v)) n ps" for v using assms(1) u k(3) by (rule placed_answer)
  then show ?thesis by (rule that [OF l k(1)])
qed

lemma complete_ok:
  assumes "complete_remote rid v p ch = (r, p', ch')" "pipe_ok m log sent got p (ch_replies ch) out" "m < 2 ^ 64"
  shows "pipe_ok m log sent (case (r, last_issued rid log) of (Inr _, Some k) \<Rightarrow> got(k \<mapsto> v) | _ \<Rightarrow> got) p' (ch_replies ch') out"
proof -
  obtain a pa cha where a: "collect_ready_local p ch = (a, pa, cha)" by (metis prod_cases3)
  note oka = collect_ok [OF a assms(2)]
  show ?thesis
  proof (cases r)
    case (Inl e)
    then have "p' = pa \<and> ch' = cha" using assms(1) a by (auto simp: complete_remote_def Let_def split: sum.splits if_splits)
    then show ?thesis using oka Inl by simp
  next
    case (Inr u)
    let ?ready = "pp_remote_ready pa" and ?prev = "case map_of (pp_remote_ready pa) rid of None \<Rightarrow> 0 | Some w \<Rightarrow> length w"
    have known: "PRemote rid \<in> set (pp_pending pa)" and p': "ch' = cha"
      "p' = pa\<lparr>pp_pending_bytes := usize_add (pp_pending_bytes pa - ?prev) (length v), pp_remote_ready := hm_insert rid v ?ready\<rparr>"
      using assms(1) a Inr by (auto simp: complete_remote_def Let_def split: sum.splits if_splits)
    obtain n where n: "placed log sent got (map_of ?ready) n (pp_pending pa)" "written log sent got n out" "hm_wf ?ready"
      "pp_pending_bytes pa \<le> held (pp_pending pa) + weight ?ready" using oka by (auto simp: pipe_ok_def)
    obtain k where k: "last_issued rid log = Some k" "n \<le> k" "placed log sent (got(k \<mapsto> v)) ((map_of ?ready)(rid \<mapsto> v)) n (pp_pending pa)"
      using answer_placed [OF n(1) known pipe_ok_distinct [OF oka assms(3)]] by blast
    have prev: "?prev \<le> weight ?ready" using weight_delete [OF n(3), of rid] by (cases "map_of ?ready rid") auto
    have "written log sent (got(k \<mapsto> v)) n out"
    proof (rule written_cong [OF n(2)])
      show "reply_at sent (got(k \<mapsto> v)) j (log ! j) = Some w" if "j < n" "reply_at sent got j (log ! j) = Some w" for j w
        using that k(2) by (cases "log ! j") auto
    qed
    moreover have "usize_add (pp_pending_bytes pa - ?prev) (length v) \<le> held (pp_pending pa) + weight (hm_insert rid v ?ready)"
      using usize_add_le [of "pp_pending_bytes pa - ?prev" "length v"] weight_insert [OF n(3), of rid v] n(4) prev by linarith
    moreover have "fst ` set (hm_insert rid v ?ready) \<subseteq> set (remotes (pp_pending pa))"
    proof -
      have "fst ` set (hm_insert rid v ?ready) = insert rid (fst ` set ?ready)" using dom_update [of rid v ?ready] by (simp add: dom_map_of_conv_image_fst)
      then show ?thesis using oka known by (auto simp: pipe_ok_def set_remotes)
    qed
    moreover have "pp_max_pending pa = m" "length (pp_pending pa) \<le> m" "ids_ok log (pp_next_request_id pa)" "slots_ok (ch_replies cha) sent"
      using oka by (auto simp: pipe_ok_def)
    ultimately have "pipe_ok m log sent (got(k \<mapsto> v)) p' (ch_replies ch') out"
      using k(3) p' n(3) unfolding pipe_ok_def by (simp del: fun_upd_apply) blast
    then show ?thesis using Inr k(1) by simp
  qed
qed


lemma collect_loop_steps:
  "\<lbrakk>collect_loop ps b slots = (r, ps', b', slots'); slots = ch_replies ch\<rbrakk> \<Longrightarrow> (channel_step hf)\<^sup>*\<^sup>* ch (ch\<lparr>ch_replies := slots'\<rparr>)"
proof (induction ps b slots arbitrary: r ps' b' slots' ch rule: collect_loop.induct)
  case (2 i ps b slots)
  obtain q slots1 where q: "reply_try_recv i slots = (q, slots1)" by force
  have step: "channel_step hf ch (ch\<lparr>ch_replies := slots1\<rparr>)" using q "2.prems"(2) by (intro received) auto
  consider e where "q = Inl e" | "q = Inr None" | v where "q = Inr (Some v)" by (cases q) auto
  then show ?case
  proof cases
    case 1
    then show ?thesis using "2.prems"(1) q step by auto
  next
    case 2
    then obtain ps1 where "collect_loop ps b slots1 = (r, ps1, b', slots')" using "2.prems"(1) q by (auto split: prod.splits)
    from "2.IH"(1) [OF q [symmetric] 2 refl this, of "ch\<lparr>ch_replies := slots1\<rparr>"] step show ?thesis
      by (auto intro: converse_rtranclp_into_rtranclp)
  next
    case (3 v)
    then obtain ps1 where "collect_loop ps (usize_add b (length v)) slots1 = (r, ps1, b', slots')" using "2.prems"(1) q by (auto split: prod.splits)
    from "2.IH"(2) [OF q [symmetric] 3 refl this, of "ch\<lparr>ch_replies := slots1\<rparr>"] step show ?thesis
      by (auto intro: converse_rtranclp_into_rtranclp)
  qed
qed (auto split: prod.splits)

lemma drain_loop_steps:
  "\<lbrakk>drain_loop ps b ready slots out fl = (r, ps', b', ready', slots', out'); slots = ch_replies ch\<rbrakk> \<Longrightarrow> (channel_step hf)\<^sup>*\<^sup>* ch (ch\<lparr>ch_replies := slots'\<rparr>)"
proof (induction ps b ready slots out fl arbitrary: ch rule: drain_loop.induct)
  case (3 i ps b ready slots out fl)
  obtain q slots1 where q: "reply_try_recv i slots = (q, slots1)" by force
  have step: "channel_step hf ch (ch\<lparr>ch_replies := slots1\<rparr>)" using q "3.prems"(2) by (intro received) auto
  show ?case
  proof (cases "\<exists>v. q = Inr (Some v)")
    case True
    then obtain v where v: "q = Inr (Some v)" by blast
    from "3.IH" [OF q [symmetric] v refl, of "ch\<lparr>ch_replies := slots1\<rparr>"] "3.prems"(1) q v step show ?thesis
      by (auto intro: converse_rtranclp_into_rtranclp)
  next
    case False
    then have "slots' = slots1" using "3.prems"(1) q by (auto split: sum.splits option.splits)
    then show ?thesis using step by auto
  qed
qed (auto split: option.splits)

lemma collect_steps: "collect_ready_local p ch = (r, p', ch') \<Longrightarrow> (channel_step hf)\<^sup>*\<^sup>* ch ch'"
  by (auto simp: collect_ready_local_def split: prod.splits intro: collect_loop_steps)

lemma drain_ready_steps: "drain_ready p ch out = (r, p', ch', out') \<Longrightarrow> (channel_step hf)\<^sup>*\<^sup>* ch ch'"
  by (auto simp: drain_ready_def split: prod.splits intro: drain_loop_steps)

lemma complete_steps: "complete_remote rid v p ch = (r, p', ch') \<Longrightarrow> (channel_step hf)\<^sup>*\<^sup>* ch ch'"
  using collect_steps by (auto simp: complete_remote_def Let_def split: prod.splits sum.splits if_splits)

lemma admitted_steps:
  assumes "dispatch_admitted hf d p st ch input now out = Some (r, p1, st1, ch1, out1)"
  shows "(channel_step hf)\<^sup>*\<^sup>* ch ch1"
proof -
  obtain a pa cha where a: "collect_ready_local p ch = (a, pa, cha)" by (metis prod_cases3)
  obtain b pb chb outb where b: "drain_ready pa cha out = (b, pb, chb, outb)" by (metis prod_cases4)
  note s = collect_steps [OF a, of hf] drain_ready_steps [OF b, of hf]
  consider "ch1 = cha" | "ch1 = chb" | q st' out' where "dispatch_frame hf d st chb input now [] = Some (q, st', ch1, out')"
    using assms a b by (cases a; cases b) (auto simp: dispatch_admitted_def split: if_splits)
  then show ?thesis using s dispatched by cases (auto intro: rtranclp_trans rtranclp.rtrancl_into_rtrancl)
qed

lemma submit_steps:
  assumes "submit_frame hf d p st ch input now out = Some (res, p', st', ch', out')"
  shows "(channel_step hf)\<^sup>*\<^sup>* ch ch'"
proof -
  obtain r p1 st1 ch1 out1 where a: "dispatch_admitted hf d p st ch input now out = Some (r, p1, st1, ch1, out1)"
    using assms by (auto simp: submit_frame_def)
  have "(channel_step hf)\<^sup>*\<^sup>* ch1 ch'"
    using assms a by (auto simp: submit_frame_def split: sum.splits option.splits prod.splits dest: drain_ready_steps)
  then show ?thesis using admitted_steps [OF a] by simp
qed


lemma run_ok:
  assumes "connection_run hf m b s" "m < 2 ^ 64"
  shows "channel_reach hf (cn_channels s) \<and> pipe_ok m (cn_log s) (cn_sent s) (cn_got s) (cn_pipe s) (ch_replies (cn_channels s)) (cn_socket s)"
  using assms(1)
proof induction
  case (opened p ch)
  then show ?case using pipe_ok_new observe_initial by simp
next
  case (submit s d st input now r p1 rest res p' st' ch' out')
  have "channel_reach hf ch'" using submit.IH submit_steps [OF submit(3)] unfolding channel_reach_def by (meson rtranclp_trans)
  then show ?case using submit_ok [OF submit(2,3) conjunct2 [OF submit.IH] assms(2)] by simp
next
  case (complete s rid v res p' ch')
  have "channel_reach hf ch'" using complete.IH complete_steps [OF complete(2)] unfolding channel_reach_def by (meson rtranclp_trans)
  then show ?case using complete_ok [OF complete(2) conjunct2 [OF complete.IH] assms(2)] by simp
next
  case (drain s res p' ch' out')
  have "channel_reach hf ch'" using drain.IH drain_ready_steps [OF drain(2)] unfolding channel_reach_def by (meson rtranclp_trans)
  then show ?case using drain_ok [OF drain(2) conjunct2 [OF drain.IH] assms(2)] by simp
next
  case (others s ch')
  let ?sent = "observe (ch_replies ch') (cn_sent s)"
  have step: "slots_step (ch_replies (cn_channels s)) (ch_replies ch')"
    using channel_step_ok [OF others(2) channel_reach_ok] others.IH by blast
  have old: "slots_ok (ch_replies (cn_channels s)) (cn_sent s)" using others.IH by (simp add: pipe_ok_def)
  have le: "cn_sent s \<subseteq>\<^sub>m ?sent" using observe_old(1) [OF old step] by (auto simp: map_le_def dom_def)
  obtain n where n: "placed (cn_log s) (cn_sent s) (cn_got s) (map_of (pp_remote_ready (cn_pipe s))) n (pp_pending (cn_pipe s))"
    "written (cn_log s) (cn_sent s) (cn_got s) n (cn_socket s)" using others.IH by (auto simp: pipe_ok_def)
  have "written (cn_log s) ?sent (cn_got s) n (cn_socket s)"
  proof (rule written_cong [OF n(2)])
    show "reply_at ?sent (cn_got s) k (cn_log s ! k) = Some v" if "reply_at (cn_sent s) (cn_got s) k (cn_log s ! k) = Some v" for k v
      using that observe_old(1) [OF old step] by (cases "cn_log s ! k") auto
  qed
  moreover have "placed (cn_log s) ?sent (cn_got s) (map_of (pp_remote_ready (cn_pipe s))) n (pp_pending (cn_pipe s))"
    using placed_mono [OF n(1) le map_le_refl] .
  ultimately have "pipe_ok m (cn_log s) ?sent (cn_got s) (cn_pipe s) (ch_replies ch') (cn_socket s)"
    using others.IH observe_step [OF old step] by (auto simp: pipe_ok_def)
  moreover have "channel_reach hf ch'" using others unfolding channel_reach_def by (meson rtranclp.rtrancl_into_rtrancl)
  ultimately show ?case by simp
qed

subsection \<open>Each reply channel has one reader\<close>

fun locals :: "PendingResponse list \<Rightarrow> nat list" where
  "locals [] = []"
| "locals (PLocal i # ps) = i # locals ps"
| "locals (p # ps) = locals ps"

fun shard_ids :: "origin list \<Rightarrow> nat list" where
  "shard_ids [] = []"
| "shard_ids (FromShard i # log) = i # shard_ids log"
| "shard_ids (x # log) = shard_ids log"

lemma shard_ids_append [simp]: "shard_ids (xs @ ys) = shard_ids xs @ shard_ids ys"
  by (induction xs rule: shard_ids.induct) auto

text \<open>A collected reply stays in the history, so the channels still pending are a part of those handed out since.\<close>

lemma placed_locals: "\<lbrakk>placed log sent got ready n ps; distinct (shard_ids (drop n log))\<rbrakk>
  \<Longrightarrow> set (locals ps) \<subseteq> set (shard_ids (drop n log)) \<and> distinct (locals ps)"
proof (induction ps arbitrary: n)
  case (Cons p ps)
  then have d: "drop n log = log ! n # drop (Suc n) log" by (simp add: Cons_nth_drop_Suc)
  have "distinct (shard_ids (drop (Suc n) log))" using Cons.prems(2) d by (cases "log ! n") auto
  then have ih: "set (locals ps) \<subseteq> set (shard_ids (drop (Suc n) log)) \<and> distinct (locals ps)" using Cons by auto
  have sub: "set (shard_ids (drop (Suc n) log)) \<subseteq> set (shard_ids (drop n log))" using d by (cases "log ! n") auto
  show ?case
  proof (cases p)
    case (PLocal i)
    then have "shard_ids (drop n log) = i # shard_ids (drop (Suc n) log)" using Cons.prems(1) d by simp
    then show ?thesis using ih PLocal Cons.prems(2) by auto
  qed (use ih sub in auto)
qed simp

lemma recv_length: "reply_try_recv i slots = (r, slots') \<Longrightarrow> length slots' = length slots"
  by (erule recv_cases) auto

lemma collect_loop_length: "collect_loop ps b slots = (r, ps', b', slots') \<Longrightarrow> length slots' = length slots"
proof (induction ps b slots arbitrary: r ps' b' slots' rule: collect_loop.induct)
  case (2 i ps b slots)
  obtain q slots1 where q: "reply_try_recv i slots = (q, slots1)" by force
  note IH1 = "2.IH"(1) [OF q [symmetric]] and IH2 = "2.IH"(2) [OF q [symmetric]]
  consider e where "q = Inl e" | "q = Inr None" | v where "q = Inr (Some v)" by (cases q) auto
  then show ?case using "2.prems" q recv_length [OF q] IH1 IH2 by cases (auto split: prod.splits)
qed (auto split: prod.splits)

lemma drain_loop_length: "drain_loop ps b ready slots out fl = (r, ps', b', ready', slots', out') \<Longrightarrow> length slots' = length slots"
proof (induction ps b ready slots out fl rule: drain_loop.induct)
  case (3 i ps b ready slots out fl)
  obtain q slots1 where q: "reply_try_recv i slots = (q, slots1)" by force
  show ?case
  proof (cases "\<exists>v. q = Inr (Some v)")
    case True
    then obtain v where v: "q = Inr (Some v)" by blast
    from "3.IH" [OF q [symmetric] v refl] "3.prems" q v recv_length [OF q] show ?thesis by simp
  next
    case False
    then show ?thesis using "3.prems" q recv_length [OF q] by (auto split: sum.splits option.splits)
  qed
qed (auto split: option.splits)

lemma admitted_fresh:
  assumes "dispatch_admitted hf d p st ch input now out = Some (Inr (Some (LocalQueued k s i, scratch)), p1, st1, ch1, out1)"
  shows "i = length (ch_replies ch) \<and> length (ch_replies ch1) = Suc i"
proof -
  obtain a pa cha where a: "collect_ready_local p ch = (a, pa, cha)" by (metis prod_cases3)
  obtain b pb chb outb where b: "drain_ready pa cha out = (b, pb, chb, outb)" by (metis prod_cases4)
  have "length (ch_replies cha) = length (ch_replies ch)"
    using a by (auto simp: collect_ready_local_def split: prod.splits dest: collect_loop_length)
  moreover have "length (ch_replies chb) = length (ch_replies cha)"
    using b by (auto simp: drain_ready_def split: prod.splits dest: drain_loop_length)
  moreover obtain st' out' where d: "dispatch_frame hf d st chb input now [] = Some (Inr (Some (LocalQueued k s i)), st', ch1, out')"
    using assms a b by (cases a; cases b) (auto simp: dispatch_admitted_def split: if_splits sum.splits option.splits, metis sum.exhaust)
  moreover from d have "i = length (ch_replies chb) \<and> length (ch_replies ch1) = Suc i" by (cases rule: dispatch_channels) auto
  ultimately show ?thesis by simp
qed

lemma steps_length: "\<lbrakk>(channel_step hf)\<^sup>*\<^sup>* ch ch'; channel_reach hf ch\<rbrakk> \<Longrightarrow> length (ch_replies ch) \<le> length (ch_replies ch')"
  using channel_steps_ok channel_reach_ok by blast

lemma run_shard_ids:
  assumes "connection_run hf m b s" "m < 2 ^ 64"
  shows "distinct (shard_ids (cn_log s)) \<and> (\<forall>i \<in> set (shard_ids (cn_log s)). i < length (ch_replies (cn_channels s)))"
  using assms(1)
proof induction
  case (submit s d st input now r p1 rest res p' st' ch' out')
  obtain st1 ch1 out1 where rest: "rest = (st1, ch1, out1)" by (cases rest)
  have reach: "channel_reach hf (cn_channels s)" using run_ok [OF submit(1) assms(2)] by blast
  have le: "length (ch_replies (cn_channels s)) \<le> length (ch_replies ch')" using steps_length [OF submit_steps [OF submit(3)] reach] .
  show ?case
  proof (cases "\<exists>k t i scratch. r = Inr (Some (LocalQueued k t i, scratch))")
    case True
    then obtain k t i scratch where r: "r = Inr (Some (LocalQueued k t i, scratch))" by blast
    have i: "i = length (ch_replies (cn_channels s))" "length (ch_replies ch1) = Suc i"
      using admitted_fresh [OF submit(2) [unfolded r rest]] by auto
    have reach1: "channel_reach hf ch1"
      using reach admitted_steps [OF submit(2) [unfolded rest]] unfolding channel_reach_def by (meson rtranclp_trans)
    have "(channel_step hf)\<^sup>*\<^sup>* ch1 ch'"
      using submit(2,3) rest r by (auto simp: submit_frame_def split: sum.splits prod.splits dest: drain_ready_steps)
    then have "Suc i \<le> length (ch_replies ch')" using steps_length [OF _ reach1] i(2) by fastforce
    then show ?thesis using submit.IH r i(1) by (auto simp: taken_in_def)
  next
    case False
    then have "shard_ids (taken_in p1 r) = []"
      by (auto simp: taken_in_def split: sum.splits option.splits prod.splits CacheDispatchOutcome.splits)
    then show ?thesis using submit.IH le by auto
  qed
next
  case (complete s rid v res p' ch')
  then show ?case using run_ok [OF complete(1) assms(2)] steps_length [OF complete_steps [OF complete(2)]] by fastforce
next
  case (drain s res p' ch' out')
  then show ?case using run_ok [OF drain(1) assms(2)] steps_length [OF drain_ready_steps [OF drain(2)]] by fastforce
next
  case (others s ch')
  then show ?case using run_ok [OF others(1) assms(2)] steps_length [OF r_into_rtranclp [of "channel_step hf", OF others(2)]] by fastforce
qed simp

subsection \<open>Draining\<close>

fun answered :: "reply_slot list \<Rightarrow> (u64, bytes) hashmap \<Rightarrow> PendingResponse \<Rightarrow> bool" where
  "answered slots ready (Ready v) \<longleftrightarrow> True"
| "answered slots ready (PLocal i) \<longleftrightarrow> (\<exists>v. nth_opt slots i = Some (Sent (Inr v)))"
| "answered slots ready (PRemote rid) \<longleftrightarrow> map_of ready rid \<noteq> None"

lemma set_locals: "i \<in> set (locals ps) \<longleftrightarrow> PLocal i \<in> set ps"
  by (induction ps rule: locals.induct) auto

lemma drain_loop_all:
  "\<lbrakk>\<forall>p \<in> set ps. answered slots ready p; distinct (remotes ps); distinct (locals ps)\<rbrakk>
   \<Longrightarrow> \<exists>b' ready' slots' out'. drain_loop ps b ready slots out fl = (Inr (fl + length ps), [], b', ready', slots', out')"
proof (induction ps b ready slots out fl rule: drain_loop.induct)
  case (3 i ps b ready slots out fl)
  then obtain v where v: "nth_opt slots i = Some (Sent (Inr v))" by auto
  then have q: "reply_try_recv i slots = (Inr (Some v), slots[i := Gone])" by (simp add: reply_try_recv_def)
  have "answered (slots[i := Gone]) ready p" if "p \<in> set ps" for p
  proof (cases p)
    case (PLocal j)
    then have "j \<noteq> i" using that "3.prems"(3) by (auto simp: set_locals)
    moreover have "answered slots ready p" using that "3.prems"(1) by simp
    ultimately show ?thesis using PLocal by (auto simp: nth_opt_def split: if_splits)
  qed (use that "3.prems"(1) in auto)
  then show ?case using "3.IH" [OF q [symmetric] refl refl] "3.prems" q by auto
next
  case (4 rid ps b ready slots out fl)
  then obtain v where v: "map_of ready rid = Some v" by auto
  have "answered slots (AList.delete rid ready) p" if "p \<in> set ps" for p
  proof (cases p)
    case (PRemote r)
    then have "r \<noteq> rid" using that "4.prems"(2) by (auto simp: set_remotes)
    then show ?thesis using that "4.prems"(1) PRemote by (force simp: delete_conv')
  qed (use that "4.prems"(1) in auto)
  then show ?case using "4.IH" [OF v] "4.prems" v by auto
qed auto

subsection \<open>A connection with a request to another node\<close>

definition sample_dispatcher :: CacheDispatcher where
  "sample_dispatcher = \<lparr>cd_local_node_id = 1, cd_local_shard = 0,
     cd_placement = \<lparr>sm_epoch = 3, sm_owners = replicate 16384 \<lparr>so_node_id = 9, so_shard = 0\<rparr>\<rparr>, cd_routing_mode = Transparent, cd_endpoints = []\<rparr>"

definition sample_channels :: CacheDispatchChannels where
  "sample_channels = \<lparr>ch_capacity = 4, ch_queues = [Some []], ch_wakers = [None], ch_replies = []\<rparr>"

definition sample_pipe :: "u64 \<Rightarrow> nat \<Rightarrow> PendingResponse list \<Rightarrow> (u64, bytes) hashmap \<Rightarrow> CacheResponsePipeline" where
  "sample_pipe rid b pending ready = \<lparr>pp_max_pending = 4, pp_max_pending_bytes = 64, pp_pending_bytes = b,
     pp_next_request_id = rid, pp_pending = pending, pp_remote_ready = ready\<rparr>"

text \<open>A \<open>GET\<close> that another node owns was handed off under the identifier 1, and the node has answered.\<close>

definition sample_connection :: connection where
  "sample_connection = \<lparr>cn_pipe = sample_pipe 2 1 [PRemote 1] [(1, [0x2B])], cn_channels = sample_channels, cn_socket = [],
     cn_log = [FromPeer 1], cn_sent = (\<lambda>_. None), cn_got = (\<lambda>_. None)(0 \<mapsto> [0x2B])\<rparr>"

lemma sample_handoff:
  "\<exists>request. dispatch_frame hf sample_dispatcher st sample_channels (encode_command [[0x47, 0x45, 0x54], [0x61]]) 5 []
     = Some (Inr (Some (RemoteHandoff (length (encode_command [[0x47, 0x45, 0x54], [0x61]])) request)), st, sample_channels, [])"
proof -
  let ?in = "encode_command [[0x47, 0x45, 0x54], [0x61]]"
  have "length ?in < 2 ^ 63"
    by (simp add: encode_command_def write_bulk_def write_array_len_def write_u64_decimal_def decimal_loop.simps)
  from command_read_back [OF _ this, of "[]"] obtain c where c: "parse_command ?in = Inr (Some (c, length ?in))"
    "rc_name c = [0x47, 0x45, 0x54]" "args c = [[0x61]]" "rc_argc c = 1" by auto
  have slot: "command_slot c = Some (Slot (redis_slot [0x61]))"
    using c by (simp add: command_slot_def eq_ignore_ascii_case_def bstr_def to_ascii_lowercase_def)
  have "redis_slot [0x61] \<le> REDIS_CLUSTER_SLOTS - 1" unfolding redis_slot_def by (rule word_and_le1)
  then have "unat (redis_slot [0x61]) < 16384" by (simp add: REDIS_CLUSTER_SLOTS_def word_le_nat_alt)
  then have own: "owner_for_slot (cd_placement sample_dispatcher) (redis_slot [0x61]) = Some \<lparr>so_node_id = 9, so_shard = 0\<rparr>"
    by (simp add: owner_for_slot_def nth_opt_def sample_dispatcher_def)
  have cl: "execute_cluster_command c m eps out = Some (None, out)" for m eps out
    using c by (simp add: execute_cluster_command_def eq_ignore_ascii_case_def bstr_def to_ascii_lowercase_def)
  show ?thesis using c(1) slot own cl
    by (simp add: dispatch_frame_def dispatch_to_owner_def) (simp add: sample_dispatcher_def)
qed

lemma sample_connection_run: "connection_run (\<lambda>_. 7) 4 64 sample_connection"
proof -
  let ?in = "encode_command [[0x47, 0x45, 0x54], [0x61]]" and ?hf = "\<lambda>_ :: bytes. 7 :: u64"
  let ?s0 = "\<lparr>cn_pipe = sample_pipe 1 0 [] [], cn_channels = sample_channels, cn_socket = [], cn_log = [], cn_sent = (\<lambda>_. None), cn_got = (\<lambda>_. None)\<rparr>"
  let ?s1 = "?s0\<lparr>cn_pipe := sample_pipe 2 0 [PRemote 1] [], cn_log := [FromPeer 1]\<rparr>"
  have "CacheDispatchChannels_new 1 4 = Inr sample_channels" by (simp add: CacheDispatchChannels_new_def sample_channels_def)
  then have r: "channel_reach ?hf sample_channels" unfolding channel_reach_def by blast
  have o: "observe (ch_replies sample_channels) (\<lambda>_. None) = (\<lambda>_. None)" by (rule ext) (simp add: observe_def nth_opt_def sample_channels_def)
  have run0: "connection_run ?hf 4 64 ?s0"
    using opened [of 4 64 "sample_pipe 1 0 [] []" ?hf sample_channels] r by (simp add: o with_limits_def sample_pipe_def)
  obtain request where d: "dispatch_frame ?hf sample_dispatcher CacheStore_new sample_channels ?in 5 []
      = Some (Inr (Some (RemoteHandoff (length ?in) request)), CacheStore_new, sample_channels, [])"
    using sample_handoff by blast
  have a: "dispatch_admitted ?hf sample_dispatcher (sample_pipe 1 0 [] []) CacheStore_new sample_channels ?in 5 []
      = Some (Inr (Some (RemoteHandoff (length ?in) request, [])), sample_pipe 1 0 [] [], CacheStore_new, sample_channels, [])"
    using d by (simp add: dispatch_admitted_def collect_ready_local_def drain_ready_def sample_pipe_def)
  have b: "submit_frame ?hf sample_dispatcher (sample_pipe 1 0 [] []) CacheStore_new sample_channels ?in 5 []
      = Some (Inr (Some \<lparr>ps_consumed = length ?in, ps_remote = Some \<lparr>sq_request_id = 1, sq_request = request\<rparr>\<rparr>), sample_pipe 2 0 [PRemote 1] [],
        CacheStore_new, sample_channels, [])"
    using a by (simp add: submit_frame_def drain_ready_def sample_pipe_def)
  have run1: "connection_run ?hf 4 64 ?s1"
    using submit [OF run0, simplified, OF a b] by (simp add: taken_in_def sample_pipe_def)
  have c: "complete_remote 1 [0x2B] (sample_pipe 2 0 [PRemote 1] []) sample_channels = (Inr (), sample_pipe 2 1 [PRemote 1] [(1, [0x2B])], sample_channels)"
    by (simp add: complete_remote_def collect_ready_local_def sample_pipe_def usize_add_def)
  show ?thesis using complete [OF run1, simplified, OF c] by (simp add: last_issued_def sample_connection_def)
qed

subsection \<open>Properties\<close>

text \<open>
  C7: Replies leave in the order of the requests. In every history of a connection, whatever the other connections, the shard
  owners and the other nodes do and in whichever order they answer, the bytes written to the socket are the concatenated
  replies of the first requests the connection took in: each request that is no longer pending has its own reply, what
  was executed directly, what its shard sent or what the other node answered, and none is lost, repeated or overtaken.
  Never more than \<open>max_pending\<close> requests are pending, and the byte count that throttles the connection never exceeds
  the bytes that are held back.
\<close>

theorem pipeline_in_order:
  assumes "connection_run hf max_pending max_bytes s" "max_pending < 2 ^ 64"
  shows "let pending = pp_pending (cn_pipe s); n = length (cn_log s) - length pending in
    length pending \<le> length (cn_log s) \<and> length pending \<le> max_pending
    \<and> (\<exists>chunks. map (reply_of s) [0 ..< n] = map Some chunks \<and> cn_socket s = concat chunks)
    \<and> pp_pending_bytes (cn_pipe s) \<le> held pending + weight (pp_remote_ready (cn_pipe s))"
proof -
  obtain n where n: "placed (cn_log s) (cn_sent s) (cn_got s) (map_of (pp_remote_ready (cn_pipe s))) n (pp_pending (cn_pipe s))"
    "written (cn_log s) (cn_sent s) (cn_got s) n (cn_socket s)" "length (pp_pending (cn_pipe s)) \<le> max_pending"
    "pp_pending_bytes (cn_pipe s) \<le> held (pp_pending (cn_pipe s)) + weight (pp_remote_ready (cn_pipe s))"
    using run_ok [OF assms] by (auto simp: pipe_ok_def)
  have "n = length (cn_log s) - length (pp_pending (cn_pipe s))" "length (pp_pending (cn_pipe s)) \<le> length (cn_log s)"
    using placed_length [OF n(1)] by auto
  moreover have "reply_of s = (\<lambda>k. reply_at (cn_sent s) (cn_got s) k (cn_log s ! k))" by (rule ext) (simp add: reply_of_def)
  ultimately show ?thesis using n(2-4) by (simp add: written_def Let_def)
qed


theorem pipeline_in_order_witness:
  "connection_run (\<lambda>_. 7) 4 64 sample_connection \<and> pp_pending (cn_pipe sample_connection) = [PRemote 1]
   \<and> (\<exists>chunks. map (reply_of sample_connection) [0 ..< 0] = map Some chunks \<and> cn_socket sample_connection = concat chunks)"
proof -
  have "pp_pending (cn_pipe sample_connection) = [PRemote 1]" "length (cn_log sample_connection) = 1"
    by (simp_all add: sample_connection_def sample_pipe_def)
  then show ?thesis using pipeline_in_order [OF sample_connection_run] sample_connection_run by (simp add: Let_def)
qed

text \<open>
  C15: No reply is held back for good. In every history of a connection, once all its pending requests are answered, one
  \<open>drain_ready\<close> writes all of them: it reports their number, leaves the pipeline empty with a byte count of zero, and the
  socket then has the replies of all requests, in their order.
\<close>

theorem pipeline_flushes:
  assumes "connection_run hf max_pending max_bytes s" "max_pending < 2 ^ 64"
    "\<forall>p \<in> set (pp_pending (cn_pipe s)). answered (ch_replies (cn_channels s)) (pp_remote_ready (cn_pipe s)) p"
  shows "\<exists>p' ch' out' chunks. drain_ready (cn_pipe s) (cn_channels s) (cn_socket s) = (Inr (length (pp_pending (cn_pipe s))), p', ch', out')
    \<and> pp_pending p' = [] \<and> pp_remote_ready p' = [] \<and> pp_pending_bytes p' = 0
    \<and> map (reply_of s) [0 ..< length (cn_log s)] = map Some chunks \<and> out' = concat chunks"
proof -
  have ok: "pipe_ok max_pending (cn_log s) (cn_sent s) (cn_got s) (cn_pipe s) (ch_replies (cn_channels s)) (cn_socket s)"
    using run_ok [OF assms(1,2)] by blast
  then obtain n where n: "placed (cn_log s) (cn_sent s) (cn_got s) (map_of (pp_remote_ready (cn_pipe s))) n (pp_pending (cn_pipe s))"
    by (auto simp: pipe_ok_def)
  have "distinct (shard_ids (take n (cn_log s) @ drop n (cn_log s)))" using run_shard_ids [OF assms(1,2)] by simp
  then have "distinct (shard_ids (drop n (cn_log s)))" unfolding shard_ids_append by simp
  then have "distinct (locals (pp_pending (cn_pipe s)))" using placed_locals [OF n] by blast
  from drain_loop_all [OF assms(3) pipe_ok_distinct [OF ok assms(2)] this, of "pp_pending_bytes (cn_pipe s)" "cn_socket s" 0]
  obtain p' ch' out' where d: "drain_ready (cn_pipe s) (cn_channels s) (cn_socket s) = (Inr (length (pp_pending (cn_pipe s))), p', ch', out')" "pp_pending p' = []"
    by (auto simp: drain_ready_def)
  have ok': "pipe_ok max_pending (cn_log s) (cn_sent s) (cn_got s) p' (ch_replies ch') out'" using drain_ok [OF d(1) ok assms(2)] .
  then have "pp_remote_ready p' = []" using d(2) by (auto simp: pipe_ok_def)
  moreover have "pp_pending_bytes p' = 0" using ok' d(2) calculation by (simp add: pipe_ok_def weight_def)
  moreover have "written (cn_log s) (cn_sent s) (cn_got s) (length (cn_log s)) out'" using ok' d(2) by (auto simp: pipe_ok_def)
  moreover have "reply_of s = (\<lambda>k. reply_at (cn_sent s) (cn_got s) k (cn_log s ! k))" by (rule ext) (simp add: reply_of_def)
  ultimately show ?thesis using d by (auto simp: written_def)
qed


theorem pipeline_flushes_witness:
  "connection_run (\<lambda>_. 7) 4 64 sample_connection
   \<and> (\<exists>p' ch'. drain_ready (cn_pipe sample_connection) (cn_channels sample_connection) [] = (Inr 1, p', ch', [0x2B]) \<and> pp_pending p' = [])"
proof -
  have "\<forall>p \<in> set (pp_pending (cn_pipe sample_connection)).
      answered (ch_replies (cn_channels sample_connection)) (pp_remote_ready (cn_pipe sample_connection)) p"
    by (simp add: sample_connection_def sample_pipe_def)
  from pipeline_flushes [OF sample_connection_run _ this] show ?thesis
    using sample_connection_run by (auto simp: sample_connection_def sample_pipe_def reply_of_def Cons_eq_map_conv)
qed

end
