(* ===== verification/Type_Rows.thy ===== *)
theory Type_Rows
  imports Nulang_Prelude "HOL-Library.List_Lexorder"
begin

text \<open>
  Reference capabilities and effect rows of \<open>src/types.rs\<close>: the join of capabilities and the order it gives, what a
  capability permits, the effects with their derived order, and the rows. Strings are their UTF-8 bytes, which is
  also how Rust compares them.
\<close>

subsection \<open>Capabilities\<close>

datatype Capability = CapLinearIso | CapLinear | CapIso | CapTrn | CapRef | CapVal | CapBox | CapTag

fun cap_join :: "Capability \<Rightarrow> Capability \<Rightarrow> Capability" where
  "cap_join CapLinearIso CapLinearIso = CapLinearIso"
| "cap_join CapLinearIso CapIso = CapIso"
| "cap_join CapIso CapLinearIso = CapIso"
| "cap_join CapLinearIso CapTrn = CapTrn"
| "cap_join CapTrn CapLinearIso = CapTrn"
| "cap_join CapLinearIso CapRef = CapRef"
| "cap_join CapRef CapLinearIso = CapRef"
| "cap_join CapLinearIso CapVal = CapVal"
| "cap_join CapVal CapLinearIso = CapVal"
| "cap_join CapLinearIso CapBox = CapBox"
| "cap_join CapBox CapLinearIso = CapBox"
| "cap_join CapLinearIso CapTag = CapLinearIso"
| "cap_join CapTag CapLinearIso = CapLinearIso"
| "cap_join CapLinear CapLinear = CapLinear"
| "cap_join CapLinear CapVal = CapVal"
| "cap_join CapVal CapLinear = CapVal"
| "cap_join CapLinear CapLinearIso = CapVal"
| "cap_join CapLinearIso CapLinear = CapVal"
| "cap_join CapLinear CapIso = CapVal"
| "cap_join CapIso CapLinear = CapVal"
| "cap_join CapLinear CapTrn = CapVal"
| "cap_join CapTrn CapLinear = CapVal"
| "cap_join CapLinear CapRef = CapBox"
| "cap_join CapRef CapLinear = CapBox"
| "cap_join CapLinear CapBox = CapBox"
| "cap_join CapBox CapLinear = CapBox"
| "cap_join CapLinear CapTag = CapLinear"
| "cap_join CapTag CapLinear = CapLinear"
| "cap_join CapIso CapIso = CapIso"
| "cap_join CapIso CapTrn = CapTrn"
| "cap_join CapTrn CapIso = CapTrn"
| "cap_join CapTrn CapTrn = CapTrn"
| "cap_join CapIso CapRef = CapRef"
| "cap_join CapRef CapIso = CapRef"
| "cap_join CapTrn CapRef = CapRef"
| "cap_join CapRef CapTrn = CapRef"
| "cap_join CapRef CapRef = CapRef"
| "cap_join CapIso CapVal = CapVal"
| "cap_join CapVal CapIso = CapVal"
| "cap_join CapTrn CapVal = CapVal"
| "cap_join CapVal CapTrn = CapVal"
| "cap_join CapVal CapVal = CapVal"
| "cap_join CapRef CapVal = CapBox"
| "cap_join CapVal CapRef = CapBox"
| "cap_join CapIso CapBox = CapBox"
| "cap_join CapBox CapIso = CapBox"
| "cap_join CapTrn CapBox = CapBox"
| "cap_join CapBox CapTrn = CapBox"
| "cap_join CapRef CapBox = CapBox"
| "cap_join CapBox CapRef = CapBox"
| "cap_join CapVal CapBox = CapBox"
| "cap_join CapBox CapVal = CapBox"
| "cap_join CapBox CapBox = CapBox"
| "cap_join CapTag c = c"
| "cap_join c CapTag = c"

definition is_subtype_of :: "Capability \<Rightarrow> Capability \<Rightarrow> bool" where
  "is_subtype_of a b \<longleftrightarrow> cap_join a b = b"

definition is_sendable :: "Capability \<Rightarrow> bool" where
  "is_sendable c \<longleftrightarrow> c \<in> {CapLinearIso, CapLinear, CapIso, CapVal, CapTag}"

definition is_remote_sendable :: "Capability \<Rightarrow> bool" where
  "is_remote_sendable c \<longleftrightarrow> c \<in> {CapLinear, CapVal, CapTag}"


definition is_writable :: "Capability \<Rightarrow> bool" where
  "is_writable c \<longleftrightarrow> c \<in> {CapLinearIso, CapIso, CapTrn, CapRef}"

definition is_linear :: "Capability \<Rightarrow> bool" where
  "is_linear c \<longleftrightarrow> c \<in> {CapLinearIso, CapLinear}"

fun discharge_linear :: "Capability \<Rightarrow> Capability" where
  "discharge_linear CapLinearIso = CapIso"
| "discharge_linear CapLinear = CapVal"
| "discharge_linear c = c"

definition promote_to_iso :: "Capability \<Rightarrow> Capability" where
  "promote_to_iso c = discharge_linear c"

subsection \<open>Effects\<close>

datatype Effect =
    EffIO | EffNet | EffString | EffFS | EffRand | EffTime | EffSpawn | EffSend | EffReceive | EffMigrate | EffSTM
  | EffAsync | EffInference | EffCost | EffEvent | EffArray | EffFFI | EffTest | EffDB | EffPython | EffEnv
  | EffProcess | EffSystem | EffRender | EffRequest | EffRespond | EffRealtime | EffClient | EffWeb
  | EffUserDefined bytes

fun effect_code :: "Effect \<Rightarrow> u8" where
  "effect_code EffIO = 0" | "effect_code EffNet = 1" | "effect_code EffString = 2" | "effect_code EffFS = 3"
| "effect_code EffRand = 4" | "effect_code EffTime = 5" | "effect_code EffSpawn = 6" | "effect_code EffSend = 7"
| "effect_code EffReceive = 8" | "effect_code EffMigrate = 9" | "effect_code EffSTM = 10" | "effect_code EffAsync = 11"
| "effect_code EffInference = 12" | "effect_code EffCost = 13" | "effect_code EffEvent = 14" | "effect_code EffArray = 15"
| "effect_code EffFFI = 16" | "effect_code EffTest = 17" | "effect_code EffDB = 18" | "effect_code EffPython = 19"
| "effect_code EffEnv = 20" | "effect_code EffProcess = 21" | "effect_code EffSystem = 22" | "effect_code EffRender = 23"
| "effect_code EffRequest = 24" | "effect_code EffRespond = 25" | "effect_code EffRealtime = 26"
| "effect_code EffClient = 27" | "effect_code EffWeb = 28" | "effect_code (EffUserDefined _) = 29"

fun custom_name :: "Effect \<Rightarrow> bytes" where
  "custom_name (EffUserDefined s) = s"
| "custom_name _ = []"

lemma effect_eqI: "\<lbrakk>effect_code a = effect_code b; custom_name a = custom_name b\<rbrakk> \<Longrightarrow> a = b"
  by (cases a; cases b; simp)

text \<open>The derived \<open>Ord\<close>: constructors in the order of the declaration, which is that of the codes, then the name.\<close>

instantiation Effect :: linorder
begin

definition less_eq_Effect :: "Effect \<Rightarrow> Effect \<Rightarrow> bool" where
  "less_eq_Effect a b \<longleftrightarrow> effect_code a < effect_code b \<or> effect_code a = effect_code b \<and> custom_name a \<le> custom_name b"

definition less_Effect :: "Effect \<Rightarrow> Effect \<Rightarrow> bool" where
  "less_Effect a b \<longleftrightarrow> effect_code a < effect_code b \<or> effect_code a = effect_code b \<and> custom_name a < custom_name b"

instance
proof
  fix a b c :: Effect
  show "(a < b) = (a \<le> b \<and> \<not> b \<le> a)" by (auto simp: less_eq_Effect_def less_Effect_def)
  show "a \<le> a" by (simp add: less_eq_Effect_def)
  show "a \<le> b \<Longrightarrow> b \<le> c \<Longrightarrow> a \<le> c" by (auto simp: less_eq_Effect_def)
  show "a \<le> b \<Longrightarrow> b \<le> a \<Longrightarrow> a = b" by (auto simp: less_eq_Effect_def intro: effect_eqI)
  show "a \<le> b \<or> b \<le> a" by (auto simp: less_eq_Effect_def)
qed

end

subsection \<open>Effect rows\<close>

datatype EffectRow = RowClosed "Effect list" | RowOpen "Effect list" u64

definition row_empty :: EffectRow where
  "row_empty = RowClosed []"

definition row_singleton :: "Effect \<Rightarrow> EffectRow" where
  "row_singleton e = RowClosed [e]"

fun row_combine :: "EffectRow \<Rightarrow> EffectRow \<Rightarrow> EffectRow" where
  "row_combine (RowClosed a) (RowClosed b) = RowClosed (a @ b)"
| "row_combine (RowClosed a) (RowOpen b r) = RowOpen (a @ b) r"
| "row_combine (RowOpen a r) (RowClosed b) = RowOpen (a @ b) r"
| "row_combine (RowOpen a r1) (RowOpen b _) = RowOpen (a @ b) r1"

fun row_effects :: "EffectRow \<Rightarrow> Effect list" where
  "row_effects (RowClosed effects) = effects"
| "row_effects (RowOpen effects _) = effects"

definition row_contains :: "EffectRow \<Rightarrow> Effect \<Rightarrow> bool" where
  "row_contains row eff \<longleftrightarrow> eff \<in> set (row_effects row)"

fun row_remove :: "EffectRow \<Rightarrow> Effect \<Rightarrow> EffectRow" where
  "row_remove (RowClosed effects) eff = RowClosed (filter (\<lambda>e. e \<noteq> eff) effects)"
| "row_remove (RowOpen effects r) eff = RowOpen (filter (\<lambda>e. e \<noteq> eff) effects) r"

text \<open>\<open>effect_row_compatible\<close> of the type checker.\<close>

fun effect_row_compatible :: "EffectRow \<Rightarrow> EffectRow \<Rightarrow> bool" where
  "effect_row_compatible (RowClosed a) (RowClosed b) \<longleftrightarrow> sort a = sort b"
| "effect_row_compatible (RowOpen a _) (RowClosed b) \<longleftrightarrow> list_all (\<lambda>e. e \<in> set a) b"
| "effect_row_compatible (RowClosed b) (RowOpen a _) \<longleftrightarrow> list_all (\<lambda>e. e \<in> set a) b"
| "effect_row_compatible (RowOpen a _) (RowOpen b _) \<longleftrightarrow> list_all (\<lambda>e. e \<in> set b) a \<and> list_all (\<lambda>e. e \<in> set a) b"

subsection \<open>The order of capabilities\<close>

text \<open>
  The capabilities form a semilattice under \<open>join\<close>: it is idempotent, commutative and associative, so \<open>is_subtype_of\<close>
  is a partial order and \<open>join\<close> its least upper bound; \<open>Box\<close> is the top. Away from \<open>Tag\<close> a join never permits a
  write that one of its sides forbids, and discharging a linear obligation goes up in the order.
\<close>

theorem capability_semilattice:
  "cap_join a a = a \<and> cap_join a b = cap_join b a \<and> cap_join (cap_join a b) c = cap_join a (cap_join b c)
    \<and> is_subtype_of a (cap_join a b) \<and> (is_subtype_of (cap_join a b) c \<longleftrightarrow> is_subtype_of a c \<and> is_subtype_of b c)
    \<and> is_subtype_of a CapBox \<and> is_subtype_of a (discharge_linear a) \<and> \<not> is_linear (discharge_linear a)
    \<and> (is_writable (cap_join a b) \<and> a \<noteq> CapTag \<and> b \<noteq> CapTag \<longrightarrow> is_writable a \<and> is_writable b)"
  unfolding is_subtype_of_def is_writable_def is_linear_def
  by (cases a; cases b; cases c; simp)

theorem capability_semilattice_witness:
  "is_writable (cap_join CapIso CapTrn) \<and> is_writable CapIso \<and> is_writable CapTrn \<and> is_subtype_of CapIso CapTrn"
  using capability_semilattice [of CapIso CapTrn CapRef] by (simp add: is_writable_def is_subtype_of_def)


end
