(* ===== verification/Type_Core.thy ===== *)
theory Type_Core
  imports Type_Rows
begin

text \<open>
  The types of \<open>src/types.rs\<close> and the functions on them: free variables, the variables under mutable storage, the
  structural actor references and their erasure, open and closed records, and the typing context. Type variables and
  skolem constants are their numbers.
\<close>

subsection \<open>Types\<close>

datatype PrimitiveType = PrimInt | PrimFloat | PrimBool | PrimString | PrimNil | PrimUnit | PrimNever | PrimAddress

datatype Type =
    TyVar u64
  | TyPrimitive PrimitiveType
  | TyTuple "Type list"
  | TyRecord "(bytes \<times> Type) list"
  | TyVariant "(bytes \<times> Type option) list"
  | TyArray Type
  | TyFunction (fn_param: Type) (fn_ret: Type) (fn_effect: EffectRow) (fn_cap: Capability)
  | TyActor (actor_state: Type) (actor_behavior: Type)
  | TyApp Type "Type list"
  | TyReference Capability Type
  | TyScheme "u64 list" Type
  | TyNominal bytes Type
  | TySkolem u64

abbreviation type_unit :: Type where "type_unit \<equiv> TyPrimitive PrimUnit"

lemma size_field [termination_simp]: "(n, t) \<in> set fs \<Longrightarrow> size t < Suc (size_list (size_prod (\<lambda>_. 0) size) fs)"
  by (induction fs) auto

lemma size_case [termination_simp]:
  "(n, Some t) \<in> set vs \<Longrightarrow> size t < Suc (size_list (size_prod (\<lambda>_. 0) (size_option size)) vs)"
  by (induction vs) auto

definition RECORD_ROW_TAIL_FIELD :: bytes where "RECORD_ROW_TAIL_FIELD = [0x2E, 0x2E]"
definition ACTOR_REF_TYPE_NAME :: bytes where "ACTOR_REF_TYPE_NAME = [0x41, 0x63, 0x74, 0x6F, 0x72, 0x52, 0x65, 0x66]"

definition record_open :: "(bytes \<times> Type) list \<Rightarrow> u64 \<Rightarrow> Type" where
  "record_open fields row = TyRecord (fields @ [(RECORD_ROW_TAIL_FIELD, TyVar row)])"

definition actor_ref :: "Type \<Rightarrow> Type" where
  "actor_ref protocol = TyApp (TyNominal ACTOR_REF_TYPE_NAME type_unit) [protocol]"

fun actor_ref_protocol :: "Type \<Rightarrow> Type option" where
  "actor_ref_protocol (TyApp (TyNominal name _) [p]) = (if name = ACTOR_REF_TYPE_NAME then Some p else None)"
| "actor_ref_protocol _ = None"

fun erase_actor_protocols :: "Type \<Rightarrow> Type" where
  "erase_actor_protocols (TyVar v) = TyVar v"
| "erase_actor_protocols (TyPrimitive p) = TyPrimitive p"
| "erase_actor_protocols (TyTuple items) = TyTuple (map erase_actor_protocols items)"
| "erase_actor_protocols (TyRecord fields) = TyRecord (map (\<lambda>(name, ty). (name, erase_actor_protocols ty)) fields)"
| "erase_actor_protocols (TyVariant variants) =
     TyVariant (map (\<lambda>(name, payload). (name, map_option erase_actor_protocols payload)) variants)"
| "erase_actor_protocols (TyArray inner) = TyArray (erase_actor_protocols inner)"
| "erase_actor_protocols (TyFunction param ret eff cap) =
     TyFunction (erase_actor_protocols param) (erase_actor_protocols ret) eff cap"
| "erase_actor_protocols (TyActor _ _) = TyActor type_unit type_unit"
| "erase_actor_protocols (TyApp constructor args) =
     (if actor_ref_protocol (TyApp constructor args) \<noteq> None then TyActor type_unit type_unit
      else TyApp (erase_actor_protocols constructor) (map erase_actor_protocols args))"
| "erase_actor_protocols (TyReference cap inner) = TyReference cap (erase_actor_protocols inner)"
| "erase_actor_protocols (TyScheme vars body) = TyScheme vars (erase_actor_protocols body)"
| "erase_actor_protocols (TyNominal name underlying) = TyNominal name (erase_actor_protocols underlying)"
| "erase_actor_protocols (TySkolem i) = TySkolem i"

subsection \<open>Free variables\<close>

text \<open>
  The accumulator is threaded through; the stack of nominal names is restored before a call returns and goes down only.
\<close>

fun collect_free_vars :: "bytes list \<Rightarrow> Type \<Rightarrow> u64 list \<Rightarrow> u64 list" where
  "collect_free_vars stk (TyVar v) acc = acc @ [v]"
| "collect_free_vars stk (TyPrimitive _) acc = acc"
| "collect_free_vars stk (TyTuple ts) acc = fold (collect_free_vars stk) ts acc"
| "collect_free_vars stk (TyRecord fs) acc = fold (\<lambda>(_, t). collect_free_vars stk t) fs acc"
| "collect_free_vars stk (TyVariant vs) acc =
     fold (\<lambda>(_, o') acc. case o' of None \<Rightarrow> acc | Some t \<Rightarrow> collect_free_vars stk t acc) vs acc"
| "collect_free_vars stk (TyArray t) acc = collect_free_vars stk t acc"
| "collect_free_vars stk (TyFunction param ret _ _) acc = collect_free_vars stk ret (collect_free_vars stk param acc)"
| "collect_free_vars stk (TyActor st beh) acc = collect_free_vars stk beh (collect_free_vars stk st acc)"
| "collect_free_vars stk (TyApp constructor args) acc =
     fold (collect_free_vars stk) args (collect_free_vars stk constructor acc)"
| "collect_free_vars stk (TyReference _ inner) acc = collect_free_vars stk inner acc"
| "collect_free_vars stk (TyScheme vars body) acc = filter (\<lambda>v. v \<notin> set vars) (collect_free_vars stk body acc)"
| "collect_free_vars stk (TyNominal name underlying) acc =
     (if name \<in> set stk then acc else collect_free_vars (name # stk) underlying acc)"
| "collect_free_vars stk (TySkolem _) acc = acc"

text \<open>\<open>sort_by_key\<close> and \<open>dedup_by_key\<close> on a list that is then sorted: a sorted list without duplicates.\<close>

definition free_vars :: "Type \<Rightarrow> u64 list" where
  "free_vars t = remdups_adj (sort (collect_free_vars [] t []))"

definition is_ground :: "Type \<Rightarrow> bool" where
  "is_ground t \<longleftrightarrow> collect_free_vars [] t [] = []"

fun collect_storage_free_vars :: "bytes list \<Rightarrow> Type \<Rightarrow> u64 list \<Rightarrow> u64 list" where
  "collect_storage_free_vars stk (TyVar v) acc = acc @ [v]"
| "collect_storage_free_vars stk (TyPrimitive _) acc = acc"
| "collect_storage_free_vars stk (TySkolem _) acc = acc"
| "collect_storage_free_vars stk (TyTuple ts) acc = fold (collect_storage_free_vars stk) ts acc"
| "collect_storage_free_vars stk (TyRecord fs) acc = fold (\<lambda>(_, t). collect_storage_free_vars stk t) fs acc"
| "collect_storage_free_vars stk (TyVariant vs) acc =
     fold (\<lambda>(_, o') acc. case o' of None \<Rightarrow> acc | Some t \<Rightarrow> collect_storage_free_vars stk t acc) vs acc"
| "collect_storage_free_vars stk (TyArray t) acc = collect_storage_free_vars stk t acc"
| "collect_storage_free_vars stk (TyFunction param ret _ _) acc =
     collect_storage_free_vars stk ret (collect_storage_free_vars stk param acc)"
| "collect_storage_free_vars stk (TyActor st beh) acc =
     collect_storage_free_vars stk beh (collect_storage_free_vars stk st acc)"
| "collect_storage_free_vars stk (TyApp constructor args) acc =
     fold (collect_storage_free_vars stk) args (collect_storage_free_vars stk constructor acc)"
| "collect_storage_free_vars stk (TyReference _ inner) acc = collect_storage_free_vars stk inner acc"
| "collect_storage_free_vars stk (TyScheme vars body) acc =
     acc @ filter (\<lambda>v. v \<notin> set vars) (collect_storage_free_vars stk body [])"
| "collect_storage_free_vars stk (TyNominal name underlying) acc =
     (if name \<in> set stk then acc else collect_storage_free_vars (name # stk) underlying acc)"

fun collect_ref_free_vars :: "Type \<Rightarrow> u64 list \<Rightarrow> u64 list" where
  "collect_ref_free_vars (TyReference _ inner) acc = collect_storage_free_vars [] inner acc"
| "collect_ref_free_vars (TyFunction _ _ _ _) acc = acc"
| "collect_ref_free_vars (TyTuple ts) acc = fold collect_ref_free_vars ts acc"
| "collect_ref_free_vars (TyRecord fs) acc = fold (\<lambda>(_, t). collect_ref_free_vars t) fs acc"
| "collect_ref_free_vars (TyVariant vs) acc =
     fold (\<lambda>(_, o') acc. case o' of None \<Rightarrow> acc | Some t \<Rightarrow> collect_ref_free_vars t acc) vs acc"
| "collect_ref_free_vars (TyArray t) acc = collect_storage_free_vars [] t acc"
| "collect_ref_free_vars (TyActor st beh) acc = collect_ref_free_vars beh (collect_ref_free_vars st acc)"
| "collect_ref_free_vars (TyApp constructor args) acc =
     fold collect_ref_free_vars args (collect_ref_free_vars constructor acc)"
| "collect_ref_free_vars (TyScheme _ body) acc = collect_ref_free_vars body acc"
| "collect_ref_free_vars (TyNominal _ underlying) acc = collect_ref_free_vars underlying acc"
| "collect_ref_free_vars (TyVar _) acc = acc"
| "collect_ref_free_vars (TyPrimitive _) acc = acc"
| "collect_ref_free_vars (TySkolem _) acc = acc"

definition ref_free_vars :: "Type \<Rightarrow> u64 list" where
  "ref_free_vars t = remdups_adj (sort (collect_ref_free_vars t []))"

subsection \<open>What the functions compute\<close>

text \<open>The variables that occur free, and the types without an inner scheme in which no nominal type is its own part.\<close>

fun type_vars :: "Type \<Rightarrow> u64 set" where
  "type_vars (TyVar v) = {v}"
| "type_vars (TyPrimitive _) = {}"
| "type_vars (TyTuple ts) = (\<Union>t \<in> set ts. type_vars t)"
| "type_vars (TyRecord fs) = (\<Union>(_, t) \<in> set fs. type_vars t)"
| "type_vars (TyVariant vs) = (\<Union>(_, o') \<in> set vs. case o' of None \<Rightarrow> {} | Some t \<Rightarrow> type_vars t)"
| "type_vars (TyArray t) = type_vars t"
| "type_vars (TyFunction param ret _ _) = type_vars param \<union> type_vars ret"
| "type_vars (TyActor st beh) = type_vars st \<union> type_vars beh"
| "type_vars (TyApp constructor args) = type_vars constructor \<union> (\<Union>t \<in> set args. type_vars t)"
| "type_vars (TyReference _ inner) = type_vars inner"
| "type_vars (TyScheme vars body) = type_vars body - set vars"
| "type_vars (TyNominal _ underlying) = type_vars underlying"
| "type_vars (TySkolem _) = {}"

fun plain :: "bytes list \<Rightarrow> Type \<Rightarrow> bool" where
  "plain stk (TyTuple ts) \<longleftrightarrow> list_all (plain stk) ts"
| "plain stk (TyRecord fs) \<longleftrightarrow> list_all (\<lambda>(_, t). plain stk t) fs"
| "plain stk (TyVariant vs) \<longleftrightarrow> list_all (\<lambda>(_, o'). case o' of None \<Rightarrow> True | Some t \<Rightarrow> plain stk t) vs"
| "plain stk (TyArray t) \<longleftrightarrow> plain stk t"
| "plain stk (TyFunction param ret _ _) \<longleftrightarrow> plain stk param \<and> plain stk ret"
| "plain stk (TyActor st beh) \<longleftrightarrow> plain stk st \<and> plain stk beh"
| "plain stk (TyApp constructor args) \<longleftrightarrow> plain stk constructor \<and> list_all (plain stk) args"
| "plain stk (TyReference _ inner) \<longleftrightarrow> plain stk inner"
| "plain stk (TyScheme _ _) \<longleftrightarrow> False"
| "plain stk (TyNominal name underlying) \<longleftrightarrow> name \<notin> set stk \<and> plain (name # stk) underlying"
| "plain stk _ \<longleftrightarrow> True"

lemma set_fold_collect:
  assumes "\<And>x acc. x \<in> set xs \<Longrightarrow> set (f x acc) = set acc \<union> g x"
  shows "set (fold f xs acc) = set acc \<union> (\<Union>x \<in> set xs. g x)"
  using assms by (induction xs arbitrary: acc) (auto simp: Un_assoc)

lemma collect_free_vars_set: "plain stk t \<Longrightarrow> set (collect_free_vars stk t acc) = set acc \<union> type_vars t"
proof (induction stk t acc rule: collect_free_vars.induct)
  case (3 stk ts acc)
  then show ?case by (simp add: list_all_iff set_fold_collect)
next
  case (4 stk fs acc)
  then show ?case
    by (simp add: list_all_iff) (rule set_fold_collect, auto)
next
  case (5 stk vs acc)
  then show ?case
    by (simp add: list_all_iff) (rule set_fold_collect, auto split: option.splits)
next
  case (9 stk c args acc)
  then show ?case by (simp add: list_all_iff set_fold_collect Un_assoc)
qed auto

lemma remdups_adj_sort: "sorted xs \<Longrightarrow> sorted (remdups_adj xs) \<and> distinct (remdups_adj xs)"
  by (induction xs rule: remdups_adj.induct) (auto simp: order_less_le)

text \<open>
  Free variables. On a type without an inner scheme and without a nominal type inside itself, \<open>free_vars\<close> gives exactly
  the variables that occur, in increasing order and each once; on a scheme over such a type it gives those that the
  scheme does not bind; and \<open>is_ground\<close> holds just when there are none.
\<close>

theorem free_vars_correct:
  assumes "plain [] t"
  shows "set (free_vars t) = type_vars t \<and> sorted (free_vars t) \<and> distinct (free_vars t)
    \<and> set (free_vars (TyScheme vars t)) = type_vars t - set vars \<and> (is_ground t \<longleftrightarrow> type_vars t = {})"
proof -
  have c: "set (collect_free_vars [] t []) = type_vars t" using collect_free_vars_set [OF assms] by simp
  then have "collect_free_vars [] t [] = [] \<longleftrightarrow> type_vars t = {}" by (metis set_empty)
  with c remdups_adj_sort [of "sort (collect_free_vars [] t [])"] show ?thesis
    by (auto simp: free_vars_def is_ground_def)
qed

theorem free_vars_correct_witness:
  "plain [] (TyTuple [TyVar 3, TyArray (TyVar 1), TyVar 3])
    \<and> set (free_vars (TyTuple [TyVar 3, TyArray (TyVar 1), TyVar 3])) = {1, 3}"
proof -
  have "plain [] (TyTuple [TyVar 3, TyArray (TyVar 1), TyVar 3])" by simp
  with free_vars_correct [OF this] show ?thesis by auto
qed

text \<open>With an inner scheme the accumulator is filtered, so a variable found before the scheme is lost.\<close>

lemma free_vars_inner_scheme: "free_vars (TyTuple [TyVar 1, TyScheme [1] (TyVar 1)]) = [] \<and> 1 \<in> type_vars (TyTuple [TyVar 1, TyScheme [1] (TyVar 1)])"
  by (simp add: free_vars_def)

subsection \<open>Erasure of actor protocols\<close>

fun protocol_free :: "Type \<Rightarrow> bool" where
  "protocol_free (TyTuple ts) \<longleftrightarrow> list_all protocol_free ts"
| "protocol_free (TyRecord fs) \<longleftrightarrow> list_all (\<lambda>(_, t). protocol_free t) fs"
| "protocol_free (TyVariant vs) \<longleftrightarrow> list_all (\<lambda>(_, o'). case o' of None \<Rightarrow> True | Some t \<Rightarrow> protocol_free t) vs"
| "protocol_free (TyArray t) \<longleftrightarrow> protocol_free t"
| "protocol_free (TyFunction param ret _ _) \<longleftrightarrow> protocol_free param \<and> protocol_free ret"
| "protocol_free (TyActor st beh) \<longleftrightarrow> st = type_unit \<and> beh = type_unit"
| "protocol_free (TyApp constructor args) \<longleftrightarrow>
     actor_ref_protocol (TyApp constructor args) = None \<and> protocol_free constructor \<and> list_all protocol_free args"
| "protocol_free (TyReference _ inner) \<longleftrightarrow> protocol_free inner"
| "protocol_free (TyScheme _ body) \<longleftrightarrow> protocol_free body"
| "protocol_free (TyNominal _ underlying) \<longleftrightarrow> protocol_free underlying"
| "protocol_free _ \<longleftrightarrow> True"

lemma actor_ref_erased: "actor_ref_protocol (TyApp c args) = None
    \<Longrightarrow> actor_ref_protocol (TyApp (erase_actor_protocols c) (map erase_actor_protocols args)) = None"
  by (cases c; cases args rule: remdups_adj.cases) (auto split: if_splits)

lemma protocol_free_erase: "protocol_free (erase_actor_protocols t)"
  by (induction t rule: erase_actor_protocols.induct)
    (auto simp: list_all_iff actor_ref_erased simp del: actor_ref_protocol.simps split: option.split)

lemma erase_protocol_free: "protocol_free t \<Longrightarrow> erase_actor_protocols t = t"
proof (induction t rule: erase_actor_protocols.induct)
  case (5 vs)
  then show ?case by (auto simp: list_all_iff intro!: map_idI split: option.splits)
qed (auto simp: list_all_iff intro!: map_idI simp del: actor_ref_protocol.simps)

text \<open>
  Erasure removes every trace of actor protocols, at any depth: no \<open>ActorRef\<close> and no state or behaviour type of an
  actor is left, a type that has none is not changed, and so erasing twice is erasing once.
\<close>

theorem erase_removes_protocols:
  "protocol_free (erase_actor_protocols t) \<and> (protocol_free t \<longrightarrow> erase_actor_protocols t = t)
    \<and> erase_actor_protocols (erase_actor_protocols t) = erase_actor_protocols t"
  by (simp add: protocol_free_erase erase_protocol_free)

theorem erase_removes_protocols_witness:
  "erase_actor_protocols (TyArray (actor_ref type_unit)) = TyArray (TyActor type_unit type_unit)
    \<and> erase_actor_protocols (TyArray (TyActor type_unit type_unit)) = TyArray (TyActor type_unit type_unit)"
  using erase_removes_protocols [of "TyArray (TyActor type_unit type_unit)"] by (simp add: actor_ref_def)

end
