(* ===== verification/Type_Canonical.thy ===== *)
theory Type_Canonical
  imports Type_Core
begin

text \<open>
  The canonical encoding of types that content hashes are taken over (\<open>write_canonical_type\<close>). It is injective up to
  the order of record fields and of the effects in a row, and those orders do not matter: two types have the same
  bytes just when they have the same normal form.
\<close>

subsection \<open>The encoding\<close>

definition len_le :: "'a list \<Rightarrow> bytes" where
  "len_le xs = to_le 4 (of_nat (length xs) :: u32)"

definition write_str :: "bytes \<Rightarrow> bytes" where
  "write_str s = len_le s @ s"

fun canonical_cap_code :: "Capability \<Rightarrow> u8" where
  "canonical_cap_code CapLinearIso = 0"
| "canonical_cap_code CapLinear = 1"
| "canonical_cap_code CapIso = 2"
| "canonical_cap_code CapTrn = 3"
| "canonical_cap_code CapRef = 4"
| "canonical_cap_code CapVal = 5"
| "canonical_cap_code CapBox = 6"
| "canonical_cap_code CapTag = 7"

fun prim_code :: "PrimitiveType \<Rightarrow> u8" where
  "prim_code PrimInt = 0"
| "prim_code PrimFloat = 1"
| "prim_code PrimBool = 2"
| "prim_code PrimString = 3"
| "prim_code PrimNil = 4"
| "prim_code PrimUnit = 5"
| "prim_code PrimNever = 6"
| "prim_code PrimAddress = 7"

definition write_effect :: "Effect \<Rightarrow> bytes" where
  "write_effect e = effect_code e # (case e of EffUserDefined name \<Rightarrow> write_str name | _ \<Rightarrow> [])"

fun write_canonical_effect_row :: "EffectRow \<Rightarrow> bytes" where
  "write_canonical_effect_row (RowClosed effects) = 0x00 # len_le effects @ concat (map write_effect (sort effects))"
| "write_canonical_effect_row (RowOpen effects region) =
     0x01 # len_le effects @ concat (map write_effect (sort effects)) @ to_le 8 region"

fun write_canonical_type :: "Type \<Rightarrow> bytes" where
  "write_canonical_type (TyVar v) = 0x00 # to_le 8 v"
| "write_canonical_type (TyPrimitive p) = [0x01, prim_code p]"
| "write_canonical_type (TyTuple ts) = 0x02 # len_le ts @ concat (map write_canonical_type ts)"
| "write_canonical_type (TyRecord fields) =
     0x03 # len_le fields @ concat (map (\<lambda>(name, t). write_str name @ write_canonical_type t) (sort_key fst fields))"
| "write_canonical_type (TyVariant cases) =
     0x04 # len_le cases @ concat (map (\<lambda>(name, o'). write_str name @
       (case o' of Some t \<Rightarrow> 1 # write_canonical_type t | None \<Rightarrow> [0])) cases)"
| "write_canonical_type (TyArray t) = 0x05 # write_canonical_type t"
| "write_canonical_type (TyFunction param ret eff cap) =
     0x06 # write_canonical_type param @ write_canonical_type ret @ write_canonical_effect_row eff @ [canonical_cap_code cap]"
| "write_canonical_type (TyActor st beh) = 0x07 # write_canonical_type st @ write_canonical_type beh"
| "write_canonical_type (TyApp constructor args) =
     0x08 # write_canonical_type constructor @ len_le args @ concat (map write_canonical_type args)"
| "write_canonical_type (TyReference cap inner) = 0x09 # canonical_cap_code cap # write_canonical_type inner"
| "write_canonical_type (TyScheme vars body) = 0x0A # len_le vars @ concat (map (to_le 8) vars) @ write_canonical_type body"
| "write_canonical_type (TyNominal name underlying) = 0x0B # write_str name @ write_canonical_type underlying"
| "write_canonical_type (TySkolem i) = 0x0C # to_le 8 i"

definition canonical_type_bytes :: "Type \<Rightarrow> bytes" where
  "canonical_type_bytes t = write_canonical_type t"

subsection \<open>Normal forms\<close>

fun norm_row :: "EffectRow \<Rightarrow> EffectRow" where
  "norm_row (RowClosed effects) = RowClosed (sort effects)"
| "norm_row (RowOpen effects region) = RowOpen (sort effects) region"

fun norm_type :: "Type \<Rightarrow> Type" where
  "norm_type (TyTuple ts) = TyTuple (map norm_type ts)"
| "norm_type (TyRecord fields) = TyRecord (map (\<lambda>(name, t). (name, norm_type t)) (sort_key fst fields))"
| "norm_type (TyVariant cases) = TyVariant (map (\<lambda>(name, o'). (name, map_option norm_type o')) cases)"
| "norm_type (TyArray t) = TyArray (norm_type t)"
| "norm_type (TyFunction param ret eff cap) = TyFunction (norm_type param) (norm_type ret) (norm_row eff) cap"
| "norm_type (TyActor st beh) = TyActor (norm_type st) (norm_type beh)"
| "norm_type (TyApp constructor args) = TyApp (norm_type constructor) (map norm_type args)"
| "norm_type (TyReference cap inner) = TyReference cap (norm_type inner)"
| "norm_type (TyScheme vars body) = TyScheme vars (norm_type body)"
| "norm_type (TyNominal name underlying) = TyNominal name (norm_type underlying)"
| "norm_type t = t"

text \<open>Every list and string short enough that its length fits the 32 bits of the prefix.\<close>

definition short :: "'a list \<Rightarrow> bool" where
  "short xs \<longleftrightarrow> length xs < 2 ^ 32"

fun short_row :: "EffectRow \<Rightarrow> bool" where
  "short_row (RowClosed effects) \<longleftrightarrow> short effects \<and> list_all (\<lambda>e. short (custom_name e)) effects"
| "short_row (RowOpen effects _) \<longleftrightarrow> short effects \<and> list_all (\<lambda>e. short (custom_name e)) effects"

fun short_type :: "Type \<Rightarrow> bool" where
  "short_type (TyTuple ts) \<longleftrightarrow> short ts \<and> list_all short_type ts"
| "short_type (TyRecord fs) \<longleftrightarrow> short fs \<and> list_all (\<lambda>(name, t). short name \<and> short_type t) fs"
| "short_type (TyVariant vs) \<longleftrightarrow> short vs
     \<and> list_all (\<lambda>(name, o'). short name \<and> (case o' of None \<Rightarrow> True | Some t \<Rightarrow> short_type t)) vs"
| "short_type (TyArray t) \<longleftrightarrow> short_type t"
| "short_type (TyFunction param ret eff _) \<longleftrightarrow> short_type param \<and> short_type ret \<and> short_row eff"
| "short_type (TyActor st beh) \<longleftrightarrow> short_type st \<and> short_type beh"
| "short_type (TyApp constructor args) \<longleftrightarrow> short_type constructor \<and> short args \<and> list_all short_type args"
| "short_type (TyReference _ inner) \<longleftrightarrow> short_type inner"
| "short_type (TyScheme vars body) \<longleftrightarrow> short vars \<and> short_type body"
| "short_type (TyNominal name underlying) \<longleftrightarrow> short name \<and> short_type underlying"
| "short_type _ \<longleftrightarrow> True"

subsection \<open>Injectivity\<close>

lemma to_le_take: "to_le n w = to_le n v \<Longrightarrow> take_bit (8 * n) w = take_bit (8 * n) v"
proof (induction n arbitrary: w v)
  case (Suc n)
  have low: "(ucast w :: u8) = ucast v" and rest: "to_le n (drop_bit 8 w) = to_le n (drop_bit 8 v)"
    using Suc.prems by (simp_all only: to_le.simps list.inject)
  note high = Suc.IH [OF rest]
  show ?case
  proof (rule bit_eqI)
    fix i
    show "bit (take_bit (8 * Suc n) w) i = bit (take_bit (8 * Suc n) v) i"
    proof (cases "i < 8")
      case True
      have "bit (ucast w :: u8) i = bit (ucast v :: u8) i" using low by simp
      with True have "bit w i = bit v i" by (simp add: bit_ucast_iff)
      then show ?thesis by (simp add: bit_take_bit_iff)
    next
      case False
      have "bit (take_bit (8 * n) (drop_bit 8 w)) (i - 8) = bit (take_bit (8 * n) (drop_bit 8 v)) (i - 8)" using high by simp
      with False show ?thesis by (auto simp: bit_simps)
    qed
  qed
qed simp

lemma to_le_inject [simp]: "to_le 8 v = to_le 8 (w :: u64) \<longleftrightarrow> v = w" "to_le 4 a = to_le 4 (b :: u32) \<longleftrightarrow> a = b"
  using to_le_take [of 8 v w] to_le_take [of 4 a b] by (auto simp: take_bit_word_eq_self)

lemma len_inject: "\<lbrakk>short xs; short ys; (of_nat (length xs) :: u32) = of_nat (length ys)\<rbrakk> \<Longrightarrow> length xs = length ys"
  by (drule arg_cong [where f = unat]) (simp add: unat_of_nat take_bit_nat_eq_self short_def)

lemma len_le_append:
  assumes "short xs" "short ys" "len_le xs @ r = len_le ys @ s"
  shows "length xs = length ys" "r = s"
  using assms len_inject [OF assms(1,2)] by (simp_all add: len_le_def)

lemma write_str_append:
  assumes "short a" "short b" "write_str a @ r = write_str b @ s"
  shows "a = b \<and> r = s"
proof -
  have "len_le a @ (a @ r) = len_le b @ (b @ s)" using assms(3) by (simp add: write_str_def)
  from len_le_append [OF assms(1,2) this] show ?thesis by simp
qed

text \<open>A list of prefix-free encodings of the same length can be read back.\<close>

lemma concat_append:
  assumes "length xs = length ys" "concat (map f xs) @ r = concat (map f ys) @ s"
    and "\<And>x y r s. \<lbrakk>x \<in> set xs; y \<in> set ys; f x @ r = f y @ s\<rbrakk> \<Longrightarrow> g x = g y \<and> r = s"
  shows "map g xs = map g ys \<and> r = s"
  using assms
proof (induction xs ys rule: list_induct2)
  case (Cons x xs y ys)
  have "f x @ (concat (map f xs) @ r) = f y @ (concat (map f ys) @ s)" using Cons.prems(1) by simp
  then have "g x = g y" "concat (map f xs) @ r = concat (map f ys) @ s"
    using Cons.prems(2) [of x y] by (meson list.set_intros(1))+
  moreover from this(2) have "map g xs = map g ys \<and> r = s" by (rule Cons.IH) (use Cons.prems(2) in auto)
  ultimately show ?case by simp
qed simp

lemma builtin_effect: "effect_code e \<noteq> 29 \<Longrightarrow> custom_name e = [] \<and> write_effect e = [effect_code e]"
  by (cases e) (simp_all add: write_effect_def)

lemma user_effect: "effect_code e = 29 \<Longrightarrow> e = EffUserDefined (custom_name e)"
  by (cases e) simp_all

lemma write_effect_append:
  assumes "short (custom_name a)" "short (custom_name b)" "write_effect a @ r = write_effect b @ s"
  shows "a = b \<and> r = s"
proof -
  have code: "effect_code a = effect_code b" using assms(3) by (simp add: write_effect_def)
  show ?thesis
  proof (cases "effect_code a = 29")
    case True
    with code have "effect_code b = 29" by simp
    with True obtain m n where ab: "a = EffUserDefined m" "b = EffUserDefined n" using user_effect by blast
    have "m = n \<and> r = s" by (rule write_str_append) (use assms ab in \<open>simp_all add: write_effect_def\<close>)
    with ab show ?thesis by simp
  next
    case False
    then have "custom_name a = custom_name b" "r = s"
      using builtin_effect [of a] builtin_effect [of b] code assms(3) by simp_all
    then show ?thesis using effect_eqI [OF code] by blast
  qed
qed

definition short_effects :: "Effect list \<Rightarrow> bool" where
  "short_effects effects \<longleftrightarrow> short effects \<and> (\<forall>e \<in> set effects. short (custom_name e))"

lemma effects_append:
  assumes "short_effects a" "short_effects b"
    and eq: "len_le a @ concat (map write_effect (sort a)) @ r = len_le b @ concat (map write_effect (sort b)) @ s"
  shows "sort a = sort b \<and> r = s"
proof -
  have "short a" "short b" using assms(1,2) by (simp_all add: short_effects_def)
  note len = len_le_append [OF this eq]
  have "map (\<lambda>e. e) (sort a) = map (\<lambda>e. e) (sort b) \<and> r = s"
  proof (rule concat_append)
    show "length (sort a) = length (sort b)" using len(1) by simp
    show "concat (map write_effect (sort a)) @ r = concat (map write_effect (sort b)) @ s" by (rule len(2))
    fix x y r s
    assume "x \<in> set (sort a)" "y \<in> set (sort b)" "write_effect x @ r = write_effect y @ s"
    then show "x = y \<and> r = s" using assms(1,2) by (intro write_effect_append) (simp_all add: short_effects_def)
  qed
  then show ?thesis by simp
qed

lemma row_append:
  assumes "short_row a" "short_row b" "write_canonical_effect_row a @ r = write_canonical_effect_row b @ s"
  shows "norm_row a = norm_row b \<and> r = s"
proof -
  consider (closed) x y where "a = RowClosed x" "b = RowClosed y"
    | (opened) x p y q where "a = RowOpen x p" "b = RowOpen y q"
    using assms(3) by (cases a; cases b) simp_all
  then show ?thesis
  proof cases
    case closed
    have "sort x = sort y \<and> r = s"
      by (rule effects_append) (use assms closed in \<open>simp_all add: short_effects_def list_all_iff\<close>)
    with closed show ?thesis by simp
  next
    case opened
    have "sort x = sort y \<and> to_le 8 p @ r = to_le 8 q @ s"
      by (rule effects_append) (use assms opened in \<open>simp_all add: short_effects_def list_all_iff\<close>)
    with opened show ?thesis by simp
  qed
qed

lemma code_inject [simp]: "canonical_cap_code a = canonical_cap_code b \<longleftrightarrow> a = b" "prim_code p = prim_code q \<longleftrightarrow> p = q"
  by (cases a; cases b; simp) (cases p; cases q; simp)

text \<open>The three list shapes inside a type.\<close>

lemma types_append:
  assumes "short ts" "short us" "len_le ts @ concat (map write_canonical_type ts) @ r = len_le us @ concat (map write_canonical_type us) @ s"
    and "\<And>t u r s. \<lbrakk>t \<in> set ts; u \<in> set us; write_canonical_type t @ r = write_canonical_type u @ s\<rbrakk> \<Longrightarrow> norm_type t = norm_type u \<and> r = s"
  shows "map norm_type ts = map norm_type us \<and> r = s"
  using len_le_append [OF assms(1-3)] assms(4) by (rule concat_append)

lemma named_append:
  assumes "short (fst x)" "short (fst y)"
    and eq: "(case x of (name, t) \<Rightarrow> write_str name @ f t) @ r = (case y of (name, t) \<Rightarrow> write_str name @ f t) @ s"
    and "\<And>r s. f (snd x) @ r = f (snd y) @ s \<Longrightarrow> g (snd x) = g (snd y) \<and> r = s"
  shows "(case x of (name, t) \<Rightarrow> (name, g t)) = (case y of (name, t) \<Rightarrow> (name, g t)) \<and> r = s"
proof -
  have "write_str (fst x) @ (f (snd x) @ r) = write_str (fst y) @ (f (snd y) @ s)" using eq by (simp add: case_prod_beta)
  then have *: "fst x = fst y" "f (snd x) @ r = f (snd y) @ s" using write_str_append [OF assms(1,2)] by blast+
  from assms(4) [OF *(2)] *(1) show ?thesis by (simp add: case_prod_beta)
qed

lemma fields_append:
  assumes "short fs" "short gs" "\<forall>(n, t) \<in> set fs. short n" "\<forall>(n, t) \<in> set gs. short n"
    and eq: "len_le fs @ concat (map (\<lambda>(name, t). write_str name @ write_canonical_type t) (sort_key fst fs)) @ r
      = len_le gs @ concat (map (\<lambda>(name, t). write_str name @ write_canonical_type t) (sort_key fst gs)) @ s"
    and IH: "\<And>n t m u r s. \<lbrakk>(n, t) \<in> set fs; (m, u) \<in> set gs; write_canonical_type t @ r = write_canonical_type u @ s\<rbrakk>
      \<Longrightarrow> norm_type t = norm_type u \<and> r = s"
  shows "norm_type (TyRecord fs) = norm_type (TyRecord gs) \<and> r = s"
proof -
  note len = len_le_append [OF assms(1,2) eq]
  have "map (\<lambda>(n, t). (n, norm_type t)) (sort_key fst fs) = map (\<lambda>(n, t). (n, norm_type t)) (sort_key fst gs) \<and> r = s"
  proof (rule concat_append [OF _ len(2)])
    show "length (sort_key fst fs) = length (sort_key fst gs)" using len(1) by simp
    fix x y r s
    assume *: "x \<in> set (sort_key fst fs)" "y \<in> set (sort_key fst gs)"
      "(case x of (name, t) \<Rightarrow> write_str name @ write_canonical_type t) @ r = (case y of (name, t) \<Rightarrow> write_str name @ write_canonical_type t) @ s"
    have "norm_type (snd x) = norm_type (snd y) \<and> r = s" if "write_canonical_type (snd x) @ r = write_canonical_type (snd y) @ s" for r s
      using IH [OF _ _ that, of "fst x" "fst y"] *(1,2) by simp
    then show "(case x of (n, t) \<Rightarrow> (n, norm_type t)) = (case y of (n, t) \<Rightarrow> (n, norm_type t)) \<and> r = s"
      using * assms(3,4) by (intro named_append) (auto simp: case_prod_beta)
  qed
  then show ?thesis by simp
qed

abbreviation write_payload :: "Type option \<Rightarrow> bytes" where
  "write_payload o' \<equiv> (case o' of Some t \<Rightarrow> 1 # write_canonical_type t | None \<Rightarrow> [0])"

lemma cases_append:
  assumes "short vs" "short ws" "\<forall>(n, p) \<in> set vs. short n" "\<forall>(n, p) \<in> set ws. short n"
    and eq: "len_le vs @ concat (map (\<lambda>(name, p). write_str name @ write_payload p) vs) @ r
      = len_le ws @ concat (map (\<lambda>(name, p). write_str name @ write_payload p) ws) @ s"
    and IH: "\<And>n t m u r s. \<lbrakk>(n, Some t) \<in> set vs; (m, Some u) \<in> set ws; write_canonical_type t @ r = write_canonical_type u @ s\<rbrakk>
      \<Longrightarrow> norm_type t = norm_type u \<and> r = s"
  shows "norm_type (TyVariant vs) = norm_type (TyVariant ws) \<and> r = s"
proof -
  note len = len_le_append [OF assms(1,2) eq]
  have "map (\<lambda>(n, p). (n, map_option norm_type p)) vs = map (\<lambda>(n, p). (n, map_option norm_type p)) ws \<and> r = s"
  proof (rule concat_append [OF len])
    fix x y r s
    assume *: "x \<in> set vs" "y \<in> set ws"
      "(case x of (name, p) \<Rightarrow> write_str name @ write_payload p) @ r = (case y of (name, p) \<Rightarrow> write_str name @ write_payload p) @ s"
    have "map_option norm_type (snd x) = map_option norm_type (snd y) \<and> r = s"
      if "write_payload (snd x) @ r = write_payload (snd y) @ s" for r s
      using that IH [of "fst x" _ "fst y"] *(1,2) by (cases x; cases y) (auto split: option.splits)
    then show "(case x of (n, p) \<Rightarrow> (n, map_option norm_type p)) = (case y of (n, p) \<Rightarrow> (n, map_option norm_type p)) \<and> r = s"
      using assms(3,4) * by (intro named_append) (auto simp: case_prod_beta)
  qed
  then show ?thesis by simp
qed

lemma vars_append:
  assumes "short vs" "short ws" "len_le vs @ concat (map (to_le 8) vs) @ r = len_le ws @ concat (map (to_le 8) ws) @ s"
  shows "vs = (ws :: u64 list) \<and> r = s"
proof -
  note len = len_le_append [OF assms]
  have "map (\<lambda>v. v) vs = map (\<lambda>v. v) ws \<and> r = s" by (rule concat_append [OF len]) simp
  then show ?thesis by simp
qed

lemma canonical_append:
  "\<lbrakk>short_type t; short_type u; write_canonical_type t @ r = write_canonical_type u @ s\<rbrakk> \<Longrightarrow> norm_type t = norm_type u \<and> r = s"
proof (induction t arbitrary: u r s rule: write_canonical_type.induct)
  case (3 ts)
  obtain us where u: "u = TyTuple us" using "3.prems"(3) by (cases u) simp_all
  have "map norm_type ts = map norm_type us \<and> r = s"
  proof (rule types_append)
    fix t v r s
    assume "t \<in> set ts" "v \<in> set us" "write_canonical_type t @ r = write_canonical_type v @ s"
    then show "norm_type t = norm_type v \<and> r = s"
      by (intro "3.IH") (use "3.prems"(1,2) u in \<open>simp_all add: list_all_iff\<close>)
  qed (use "3.prems" u in simp_all)
  with u show ?case by simp
next
  case (4 fs)
  obtain gs where u: "u = TyRecord gs" using "4.prems"(3) by (cases u) simp_all
  show ?case unfolding u
  proof (rule fields_append)
    fix n t m v r s
    assume "(n, t) \<in> set fs" "(m, v) \<in> set gs" "write_canonical_type t @ r = write_canonical_type v @ s"
    then show "norm_type t = norm_type v \<and> r = s"
      by (intro "4.IH" [of "(n, t)" n t]) (use "4.prems"(1,2) u in \<open>auto simp: list_all_iff\<close>)
  qed (use "4.prems" u in \<open>auto simp: list_all_iff\<close>)
next
  case (5 vs)
  obtain ws where u: "u = TyVariant ws" using "5.prems"(3) by (cases u) simp_all
  show ?case unfolding u
  proof (rule cases_append)
    fix n t m v r s
    assume "(n, Some t) \<in> set vs" "(m, Some v) \<in> set ws" "write_canonical_type t @ r = write_canonical_type v @ s"
    then show "norm_type t = norm_type v \<and> r = s"
      by (intro "5.IH" [of "(n, Some t)" n "Some t" t]) (use "5.prems"(1,2) u in \<open>auto simp: list_all_iff\<close>)
  qed (use "5.prems" u in \<open>auto simp: list_all_iff\<close>)
next
  case (7 param ret eff cap)
  obtain p q e c where u: "u = TyFunction p q e c" using "7.prems"(3) by (cases u) simp_all
  have "norm_type param = norm_type p \<and> write_canonical_type ret @ write_canonical_effect_row eff @ canonical_cap_code cap # r
      = write_canonical_type q @ write_canonical_effect_row e @ canonical_cap_code c # s"
    by (rule "7.IH"(1)) (use "7.prems" u in simp_all)
  moreover from this have "norm_type ret = norm_type q \<and> write_canonical_effect_row eff @ canonical_cap_code cap # r
      = write_canonical_effect_row e @ canonical_cap_code c # s"
    by (intro "7.IH"(2)) (use "7.prems" u in simp_all)
  moreover from this have "norm_row eff = norm_row e \<and> canonical_cap_code cap # r = canonical_cap_code c # s"
    by (intro row_append) (use "7.prems" u in simp_all)
  ultimately show ?case using u by simp
next
  case (8 st beh)
  obtain p q where u: "u = TyActor p q" using "8.prems"(3) by (cases u) simp_all
  have "norm_type st = norm_type p \<and> write_canonical_type beh @ r = write_canonical_type q @ s"
    by (rule "8.IH"(1)) (use "8.prems" u in simp_all)
  moreover from this have "norm_type beh = norm_type q \<and> r = s" by (intro "8.IH"(2)) (use "8.prems" u in simp_all)
  ultimately show ?case using u by simp
next
  case (9 c ts)
  obtain d us where u: "u = TyApp d us" using "9.prems"(3) by (cases u) simp_all
  have "norm_type c = norm_type d \<and> len_le ts @ concat (map write_canonical_type ts) @ r
      = len_le us @ concat (map write_canonical_type us) @ s"
    by (rule "9.IH"(1)) (use "9.prems" u in simp_all)
  moreover have "map norm_type ts = map norm_type us \<and> r = s"
  proof (rule types_append)
    fix t v r s
    assume "t \<in> set ts" "v \<in> set us" "write_canonical_type t @ r = write_canonical_type v @ s"
    then show "norm_type t = norm_type v \<and> r = s"
      by (intro "9.IH"(2)) (use "9.prems"(1,2) u in \<open>simp_all add: list_all_iff\<close>)
  qed (use "9.prems" u calculation in simp_all)
  ultimately show ?case using u by simp
next
  case (11 vars body)
  obtain vs b where u: "u = TyScheme vs b" using "11.prems"(3) by (cases u) simp_all
  have "vars = vs \<and> write_canonical_type body @ r = write_canonical_type b @ s"
    by (rule vars_append) (use "11.prems" u in simp_all)
  moreover from this have "norm_type body = norm_type b \<and> r = s" by (intro "11.IH") (use "11.prems" u in simp_all)
  ultimately show ?case using u by simp
next
  case (12 name body)
  obtain n b where u: "u = TyNominal n b" using "12.prems"(3) by (cases u) simp_all
  have "name = n \<and> write_canonical_type body @ r = write_canonical_type b @ s"
    by (rule write_str_append) (use "12.prems" u in simp_all)
  moreover from this have "norm_type body = norm_type b \<and> r = s" by (intro "12.IH") (use "12.prems" u in simp_all)
  ultimately show ?case using u by simp
next
  case (1 v)
  then show ?case by (cases u) simp_all
next
  case (2 p)
  then show ?case by (cases u) simp_all
next
  case (6 t)
  obtain v where u: "u = TyArray v" using "6.prems"(3) by (cases u) simp_all
  have "norm_type t = norm_type v \<and> r = s" by (rule "6.IH") (use "6.prems" u in simp_all)
  with u show ?case by simp
next
  case (10 cap t)
  obtain c v where u: "u = TyReference c v" using "10.prems"(3) by (cases u) simp_all
  have "norm_type t = norm_type v \<and> r = s" by (rule "10.IH") (use "10.prems" u in simp_all)
  with u "10.prems"(3) show ?case by simp
next
  case (13 i)
  then show ?case by (cases u) simp_all
qed

subsection \<open>Independence of the order\<close>

lemma sort_key_sorted: "sorted (map f xs) \<Longrightarrow> sort_key f xs = xs"
  by (induction xs) (auto intro!: insort_is_Cons)

lemma write_row_norm: "write_canonical_effect_row (norm_row row) = write_canonical_effect_row row"
  by (cases row) (simp_all add: len_le_def sorted_sort_id)

lemma sorted_fields: "sort_key fst (map (\<lambda>(n, t). (n, g t)) (sort_key fst fs)) = map (\<lambda>(n, t). (n, g t)) (sort_key fst fs)"
proof (rule sort_key_sorted)
  have "map fst (map (\<lambda>(n, t). (n, g t)) (sort_key fst fs)) = map fst (sort_key fst fs)" by (simp add: case_prod_beta)
  then show "sorted (map fst (map (\<lambda>(n, t). (n, g t)) (sort_key fst fs)))"
    by (simp only: sorted_sort_key)
qed

lemma write_norm: "write_canonical_type (norm_type t) = write_canonical_type t"
proof (induction t rule: norm_type.induct)
  case (1 ts)
  then have "map (write_canonical_type \<circ> norm_type) ts = map write_canonical_type ts" by simp
  then show ?case by (simp add: len_le_def del: map_eq_conv)
next
  case (2 fs)
  have "map ((\<lambda>(n, t). write_str n @ write_canonical_type t) \<circ> (\<lambda>(n, t). (n, norm_type t))) (sort_key fst fs)
      = map (\<lambda>(n, t). write_str n @ write_canonical_type t) (sort_key fst fs)"
    by (rule map_cong) (use 2 in auto)
  then show ?case by (simp add: sorted_fields len_le_def del: map_eq_conv)
next
  case (3 vs)
  have "map ((\<lambda>(n, p). write_str n @ write_payload p) \<circ> (\<lambda>(n, p). (n, map_option norm_type p))) vs
      = map (\<lambda>(n, p). write_str n @ write_payload p) vs"
    by (rule map_cong) (use 3 in \<open>auto split: option.splits\<close>)
  then show ?case by (simp add: len_le_def del: map_eq_conv)
next
  case (7 c ts)
  then have "map (write_canonical_type \<circ> norm_type) ts = map write_canonical_type ts" by simp
  with 7 show ?case by (simp add: len_le_def del: map_eq_conv)
qed (simp_all add: write_row_norm)

text \<open>
  C13: The bytes that content hashes are taken over identify a type. Two types whose lists and strings are shorter than
  \<open>2\<^sup>3\<^sup>2\<close> have the same canonical bytes just when they agree up to the order of record fields and of the effects in a
  row; and no encoding is a proper prefix of another, so encodings can be written one after the other.
\<close>

theorem canonical_bytes_identify:
  assumes "short_type t" "short_type u"
  shows "(canonical_type_bytes t = canonical_type_bytes u \<longleftrightarrow> norm_type t = norm_type u)
    \<and> (\<forall>r s. canonical_type_bytes t @ r = canonical_type_bytes u @ s \<longrightarrow> r = s)"
proof -
  have "norm_type t = norm_type u" if "canonical_type_bytes t = canonical_type_bytes u"
    using canonical_append [OF assms, of "[]" "[]"] that by (simp add: canonical_type_bytes_def)
  moreover have "canonical_type_bytes t = canonical_type_bytes u" if "norm_type t = norm_type u"
    using that write_norm unfolding canonical_type_bytes_def by metis
  ultimately show ?thesis using canonical_append [OF assms] unfolding canonical_type_bytes_def by blast
qed

theorem canonical_bytes_identify_witness:
  "canonical_type_bytes (TyRecord [([0x61], TyVar 1), ([0x62], TyVar 2)]) = canonical_type_bytes (TyRecord [([0x62], TyVar 2), ([0x61], TyVar 1)])
    \<and> canonical_type_bytes (TyTuple [TyVar 1]) \<noteq> canonical_type_bytes (TyArray (TyVar 1))"
proof -
  have "short_type (TyRecord [([0x61], TyVar 1), ([0x62], TyVar 2)])" "short_type (TyRecord [([0x62], TyVar 2), ([0x61], TyVar 1)])"
    "short_type (TyTuple [TyVar 1])" "short_type (TyArray (TyVar 1))"
    by (simp_all add: short_def)
  then show ?thesis using canonical_bytes_identify by simp
qed

end
