(* ===== verification/Type_Subst.thy ===== *)
theory Type_Subst
  imports Type_Core Rust_Std
begin

text \<open>
  Substitutions, the occurs check, instantiation and generalisation of \<open>src/typechecker.rs\<close>. \<open>apply_subst\<close> applies a
  substitution to what it puts in, too, and need not end; its first argument bounds the depth of the recursion, and
  \<open>None\<close> is a recursion that goes deeper. \<open>TypeVar::fresh\<close> is a counter that is passed along.
\<close>

type_synonym Substitution = "(u64 \<times> Type) list"

subsection \<open>Applying a substitution\<close>

definition traverse :: "('a \<Rightarrow> 'b option) \<Rightarrow> 'a list \<Rightarrow> 'b list option" where
  "traverse f xs = those (map f xs)"

fun apply_subst :: "nat \<Rightarrow> Type \<Rightarrow> Substitution \<Rightarrow> Type option" where
  "apply_subst 0 ty subst = None"
| "apply_subst (Suc n) ty subst =
     (case ty of
        TyVar v \<Rightarrow> (case map_of subst v of Some replacement \<Rightarrow> apply_subst n replacement subst | None \<Rightarrow> Some (TyVar v))
      | TyPrimitive p \<Rightarrow> Some (TyPrimitive p)
      | TySkolem i \<Rightarrow> Some (TySkolem i)
      | TyTuple ts \<Rightarrow> map_option TyTuple (traverse (\<lambda>t. apply_subst n t subst) ts)
      | TyRecord fs \<Rightarrow> map_option TyRecord (traverse (\<lambda>(name, t). map_option (Pair name) (apply_subst n t subst)) fs)
      | TyVariant vs \<Rightarrow> map_option TyVariant (traverse (\<lambda>(name, o').
            case o' of None \<Rightarrow> Some (name, None) | Some t \<Rightarrow> map_option (\<lambda>u. (name, Some u)) (apply_subst n t subst)) vs)
      | TyArray t \<Rightarrow> map_option TyArray (apply_subst n t subst)
      | TyFunction param ret eff cap \<Rightarrow>
          Option.bind (apply_subst n param subst) (\<lambda>p. map_option (\<lambda>r. TyFunction p r eff cap) (apply_subst n ret subst))
      | TyActor st beh \<Rightarrow>
          Option.bind (apply_subst n st subst) (\<lambda>s. map_option (TyActor s) (apply_subst n beh subst))
      | TyApp constructor args \<Rightarrow>
          Option.bind (apply_subst n constructor subst) (\<lambda>c. map_option (TyApp c) (traverse (\<lambda>a. apply_subst n a subst) args))
      | TyReference cap inner \<Rightarrow> map_option (TyReference cap) (apply_subst n inner subst)
      | TyScheme vars body \<Rightarrow>
          map_option (TyScheme vars) (apply_subst n body (filter (\<lambda>(v, _). v \<notin> set vars) subst))
      | TyNominal name underlying \<Rightarrow> map_option (TyNominal name) (apply_subst n underlying subst))"

text \<open>Replacing variables once, with no second application (\<open>subst_type_vars_with\<close>); a map is a partial function.\<close>

fun subst_type_vars_with :: "Type \<Rightarrow> (u64 \<Rightarrow> Type option) \<Rightarrow> Type" where
  "subst_type_vars_with (TyVar v) m = (case m v of Some t \<Rightarrow> t | None \<Rightarrow> TyVar v)"
| "subst_type_vars_with (TyPrimitive p) m = TyPrimitive p"
| "subst_type_vars_with (TyTuple ts) m = TyTuple (map (\<lambda>t. subst_type_vars_with t m) ts)"
| "subst_type_vars_with (TyRecord fs) m = TyRecord (map (\<lambda>(n, t). (n, subst_type_vars_with t m)) fs)"
| "subst_type_vars_with (TyVariant vs) m = TyVariant (map (\<lambda>(n, o'). (n, map_option (\<lambda>t. subst_type_vars_with t m) o')) vs)"
| "subst_type_vars_with (TyArray t) m = TyArray (subst_type_vars_with t m)"
| "subst_type_vars_with (TyFunction param ret eff cap) m =
     TyFunction (subst_type_vars_with param m) (subst_type_vars_with ret m) eff cap"
| "subst_type_vars_with (TyActor st beh) m = TyActor (subst_type_vars_with st m) (subst_type_vars_with beh m)"
| "subst_type_vars_with (TyApp constructor args) m =
     TyApp (subst_type_vars_with constructor m) (map (\<lambda>a. subst_type_vars_with a m) args)"
| "subst_type_vars_with (TyReference cap inner) m = TyReference cap (subst_type_vars_with inner m)"
| "subst_type_vars_with (TyScheme vars body) m = TyScheme vars (subst_type_vars_with body m)"
| "subst_type_vars_with (TyNominal name underlying) m = TyNominal name (subst_type_vars_with underlying m)"
| "subst_type_vars_with (TySkolem i) m = TySkolem i"

subsection \<open>The occurs check\<close>

fun occurs_in :: "u64 \<Rightarrow> Type \<Rightarrow> bool" where
  "occurs_in v (TyVar v2) \<longleftrightarrow> v2 = v"
| "occurs_in v (TyPrimitive _) \<longleftrightarrow> False"
| "occurs_in v (TySkolem _) \<longleftrightarrow> False"
| "occurs_in v (TyTuple ts) \<longleftrightarrow> list_ex (occurs_in v) ts"
| "occurs_in v (TyRecord fs) \<longleftrightarrow> list_ex (\<lambda>(_, t). occurs_in v t) fs"
| "occurs_in v (TyVariant _) \<longleftrightarrow> False"
| "occurs_in v (TyArray t) \<longleftrightarrow> occurs_in v t"
| "occurs_in v (TyFunction param ret _ _) \<longleftrightarrow> occurs_in v param \<or> occurs_in v ret"
| "occurs_in v (TyActor st beh) \<longleftrightarrow> occurs_in v st \<or> occurs_in v beh"
| "occurs_in v (TyApp constructor args) \<longleftrightarrow> occurs_in v constructor \<or> list_ex (occurs_in v) args"
| "occurs_in v (TyReference _ inner) \<longleftrightarrow> occurs_in v inner"
| "occurs_in v (TyScheme vars body) \<longleftrightarrow> v \<notin> set vars \<and> occurs_in v body"
| "occurs_in v (TyNominal _ underlying) \<longleftrightarrow> occurs_in v underlying"

datatype type_error = TypeMismatch | FieldNotFound bytes | InfiniteType | IncompatibleRecords | BadProtocol

definition var_subst :: "u64 \<Rightarrow> Type \<Rightarrow> type_error + Substitution" where
  "var_subst v t =
     (case t of
        TySkolem _ \<Rightarrow> Inr [(v, t)]
      | _ \<Rightarrow> if t = TyVar v then Inr [] else if occurs_in v t then Inl InfiniteType else Inr [(v, t)])"

subsection \<open>Instantiation and generalisation\<close>

text \<open>Fresh variables in order, and the counter after them.\<close>

fun fresh_vars :: "'a list \<Rightarrow> u64 \<Rightarrow> u64 list \<times> u64" where
  "fresh_vars [] counter = ([], counter)"
| "fresh_vars (_ # xs) counter = (case fresh_vars xs (counter + 1) of (vs, c) \<Rightarrow> (counter # vs, c))"

definition instantiate :: "nat \<Rightarrow> Type \<Rightarrow> u64 \<Rightarrow> (Type \<times> u64) option" where
  "instantiate n ty counter =
     (case ty of
        TyScheme vars body \<Rightarrow>
          (case fresh_vars vars counter of (fresh, c) \<Rightarrow>
             map_option (\<lambda>t. (t, c)) (apply_subst n body (zip vars (map TyVar fresh))))
      | _ \<Rightarrow> Some (ty, counter))"

text \<open>The state of \<open>collect_skolems\<close>: the map and the list of its variables, which come from the counter.\<close>

record skolem_state =
  sk_map :: "(u64 \<times> u64) list"
  sk_vars :: "u64 list"
  sk_counter :: u64

fun collect_skolems :: "Type \<Rightarrow> skolem_state \<Rightarrow> skolem_state" where
  "collect_skolems (TySkolem i) st =
     (if map_of (sk_map st) i \<noteq> None then st
      else st\<lparr>sk_map := (i, sk_counter st) # sk_map st, sk_vars := sk_vars st @ [sk_counter st],
              sk_counter := sk_counter st + 1\<rparr>)"
| "collect_skolems (TyTuple ts) st = fold collect_skolems ts st"
| "collect_skolems (TyRecord fs) st = fold (\<lambda>(_, t). collect_skolems t) fs st"
| "collect_skolems (TyVariant vs) st = fold (\<lambda>(_, o') st. case o' of None \<Rightarrow> st | Some t \<Rightarrow> collect_skolems t st) vs st"
| "collect_skolems (TyArray t) st = collect_skolems t st"
| "collect_skolems (TyFunction param ret _ _) st = collect_skolems ret (collect_skolems param st)"
| "collect_skolems (TyActor s beh) st = collect_skolems beh (collect_skolems s st)"
| "collect_skolems (TyApp constructor args) st = fold collect_skolems args (collect_skolems constructor st)"
| "collect_skolems (TyReference _ inner) st = collect_skolems inner st"
| "collect_skolems (TyScheme _ body) st = collect_skolems body st"
| "collect_skolems (TyNominal _ underlying) st = collect_skolems underlying st"
| "collect_skolems (TyVar _) st = st"
| "collect_skolems (TyPrimitive _) st = st"

text \<open>
  Every skolem constant has been collected before, so the variable that \<open>unwrap_or_else\<close> would make up is not reached;
  it is an argument.
\<close>

fun replace_skolems_in_type :: "u64 \<Rightarrow> (u64 \<times> u64) list \<Rightarrow> Type \<Rightarrow> Type" where
  "replace_skolems_in_type unused m (TyVar v) = TyVar v"
| "replace_skolems_in_type unused m (TyPrimitive p) = TyPrimitive p"
| "replace_skolems_in_type unused m (TySkolem i) = TyVar (case map_of m i of Some v \<Rightarrow> v | None \<Rightarrow> unused)"
| "replace_skolems_in_type unused m (TyTuple ts) = TyTuple (map (replace_skolems_in_type unused m) ts)"
| "replace_skolems_in_type unused m (TyRecord fs) = TyRecord (map (\<lambda>(n, t). (n, replace_skolems_in_type unused m t)) fs)"
| "replace_skolems_in_type unused m (TyVariant vs) =
     TyVariant (map (\<lambda>(n, o'). (n, map_option (replace_skolems_in_type unused m) o')) vs)"
| "replace_skolems_in_type unused m (TyArray t) = TyArray (replace_skolems_in_type unused m t)"
| "replace_skolems_in_type unused m (TyFunction param ret eff cap) =
     TyFunction (replace_skolems_in_type unused m param) (replace_skolems_in_type unused m ret) eff cap"
| "replace_skolems_in_type unused m (TyActor st beh) =
     TyActor (replace_skolems_in_type unused m st) (replace_skolems_in_type unused m beh)"
| "replace_skolems_in_type unused m (TyApp constructor args) =
     TyApp (replace_skolems_in_type unused m constructor) (map (replace_skolems_in_type unused m) args)"
| "replace_skolems_in_type unused m (TyReference cap inner) = TyReference cap (replace_skolems_in_type unused m inner)"
| "replace_skolems_in_type unused m (TyScheme vars body) = TyScheme vars (replace_skolems_in_type unused m body)"
| "replace_skolems_in_type unused m (TyNominal name underlying) = TyNominal name (replace_skolems_in_type unused m underlying)"

subsection \<open>The typing context\<close>

record TypeContext =
  tc_bindings :: "(bytes, Type \<times> Capability \<times> bool) hashmap"
  tc_hidden :: "bytes hashset"
  tc_entity_events :: "(bytes \<times> (bytes \<times> Type) list) list option"
  tc_constraints :: "(u64, bytes list) hashmap"


definition ctx_bind :: "bytes \<Rightarrow> Type \<Rightarrow> Capability \<Rightarrow> bool \<Rightarrow> TypeContext \<Rightarrow> TypeContext" where
  "ctx_bind name ty cap mutable ctx = ctx\<lparr>tc_bindings := hm_insert name (ty, cap, mutable) (tc_bindings ctx)\<rparr>"


definition ctx_extend :: "bytes \<Rightarrow> Type \<Rightarrow> Capability \<Rightarrow> bool \<Rightarrow> TypeContext \<Rightarrow> TypeContext" where
  "ctx_extend name ty cap mutable ctx = ctx_bind name ty cap mutable ctx"


definition seal_except :: "bytes list \<Rightarrow> TypeContext \<Rightarrow> TypeContext" where
  "seal_except names ctx =
     ctx\<lparr>tc_hidden := hs_extend (tc_hidden ctx) (filter (\<lambda>k. k \<notin> set names) (map fst (tc_bindings ctx)))\<rparr>"


definition get_constraints :: "u64 \<Rightarrow> TypeContext \<Rightarrow> bytes list option" where
  "get_constraints tv ctx = map_of (tc_constraints ctx) tv"

definition set_entity_events :: "(bytes \<times> (bytes \<times> Type) list) list \<Rightarrow> TypeContext \<Rightarrow> TypeContext" where
  "set_entity_events events ctx = ctx\<lparr>tc_entity_events := Some events\<rparr>"




definition ctx_free_vars :: "TypeContext \<Rightarrow> u64 list" where
  "ctx_free_vars ctx = remdups_adj (sort (concat (map (\<lambda>(_, ty, _, _). free_vars ty) (tc_bindings ctx))))"

definition do_generalize_impl :: "TypeContext \<Rightarrow> Type \<Rightarrow> bool \<Rightarrow> u64 \<Rightarrow> Type \<times> u64" where
  "do_generalize_impl ctx ty apply_value_restriction counter =
     (let sk = collect_skolems ty \<lparr>sk_map = [], sk_vars = [], sk_counter = counter\<rparr>;
          body = (if sk_map sk = [] then ty else replace_skolems_in_type (sk_counter sk) (sk_map sk) ty);
          ref_fv = (if apply_value_restriction then ref_free_vars body else []);
          gen_vars = filter (\<lambda>v. v \<notin> set (ctx_free_vars ctx) \<and> v \<notin> set ref_fv) (free_vars body) @ sk_vars sk
      in (if gen_vars = [] then body else TyScheme gen_vars body, sk_counter sk))"


definition do_generalize_constructor :: "TypeContext \<Rightarrow> Type \<Rightarrow> u64 \<Rightarrow> Type \<times> u64" where
  "do_generalize_constructor ctx ty counter = do_generalize_impl ctx ty False counter"

subsection \<open>When a substitution can be applied\<close>

lemma traverse_simps [simp]: "traverse f [] = Some []"
  "traverse f (x # xs) = (case f x of None \<Rightarrow> None | Some y \<Rightarrow> map_option (Cons y) (traverse f xs))"
  by (simp_all add: traverse_def split: option.split)

lemma traverse_mono:
  assumes "traverse f xs = Some ys" "\<And>x y. \<lbrakk>x \<in> set xs; f x = Some y\<rbrakk> \<Longrightarrow> g x = Some y"
  shows "traverse g xs = Some ys"
  using assms by (induction xs arbitrary: ys) (auto split: option.splits)

lemma traverse_total:
  assumes "\<And>x. x \<in> set xs \<Longrightarrow> \<exists>y. f x = Some y"
  shows "\<exists>ys. traverse f xs = Some ys"
  using assms by (induction xs) fastforce+

lemma traverse_ball:
  assumes "traverse f xs = Some ys" "y \<in> set ys"
  shows "\<exists>x \<in> set xs. f x = Some y"
  using assms by (induction xs arbitrary: ys) (auto split: option.splits)

lemma apply_subst_mono: "\<lbrakk>apply_subst n t s = Some u; n \<le> m\<rbrakk> \<Longrightarrow> apply_subst m t s = Some u"
proof (induction n arbitrary: m t s u)
  case (Suc n)
  then obtain k where m: "m = Suc k" "n \<le> k" by (cases m) auto
  have IH: "apply_subst k t s = Some u" if "apply_subst n t s = Some u" for t s u using Suc.IH that m(2) by blast
  show ?case
  proof (cases t)
    case (TyTuple ts)
    then show ?thesis using Suc.prems(1) m IH by (auto elim!: traverse_mono)
  next
    case (TyRecord fs)
    then show ?thesis using Suc.prems(1) m IH by (auto elim!: traverse_mono)
  next
    case (TyVariant vs)
    then show ?thesis using Suc.prems(1) m IH by (auto elim!: traverse_mono split: option.splits)
  next
    case (TyApp c ts)
    then show ?thesis using Suc.prems(1) m IH by (auto elim!: traverse_mono simp: bind_eq_Some_conv)
  qed (use Suc.prems(1) m IH in \<open>auto simp: bind_eq_Some_conv split: option.splits\<close>)
qed simp

text \<open>A substitution is acyclic when its variables can be ranked so that each is replaced by a type over smaller ones.\<close>

definition ranked :: "(u64 \<Rightarrow> nat) \<Rightarrow> Substitution \<Rightarrow> bool" where
  "ranked rank s \<longleftrightarrow> (\<forall>(v, t) \<in> set s. \<forall>w \<in> type_vars t. rank w < rank v)"

definition acyclic_subst :: "Substitution \<Rightarrow> bool" where
  "acyclic_subst s \<longleftrightarrow> (\<exists>rank. ranked rank s)"

definition below_rank :: "(u64 \<Rightarrow> nat) \<Rightarrow> nat \<Rightarrow> Substitution \<Rightarrow> Type \<Rightarrow> bool" where
  "below_rank rank R s t \<longleftrightarrow> (\<forall>v \<in> type_vars t. v \<in> fst ` set s \<longrightarrow> rank v < R)"

definition applies :: "Type \<Rightarrow> Substitution \<Rightarrow> bool" where
  "applies t s \<longleftrightarrow> (\<exists>n u. apply_subst n t s = Some u)"

lemma appliesI: "apply_subst n t s = Some u \<Longrightarrow> applies t s"
  by (auto simp: applies_def)

text \<open>Enough depth for each of finitely many types is enough for all.\<close>

lemma applies_all:
  assumes "finite T" "\<forall>t \<in> T. applies t s"
  shows "\<exists>n. \<forall>t \<in> T. \<exists>u. apply_subst n t s = Some u"
proof -
  have "\<forall>t \<in> T. \<exists>n u. apply_subst n t s = Some u" using assms(2) by (simp add: applies_def)
  then obtain f where f: "\<forall>t \<in> T. \<exists>u. apply_subst (f t) t s = Some u" by metis
  have "\<exists>u. apply_subst (Max (f ` T)) t s = Some u" if "t \<in> T" for t
    using f that assms(1) apply_subst_mono [of "f t" t s _ "Max (f ` T)"] by (meson Max_ge finite_imageI imageI)
  then show ?thesis by blast
qed

lemma applies_tuple:
  assumes "\<forall>t \<in> set ts. applies t s"
  shows "applies (TyTuple ts) s"
proof -
  obtain n where "\<forall>t \<in> set ts. \<exists>u. apply_subst n t s = Some u" using applies_all [OF finite_set assms] by blast
  then obtain us where "traverse (\<lambda>t. apply_subst n t s) ts = Some us" using traverse_total by metis
  then show ?thesis by (intro appliesI [of "Suc n"]) simp
qed

lemma applies_record:
  assumes "\<forall>(n, t) \<in> set fs. applies t s"
  shows "applies (TyRecord fs) s"
proof -
  have "\<forall>t \<in> snd ` set fs. applies t s" using assms by auto
  then obtain n where n: "\<forall>t \<in> snd ` set fs. \<exists>u. apply_subst n t s = Some u" using applies_all [of "snd ` set fs" s] by blast
  have "\<exists>gs. traverse (\<lambda>(name, t). map_option (Pair name) (apply_subst n t s)) fs = Some gs"
    by (rule traverse_total) (use n in \<open>force simp: case_prod_beta\<close>)
  then show ?thesis by (elim exE) (rule appliesI [of "Suc n"], simp)
qed

lemma applies_variant:
  assumes "\<forall>(n, o') \<in> set vs. case o' of None \<Rightarrow> True | Some t \<Rightarrow> applies t s"
  shows "applies (TyVariant vs) s"
proof -
  let ?T = "{t. \<exists>n. (n, Some t) \<in> set vs}"
  have "?T \<subseteq> the ` snd ` set vs" by force
  then have "finite ?T" by (rule finite_subset) simp
  moreover have "\<forall>t \<in> ?T. applies t s" using assms by fastforce
  ultimately obtain n where n: "\<forall>t \<in> ?T. \<exists>u. apply_subst n t s = Some u" using applies_all by blast
  have "\<exists>ws. traverse (\<lambda>(name, o'). case o' of None \<Rightarrow> Some (name, None)
      | Some t \<Rightarrow> map_option (\<lambda>u. (name, Some u)) (apply_subst n t s)) vs = Some ws"
    by (rule traverse_total) (use n in \<open>force split: option.splits\<close>)
  then show ?thesis by (elim exE) (rule appliesI [of "Suc n"], simp)
qed

lemma applies_pair:
  assumes "applies p s" "applies r s"
  shows "applies (TyFunction p r e c) s" "applies (TyActor p r) s"
proof -
  obtain n u v where "apply_subst n p s = Some u" "apply_subst n r s = Some v"
    using applies_all [of "{p, r}" s] assms by auto
  then show "applies (TyFunction p r e c) s" "applies (TyActor p r) s" by (auto intro!: appliesI [of "Suc n"])
qed

lemma applies_app:
  assumes "applies c s" "\<forall>t \<in> set ts. applies t s"
  shows "applies (TyApp c ts) s"
proof -
  obtain n where n: "\<forall>t \<in> insert c (set ts). \<exists>u. apply_subst n t s = Some u"
    using applies_all [of "insert c (set ts)" s] assms by auto
  then obtain us v where "traverse (\<lambda>t. apply_subst n t s) ts = Some us" "apply_subst n c s = Some v"
    using traverse_total [of ts "\<lambda>t. apply_subst n t s"] by blast
  then show ?thesis by (intro appliesI [of "Suc n"]) simp
qed

lemma applies_inner:
  "applies t s \<Longrightarrow> applies (TyArray t) s"
  "applies t s \<Longrightarrow> applies (TyReference c t) s"
  "applies t s \<Longrightarrow> applies (TyNominal nm t) s"
  "applies t (filter (\<lambda>(v, _). v \<notin> set vars) s) \<Longrightarrow> applies (TyScheme vars t) s"
proof -
  have *: "applies (F t) s" if a: "applies t s'" and b: "\<And>n. apply_subst (Suc n) (F t) s = map_option F (apply_subst n t s')" for F s'
  proof -
    obtain n u where "apply_subst n t s' = Some u" using a by (auto simp: applies_def)
    then show ?thesis using b [of n] by (intro appliesI [of "Suc n"]) simp
  qed
  show "applies t s \<Longrightarrow> applies (TyArray t) s" "applies t s \<Longrightarrow> applies (TyReference c t) s"
    "applies t s \<Longrightarrow> applies (TyNominal nm t) s"
    "applies t (filter (\<lambda>(v, _). v \<notin> set vars) s) \<Longrightarrow> applies (TyScheme vars t) s"
    by (erule *, simp)+
qed

lemma applies_below_rank: "\<lbrakk>ranked rank s; below_rank rank R s t\<rbrakk> \<Longrightarrow> applies t s"
proof (induction R arbitrary: t s rule: less_induct)
  case (less R)
  from less.prems show ?case
  proof (induction t arbitrary: s rule: type_vars.induct)
    case (1 v)
    show ?case
    proof (cases "map_of s v")
      case None
      then show ?thesis by (intro appliesI [of 1]) simp
    next
      case (Some t)
      then have vt: "(v, t) \<in> set s" by (rule map_of_SomeD)
      then have "rank v < R" using "1.prems"(2) by (force simp: below_rank_def)
      moreover have "below_rank rank (rank v) s t" using vt "1.prems"(1) by (auto simp: ranked_def below_rank_def)
      ultimately have "applies t s" using less.IH "1.prems"(1) by blast
      then obtain n u where "apply_subst n t s = Some u" by (auto simp: applies_def)
      with Some show ?thesis by (intro appliesI [of "Suc n"]) simp
    qed
  next
    case (3 ts)
    then show ?case by (intro applies_tuple) (auto simp: below_rank_def)
  next
    case (4 fs)
    then show ?case by (intro applies_record) (fastforce simp: below_rank_def)
  next
    case (5 vs)
    then show ?case by (intro applies_variant) (fastforce simp: below_rank_def split: option.splits)
  next
    case (9 c ts)
    then show ?case by (intro applies_app) (auto simp: below_rank_def, fastforce)
  next
    case (11 vars body)
    have "applies body (filter (\<lambda>(v, _). v \<notin> set vars) s)"
      by (rule "11.IH") (use "11.prems" in \<open>fastforce simp: ranked_def below_rank_def\<close>)+
    then show ?case by (rule applies_inner)
  qed (auto simp: below_rank_def intro: applies_pair applies_inner appliesI [of 1])
qed

lemma map_of_filter_keys:
  "map_of (filter (\<lambda>(v, _). v \<notin> set vars) s) w = (if w \<in> set vars then None else map_of s w)"
  by (induction s) auto

lemma apply_subst_resolved: "\<lbrakk>apply_subst n t s = Some u; w \<in> type_vars u\<rbrakk> \<Longrightarrow> map_of s w = None"
proof (induction n arbitrary: t s u)
  case (Suc n)
  have IH: "map_of s w = None" if "apply_subst n t s = Some u" "w \<in> type_vars u" for t s u
    using Suc.IH that by blast
  show ?case
  proof (cases t)
    case (TyVar v)
    then show ?thesis using Suc.prems by (auto split: option.splits dest: IH)
  next
    case (TyTuple ts)
    then obtain us where us: "u = TyTuple us" "traverse (\<lambda>t. apply_subst n t s) ts = Some us" using Suc.prems(1) by auto
    then show ?thesis using Suc.prems(2) by (auto dest!: traverse_ball [OF us(2)] dest: IH)
  next
    case (TyRecord fs)
    then obtain gs where gs: "u = TyRecord gs"
        "traverse (\<lambda>(name, t). map_option (Pair name) (apply_subst n t s)) fs = Some gs" using Suc.prems(1) by auto
    then show ?thesis using Suc.prems(2) by (auto dest!: traverse_ball [OF gs(2)] dest: IH)
  next
    case (TyVariant vs)
    then obtain ws where ws: "u = TyVariant ws"
        "traverse (\<lambda>(name, o'). case o' of None \<Rightarrow> Some (name, None)
            | Some t \<Rightarrow> map_option (\<lambda>u. (name, Some u)) (apply_subst n t s)) vs = Some ws" using Suc.prems(1) by auto
    then show ?thesis using Suc.prems(2) by (auto dest!: traverse_ball [OF ws(2)] dest: IH split: option.splits)
  next
    case (TyApp c ts)
    then obtain d us where us: "u = TyApp d us" "apply_subst n c s = Some d" "traverse (\<lambda>t. apply_subst n t s) ts = Some us"
      using Suc.prems(1) by (auto simp: bind_eq_Some_conv)
    then show ?thesis using Suc.prems(2) by (auto dest!: traverse_ball [OF us(3)] dest: IH)
  next
    case (TyScheme vars body)
    then show ?thesis using Suc.prems by (auto simp: map_of_filter_keys dest!: IH)
  qed (use Suc.prems in \<open>auto simp: bind_eq_Some_conv dest: IH\<close>)
qed simp

text \<open>
  Termination of the substitution. When no variable leads back to itself, \<open>apply_subst\<close> returns on every type: there is
  a depth from which on the result is always the same, and no variable that the substitution maps is free in it.
\<close>

theorem apply_subst_terminates:
  assumes "acyclic_subst s"
  shows "\<exists>n u. (\<forall>m \<ge> n. apply_subst m t s = Some u) \<and> type_vars u \<inter> fst ` set s = {}"
proof -
  obtain rank where "ranked rank s" using assms by (auto simp: acyclic_subst_def)
  moreover have "below_rank rank (Suc (Max (rank ` fst ` set s))) s t" by (auto simp: below_rank_def less_Suc_eq_le)
  ultimately obtain n u where u: "apply_subst n t s = Some u" using applies_below_rank unfolding applies_def by blast
  then have "\<forall>m \<ge> n. apply_subst m t s = Some u" using apply_subst_mono by blast
  moreover have "type_vars u \<inter> fst ` set s = {}"
    using apply_subst_resolved [OF u] by (auto simp: map_of_eq_None_iff disjoint_iff)
  ultimately show ?thesis by blast
qed

theorem apply_subst_terminates_witness:
  "acyclic_subst [(2, TyArray (TyVar 1)), (1, TyPrimitive PrimInt)]
    \<and> (\<exists>n u. (\<forall>m \<ge> n. apply_subst m (TyTuple [TyVar 2, TyVar 3]) [(2, TyArray (TyVar 1)), (1, TyPrimitive PrimInt)] = Some u)
         \<and> type_vars u \<inter> {1, 2} = {})"
proof -
  have "acyclic_subst [(2, TyArray (TyVar 1)), (1, TyPrimitive PrimInt)]"
    unfolding acyclic_subst_def ranked_def by (rule exI [of _ unat]) simp
  from this apply_subst_terminates [OF this, of "TyTuple [TyVar 2, TyVar 3]"] show ?thesis by (simp add: insert_commute)
qed

subsection \<open>The occurs check\<close>

fun variant_free :: "Type \<Rightarrow> bool" where
  "variant_free (TyTuple ts) \<longleftrightarrow> list_all variant_free ts"
| "variant_free (TyRecord fs) \<longleftrightarrow> list_all (\<lambda>(_, t). variant_free t) fs"
| "variant_free (TyVariant _) \<longleftrightarrow> False"
| "variant_free (TyArray t) \<longleftrightarrow> variant_free t"
| "variant_free (TyFunction param ret _ _) \<longleftrightarrow> variant_free param \<and> variant_free ret"
| "variant_free (TyActor st beh) \<longleftrightarrow> variant_free st \<and> variant_free beh"
| "variant_free (TyApp constructor args) \<longleftrightarrow> variant_free constructor \<and> list_all variant_free args"
| "variant_free (TyReference _ inner) \<longleftrightarrow> variant_free inner"
| "variant_free (TyScheme _ body) \<longleftrightarrow> variant_free body"
| "variant_free (TyNominal _ underlying) \<longleftrightarrow> variant_free underlying"
| "variant_free _ \<longleftrightarrow> True"

lemma occurs_in_vars: "variant_free t \<Longrightarrow> occurs_in v t \<longleftrightarrow> v \<in> type_vars t"
proof (induction v t rule: occurs_in.induct)
  case (5 v fs)
  then show ?case by (fastforce simp: list_all_iff list_ex_iff)
qed (auto simp: list_all_iff list_ex_iff)

lemma traverse_id:
  assumes "traverse f xs = Some ys" "\<And>x y. \<lbrakk>x \<in> set xs; f x = Some y\<rbrakk> \<Longrightarrow> y = x"
  shows "ys = xs"
  using assms by (induction xs arbitrary: ys) (auto split: option.splits)

lemma apply_subst_id: "\<lbrakk>apply_subst n t s = Some u; \<forall>v \<in> type_vars t. map_of s v = None\<rbrakk> \<Longrightarrow> u = t"
proof (induction n arbitrary: t s u)
  case (Suc n)
  have IH: "u = t" if "apply_subst n t s = Some u" "\<forall>v \<in> type_vars t. map_of s v = None" for t s u
    using Suc.IH that by blast
  show ?case
  proof (cases t)
    case (TyTuple ts)
    with Suc.prems(1) obtain us where us: "u = TyTuple us" "traverse (\<lambda>t. apply_subst n t s) ts = Some us" by auto
    have "us = ts" by (rule traverse_id [OF us(2)], rule IH) (use TyTuple Suc.prems(2) in auto)
    with us(1) TyTuple show ?thesis by simp
  next
    case (TyRecord fs)
    with Suc.prems(1) obtain gs where gs: "u = TyRecord gs"
        "traverse (\<lambda>(name, t). map_option (Pair name) (apply_subst n t s)) fs = Some gs" by auto
    have "y = x" if "x \<in> set fs" "(case x of (name, t) \<Rightarrow> map_option (Pair name) (apply_subst n t s)) = Some y" for x y
      using that TyRecord Suc.prems(2) IH [of "snd x" s] by (force split: prod.splits)
    then have "gs = fs" by (rule traverse_id [OF gs(2)])
    with gs(1) TyRecord show ?thesis by simp
  next
    case (TyVariant vs)
    let ?f = "\<lambda>(name, o'). case o' of None \<Rightarrow> Some (name, None) | Some t \<Rightarrow> map_option (\<lambda>u. (name, Some u)) (apply_subst n t s)"
    from TyVariant Suc.prems(1) obtain ws where ws: "u = TyVariant ws" "traverse ?f vs = Some ws" by auto
    have "y = x" if x: "x \<in> set vs" "?f x = Some y" for x y
    proof (cases "snd x")
      case None
      then show ?thesis using x(2) by (cases x) auto
    next
      case (Some t')
      then have "\<forall>v \<in> type_vars t'. map_of s v = None" using x(1) TyVariant Suc.prems(2) by (cases x) force
      then show ?thesis using x(2) Some IH [of t' s] by (cases x) auto
    qed
    then have "ws = vs" by (rule traverse_id [OF ws(2)])
    with ws(1) TyVariant show ?thesis by simp
  next
    case (TyApp c ts)
    with Suc.prems(1) obtain d us where us: "u = TyApp d us" "apply_subst n c s = Some d"
        "traverse (\<lambda>t. apply_subst n t s) ts = Some us" by (auto simp: bind_eq_Some_conv)
    have "us = ts" by (rule traverse_id [OF us(3)], rule IH) (use TyApp Suc.prems(2) in auto)
    moreover have "d = c" using IH [OF us(2)] TyApp Suc.prems(2) by auto
    ultimately show ?thesis using us(1) TyApp by simp
  next
    case (TyScheme vars body)
    with Suc.prems show ?thesis by (auto simp: map_of_filter_keys intro!: IH)
  qed (use Suc.prems in \<open>auto simp: bind_eq_Some_conv intro!: IH\<close>)
qed simp

lemma acyclic_single: "v \<notin> type_vars t \<Longrightarrow> acyclic_subst [(v, t)]"
  unfolding acyclic_subst_def ranked_def by (rule exI [of _ "\<lambda>w. if w = v then 1 else 0"]) auto

lemma single_solves:
  assumes "v \<notin> type_vars t"
  shows "\<exists>n. \<forall>m \<ge> n. apply_subst m (TyVar v) [(v, t)] = Some t \<and> apply_subst m t [(v, t)] = Some t"
proof -
  have "ranked (\<lambda>w. if w = v then 1 else 0) [(v, t)]" using assms by (auto simp: ranked_def)
  then have "applies t [(v, t)]"
    by (rule applies_below_rank [where R = 2]) (auto simp: below_rank_def)
  then obtain n u where u: "apply_subst n t [(v, t)] = Some u" by (auto simp: applies_def)
  moreover have "u = t" by (rule apply_subst_id [OF u]) (use assms in auto)
  ultimately have t: "apply_subst m t [(v, t)] = Some t" if "n \<le> m" for m using apply_subst_mono that by blast
  have "apply_subst m (TyVar v) [(v, t)] = Some t" if "Suc n \<le> m" for m
    using that t [of "m - 1"] by (cases m) auto
  then show ?thesis using t by (intro exI [of _ "Suc n"]) auto
qed

text \<open>
  Binding a variable. On a type without variants, \<open>var_subst\<close> fails just when the variable occurs in a type other than
  itself, and always with \<open>InfiniteType\<close>; the substitution it returns otherwise is acyclic and makes the variable and
  the type equal.
\<close>

theorem var_subst_solves:
  assumes "variant_free t"
  shows "case var_subst v t of
      Inl e \<Rightarrow> e = InfiniteType \<and> v \<in> type_vars t \<and> t \<noteq> TyVar v
    | Inr s \<Rightarrow> (v \<in> type_vars t \<longrightarrow> t = TyVar v) \<and> acyclic_subst s
        \<and> (\<exists>n. \<forall>m \<ge> n. apply_subst m (TyVar v) s = Some t \<and> apply_subst m t s = Some t)"
proof -
  have trivial: "acyclic_subst [] \<and> (\<exists>n. \<forall>m \<ge> n. apply_subst m (TyVar v) [] = Some (TyVar v))"
  proof
    show "\<exists>n. \<forall>m \<ge> n. apply_subst m (TyVar v) [] = Some (TyVar v)"
      by (rule exI [of _ 1]) (auto simp: Suc_le_eq gr0_conv_Suc)
  qed (simp add: acyclic_subst_def ranked_def)
  consider "t = TyVar v" | "t \<noteq> TyVar v" "v \<in> type_vars t" | "v \<notin> type_vars t" by blast
  then show ?thesis
  proof cases
    case 1
    then show ?thesis using trivial by (simp add: var_subst_def)
  next
    case 2
    then show ?thesis using occurs_in_vars [OF assms] by (cases t) (auto simp: var_subst_def)
  next
    case 3
    then have "var_subst v t = Inr [(v, t)]"
      using occurs_in_vars [OF assms, of v] by (cases t) (auto simp: var_subst_def simp del: occurs_in.simps)
    then show ?thesis using 3 acyclic_single single_solves by simp
  qed
qed

theorem var_subst_solves_witness:
  "variant_free (TyArray (TyVar 2))
    \<and> (\<exists>n. \<forall>m \<ge> n. apply_subst m (TyVar 1) [(1, TyArray (TyVar 2))] = Some (TyArray (TyVar 2)))"
  using var_subst_solves [of "TyArray (TyVar 2)" 1] by (auto simp: var_subst_def)

text \<open>
  C39: The occurs check stops at variants. A variable is bound to a variant whose payload is that variable, with no error,
  and the substitution that results cannot be applied: the recursion goes beyond every depth.
\<close>

theorem occurs_check_misses_variants:
  "var_subst v (TyVariant [(c, Some (TyVar v))]) = Inr [(v, TyVariant [(c, Some (TyVar v))])]
    \<and> (\<forall>m. apply_subst m (TyVar v) [(v, TyVariant [(c, Some (TyVar v))])] = None)"
proof -
  have "apply_subst m (TyVar v) [(v, TyVariant [(c, Some (TyVar v))])] = None
      \<and> apply_subst m (TyVariant [(c, Some (TyVar v))]) [(v, TyVariant [(c, Some (TyVar v))])] = None" for m
    by (induction m) auto
  then show ?thesis by (simp add: var_subst_def)
qed

subsection \<open>Substituting in a context\<close>







subsection \<open>Generalisation\<close>

fun skolems :: "Type \<Rightarrow> u64 set" where
  "skolems (TySkolem i) = {i}"
| "skolems (TyTuple ts) = (\<Union>t \<in> set ts. skolems t)"
| "skolems (TyRecord fs) = (\<Union>(_, t) \<in> set fs. skolems t)"
| "skolems (TyVariant vs) = (\<Union>(_, o') \<in> set vs. case o' of None \<Rightarrow> {} | Some t \<Rightarrow> skolems t)"
| "skolems (TyArray t) = skolems t"
| "skolems (TyFunction param ret _ _) = skolems param \<union> skolems ret"
| "skolems (TyActor st beh) = skolems st \<union> skolems beh"
| "skolems (TyApp constructor args) = skolems constructor \<union> (\<Union>t \<in> set args. skolems t)"
| "skolems (TyReference _ inner) = skolems inner"
| "skolems (TyScheme _ body) = skolems body"
| "skolems (TyNominal _ underlying) = skolems underlying"
| "skolems (TyVar _) = {}"
| "skolems (TyPrimitive _) = {}"



text \<open>Collecting only adds entries: the next values of the counter, one for each constant that is new.\<close>

definition grows :: "skolem_state \<Rightarrow> skolem_state \<Rightarrow> bool" where
  "grows st st' \<longleftrightarrow> (\<exists>k. sk_vars st' = sk_vars st @ map (\<lambda>i. sk_counter st + of_nat i) [0..<k]
     \<and> sk_counter st' = sk_counter st + of_nat k) \<and> (map snd (rev (sk_map st)) = sk_vars st \<longrightarrow> map snd (rev (sk_map st')) = sk_vars st')
     \<and> fst ` set (sk_map st) \<subseteq> fst ` set (sk_map st')"

lemma grows_refl [simp]: "grows st st"
  by (auto simp: grows_def intro!: exI [of _ 0])







lemma replace_type_vars:
  "\<lbrakk>w \<in> type_vars (replace_skolems_in_type unused m t); skolems t \<subseteq> fst ` set m\<rbrakk> \<Longrightarrow> w \<in> type_vars t \<or> w \<in> snd ` set m"
proof (induction unused m t rule: replace_skolems_in_type.induct)
  case (3 unused m i)
  then obtain v where v: "map_of m i = Some v" by (metis insert_subset map_of_eq_None_iff option.exhaust skolems.simps(1))
  then have "v \<in> snd ` set m" by (force dest: map_of_SomeD)
  with v 3 show ?case by simp
next
  case (4 unused m ts)
  then obtain t where t: "t \<in> set ts" "w \<in> type_vars (replace_skolems_in_type unused m t)" by auto
  moreover have "skolems t \<subseteq> fst ` set m" using t(1) "4.prems"(2) by auto
  ultimately show ?case using "4.IH" by auto
next
  case (5 unused m fs)
  then obtain n t where t: "(n, t) \<in> set fs" "w \<in> type_vars (replace_skolems_in_type unused m t)" by auto
  moreover have "skolems t \<subseteq> fst ` set m" using t(1) "5.prems"(2) by force
  ultimately show ?case using "5.IH" [of "(n, t)" n t] by auto
next
  case (6 unused m vs)
  then obtain n t where t: "(n, Some t) \<in> set vs" "w \<in> type_vars (replace_skolems_in_type unused m t)"
    by (auto split: option.splits)
  moreover have "skolems t \<subseteq> fst ` set m" using t(1) "6.prems"(2) by force
  ultimately show ?case using "6.IH" [of "(n, Some t)" n "Some t" t] by force
next
  case (10 unused m c ts)
  consider "w \<in> type_vars (replace_skolems_in_type unused m c)"
    | t where "t \<in> set ts" "w \<in> type_vars (replace_skolems_in_type unused m t)" using "10.prems"(1) by auto
  then show ?case
  proof cases
    case 1
    then show ?thesis using "10.IH"(1) "10.prems"(2) by auto
  next
    case 2
    moreover have "skolems t \<subseteq> fst ` set m" using 2(1) "10.prems"(2) by auto
    ultimately show ?thesis using "10.IH"(2) by auto
  qed
qed auto






end
