(* ===== verification/Type_Ntir.thy ===== *)
theory Type_Ntir
  imports Type_Core Rust_Std
begin

text \<open>
  The structural form \<open>NtirNode\<close> of a type (\<open>src/type_ir.rs\<close>, \<open>to_ntir\<close> of \<open>src/types.rs\<close>) and the bytes its hash is
  taken over. The hash function is that of the library blake3 and an argument.
\<close>

datatype NtirNode =
    NtirPrimitive PrimitiveType
  | NtirCapability Capability NtirNode
  | NtirRecord "(bytes \<times> NtirNode) list"
  | NtirTuple "NtirNode list"
  | NtirVariant "(bytes \<times> NtirNode) list"
  | NtirCycle u64

text \<open>
  The stack of variables is pushed and popped around a variable only, which has no parts, so every call gets the stack
  of its caller.
\<close>

fun to_ntir_with_stack :: "u64 list \<Rightarrow> Type \<Rightarrow> NtirNode" where
  "to_ntir_with_stack stk (TyVar v) =
     (case position (\<lambda>x. x = v) (rev stk) of Some pos \<Rightarrow> NtirCycle (of_nat pos) | None \<Rightarrow> NtirPrimitive PrimUnit)"
| "to_ntir_with_stack stk (TyPrimitive p) = NtirPrimitive p"
| "to_ntir_with_stack stk (TyTuple ts) = NtirTuple (map (to_ntir_with_stack stk) ts)"
| "to_ntir_with_stack stk (TyRecord fs) = NtirRecord (sort_key fst (map (\<lambda>(n, t). (n, to_ntir_with_stack stk t)) fs))"
| "to_ntir_with_stack stk (TyVariant vs) =
     NtirVariant (sort_key fst (map (\<lambda>(n, o').
       (n, case o' of Some t \<Rightarrow> to_ntir_with_stack stk t | None \<Rightarrow> NtirPrimitive PrimUnit)) vs))"
| "to_ntir_with_stack stk (TyArray inner) = NtirTuple [to_ntir_with_stack stk inner]"
| "to_ntir_with_stack stk (TyFunction param ret _ cap) =
     NtirCapability cap (NtirTuple [to_ntir_with_stack stk param, to_ntir_with_stack stk ret])"
| "to_ntir_with_stack stk (TyActor st beh) = NtirTuple [to_ntir_with_stack stk st, to_ntir_with_stack stk beh]"
| "to_ntir_with_stack stk (TyApp constructor args) =
     NtirTuple (to_ntir_with_stack stk constructor # map (to_ntir_with_stack stk) args)"
| "to_ntir_with_stack stk (TyReference cap inner) = NtirCapability cap (to_ntir_with_stack stk inner)"
| "to_ntir_with_stack stk (TyScheme _ body) = to_ntir_with_stack stk body"
| "to_ntir_with_stack stk (TyNominal _ underlying) = to_ntir_with_stack stk underlying"
| "to_ntir_with_stack stk (TySkolem _) = NtirPrimitive PrimUnit"

definition to_ntir :: "Type \<Rightarrow> NtirNode" where
  "to_ntir t = to_ntir_with_stack [] t"

function write_leb128 :: "u64 \<Rightarrow> bytes" where
  "write_leb128 val =
     (let byte = ucast (val AND 0x7F) :: u8; rest = drop_bit 7 val in
      if rest = 0 then [byte] else (byte OR 0x80) # write_leb128 rest)"
  by pat_completeness auto
termination
proof (relation "measure unat")
  fix val :: u64 and byte :: u8 and rest
  assume "rest = drop_bit 7 val" "rest \<noteq> 0"
  then have "unat rest = unat val div 2 ^ 7" "val \<noteq> 0" by (auto simp: drop_bit_eq_div unat_div)
  then show "(rest, val) \<in> measure unat" by (simp add: unat_gt_0)
qed simp

declare write_leb128.simps [simp del]

fun ntir_prim_code :: "PrimitiveType \<Rightarrow> u8" where
  "ntir_prim_code PrimUnit = 0x01"
| "ntir_prim_code PrimBool = 0x02"
| "ntir_prim_code PrimInt = 0x03"
| "ntir_prim_code PrimFloat = 0x04"
| "ntir_prim_code PrimString = 0x05"
| "ntir_prim_code _ = 0x01"

fun ntir_cap_code :: "Capability \<Rightarrow> u8" where
  "ntir_cap_code CapIso = 0x10"
| "ntir_cap_code CapLinearIso = 0x10"
| "ntir_cap_code CapTrn = 0x11"
| "ntir_cap_code CapRef = 0x12"
| "ntir_cap_code CapVal = 0x13"
| "ntir_cap_code CapLinear = 0x13"
| "ntir_cap_code CapBox = 0x14"
| "ntir_cap_code CapTag = 0x15"

lemma size_node [termination_simp]: "(n, t) \<in> set fs \<Longrightarrow> size t < Suc (size_list (size_prod (\<lambda>_. 0) size) fs)"
  for t :: NtirNode
  by (induction fs) auto

fun serialize_into :: "NtirNode \<Rightarrow> bytes" where
  "serialize_into (NtirPrimitive p) = [ntir_prim_code p]"
| "serialize_into (NtirCapability cap inner) = ntir_cap_code cap # serialize_into inner"
| "serialize_into (NtirRecord fields) = 0x20 # write_leb128 (of_nat (length fields)) @
     concat (map (\<lambda>(name, ty). write_leb128 (of_nat (length name)) @ name @ serialize_into ty) fields)"
| "serialize_into (NtirTuple elems) = 0x21 # write_leb128 (of_nat (length elems)) @ concat (map serialize_into elems)"
| "serialize_into (NtirVariant tags) = 0x22 # write_leb128 (of_nat (length tags)) @
     concat (map (\<lambda>(name, ty). write_leb128 (of_nat (length name)) @ name @ serialize_into ty) tags)"
| "serialize_into (NtirCycle dist) = 0x30 # write_leb128 dist"

definition ntir_hash :: "(bytes \<Rightarrow> bytes) \<Rightarrow> NtirNode \<Rightarrow> bytes" where
  "ntir_hash H node = H ([0x4E, 0x54, 0x49, 0x52] @ [0x00, 0x01] @ serialize_into node)"

text \<open>A type never has a cycle node: the variables of the stack are gone before another variable is met.\<close>

fun cycle_free :: "NtirNode \<Rightarrow> bool" where
  "cycle_free (NtirPrimitive _) \<longleftrightarrow> True"
| "cycle_free (NtirCapability _ inner) \<longleftrightarrow> cycle_free inner"
| "cycle_free (NtirRecord fs) \<longleftrightarrow> list_all (\<lambda>(_, t). cycle_free t) fs"
| "cycle_free (NtirTuple ts) \<longleftrightarrow> list_all cycle_free ts"
| "cycle_free (NtirVariant fs) \<longleftrightarrow> list_all (\<lambda>(_, t). cycle_free t) fs"
| "cycle_free (NtirCycle _) \<longleftrightarrow> False"

lemma to_ntir_cycle_free: "stk = [] \<Longrightarrow> cycle_free (to_ntir_with_stack stk t)"
  by (induction stk t rule: to_ntir_with_stack.induct) (auto simp: list_all_iff split: option.splits)

lemma same_ntir:
  "to_ntir (TySkolem a) = to_ntir type_unit"
  "to_ntir (TyArray t) = to_ntir (TyTuple [t])"
  "to_ntir (TyActor s b) = to_ntir (TyTuple [s, b])"
  "to_ntir (TyFunction p r e c) = to_ntir (TyFunction p r e' c)"
  "to_ntir (TyFunction p r e c) = to_ntir (TyReference c (TyTuple [p, r]))"
  by (simp_all add: to_ntir_def)

end
