(* ===== verification/Type_Unify.thy ===== *)
theory Type_Unify
  imports Type_Subst Type_Ntir
begin

text \<open>
  Unification of \<open>src/typechecker.rs\<close>: \<open>mgu\<close>, \<open>compose_subst\<close> and the routines for lists, records, variants and actor
  protocols. \<open>mgu\<close> and \<open>compose_subst\<close> call each other, and substitutions are applied on the way, so a computation has a
  bound on the depth of its calls, passes the counter of \<open>TypeVar::fresh\<close> along and ends with an error or a value;
  \<open>None\<close> is a computation that needs more depth. The hash function of the structural shortcut is an argument.
\<close>

subsection \<open>Computations\<close>

type_synonym 'a infer = "u64 \<Rightarrow> ((type_error + 'a) \<times> u64) option"

definition succeed :: "'a \<Rightarrow> 'a infer" where "succeed x = (\<lambda>c. Some (Inr x, c))"
definition err :: "type_error \<Rightarrow> 'a infer" where "err e = (\<lambda>c. Some (Inl e, c))"
definition deeper :: "'a infer" where "deeper = (\<lambda>c. None)"
definition fresh_var :: "u64 infer" where "fresh_var = (\<lambda>c. Some (Inr c, c + 1))"
definition lift :: "type_error + 'a \<Rightarrow> 'a infer" where "lift r = (\<lambda>c. Some (r, c))"

definition seq :: "'a infer \<Rightarrow> ('a \<Rightarrow> 'b infer) \<Rightarrow> 'b infer" where
  "seq m f = (\<lambda>c. case m c of None \<Rightarrow> None | Some (Inl e, c') \<Rightarrow> Some (Inl e, c') | Some (Inr x, c') \<Rightarrow> f x c')"

text \<open>\<open>if let Ok(s) = ...\<close>: on an error the other value is returned.\<close>

definition if_ok :: "'a infer \<Rightarrow> ('a \<Rightarrow> 'b infer) \<Rightarrow> 'b \<Rightarrow> 'b infer" where
  "if_ok m f x = (\<lambda>c. case m c of None \<Rightarrow> None | Some (Inl _, c') \<Rightarrow> Some (Inr x, c') | Some (Inr y, c') \<Rightarrow> f y c')"

fun loop :: "('a \<Rightarrow> 'b \<Rightarrow> 'b infer) \<Rightarrow> 'a list \<Rightarrow> 'b \<Rightarrow> 'b infer" where
  "loop f [] x = succeed x"
| "loop f (a # as) x = seq (f a x) (loop f as)"

definition subst_in :: "nat \<Rightarrow> Type \<Rightarrow> Substitution \<Rightarrow> Type infer" where
  "subst_in n t s = (\<lambda>c. map_option (\<lambda>u. (Inr u, c)) (apply_subst n t s))"

subsection \<open>The parts of \<open>mgu\<close>, over \<open>mgu\<close> and \<open>compose_subst\<close> one level down\<close>

type_synonym unifier = "Type \<Rightarrow> Type \<Rightarrow> Substitution infer"
type_synonym composer = "Substitution \<Rightarrow> Substitution \<Rightarrow> Substitution infer"

text \<open>The body that the loops share: unify under the substitution so far, then compose.\<close>

definition unify_step :: "unifier \<Rightarrow> composer \<Rightarrow> nat \<Rightarrow> Type \<Rightarrow> Type \<Rightarrow> Substitution \<Rightarrow> Substitution infer" where
  "unify_step mg cmp n t1 t2 subst =
     seq (subst_in n t1 subst) (\<lambda>a. seq (subst_in n t2 subst) (\<lambda>b. seq (mg a b) (\<lambda>s. cmp s subst)))"

definition unify_many :: "unifier \<Rightarrow> composer \<Rightarrow> nat \<Rightarrow> Type list \<Rightarrow> Type list \<Rightarrow> Substitution infer" where
  "unify_many mg cmp n types1 types2 =
     (if length types1 \<noteq> length types2 then err TypeMismatch
      else loop (\<lambda>(t1, t2). unify_step mg cmp n t1 t2) (zip types1 types2) [])"

definition unify_many_app :: "unifier \<Rightarrow> composer \<Rightarrow> nat \<Rightarrow> Type list \<Rightarrow> Type list \<Rightarrow> Substitution infer" where
  "unify_many_app mg cmp n types1 types2 =
     (if length types1 \<noteq> length types2 then err TypeMismatch
      else loop (\<lambda>(t1, t2). unify_step mg cmp n t1 t2) (zip types1 types2) [])"

fun normalize_required_actor_behavior_sig :: "Type \<Rightarrow> Type" where
  "normalize_required_actor_behavior_sig (TyFunction param ret eff cap) =
     TyFunction (case param of TyTuple items \<Rightarrow> TyTuple items | _ \<Rightarrow> TyTuple [param]) ret eff cap"
| "normalize_required_actor_behavior_sig sig = sig"

definition unify_actor_protocol :: "unifier \<Rightarrow> composer \<Rightarrow> nat \<Rightarrow> Type \<Rightarrow> Type \<Rightarrow> Substitution infer" where
  "unify_actor_protocol mg cmp n advertised required =
     (case advertised of
        TyRecord advertised_fields \<Rightarrow>
          (case required of
             TyRecord required_fields \<Rightarrow>
               loop (\<lambda>(name, required_sig) subst.
                   case map_of advertised_fields name of
                     None \<Rightarrow> err (FieldNotFound name)
                   | Some advertised_sig \<Rightarrow>
                       unify_step mg cmp n advertised_sig (normalize_required_actor_behavior_sig required_sig) subst)
                 required_fields []
           | _ \<Rightarrow> err BadProtocol)
      | _ \<Rightarrow> err BadProtocol)"

definition unify_actor_ref_attenuation :: "unifier \<Rightarrow> composer \<Rightarrow> nat \<Rightarrow> Type \<Rightarrow> Type \<Rightarrow> Substitution infer" where
  "unify_actor_ref_attenuation mg cmp n advertised required =
     (case advertised of
        TyRecord advertised_fields \<Rightarrow>
          (case required of
             TyRecord required_fields \<Rightarrow>
               loop (\<lambda>(name, required_sig) subst.
                   case map_of advertised_fields name of
                     None \<Rightarrow> err (FieldNotFound name)
                   | Some advertised_sig \<Rightarrow>
                       unify_step mg cmp n (normalize_required_actor_behavior_sig advertised_sig)
                         (normalize_required_actor_behavior_sig required_sig) subst)
                 required_fields []
           | _ \<Rightarrow> err BadProtocol)
      | _ \<Rightarrow> err BadProtocol)"

text \<open>Records: the last tail field counts, and a tail that is a record is flattened.\<close>

definition row_tail :: "(bytes \<times> Type) list \<Rightarrow> Type option" where
  "row_tail fs = fold (\<lambda>(name, ty) next_tail. if name = RECORD_ROW_TAIL_FIELD then Some ty else next_tail) fs None"

lemma row_tail_in: "row_tail fs = Some t \<Longrightarrow> (RECORD_ROW_TAIL_FIELD, t) \<in> set fs"
  by (induction fs rule: rev_induct) (auto simp: row_tail_def split: if_splits)

function split_record :: "(bytes \<times> Type) list \<Rightarrow> (bytes \<times> Type) list \<times> Type option" where
  "split_record fs =
     (let rest = filter (\<lambda>(name, _). name \<noteq> RECORD_ROW_TAIL_FIELD) fs in
      case row_tail fs of
        Some (TyRecord inner) \<Rightarrow> (case split_record inner of (inner_fields, tail) \<Rightarrow> (rest @ inner_fields, tail))
      | other \<Rightarrow> (rest, other))"
  by pat_completeness auto
termination
proof (relation "measure (size_list (size_prod (\<lambda>_. 0) size))")
  fix fs :: "(bytes \<times> Type) list" and x t inner
  assume "row_tail fs = Some t" "t = TyRecord inner"
  then show "(inner, fs) \<in> measure (size_list (size_prod (\<lambda>_. 0) size))"
    using size_field [OF row_tail_in [of fs t]] by simp
qed simp

declare split_record.simps [simp del]

definition unify_closed_records ::
    "unifier \<Rightarrow> composer \<Rightarrow> nat \<Rightarrow> (bytes \<times> Type) list \<Rightarrow> (bytes \<times> Type) list \<Rightarrow> Substitution infer" where
  "unify_closed_records mg cmp n fs1 fs2 =
     (if length fs1 \<noteq> length fs2 then err TypeMismatch
      else loop (\<lambda>((n1, t1), (n2, t2)) subst. if n1 \<noteq> n2 then err TypeMismatch else unify_step mg cmp n t1 t2 subst)
        (zip (sort_key fst fs1) (sort_key fst fs2)) [])"

text \<open>The fields of one side that the other does not have, under the substitution.\<close>

definition extras :: "nat \<Rightarrow> Substitution \<Rightarrow> (bytes \<times> Type) list \<Rightarrow> bytes set \<Rightarrow> (bytes \<times> Type) list infer" where
  "extras n subst fs other =
     (\<lambda>c. map_option (\<lambda>fs. (Inr fs, c))
        (traverse (\<lambda>(name, t). map_option (Pair name) (apply_subst n t subst)) (filter (\<lambda>(name, _). name \<notin> other) fs)))"

definition unify_open_records :: "unifier \<Rightarrow> composer \<Rightarrow> nat \<Rightarrow> (bytes \<times> Type) list \<Rightarrow> Type option \<Rightarrow>
    (bytes \<times> Type) list \<Rightarrow> Type option \<Rightarrow> Substitution infer" where
  "unify_open_records mg cmp n fields1 tail1 fields2 tail2 =
     (let names1 = fst ` set fields1; names2 = fst ` set fields2;
          shared = sort (filter (\<lambda>name. name \<in> names2) (remdups (map fst fields1))) in
      seq (loop (\<lambda>name. unify_step mg cmp n (the (map_of fields1 name)) (the (map_of fields2 name))) shared [])
        (\<lambda>subst. seq (extras n subst fields1 names2) (\<lambda>extras1. seq (extras n subst fields2 names1) (\<lambda>extras2.
           case (tail1, tail2) of
             (Some (TyVar r1), Some (TyVar r2)) \<Rightarrow>
               if r1 = r2 then (if extras1 = [] \<and> extras2 = [] then succeed subst else err IncompatibleRecords)
               else seq fresh_var (\<lambda>fresh_row.
                 seq (mg (TyVar r1) (record_open extras2 fresh_row)) (\<lambda>s. seq (cmp s subst) (\<lambda>subst.
                 seq (mg (TyVar r2) (record_open extras1 fresh_row)) (\<lambda>s. cmp s subst))))
           | (Some (TyVar r), None) \<Rightarrow>
               (case extras1 of
                  (missing, _) # _ \<Rightarrow> err (FieldNotFound missing)
                | [] \<Rightarrow> seq (mg (TyVar r) (TyRecord extras2)) (\<lambda>s. cmp s subst))
           | (None, Some (TyVar r)) \<Rightarrow>
               (case extras2 of
                  (missing, _) # _ \<Rightarrow> err (FieldNotFound missing)
                | [] \<Rightarrow> seq (mg (TyVar r) (TyRecord extras1)) (\<lambda>s. cmp s subst))
           | _ \<Rightarrow> err IncompatibleRecords))))"

fun find_recursive_apps_in_type :: "Type \<Rightarrow> u64 \<Rightarrow> Type list list" where
  "find_recursive_apps_in_type (TyApp constructor args) target =
     (if constructor = TyVar target then [args] else []) @ find_recursive_apps_in_type constructor target @
     concat (map (\<lambda>a. find_recursive_apps_in_type a target) args)"
| "find_recursive_apps_in_type (TyTuple ts) target = concat (map (\<lambda>t. find_recursive_apps_in_type t target) ts)"
| "find_recursive_apps_in_type (TyVariant vs) target =
     concat (map (\<lambda>(_, p). case p of None \<Rightarrow> [] | Some p \<Rightarrow> find_recursive_apps_in_type p target) vs)"
| "find_recursive_apps_in_type (TyFunction param ret _ _) target =
     find_recursive_apps_in_type param target @ find_recursive_apps_in_type ret target"
| "find_recursive_apps_in_type _ target = []"

definition find_recursive_apps :: "(bytes \<times> Type option) list \<Rightarrow> u64 \<Rightarrow> Type list list" where
  "find_recursive_apps vs target =
     concat (map (\<lambda>(_, payload). case payload of None \<Rightarrow> [] | Some p \<Rightarrow> find_recursive_apps_in_type p target) vs)"

text \<open>The three loops that are written out in the arms of \<open>mgu\<close>.\<close>

definition unify_recursive_apps ::
    "unifier \<Rightarrow> composer \<Rightarrow> nat \<Rightarrow> (bytes \<times> Type option) list \<Rightarrow> u64 \<Rightarrow> Type list \<Rightarrow> Substitution infer" where
  "unify_recursive_apps mg cmp n vs v args =
     loop (\<lambda>inner_args subst. seq (unify_many_app mg cmp n inner_args args) (\<lambda>s. cmp s subst)) (find_recursive_apps vs v) []"

definition unify_variants ::
    "unifier \<Rightarrow> composer \<Rightarrow> nat \<Rightarrow> (bytes \<times> Type option) list \<Rightarrow> (bytes \<times> Type option) list \<Rightarrow> Substitution infer" where
  "unify_variants mg cmp n vs1 vs2 =
     (if length vs1 \<noteq> length vs2 then err TypeMismatch
      else loop (\<lambda>((n1, p1), (n2, p2)) subst.
          if n1 \<noteq> n2 then err TypeMismatch
          else (case (p1, p2) of
              (None, None) \<Rightarrow> succeed subst
            | (Some a, Some b) \<Rightarrow> unify_step mg cmp n a b subst
            | _ \<Rightarrow> err TypeMismatch))
        (zip (sort_key fst vs1) (sort_key fst vs2)) [])"

definition unify_parts :: "unifier \<Rightarrow> composer \<Rightarrow> nat \<Rightarrow> Type \<Rightarrow> Type \<Rightarrow> Type \<Rightarrow> Type \<Rightarrow> Substitution infer" where
  "unify_parts mg cmp n a1 a2 b1 b2 =
     seq (mg a1 a2) (\<lambda>s1. seq (subst_in n b1 s1) (\<lambda>b1. seq (subst_in n b2 s1) (\<lambda>b2. seq (mg b1 b2) (\<lambda>s2. cmp s2 s1))))"

text \<open>\<open>apply_subst\<close> on a list of arguments.\<close>

definition subst_list :: "nat \<Rightarrow> Type list \<Rightarrow> Substitution \<Rightarrow> Type list infer" where
  "subst_list n ts s = (\<lambda>c. map_option (\<lambda>us. (Inr us, c)) (traverse (\<lambda>t. apply_subst n t s) ts))"

subsection \<open>\<open>mgu\<close> and \<open>compose_subst\<close>\<close>

text \<open>The arms of the match for two types of which neither is a variable.\<close>

definition mgu_structure :: "unifier \<Rightarrow> composer \<Rightarrow> nat \<Rightarrow> Type \<Rightarrow> Type \<Rightarrow> Substitution infer" where
  "mgu_structure mg cmp n t1 t2 =
     (case t1 of
        TyFunction p1 r1 e1 c1 \<Rightarrow>
          (case t2 of
             TyFunction p2 r2 e2 c2 \<Rightarrow>
               if c1 \<noteq> c2 then err TypeMismatch
               else if \<not> effect_row_compatible e1 e2 then err TypeMismatch
               else unify_parts mg cmp n p1 p2 r1 r2
           | _ \<Rightarrow> err TypeMismatch)
      | TyNominal n1 u1 \<Rightarrow>
          (case t2 of TyNominal n2 u2 \<Rightarrow> if n1 = n2 then mg u1 u2 else err TypeMismatch | _ \<Rightarrow> err TypeMismatch)
      | TyTuple ts1 \<Rightarrow>
          (case t2 of
             TyTuple ts2 \<Rightarrow> if length ts1 \<noteq> length ts2 then err TypeMismatch else unify_many mg cmp n ts1 ts2
           | _ \<Rightarrow> err TypeMismatch)
      | TyRecord fs1 \<Rightarrow>
          (case t2 of
             TyRecord fs2 \<Rightarrow>
               (case (split_record fs1, split_record fs2) of
                  ((fields1, tail1), (fields2, tail2)) \<Rightarrow>
                    if tail1 = None \<and> tail2 = None then unify_closed_records mg cmp n fields1 fields2
                    else unify_open_records mg cmp n fields1 tail1 fields2 tail2)
           | _ \<Rightarrow> err TypeMismatch)
      | TyArray i1 \<Rightarrow> (case t2 of TyArray i2 \<Rightarrow> mg i1 i2 | _ \<Rightarrow> err TypeMismatch)
      | TyActor s1 b1 \<Rightarrow> (case t2 of TyActor s2 b2 \<Rightarrow> unify_parts mg cmp n s1 s2 b1 b2 | _ \<Rightarrow> err TypeMismatch)
      | TyReference c1 i1 \<Rightarrow>
          (case t2 of TyReference c2 i2 \<Rightarrow> if c1 \<noteq> c2 then err TypeMismatch else mg i1 i2 | _ \<Rightarrow> err TypeMismatch)
      | TyApp c1 a1 \<Rightarrow>
          (case t2 of
             TyApp c2 a2 \<Rightarrow>
               seq (mg c1 c2) (\<lambda>s1. seq (subst_list n a1 s1) (\<lambda>applied1. seq (subst_list n a2 s1) (\<lambda>applied2.
                 seq (unify_many_app mg cmp n applied1 applied2) (\<lambda>s2. cmp s2 s1))))
           | TyVariant vs \<Rightarrow> (case c1 of TyVar v \<Rightarrow> unify_recursive_apps mg cmp n vs v a1 | _ \<Rightarrow> err TypeMismatch)
           | _ \<Rightarrow> err TypeMismatch)
      | TyVariant vs1 \<Rightarrow>
          (case t2 of
             TyApp c2 a2 \<Rightarrow> (case c2 of TyVar v \<Rightarrow> unify_recursive_apps mg cmp n vs1 v a2 | _ \<Rightarrow> err TypeMismatch)
           | TyVariant vs2 \<Rightarrow> unify_variants mg cmp n vs1 vs2
           | _ \<Rightarrow> err TypeMismatch)
      | _ \<Rightarrow> err TypeMismatch)"

definition is_nominal :: "Type \<Rightarrow> bool" where
  "is_nominal t \<longleftrightarrow> (case t of TyNominal _ _ \<Rightarrow> True | _ \<Rightarrow> False)"

definition same_hash :: "(bytes \<Rightarrow> bytes) \<Rightarrow> Type \<Rightarrow> Type \<Rightarrow> bool" where
  "same_hash H t1 t2 \<longleftrightarrow> \<not> is_nominal t1 \<and> \<not> is_nominal t2 \<and> is_ground t1 \<and> is_ground t2
     \<and> ntir_hash H (to_ntir t1) = ntir_hash H (to_ntir t2)"

definition remove_nth :: "nat \<Rightarrow> 'a list \<Rightarrow> 'a list" where
  "remove_nth i xs = take i xs @ drop (Suc i) xs"

text \<open>The bodies of the two functions, over the two one level down.\<close>

definition mgu_body :: "(bytes \<Rightarrow> bytes) \<Rightarrow> unifier \<Rightarrow> composer \<Rightarrow> nat \<Rightarrow> unifier" where
  "mgu_body H mg cmp n t1 t2 =
     (if t1 = TyPrimitive PrimNever \<or> t2 = TyPrimitive PrimNever then succeed []
      else case (t1, actor_ref_protocol t2) of
        (TyActor _ behavior, Some required) \<Rightarrow> unify_actor_protocol mg cmp n behavior required
      | _ \<Rightarrow>
     (case (actor_ref_protocol t1, t2) of
        (Some required, TyActor _ behavior) \<Rightarrow> unify_actor_protocol mg cmp n behavior required
      | _ \<Rightarrow>
          if t1 = t2 then succeed []
          else if same_hash H t1 t2 then succeed []
          else (case t1 of
              TyVar v \<Rightarrow> lift (var_subst v t2)
            | _ \<Rightarrow> (case t2 of
                TyVar v \<Rightarrow> lift (var_subst v t1)
              | _ \<Rightarrow> mgu_structure mg cmp n t1 t2))))"

definition compose_step :: "unifier \<Rightarrow> composer \<Rightarrow> nat \<Rightarrow> u64 \<times> Type \<Rightarrow> Substitution \<Rightarrow> Substitution infer" where
  "compose_step mg cmp n = (\<lambda>(v, t) acc.
     case position (\<lambda>(rv, _). rv = v) acc of
       None \<Rightarrow> succeed (acc @ [(v, t)])
     | Some pos \<Rightarrow>
         (let existing = snd (acc ! pos) in
          if_ok (mg existing t)
            (\<lambda>s. seq (subst_in n existing s) (\<lambda>unified. cmp s (remove_nth pos acc @ [(v, unified)])))
            acc))"

definition compose_body :: "unifier \<Rightarrow> composer \<Rightarrow> nat \<Rightarrow> composer" where
  "compose_body mg cmp n s2 s1 =
     seq (\<lambda>c. map_option (\<lambda>s. (Inr s, c)) (traverse (\<lambda>(v, t). map_option (Pair v) (apply_subst n t s2)) s1))
       (loop (compose_step mg cmp n) s2)"

fun mgu :: "(bytes \<Rightarrow> bytes) \<Rightarrow> nat \<Rightarrow> unifier" and compose_subst :: "(bytes \<Rightarrow> bytes) \<Rightarrow> nat \<Rightarrow> composer" where
  "mgu H 0 = (\<lambda>t1 t2. deeper)"
| "mgu H (Suc n) = mgu_body H (mgu H n) (compose_subst H n) n"
| "compose_subst H 0 = (\<lambda>s2 s1. deeper)"
| "compose_subst H (Suc n) = compose_body (mgu H n) (compose_subst H n) n"

definition mgu_assignable :: "(bytes \<Rightarrow> bytes) \<Rightarrow> nat \<Rightarrow> unifier" where
  "mgu_assignable H n found expected =
     (case (actor_ref_protocol found, actor_ref_protocol expected) of
        (Some advertised, Some required) \<Rightarrow> unify_actor_ref_attenuation (mgu H n) (compose_subst H n) n advertised required
      | _ \<Rightarrow> mgu H n found expected)"

definition protocol_call_signature :: "Type \<Rightarrow> bytes \<Rightarrow> type_error + Type \<times> Type" where
  "protocol_call_signature protocol behavior =
     (case protocol of
        TyRecord sigs \<Rightarrow>
          (case map_of sigs behavior of
             None \<Rightarrow> Inl (FieldNotFound behavior)
           | Some (TyFunction param ret _ _) \<Rightarrow> Inr (param, ret)
           | Some _ \<Rightarrow> Inl BadProtocol)
      | _ \<Rightarrow> Inl BadProtocol)"

definition protocol_param_types :: "Type \<Rightarrow> Type list" where
  "protocol_param_types param = (case param of TyTuple items \<Rightarrow> items | other \<Rightarrow> [other])"

definition strip_first_param :: "Type \<Rightarrow> Type" where
  "strip_first_param param =
     (case param of
        TyTuple params \<Rightarrow>
          if length params > 2 then TyTuple (drop 1 params) else if length params = 2 then params ! 1 else type_unit
      | _ \<Rightarrow> type_unit)"

end
