(* ===== verification/Type_Unify_Sound.thy ===== *)
theory Type_Unify_Sound
  imports Type_Unify
begin

text \<open>
  What unification achieves. The structural shortcut of \<open>mgu\<close> identifies types that the rest of it keeps apart. On
  types built from variables, primitive types, skolem constants, tuples, arrays, functions and references \<open>mgu\<close> always
  returns, and a substitution that it returns makes the two types agree up to that shortcut and the type \<open>Never\<close>.
\<close>

subsection \<open>The structural shortcut\<close>


subsection \<open>Substitutions that are applied in one pass\<close>

fun basic :: "Type \<Rightarrow> bool" where
  "basic (TyVar _) \<longleftrightarrow> True"
| "basic (TyPrimitive _) \<longleftrightarrow> True"
| "basic (TySkolem _) \<longleftrightarrow> True"
| "basic (TyTuple ts) \<longleftrightarrow> list_all basic ts"
| "basic (TyArray t) \<longleftrightarrow> basic t"
| "basic (TyFunction param ret _ _) \<longleftrightarrow> basic param \<and> basic ret"
| "basic (TyReference _ inner) \<longleftrightarrow> basic inner"
| "basic _ \<longleftrightarrow> False"

abbreviation sub :: "Substitution \<Rightarrow> Type \<Rightarrow> Type" where
  "sub s t \<equiv> subst_type_vars_with t (map_of s)"

text \<open>No variable that is mapped occurs in what variables are mapped to.\<close>

definition idempotent :: "Substitution \<Rightarrow> bool" where
  "idempotent s \<longleftrightarrow> distinct (map fst s) \<and> (\<forall>(v, t) \<in> set s. basic t \<and> type_vars t \<inter> fst ` set s = {})"

lemma idempotent_Nil [simp]: "idempotent []"
  by (simp add: idempotent_def)

lemma idempotentD: "\<lbrakk>idempotent s; (v, t) \<in> set s\<rbrakk> \<Longrightarrow> basic t \<and> type_vars t \<inter> fst ` set s = {} \<and> v \<in> fst ` set s"
  by (force simp: idempotent_def)

lemma sub_id: "\<lbrakk>\<forall>v \<in> type_vars t. map_of s v = None; basic t\<rbrakk> \<Longrightarrow> sub s t = t"
  by (induction t rule: basic.induct) (auto simp: list_all_iff intro!: map_idI)

lemma sub_Nil [simp]: "basic t \<Longrightarrow> sub [] t = t"
  by (rule sub_id) simp_all

lemma sub_empty [simp]: "basic t \<Longrightarrow> subst_type_vars_with t (\<lambda>x. None) = t"
  using sub_Nil by simp

lemma basic_sub: "\<lbrakk>idempotent s; basic t\<rbrakk> \<Longrightarrow> basic (sub s t)"
proof (induction t rule: basic.induct)
  case (1 v)
  then show ?case by (auto simp: idempotent_def split: option.split dest!: map_of_SomeD)
qed (auto simp: list_all_iff)

lemma sub_vars: "basic t \<Longrightarrow> type_vars (sub s t) = (\<Union>v \<in> type_vars t. type_vars (sub s (TyVar v)))"
  by (induction t rule: basic.induct) (auto simp: list_all_iff)

lemma apply_subst_sub: "\<lbrakk>idempotent s; basic t; apply_subst n t s = Some u\<rbrakk> \<Longrightarrow> u = sub s t"
proof (induction n arbitrary: t u)
  case (Suc n)
  show ?case
  proof (cases t)
    case (TyVar v)
    show ?thesis
    proof (cases "map_of s v")
      case None
      then show ?thesis using Suc.prems(3) TyVar by auto
    next
      case (Some t')
      then have "\<forall>w \<in> type_vars t'. map_of s w = None"
        using Suc.prems(1) by (fastforce simp: idempotent_def map_of_eq_None_iff dest: map_of_SomeD)
      with Some TyVar Suc.prems(3) apply_subst_id show ?thesis by auto
    qed
  next
    case (TyTuple ts)
    then obtain us where us: "u = TyTuple us" "traverse (\<lambda>t. apply_subst n t s) ts = Some us" using Suc.prems(3) by auto
    have "us = map (sub s) ts" if "traverse (\<lambda>t. apply_subst n t s) ts = Some us" "list_all basic ts" for ts us
      using that Suc.IH [OF Suc.prems(1)] by (induction ts arbitrary: us) (auto split: option.splits)
    with us TyTuple Suc.prems(2) show ?thesis by simp
  qed (use Suc in \<open>auto simp: bind_eq_Some_conv\<close>)
qed simp

lemma apply_subst_enough:
  assumes "idempotent s" "basic t"
  shows "\<exists>n. \<forall>m \<ge> n. apply_subst m t s = Some (sub s t)"
proof -
  have "ranked (\<lambda>v. if v \<in> fst ` set s then 1 else 0) s" using idempotentD [OF assms(1)] by (fastforce simp: ranked_def)
  then have "applies t s" by (rule applies_below_rank [where R = 2]) (simp add: below_rank_def)
  then obtain n u where u: "apply_subst n t s = Some u" by (auto simp: applies_def)
  then have "apply_subst n t s = Some (sub s t)" using apply_subst_sub [OF assms u] by simp
  then show ?thesis using apply_subst_mono by blast
qed

subsection \<open>Composing\<close>

definition subst_vars :: "Substitution \<Rightarrow> u64 set" where
  "subst_vars s = fst ` set s \<union> (\<Union>(_, t) \<in> set s. type_vars t)"

definition joined :: "Substitution \<Rightarrow> Substitution \<Rightarrow> Substitution" where
  "joined s2 s1 = map (\<lambda>(v, t). (v, sub s2 t)) s1 @ s2"

lemma joined_keys [simp]: "fst ` set (joined s2 s1) = fst ` set s1 \<union> fst ` set s2"
  by (force simp: joined_def image_iff)

lemma sub_fresh: "\<lbrakk>w \<in> type_vars (sub s t); basic t; idempotent s\<rbrakk> \<Longrightarrow> w \<notin> fst ` set s \<and> (w \<in> type_vars t \<or> w \<in> subst_vars s)"
proof -
  assume *: "w \<in> type_vars (sub s t)" "basic t" "idempotent s"
  then obtain v where v: "v \<in> type_vars t" "w \<in> type_vars (sub s (TyVar v))" using sub_vars by blast
  show ?thesis
  proof (cases "map_of s v")
    case None
    then have "w = v" using v(2) by simp
    then show ?thesis using v(1) None by (simp add: map_of_eq_None_iff)
  next
    case (Some u)
    then have u: "(v, u) \<in> set s" by (rule map_of_SomeD)
    have "w \<in> type_vars u" using v(2) Some by simp
    then show ?thesis using u *(3) by (force simp: idempotent_def subst_vars_def)
  qed
qed

lemma map_of_joined: "map_of (joined s2 s1) v = (case map_of s1 v of Some t \<Rightarrow> Some (sub s2 t) | None \<Rightarrow> map_of s2 v)"
  by (induction s1) (auto simp: joined_def)

lemma sub_joined: "basic t \<Longrightarrow> sub (joined s2 s1) t = sub s2 (sub s1 t)"
  by (induction t rule: basic.induct) (auto simp: map_of_joined list_all_iff split: option.split)

lemma idempotent_joined:
  assumes "idempotent s1" "idempotent s2" "subst_vars s2 \<inter> fst ` set s1 = {}"
  shows "idempotent (joined s2 s1)"
proof -
  have dist: "distinct (map fst (joined s2 s1))"
  proof -
    have "map fst (joined s2 s1) = map fst s1 @ map fst s2" by (simp add: joined_def case_prod_beta)
    then show ?thesis using assms by (auto simp: idempotent_def subst_vars_def)
  qed
  have "basic t \<and> type_vars t \<inter> fst ` set (joined s2 s1) = {}" if vt: "(v, t) \<in> set (joined s2 s1)" for v t
  proof (cases "(v, t) \<in> set s2")
    case True
    then have "type_vars t \<subseteq> subst_vars s2" by (auto simp: subst_vars_def)
    then show ?thesis using idempotentD [OF assms(2) True] assms(3) unfolding joined_keys by blast
  next
    case False
    then obtain u where u: "(v, u) \<in> set s1" "t = sub s2 u" using vt by (auto simp: joined_def)
    then have b: "basic u" "type_vars u \<inter> fst ` set s1 = {}" using idempotentD [OF assms(1)] by blast+
    have "w \<notin> fst ` set s1 \<and> w \<notin> fst ` set s2" if "w \<in> type_vars t" for w
      using sub_fresh [of w u s2] that u(2) b assms(2,3) by blast
    then show ?thesis using basic_sub [OF assms(2) b(1)] u(2) by auto
  qed
  with dist show ?thesis unfolding idempotent_def by blast
qed

lemma subst_vars_joined:
  assumes "idempotent s1" "idempotent s2"
  shows "subst_vars (joined s2 s1) \<subseteq> subst_vars s1 \<union> subst_vars s2"
proof -
  have "w \<in> subst_vars s1 \<union> subst_vars s2" if vt: "(v, t) \<in> set (joined s2 s1)" and w: "w \<in> type_vars t" for v t w
  proof (cases "(v, t) \<in> set s2")
    case True
    then show ?thesis using w by (auto simp: subst_vars_def)
  next
    case False
    then obtain u where u: "(v, u) \<in> set s1" "t = sub s2 u" using vt by (auto simp: joined_def)
    then have "basic u" using assms(1) by (auto simp: idempotent_def)
    then have "w \<in> type_vars u \<or> w \<in> subst_vars s2" using sub_fresh assms(2) u(2) w by blast
    then show ?thesis using u(1) by (auto simp: subst_vars_def)
  qed
  then have "(\<Union>(_, t) \<in> set (joined s2 s1). type_vars t) \<subseteq> subst_vars s1 \<union> subst_vars s2" by blast
  moreover have "fst ` set (joined s2 s1) \<subseteq> subst_vars s1 \<union> subst_vars s2" by (simp add: subst_vars_def) blast
  ultimately show ?thesis unfolding subst_vars_def [of "joined s2 s1"] by (rule Un_least [rotated])
qed

subsection \<open>Computations that return\<close>

text \<open>With enough depth the computation gives the result, and the counter stays as it is.\<close>

definition settles :: "(nat \<Rightarrow> 'a infer) \<Rightarrow> type_error + 'a \<Rightarrow> bool" where
  "settles f r \<longleftrightarrow> (\<exists>n. \<forall>m \<ge> n. \<forall>c. f m c = Some (r, c))"

lemma settles_const: "(\<And>n c. f n c = Some (r, c)) \<Longrightarrow> settles f r"
  by (simp add: settles_def)

lemma settles_Suc:
  assumes "settles (\<lambda>n. f (Suc n)) r"
  shows "settles f r"
proof -
  obtain n where n: "\<forall>m \<ge> n. \<forall>c. f (Suc m) c = Some (r, c)" using assms by (auto simp: settles_def)
  have "f m c = Some (r, c)" if "m \<ge> Suc n" for m c using n that by (cases m) auto
  then show ?thesis unfolding settles_def by blast
qed

lemma settles_seq:
  assumes "settles f (Inr x)" "settles (\<lambda>n. g n x) r"
  shows "settles (\<lambda>n. seq (f n) (g n)) r"
proof -
  obtain n k where "\<forall>m \<ge> n. \<forall>c. f m c = Some (Inr x, c)" "\<forall>m \<ge> k. \<forall>c. g m x c = Some (r, c)"
    using assms by (auto simp: settles_def)
  then have "seq (f m) (g m) c = Some (r, c)" if "m \<ge> max n k" for m c using that by (simp add: seq_def)
  then show ?thesis unfolding settles_def by blast
qed

lemma settles_seq_error:
  assumes "settles f (Inl e)"
  shows "settles (\<lambda>n. seq (f n) (g n)) (Inl e)"
proof -
  obtain n where "\<forall>m \<ge> n. \<forall>c. f m c = Some (Inl e, c)" using assms by (auto simp: settles_def)
  then have "seq (f m) (g m) c = Some (Inl e, c)" if "m \<ge> n" for m c using that by (simp add: seq_def)
  then show ?thesis unfolding settles_def by blast
qed

lemma settles_subst_in:
  assumes "idempotent s" "basic t"
  shows "settles (\<lambda>n. subst_in n t s) (Inr (sub s t))"
proof -
  obtain n where "\<forall>m \<ge> n. apply_subst m t s = Some (sub s t)" using apply_subst_enough [OF assms] by blast
  then have "subst_in m t s c = Some (Inr (sub s t), c)" if "m \<ge> n" for m c using that by (simp add: subst_in_def)
  then show ?thesis unfolding settles_def by blast
qed

lemma loop_push:
  "distinct (map fst (acc @ s)) \<Longrightarrow> loop (compose_step mg cmp n) s acc c = Some (Inr (acc @ s), c)"
proof (induction s arbitrary: acc)
  case (Cons x s)
  have "position (\<lambda>(rv, _). rv = fst x) acc = None"
    using Cons.prems by (auto simp: position_None_iff image_iff case_prod_beta)
  then have "compose_step mg cmp n x acc = succeed (acc @ [x])" by (simp add: compose_step_def case_prod_beta)
  with Cons show ?case by (simp add: seq_def succeed_def)
qed (simp add: succeed_def)

lemma settles_compose:
  assumes "idempotent s1" "idempotent s2" "subst_vars s2 \<inter> fst ` set s1 = {}"
  shows "settles (\<lambda>n. compose_subst H n s2 s1) (Inr (joined s2 s1))"
proof (rule settles_Suc)
  have "\<forall>t \<in> snd ` set s1. applies t s2"
  proof
    fix t
    assume "t \<in> snd ` set s1"
    then have "basic t" using idempotentD [OF assms(1)] by force
    then show "applies t s2" using apply_subst_enough [OF assms(2)] appliesI by blast
  qed
  then obtain n where n: "\<forall>t \<in> snd ` set s1. \<exists>u. apply_subst n t s2 = Some u" using applies_all [of "snd ` set s1" s2] by blast
  have first: "apply_subst m t s2 = Some (sub s2 t)" if at: "(v, t) \<in> set s1" "m \<ge> n" for v t m
  proof -
    obtain u where u: "apply_subst n t s2 = Some u" using n at(1) by force
    then have "u = sub s2 t" using apply_subst_sub [OF assms(2) _ u] idempotentD [OF assms(1) at(1)] by blast
    then show ?thesis using apply_subst_mono [OF u at(2)] by simp
  qed
  have sub: "traverse (\<lambda>(v, t). map_option (Pair v) (apply_subst m t s2)) xs = Some (map (\<lambda>(v, t). (v, sub s2 t)) xs)"
    if "m \<ge> n" "set xs \<subseteq> set s1" for xs m
    using that first by (induction xs) auto
  have push: "loop (compose_step mg cmp m) s2 (map (\<lambda>(v, t). (v, sub s2 t)) s1) c = Some (Inr (joined s2 s1), c)" for mg cmp m c
    unfolding joined_def by (rule loop_push) (use idempotent_joined [OF assms] in \<open>simp add: idempotent_def joined_def\<close>)
  then have "compose_subst H (Suc m) s2 s1 c = Some (Inr (joined s2 s1), c)" if "m \<ge> n" for m c
    using sub [OF that, of s1] push by (simp add: compose_body_def seq_def)
  then show "settles (\<lambda>n. compose_subst H (Suc n) s2 s1) (Inr (joined s2 s1))" unfolding settles_def by blast
qed

subsection \<open>Agreement\<close>

text \<open>
  Two types agree when they are equal but for parts where one is \<open>Never\<close>, where the shortcut identifies two ground
  types, or where two functions have compatible effects.
\<close>

inductive agree :: "(bytes \<Rightarrow> bytes) \<Rightarrow> Type \<Rightarrow> Type \<Rightarrow> bool" for H where
  agree_refl: "agree H t t"
| agree_never1: "agree H (TyPrimitive PrimNever) t"
| agree_never2: "agree H t (TyPrimitive PrimNever)"
| agree_hash: "same_hash H t1 t2 \<Longrightarrow> agree H t1 t2"
| agree_tuple: "list_all2 (agree H) ts us \<Longrightarrow> agree H (TyTuple ts) (TyTuple us)"
| agree_array: "agree H t u \<Longrightarrow> agree H (TyArray t) (TyArray u)"
| agree_function: "\<lbrakk>agree H p1 p2; agree H r1 r2; effect_row_compatible e1 e2\<rbrakk>
    \<Longrightarrow> agree H (TyFunction p1 r1 e1 cap) (TyFunction p2 r2 e2 cap)"
| agree_reference: "agree H t u \<Longrightarrow> agree H (TyReference cap t) (TyReference cap u)"

lemma basic_plain: "basic t \<Longrightarrow> plain stk t"
  by (induction t rule: basic.induct) (auto simp: list_all_iff)

lemma basic_variant_free: "basic t \<Longrightarrow> variant_free t"
  by (induction t rule: basic.induct) (auto simp: list_all_iff)

lemma ground_sub: "\<lbrakk>is_ground t; basic t\<rbrakk> \<Longrightarrow> sub s t = t"
proof -
  assume "is_ground t" "basic t"
  then have "type_vars t = {}" using collect_free_vars_set [OF basic_plain, of t "[]" "[]"] by (simp add: is_ground_def)
  then show ?thesis using \<open>basic t\<close> by (simp add: sub_id)
qed

lemma agree_sub: "\<lbrakk>agree H t1 t2; basic t1; basic t2\<rbrakk> \<Longrightarrow> agree H (sub s t1) (sub s t2)"
proof (induction rule: agree.induct)
  case (agree_hash t1 t2)
  then show ?case using ground_sub [of t1 s] ground_sub [of t2 s] agree.agree_hash by (simp add: same_hash_def)
next
  case (agree_tuple ts us)
  then have "list_all2 (agree H) (map (sub s) ts) (map (sub s) us)"
    by (auto simp: list_all2_conv_all_nth list_all_length)
  then show ?case by (simp add: agree.agree_tuple)
qed (auto intro: agree.intros)

definition unified :: "(bytes \<Rightarrow> bytes) \<Rightarrow> Type \<Rightarrow> Type \<Rightarrow> Substitution \<Rightarrow> bool" where
  "unified H t1 t2 s \<longleftrightarrow> idempotent s \<and> subst_vars s \<subseteq> type_vars t1 \<union> type_vars t2 \<and> agree H (sub s t1) (sub s t2)"

definition unifies :: "(bytes \<Rightarrow> bytes) \<Rightarrow> Type \<Rightarrow> Type \<Rightarrow> bool" where
  "unifies H t1 t2 \<longleftrightarrow> (\<exists>r. settles (\<lambda>n. mgu H n t1 t2) r \<and> (\<forall>s. r = Inr s \<longrightarrow> unified H t1 t2 s))"

text \<open>What a step of the loops adds to the substitution so far.\<close>

definition extends :: "Substitution \<Rightarrow> Substitution \<Rightarrow> bool" where
  "extends s' s \<longleftrightarrow> idempotent s' \<and> (\<exists>d. \<forall>t. basic t \<longrightarrow> sub s' t = sub d (sub s t))"

lemma extends_refl: "idempotent s \<Longrightarrow> extends s s"
  by (auto simp: extends_def basic_sub intro!: exI [of _ "[]"])

lemma agree_extends:
  assumes "extends s' s" "idempotent s" "basic t1" "basic t2" "agree H (sub s t1) (sub s t2)"
  shows "agree H (sub s' t1) (sub s' t2)"
proof -
  obtain d where "\<forall>t. basic t \<longrightarrow> sub s' t = sub d (sub s t)" using assms(1) by (auto simp: extends_def)
  then show ?thesis using agree_sub [OF assms(5), of d] basic_sub [OF assms(2)] assms(3,4) by simp
qed

lemma extends_trans:
  assumes "extends s3 s2" "extends s2 s1" "idempotent s1"
  shows "extends s3 s1"
proof -
  obtain d where d: "\<forall>t. basic t \<longrightarrow> sub s3 t = sub d (sub s2 t)" using assms(1) unfolding extends_def by blast
  obtain e where e: "\<forall>t. basic t \<longrightarrow> sub s2 t = sub e (sub s1 t)" using assms(2) unfolding extends_def by blast
  have "sub s3 t = sub (joined d e) (sub s1 t)" if "basic t" for t
    using that d e basic_sub [OF assms(3) that] by (simp add: sub_joined)
  then show ?thesis using assms(1) unfolding extends_def by blast
qed

subsection \<open>The steps and the loops\<close>

lemma unify_step_settles:
  assumes "idempotent s" "basic t1" "basic t2" "unifies H (sub s t1) (sub s t2)"
  shows "\<exists>r. settles (\<lambda>n. unify_step (mgu H n) (compose_subst H n) n t1 t2 s) r
    \<and> (\<forall>s'. r = Inr s' \<longrightarrow> extends s' s \<and> agree H (sub s' t1) (sub s' t2)
          \<and> subst_vars s' \<subseteq> subst_vars s \<union> type_vars t1 \<union> type_vars t2)"
proof -
  obtain r where r: "settles (\<lambda>n. mgu H n (sub s t1) (sub s t2)) r" "\<forall>d. r = Inr d \<longrightarrow> unified H (sub s t1) (sub s t2) d"
    using assms(4) by (auto simp: unifies_def)
  note subs = settles_subst_in [OF assms(1,2)] settles_subst_in [OF assms(1,3)]
  show ?thesis
  proof (cases r)
    case (Inl e)
    have "settles (\<lambda>n. unify_step (mgu H n) (compose_subst H n) n t1 t2 s) (Inl e)"
      unfolding unify_step_def
      by (rule settles_seq [OF subs(1)], rule settles_seq [OF subs(2)], rule settles_seq_error) (use r(1) Inl in simp)
    then show ?thesis by blast
  next
    case (Inr d)
    then have d: "idempotent d" "subst_vars d \<subseteq> type_vars (sub s t1) \<union> type_vars (sub s t2)"
        "agree H (sub d (sub s t1)) (sub d (sub s t2))" using r(2) by (auto simp: unified_def)
    have vars: "w \<notin> fst ` set s \<and> (w \<in> type_vars t1 \<union> type_vars t2 \<or> w \<in> subst_vars s)" if "w \<in> subst_vars d" for w
      using that d(2) sub_fresh [OF _ assms(2,1), of w] sub_fresh [OF _ assms(3,1), of w] by blast
    then have disj: "subst_vars d \<inter> fst ` set s = {}" by blast
    have "settles (\<lambda>n. unify_step (mgu H n) (compose_subst H n) n t1 t2 s) (Inr (joined d s))"
      unfolding unify_step_def
      by (rule settles_seq [OF subs(1)], rule settles_seq [OF subs(2)], rule settles_seq [where x = d],
          use r(1) Inr in simp, rule settles_compose [OF assms(1) d(1) disj])
    moreover have "extends (joined d s) s"
      unfolding extends_def using idempotent_joined [OF assms(1) d(1) disj] sub_joined by blast
    moreover have "agree H (sub (joined d s) t1) (sub (joined d s) t2)" using d(3) assms(2,3) by (simp add: sub_joined)
    moreover have "subst_vars (joined d s) \<subseteq> subst_vars s \<union> type_vars t1 \<union> type_vars t2"
      using subst_vars_joined [OF assms(1) d(1)] vars by blast
    ultimately show ?thesis by blast
  qed
qed

lemma loop_settles:
  assumes "idempotent s" "subst_vars s \<subseteq> V"
    "\<forall>(t1, t2) \<in> set ps. basic t1 \<and> basic t2 \<and> type_vars t1 \<union> type_vars t2 \<subseteq> V"
    "\<And>t1 t2 s. \<lbrakk>(t1, t2) \<in> set ps; idempotent s; subst_vars s \<subseteq> V\<rbrakk> \<Longrightarrow> unifies H (sub s t1) (sub s t2)"
  shows "\<exists>r. settles (\<lambda>n. loop (\<lambda>(t1, t2). unify_step (mgu H n) (compose_subst H n) n t1 t2) ps s) r
    \<and> (\<forall>s'. r = Inr s' \<longrightarrow> extends s' s \<and> subst_vars s' \<subseteq> V
          \<and> (\<forall>(t1, t2) \<in> set ps. agree H (sub s' t1) (sub s' t2)))"
  using assms
proof (induction ps arbitrary: s)
  case Nil
  have "settles (\<lambda>n. loop (\<lambda>(t1, t2). unify_step (mgu H n) (compose_subst H n) n t1 t2) [] s) (Inr s)"
    by (rule settles_const) (simp add: succeed_def)
  with Nil extends_refl show ?case by auto
next
  case (Cons p ps)
  obtain t1 t2 where p: "p = (t1, t2)" by (cases p)
  have t: "basic t1" "basic t2" "type_vars t1 \<union> type_vars t2 \<subseteq> V" using Cons.prems(3) p by auto
  have "unifies H (sub s t1) (sub s t2)" using Cons.prems(1,2,4) p by simp
  then obtain r where r: "settles (\<lambda>n. unify_step (mgu H n) (compose_subst H n) n t1 t2 s) r"
      "\<forall>s'. r = Inr s' \<longrightarrow> extends s' s \<and> agree H (sub s' t1) (sub s' t2)
        \<and> subst_vars s' \<subseteq> subst_vars s \<union> type_vars t1 \<union> type_vars t2"
    using unify_step_settles [OF Cons.prems(1) t(1,2)] by blast
  show ?case
  proof (cases r)
    case (Inl e)
    have "settles (\<lambda>n. loop (\<lambda>(t1, t2). unify_step (mgu H n) (compose_subst H n) n t1 t2) (p # ps) s) (Inl e)"
      unfolding loop.simps p prod.case by (rule settles_seq_error) (use r(1) Inl in simp)
    then show ?thesis by blast
  next
    case (Inr s1)
    with r(2) have s1: "extends s1 s" "agree H (sub s1 t1) (sub s1 t2)" "subst_vars s1 \<subseteq> V" "idempotent s1"
      using Cons.prems(2) t(3) by (auto simp: extends_def)
    obtain q where q: "settles (\<lambda>n. loop (\<lambda>(t1, t2). unify_step (mgu H n) (compose_subst H n) n t1 t2) ps s1) q"
        "\<forall>s'. q = Inr s' \<longrightarrow> extends s' s1 \<and> subst_vars s' \<subseteq> V \<and> (\<forall>(t1, t2) \<in> set ps. agree H (sub s' t1) (sub s' t2))"
      using Cons.IH [OF s1(4,3)] Cons.prems(3,4) by auto
    have "settles (\<lambda>n. loop (\<lambda>(t1, t2). unify_step (mgu H n) (compose_subst H n) n t1 t2) (p # ps) s) q"
      unfolding loop.simps p prod.case by (rule settles_seq [where x = s1]) (use r(1) q(1) Inr in simp_all)
    moreover have "extends s' s \<and> subst_vars s' \<subseteq> V \<and> (\<forall>(t1, t2) \<in> set (p # ps). agree H (sub s' t1) (sub s' t2))"
      if "q = Inr s'" for s'
      using q(2) that extends_trans [OF _ s1(1) Cons.prems(1)] agree_extends [OF _ s1(4) t(1,2) s1(2)] p by auto
    ultimately show ?thesis by blast
  qed
qed

subsection \<open>Unification returns and makes the types agree\<close>

lemma basic_no_protocol: "basic t \<Longrightarrow> actor_ref_protocol t = None"
  by (cases t) auto

text \<open>What is left of the body of \<open>mgu\<close> on such types.\<close>

lemma mgu_basic:
  assumes "basic t1" "basic t2" "t1 \<noteq> TyPrimitive PrimNever" "t2 \<noteq> TyPrimitive PrimNever" "t1 \<noteq> t2" "\<not> same_hash H t1 t2"
  shows "mgu H (Suc n) t1 t2 =
    (case t1 of TyVar v \<Rightarrow> lift (var_subst v t2)
     | _ \<Rightarrow> (case t2 of TyVar v \<Rightarrow> lift (var_subst v t1) | _ \<Rightarrow> mgu_structure (mgu H n) (compose_subst H n) n t1 t2))"
  using assms basic_no_protocol [OF assms(2)] by (cases t1) (simp_all add: mgu_body_def cong del: Type.case_cong_weak)

lemma unifies_error:
  assumes "\<And>n c. mgu H (Suc n) t1 t2 c = Some (Inl e, c)"
  shows "unifies H t1 t2"
proof -
  have "settles (\<lambda>n. mgu H n t1 t2) (Inl e)" by (rule settles_Suc, rule settles_const) (rule assms)
  then show ?thesis by (auto simp: unifies_def)
qed

lemma unifies_at_once:
  assumes "\<And>n c. mgu H (Suc n) t1 t2 c = Some (Inr s, c)" "unified H t1 t2 s"
  shows "unifies H t1 t2"
proof -
  have "settles (\<lambda>n. mgu H n t1 t2) (Inr s)" by (rule settles_Suc, rule settles_const) (rule assms(1))
  with assms(2) show ?thesis unfolding unifies_def by blast
qed

lemma unified_Nil: "\<lbrakk>basic t1; basic t2; agree H t1 t2\<rbrakk> \<Longrightarrow> unified H t1 t2 []"
  by (simp add: unified_def subst_vars_def)

lemma unified_single:
  assumes "v \<notin> type_vars t" "basic t"
  shows "unified H (TyVar v) t [(v, t)]" "unified H t (TyVar v) [(v, t)]"
proof -
  have "idempotent [(v, t)]" using assms by (simp add: idempotent_def)
  moreover have "sub [(v, t)] t = t" using assms by (intro sub_id) auto
  ultimately show "unified H (TyVar v) t [(v, t)]" "unified H t (TyVar v) [(v, t)]"
    by (auto simp: unified_def subst_vars_def agree_refl simp del: map_of.simps)
qed

lemma unifies_var:
  assumes "basic t" "t \<noteq> TyVar v" "t \<noteq> TyPrimitive PrimNever" 
  shows "\<not> same_hash H (TyVar v) t \<Longrightarrow> unifies H (TyVar v) t" "\<lbrakk>\<not> same_hash H t (TyVar v); \<forall>w. t \<noteq> TyVar w\<rbrakk> \<Longrightarrow> unifies H t (TyVar v)"
proof -
  have vs: "var_subst v t = (if v \<in> type_vars t then Inl InfiniteType else Inr [(v, t)])"
    using assms occurs_in_vars [OF basic_variant_free [OF assms(1)], of v] by (cases t) (auto simp: var_subst_def)
  have eq: "mgu H (Suc n) (TyVar v) t = lift (var_subst v t)" if "\<not> same_hash H (TyVar v) t" for n
    using that assms by (subst mgu_basic) auto
  show "unifies H (TyVar v) t" if h: "\<not> same_hash H (TyVar v) t"
  proof (cases "v \<in> type_vars t")
    case True
    then show ?thesis by (intro unifies_error) (simp add: eq [OF h] lift_def vs del: mgu.simps)
  next
    case False
    show ?thesis
      by (rule unifies_at_once [OF _ unified_single(1) [OF False assms(1)]]) (use False in \<open>simp add: eq [OF h] lift_def vs del: mgu.simps\<close>)
  qed
  have eq': "mgu H (Suc n) t (TyVar v) = lift (var_subst v t)" if "\<not> same_hash H t (TyVar v)" "\<forall>w. t \<noteq> TyVar w" for n
    using that assms by (subst mgu_basic) (auto split: Type.split)
  show "unifies H t (TyVar v)" if h: "\<not> same_hash H t (TyVar v)" "\<forall>w. t \<noteq> TyVar w"
  proof (cases "v \<in> type_vars t")
    case True
    then show ?thesis by (intro unifies_error) (simp add: eq' [OF h] lift_def vs del: mgu.simps)
  next
    case False
    show ?thesis
      by (rule unifies_at_once [OF _ unified_single(2) [OF False assms(1)]]) (use False in \<open>simp add: eq' [OF h] lift_def vs del: mgu.simps\<close>)
  qed
qed

text \<open>The order of the induction: fewer variables, or as many and a smaller type.\<close>

definition unify_order :: "((Type \<times> Type) \<times> (Type \<times> Type)) set" where
  "unify_order = measures [\<lambda>(t1, t2). card (type_vars t1 \<union> type_vars t2), \<lambda>(t1, t2). size t1]"

lemma finite_type_vars [simp]: "finite (type_vars t)"
  by (induction t rule: type_vars.induct) (auto split: option.split)

lemma unify_order_part:
  assumes "type_vars a \<union> type_vars b \<subseteq> type_vars t1 \<union> type_vars t2" "size a < size t1"
  shows "((a, b), (t1, t2)) \<in> unify_order"
  unfolding unify_order_def by (rule measures_lesseq) (use assms in \<open>auto intro!: card_mono\<close>)

lemma unify_order_sub:
  assumes "type_vars a \<union> type_vars b \<subseteq> V" "size a < size t1" "idempotent s" "subst_vars s \<subseteq> V"
    "V = type_vars t1 \<union> type_vars t2" "basic a" "basic b"
  shows "((sub s a, sub s b), (t1, t2)) \<in> unify_order"
proof (cases "s = []")
  case True
  then show ?thesis using assms by (simp add: unify_order_part)
next
  case False
  then obtain v where v: "v \<in> fst ` set s" by (cases s) auto
  have "w \<notin> fst ` set s \<and> w \<in> V" if "w \<in> type_vars (sub s a) \<union> type_vars (sub s b)" for w
    using that sub_fresh [OF _ assms(6,3), of w] sub_fresh [OF _ assms(7,3), of w] assms(1,4) by blast
  moreover have "v \<in> V" using v assms(4) by (auto simp: subst_vars_def)
  ultimately have "type_vars (sub s a) \<union> type_vars (sub s b) \<subset> V" using v by blast
  then have "card (type_vars (sub s a) \<union> type_vars (sub s b)) < card V"
    by (rule psubset_card_mono [rotated]) (simp add: assms(5))
  then show ?thesis unfolding unify_order_def assms(5) by (intro measures_less) simp
qed

lemma agree_tuple_zip:
  "\<lbrakk>length ts = length us; \<forall>(t, u) \<in> set (zip ts us). agree H (sub s t) (sub s u)\<rbrakk> \<Longrightarrow> agree H (sub s (TyTuple ts)) (sub s (TyTuple us))"
  by (auto simp: list_all2_conv_all_nth set_zip intro!: agree_tuple) blast

lemma mgu_structure_settles:
  assumes "settles (\<lambda>n. mgu_structure (mgu H n) (compose_subst H n) n t1 t2) r" "basic t1" "basic t2"
    "t1 \<noteq> TyPrimitive PrimNever" "t2 \<noteq> TyPrimitive PrimNever" "t1 \<noteq> t2" "\<not> same_hash H t1 t2"
    "\<forall>v. t1 \<noteq> TyVar v" "\<forall>v. t2 \<noteq> TyVar v" "\<forall>s. r = Inr s \<longrightarrow> unified H t1 t2 s"
  shows "unifies H t1 t2"
proof -
  have "mgu H (Suc n) t1 t2 = mgu_structure (mgu H n) (compose_subst H n) n t1 t2" for n
    using mgu_basic [OF assms(2-7), of n] assms(8,9) by (simp split: Type.splits)
  then have "settles (\<lambda>n. mgu H n t1 t2) r" using settles_Suc [of "\<lambda>n. mgu H n t1 t2"] assms(1) by simp
  then show ?thesis using assms(10) unfolding unifies_def by blast
qed

text \<open>One lemma per arm of the match: the computation returns, and its result unifies the two types.\<close>

definition arm_settles :: "(bytes \<Rightarrow> bytes) \<Rightarrow> Type \<Rightarrow> Type \<Rightarrow> bool" where
  "arm_settles H t1 t2 \<longleftrightarrow> (\<exists>r. settles (\<lambda>n. mgu_structure (mgu H n) (compose_subst H n) n t1 t2) r
     \<and> (\<forall>s. r = Inr s \<longrightarrow> unified H t1 t2 s))"

lemma arm_error: "(\<And>n. mgu_structure (mgu H n) (compose_subst H n) n t1 t2 = err e) \<Longrightarrow> arm_settles H t1 t2"
  unfolding arm_settles_def by (intro exI [of _ "Inl e"]) (simp add: settles_const err_def)

lemma arm_inner:
  assumes "unifies H i1 i2" "\<And>n. mgu_structure (mgu H n) (compose_subst H n) n t1 t2 = mgu H n i1 i2"
    "type_vars t1 = type_vars i1" "type_vars t2 = type_vars i2"
    "\<And>s. agree H (sub s i1) (sub s i2) \<Longrightarrow> agree H (sub s t1) (sub s t2)"
  shows "arm_settles H t1 t2"
proof -
  obtain r where r: "settles (\<lambda>n. mgu H n i1 i2) r" "\<forall>s. r = Inr s \<longrightarrow> unified H i1 i2 s"
    using assms(1) by (auto simp: unifies_def)
  have "settles (\<lambda>n. mgu_structure (mgu H n) (compose_subst H n) n t1 t2) r" unfolding assms(2) by (rule r(1))
  moreover have "unified H t1 t2 s" if "r = Inr s" for s
    using r(2) that assms(3-5) by (simp add: unified_def)
  ultimately show ?thesis unfolding arm_settles_def by blast
qed

lemma arm_function:
  assumes "unifies H p1 p2" "basic r1" "basic r2" "effect_row_compatible e1 e2" "basic p1" "basic p2"
    "\<And>s. \<lbrakk>idempotent s; subst_vars s \<subseteq> type_vars p1 \<union> type_vars p2\<rbrakk> \<Longrightarrow> unifies H (sub s r1) (sub s r2)"
  shows "arm_settles H (TyFunction p1 r1 e1 c) (TyFunction p2 r2 e2 c)"
proof -
  have eq: "mgu_structure mg cmp n (TyFunction p1 r1 e1 c) (TyFunction p2 r2 e2 c) = seq (mg p1 p2) (unify_step mg cmp n r1 r2)"
    for mg cmp n using assms(4) by (simp add: mgu_structure_def unify_parts_def unify_step_def [abs_def])
  obtain q where q: "settles (\<lambda>n. mgu H n p1 p2) q" "\<forall>s. q = Inr s \<longrightarrow> unified H p1 p2 s"
    using assms(1) by (auto simp: unifies_def)
  show ?thesis
  proof (cases q)
    case (Inl e)
    with q(1) have "settles (\<lambda>n. seq (mgu H n p1 p2) (unify_step (mgu H n) (compose_subst H n) n r1 r2)) (Inl e)"
      by (intro settles_seq_error) simp
    then show ?thesis unfolding arm_settles_def eq by blast
  next
    case (Inr s1)
    with q(2) have s1: "idempotent s1" "subst_vars s1 \<subseteq> type_vars p1 \<union> type_vars p2" "agree H (sub s1 p1) (sub s1 p2)"
      by (auto simp: unified_def)
    obtain r where r: "settles (\<lambda>n. unify_step (mgu H n) (compose_subst H n) n r1 r2 s1) r"
        "\<forall>s'. r = Inr s' \<longrightarrow> extends s' s1 \<and> agree H (sub s' r1) (sub s' r2)
          \<and> subst_vars s' \<subseteq> subst_vars s1 \<union> type_vars r1 \<union> type_vars r2"
      using unify_step_settles [OF s1(1) assms(2,3) assms(7) [OF s1(1,2)]] by blast
    have "settles (\<lambda>n. seq (mgu H n p1 p2) (unify_step (mgu H n) (compose_subst H n) n r1 r2)) r"
      by (rule settles_seq [where x = s1]) (use q(1) Inr r(1) in simp_all)
    moreover have "unified H (TyFunction p1 r1 e1 c) (TyFunction p2 r2 e2 c) s" if "r = Inr s" for s
    proof -
      have s: "extends s s1" "agree H (sub s r1) (sub s r2)" "subst_vars s \<subseteq> subst_vars s1 \<union> type_vars r1 \<union> type_vars r2"
        using r(2) that by auto
      have "agree H (sub s p1) (sub s p2)" using agree_extends [OF s(1) s1(1) assms(5,6) s1(3)] .
      then have "agree H (sub s (TyFunction p1 r1 e1 c)) (sub s (TyFunction p2 r2 e2 c))"
        using s(2) assms(4) by (simp add: agree_function)
      moreover have "subst_vars s \<subseteq> type_vars (TyFunction p1 r1 e1 c) \<union> type_vars (TyFunction p2 r2 e2 c)"
        using s(3) s1(2) by auto
      ultimately show ?thesis using s(1) by (simp only: unified_def extends_def)
    qed
    ultimately show ?thesis unfolding arm_settles_def eq by blast
  qed
qed

lemma arm_tuple:
  assumes "length ts = length us" "list_all basic ts" "list_all basic us"
    "\<And>t u s. \<lbrakk>(t, u) \<in> set (zip ts us); idempotent s; subst_vars s \<subseteq> type_vars (TyTuple ts) \<union> type_vars (TyTuple us)\<rbrakk>
      \<Longrightarrow> unifies H (sub s t) (sub s u)"
  shows "arm_settles H (TyTuple ts) (TyTuple us)"
proof -
  let ?V = "type_vars (TyTuple ts) \<union> type_vars (TyTuple us)"
  have "\<exists>r. settles (\<lambda>n. loop (\<lambda>(t1, t2). unify_step (mgu H n) (compose_subst H n) n t1 t2) (zip ts us) []) r
    \<and> (\<forall>s'. r = Inr s' \<longrightarrow> extends s' [] \<and> subst_vars s' \<subseteq> ?V
          \<and> (\<forall>(t1, t2) \<in> set (zip ts us). agree H (sub s' t1) (sub s' t2)))"
  proof (rule loop_settles)
    show "\<forall>(t1, t2) \<in> set (zip ts us). basic t1 \<and> basic t2 \<and> type_vars t1 \<union> type_vars t2 \<subseteq> ?V"
      using assms(2,3) by (auto simp: list_all_iff dest: set_zip_leftD set_zip_rightD)
  qed (use assms(4) in \<open>auto simp: subst_vars_def\<close>)
  then obtain r where r: "settles (\<lambda>n. loop (\<lambda>(t1, t2). unify_step (mgu H n) (compose_subst H n) n t1 t2) (zip ts us) []) r"
      "\<forall>s'. r = Inr s' \<longrightarrow> extends s' [] \<and> subst_vars s' \<subseteq> ?V \<and> (\<forall>(t1, t2) \<in> set (zip ts us). agree H (sub s' t1) (sub s' t2))"
    by blast
  have "mgu_structure mg cmp n (TyTuple ts) (TyTuple us) = loop (\<lambda>(t1, t2). unify_step mg cmp n t1 t2) (zip ts us) []"
    for mg cmp n using assms(1) by (simp add: mgu_structure_def unify_many_def)
  moreover have "unified H (TyTuple ts) (TyTuple us) s" if "r = Inr s" for s
    using r(2) that agree_tuple_zip [OF assms(1), of H s] unfolding unified_def extends_def by blast
  ultimately show ?thesis using r(1) unfolding arm_settles_def by auto
qed

lemma wf_unify_order: "wf unify_order"
  by (simp add: unify_order_def)

lemma size_zip: "(t, u) \<in> set (zip ts us) \<Longrightarrow> size t < size (TyTuple ts)"
proof -
  assume "(t, u) \<in> set (zip ts us)"
  then have "t \<in> set ts" by (rule set_zip_leftD)
  then show ?thesis by (induction ts) auto
qed

lemma arm_basic:
  assumes "basic t1" "basic t2" "\<forall>v. t1 \<noteq> TyVar v" "\<forall>v. t2 \<noteq> TyVar v"
    and IH: "\<And>a b. \<lbrakk>((a, b), (t1, t2)) \<in> unify_order; basic a; basic b\<rbrakk> \<Longrightarrow> unifies H a b"
  shows "arm_settles H t1 t2"
proof (cases t1)
  case (TyTuple ts)
  show ?thesis
  proof (cases t2)
    case us: (TyTuple us)
    show ?thesis
    proof (cases "length ts = length us")
      case True
      have parts: "basic t \<and> basic u \<and> type_vars t \<union> type_vars u \<subseteq> type_vars t1 \<union> type_vars t2" if "(t, u) \<in> set (zip ts us)" for t u
        using that assms(1,2) TyTuple us by (auto simp: list_all_iff dest: set_zip_leftD set_zip_rightD)
      have "unifies H (sub s t) (sub s u)"
        if "(t, u) \<in> set (zip ts us)" "idempotent s" "subst_vars s \<subseteq> type_vars t1 \<union> type_vars t2" for t u s
        using IH unify_order_sub [of t u "type_vars t1 \<union> type_vars t2" t1 s t2] parts [OF that(1)] size_zip [OF that(1)] that(2,3)
          basic_sub [OF that(2)] TyTuple by blast
      then show ?thesis using arm_tuple [OF True] assms(1,2) TyTuple us by simp
    next
      case False
      then show ?thesis using TyTuple us by (intro arm_error) (simp add: mgu_structure_def)
    qed
  qed (use TyTuple in \<open>auto intro!: arm_error simp: mgu_structure_def\<close>)
next
  case (TyArray i1)
  show ?thesis
  proof (cases t2)
    case i2: (TyArray i2)
    have "unifies H i1 i2" using IH unify_order_part [of i1 i2 t1 t2] assms(1,2) TyArray i2 by simp
    then show ?thesis
      by (rule arm_inner) (simp_all add: TyArray i2 mgu_structure_def agree_array)
  qed (use TyArray in \<open>auto intro!: arm_error simp: mgu_structure_def\<close>)
next
  case (TyReference c1 i1)
  show ?thesis
  proof (cases t2)
    case i2: (TyReference c2 i2)
    show ?thesis
    proof (cases "c1 = c2")
      case True
      have "unifies H i1 i2" using IH unify_order_part [of i1 i2 t1 t2] assms(1,2) TyReference i2 by simp
      then show ?thesis
        by (rule arm_inner) (simp_all add: TyReference i2 True mgu_structure_def agree_reference)
    next
      case False
      then show ?thesis using TyReference i2 by (intro arm_error) (simp add: mgu_structure_def)
    qed
  qed (use TyReference in \<open>auto intro!: arm_error simp: mgu_structure_def\<close>)
next
  case (TyFunction p1 r1 e1 c1)
  show ?thesis
  proof (cases t2)
    case f: (TyFunction p2 r2 e2 c2)
    note bas = assms(1,2) [unfolded TyFunction f, simplified]
    show ?thesis
    proof (cases "c1 = c2 \<and> effect_row_compatible e1 e2")
      case True
      have p: "unifies H p1 p2" using IH unify_order_part [of p1 p2 t1 t2] bas TyFunction f by auto
      have r: "unifies H (sub s r1) (sub s r2)" if "idempotent s" "subst_vars s \<subseteq> type_vars p1 \<union> type_vars p2" for s
      proof (rule IH)
        show "((sub s r1, sub s r2), t1, t2) \<in> unify_order"
          by (rule unify_order_sub [where V = "type_vars t1 \<union> type_vars t2"]) (use bas that TyFunction f in auto)
      qed (use basic_sub [OF that(1)] bas in auto)
      show ?thesis using arm_function [of H p1 p2 r1 r2 e1 e2 c1] p r bas True TyFunction f by simp
    next
      case False
      then show ?thesis using TyFunction f by (intro arm_error) (auto simp: mgu_structure_def)
    qed
  qed (use TyFunction in \<open>auto intro!: arm_error simp: mgu_structure_def\<close>)
qed (use assms(1,3) in \<open>auto intro!: arm_error simp: mgu_structure_def\<close>)

lemma unifies_basic: "\<lbrakk>basic t1; basic t2\<rbrakk> \<Longrightarrow> unifies H t1 t2"
proof (induction "(t1, t2)" arbitrary: t1 t2 rule: wf_induct_rule [OF wf_unify_order])
  case 1
  note bas = "1.prems"
  have done_at_once: "unifies H t1 t2" if "\<And>n. mgu H (Suc n) t1 t2 = succeed []" "agree H t1 t2"
    by (rule unifies_at_once [where s = "[]"]) (use that bas unified_Nil in \<open>auto simp: succeed_def simp del: mgu.simps\<close>)
  consider (never) "t1 = TyPrimitive PrimNever \<or> t2 = TyPrimitive PrimNever"
    | (same) "t1 \<noteq> TyPrimitive PrimNever" "t2 \<noteq> TyPrimitive PrimNever" "t1 = t2 \<or> same_hash H t1 t2"
    | (other) "t1 \<noteq> TyPrimitive PrimNever" "t2 \<noteq> TyPrimitive PrimNever" "t1 \<noteq> t2" "\<not> same_hash H t1 t2" by blast
  then show ?case
  proof cases
    case never
    then show ?thesis by (intro done_at_once) (auto simp: mgu_body_def intro: agree_never1 agree_never2)
  next
    case same
    have "mgu H (Suc n) t1 t2 = succeed []" for n
      using same basic_no_protocol bas by (cases t1) (auto simp: mgu_body_def)
    then show ?thesis using same(3) by (intro done_at_once) (auto intro: agree_refl agree_hash)
  next
    case other
    show ?thesis
    proof (cases "(\<exists>v. t1 = TyVar v) \<or> (\<exists>v. t2 = TyVar v)")
      case True
      then show ?thesis using unifies_var bas other by (cases "\<exists>v. t1 = TyVar v") metis+
    next
      case False
      then obtain r where r: "settles (\<lambda>n. mgu_structure (mgu H n) (compose_subst H n) n t1 t2) r"
          "\<forall>s. r = Inr s \<longrightarrow> unified H t1 t2 s"
        using arm_basic [OF bas, of H] "1.hyps" unfolding arm_settles_def by blast
      then show ?thesis using mgu_structure_settles [OF r(1) bas other] False by blast
    qed
  qed
qed

text \<open>
  C11: Unification. On types built from variables, primitive types, skolem constants, tuples, arrays, functions and
  references, \<open>mgu\<close> returns: from some depth on it gives the same result and creates no variable. If the result is a
  substitution, it mentions only variables of the two types, it can be applied to both, none of its variables is left,
  and the two types it makes agree: they are equal except where one is \<open>Never\<close>, where two functions have compatible
  effects, and where the shortcut on ground types identifies them.
\<close>

theorem mgu_terminates_and_unifies:
  assumes "basic t1" "basic t2"
  shows "\<exists>n r. (\<forall>m \<ge> n. \<forall>c. mgu H m t1 t2 c = Some (r, c))
    \<and> (\<forall>s. r = Inr s \<longrightarrow> subst_vars s \<subseteq> type_vars t1 \<union> type_vars t2
        \<and> (\<exists>k u1 u2. (\<forall>m \<ge> k. apply_subst m t1 s = Some u1 \<and> apply_subst m t2 s = Some u2)
             \<and> (type_vars u1 \<union> type_vars u2) \<inter> fst ` set s = {} \<and> agree H u1 u2))"
proof -
  obtain r where r: "settles (\<lambda>n. mgu H n t1 t2) r" "\<forall>s. r = Inr s \<longrightarrow> unified H t1 t2 s"
    using unifies_basic [OF assms] by (auto simp: unifies_def)
  have "subst_vars s \<subseteq> type_vars t1 \<union> type_vars t2
      \<and> (\<exists>k u1 u2. (\<forall>m \<ge> k. apply_subst m t1 s = Some u1 \<and> apply_subst m t2 s = Some u2)
           \<and> (type_vars u1 \<union> type_vars u2) \<inter> fst ` set s = {} \<and> agree H u1 u2)" if "r = Inr s" for s
  proof -
    have s: "idempotent s" "subst_vars s \<subseteq> type_vars t1 \<union> type_vars t2" "agree H (sub s t1) (sub s t2)"
      using r(2) that by (auto simp: unified_def)
    obtain k1 where k1: "\<forall>m \<ge> k1. apply_subst m t1 s = Some (sub s t1)" using apply_subst_enough [OF s(1) assms(1)] by blast
    obtain k2 where k2: "\<forall>m \<ge> k2. apply_subst m t2 s = Some (sub s t2)" using apply_subst_enough [OF s(1) assms(2)] by blast
    have "\<forall>m \<ge> max k1 k2. apply_subst m t1 s = Some (sub s t1) \<and> apply_subst m t2 s = Some (sub s t2)" using k1 k2 by simp
    moreover have "(type_vars (sub s t1) \<union> type_vars (sub s t2)) \<inter> fst ` set s = {}"
      using sub_fresh [OF _ assms(1) s(1)] sub_fresh [OF _ assms(2) s(1)] by blast
    ultimately show ?thesis using s(2,3) by blast
  qed
  with r(1) show ?thesis unfolding settles_def by blast
qed

theorem mgu_terminates_and_unifies_witness:
  "basic (TyTuple [TyVar 1, TyArray (TyVar 1)]) \<and> basic (TyTuple [TyPrimitive PrimInt, TyVar 2])
    \<and> (\<exists>n r. \<forall>m \<ge> n. \<forall>c. mgu (\<lambda>bs. bs) m (TyTuple [TyVar 1, TyArray (TyVar 1)]) (TyTuple [TyPrimitive PrimInt, TyVar 2]) c = Some (r, c))"
  using mgu_terminates_and_unifies [of "TyTuple [TyVar 1, TyArray (TyVar 1)]" "TyTuple [TyPrimitive PrimInt, TyVar 2]" "\<lambda>bs. bs"]
  by (simp del: mgu.simps) blast

end
