(* ===== verification/Db_Tablet.thy ===== *)
theory Db_Tablet
  imports Rust_Std "HOL-Library.List_Lexorder"
begin

text \<open>
  The tablets of \<open>src/database/tablet.rs\<close>: key ranges and their splits, ownership epochs, prepared writes, and the
  multi-version state with commits, replay, snapshots and reads. A \<open>BTreeMap\<close> is the list of its entries in the order of
  the keys. The messages of errors are left out.
\<close>

subsection \<open>Ordered maps\<close>

fun btree_insert :: "'k::linorder \<Rightarrow> 'v \<Rightarrow> ('k \<times> 'v) list \<Rightarrow> ('k \<times> 'v) list" where
  "btree_insert k v [] = [(k, v)]"
| "btree_insert k v ((k', v') # m) =
     (if k < k' then (k, v) # (k', v') # m else if k = k' then (k, v) # m else (k', v') # btree_insert k v m)"

text \<open>\<open>entry(k).or_default()\<close> of a map to lists, then \<open>push\<close>.\<close>

definition btree_push :: "'k::linorder \<Rightarrow> 'v \<Rightarrow> ('k \<times> 'v list) list \<Rightarrow> ('k \<times> 'v list) list" where
  "btree_push k v m = btree_insert k ((case map_of m k of None \<Rightarrow> [] | Some vs \<Rightarrow> vs) @ [v]) m"

abbreviation btree_wf :: "('k::linorder \<times> 'v) list \<Rightarrow> bool" where
  "btree_wf m \<equiv> sorted_wrt (<) (map fst m)"

subsection \<open>Errors\<close>

type_synonym TabletId = u64

datatype TabletError =
    InvalidTabletId
  | InvalidKeyRange
  | InvalidOwnershipEpoch
  | SplitKeyOutsideInterior
  | WrongTablet TabletId TabletId
  | DuplicateChildTablet
  | EpochNotAdvanced u64 u64
  | StaleEpoch u64 u64
  | UnknownEpoch u64 u64
  | SequenceMismatch u64 u64
  | SequenceOverflow
  | RecoveredSequenceMismatch u64 u64
  | SnapshotAhead u64 u64
  | InvalidSnapshotHistory
  | KeyOutsideTabletRange

definition TabletId_new :: "u64 \<Rightarrow> TabletError + TabletId" where
  "TabletId_new value = (if value = 0 then Inl InvalidTabletId else Inr value)"

text \<open>\<open>checked_add(1)\<close>\<close>

definition checked_succ :: "u64 \<Rightarrow> u64 option" where
  "checked_succ n = (if n = - 1 then None else Some (n + 1))"

subsection \<open>Key ranges\<close>

record KeyRange =
  kr_start :: bytes
  kr_end :: "bytes option"


definition range_contains :: "KeyRange \<Rightarrow> bytes \<Rightarrow> bool" where
  "range_contains r key \<longleftrightarrow> kr_start r \<le> key \<and> (case kr_end r of Some e \<Rightarrow> key < e | None \<Rightarrow> True)"



subsection \<open>Descriptors\<close>

record TabletDescriptor =
  td_id :: TabletId
  td_range :: KeyRange
  td_epoch :: u64




subsection \<open>Writes\<close>

datatype TabletMutation = Put bytes bytes | Delete bytes

fun mutation_key :: "TabletMutation \<Rightarrow> bytes" where
  "mutation_key (Put key _) = key"
| "mutation_key (Delete key) = key"

record TabletWrite =
  tw_tablet_id :: TabletId
  tw_epoch :: u64
  tw_sequence :: u64
  tw_previous :: u64
  tw_mutations :: "TabletMutation list"

definition write_prepare :: "TabletDescriptor \<Rightarrow> u64 \<Rightarrow> u64 \<Rightarrow> u64 \<Rightarrow> TabletMutation list \<Rightarrow> TabletError + TabletWrite" where
  "write_prepare d presented_epoch expected_previous committed mutations =
     (if presented_epoch < td_epoch d then Inl (StaleEpoch (td_epoch d) presented_epoch)
      else if presented_epoch > td_epoch d then Inl (UnknownEpoch (td_epoch d) presented_epoch)
      else if expected_previous \<noteq> committed then Inl (SequenceMismatch committed expected_previous)
      else if list_ex (\<lambda>m. \<not> range_contains (td_range d) (mutation_key m)) mutations then Inl KeyOutsideTabletRange
      else case checked_succ expected_previous of
        None \<Rightarrow> Inl SequenceOverflow
      | Some sequence \<Rightarrow> Inr \<lparr>tw_tablet_id = td_id d, tw_epoch = td_epoch d, tw_sequence = sequence,
          tw_previous = expected_previous, tw_mutations = mutations\<rparr>)"

subsection \<open>The multi-version state\<close>

record VersionedValue =
  vv_sequence :: u64
  vv_value :: "bytes option"

record TabletSnapshotRow =
  sr_key :: bytes
  sr_versions :: "VersionedValue list"

record TabletSnapshotState =
  ss_sequence :: u64
  ss_rows :: "TabletSnapshotRow list"

record MemoryTablet =
  mt_descriptor :: TabletDescriptor
  mt_sequence :: u64
  mt_rows :: "(bytes \<times> VersionedValue list) list"

definition MemoryTablet_new :: "TabletDescriptor \<Rightarrow> MemoryTablet" where
  "MemoryTablet_new d = \<lparr>mt_descriptor = d, mt_sequence = 0, mt_rows = []\<rparr>"

definition snapshot_state :: "MemoryTablet \<Rightarrow> TabletSnapshotState" where
  "snapshot_state t = \<lparr>ss_sequence = mt_sequence t,
     ss_rows = map (\<lambda>(key, versions). \<lparr>sr_key = key, sr_versions = versions\<rparr>) (mt_rows t)\<rparr>"

text \<open>The check of the versions of a row against the current sequence number and the version before.\<close>

fun versions_ok :: "u64 \<Rightarrow> u64 \<Rightarrow> VersionedValue list \<Rightarrow> bool" where
  "versions_ok current previous [] \<longleftrightarrow> True"
| "versions_ok current previous (v # vs) \<longleftrightarrow>
     \<not> (vv_sequence v = 0 \<or> vv_sequence v > current \<or> vv_sequence v \<le> previous) \<and> versions_ok current (vv_sequence v) vs"

fun restore_rows :: "TabletDescriptor \<Rightarrow> u64 \<Rightarrow> TabletSnapshotRow list \<Rightarrow> (bytes \<times> VersionedValue list) list
    \<Rightarrow> TabletError + (bytes \<times> VersionedValue list) list" where
  "restore_rows d current [] rows = Inr rows"
| "restore_rows d current (row # rs) rows =
     (if \<not> range_contains (td_range d) (sr_key row) then Inl KeyOutsideTabletRange
      else if \<not> versions_ok current 0 (sr_versions row) then Inl InvalidSnapshotHistory
      else if map_of rows (sr_key row) \<noteq> None then Inl InvalidSnapshotHistory
      else restore_rows d current rs (btree_insert (sr_key row) (sr_versions row) rows))"

definition restore_snapshot :: "TabletDescriptor \<Rightarrow> TabletSnapshotState \<Rightarrow> TabletError + MemoryTablet" where
  "restore_snapshot d st =
     (case restore_rows d (ss_sequence st) (ss_rows st) [] of
        Inl e \<Rightarrow> Inl e
      | Inr rows \<Rightarrow> Inr \<lparr>mt_descriptor = d, mt_sequence = ss_sequence st, mt_rows = rows\<rparr>)"

definition prepare_write :: "MemoryTablet \<Rightarrow> u64 \<Rightarrow> u64 \<Rightarrow> TabletMutation list \<Rightarrow> TabletError + TabletWrite" where
  "prepare_write t presented_epoch expected_previous mutations =
     write_prepare (mt_descriptor t) presented_epoch expected_previous (mt_sequence t) mutations"

definition validate_write :: "MemoryTablet \<Rightarrow> TabletWrite \<Rightarrow> TabletError + unit" where
  "validate_write t w =
     (let d = mt_descriptor t in
      if tw_tablet_id w \<noteq> td_id d then Inl (WrongTablet (td_id d) (tw_tablet_id w))
      else if tw_epoch w < td_epoch d then Inl (StaleEpoch (td_epoch d) (tw_epoch w))
      else if tw_epoch w > td_epoch d then Inl (UnknownEpoch (td_epoch d) (tw_epoch w))
      else if tw_previous w \<noteq> mt_sequence t then Inl (SequenceMismatch (mt_sequence t) (tw_previous w))
      else if list_ex (\<lambda>m. \<not> range_contains (td_range d) (mutation_key m)) (tw_mutations w) then Inl KeyOutsideTabletRange
      else case checked_succ (mt_sequence t) of
        None \<Rightarrow> Inl SequenceOverflow
      | Some next \<Rightarrow>
          if tw_sequence w \<noteq> next then Inl (SequenceMismatch (mt_sequence t) (tw_previous w)) else Inr ())"

fun apply_mutation :: "u64 \<Rightarrow> TabletMutation \<Rightarrow> (bytes \<times> VersionedValue list) list \<Rightarrow> (bytes \<times> VersionedValue list) list" where
  "apply_mutation sequence (Put key value) rows = btree_push key \<lparr>vv_sequence = sequence, vv_value = Some value\<rparr> rows"
| "apply_mutation sequence (Delete key) rows = btree_push key \<lparr>vv_sequence = sequence, vv_value = None\<rparr> rows"

definition apply_mutations :: "u64 \<Rightarrow> TabletMutation list \<Rightarrow> MemoryTablet \<Rightarrow> MemoryTablet" where
  "apply_mutations sequence mutations t =
     t\<lparr>mt_rows := fold (apply_mutation sequence) mutations (mt_rows t), mt_sequence := sequence\<rparr>"

definition publish_validated :: "TabletWrite \<Rightarrow> MemoryTablet \<Rightarrow> u64 \<times> MemoryTablet" where
  "publish_validated w t = (tw_sequence w, apply_mutations (tw_sequence w) (tw_mutations w) t)"

definition tablet_commit :: "TabletWrite \<Rightarrow> MemoryTablet \<Rightarrow> (TabletError + u64) \<times> MemoryTablet" where
  "tablet_commit w t =
     (case validate_write t w of
        Inl e \<Rightarrow> (Inl e, t)
      | Inr _ \<Rightarrow> (case publish_validated w t of (s, t') \<Rightarrow> (Inr s, t')))"

definition replay_committed :: "u64 \<Rightarrow> u64 \<Rightarrow> TabletMutation list \<Rightarrow> MemoryTablet \<Rightarrow> TabletError + MemoryTablet" where
  "replay_committed sequence expected_previous mutations t =
     (if expected_previous \<noteq> mt_sequence t then Inl (SequenceMismatch (mt_sequence t) expected_previous)
      else case checked_succ (mt_sequence t) of
        None \<Rightarrow> Inl SequenceOverflow
      | Some expected \<Rightarrow>
          if sequence \<noteq> expected then Inl (RecoveredSequenceMismatch expected sequence)
          else if list_ex (\<lambda>m. \<not> range_contains (td_range (mt_descriptor t)) (mutation_key m)) mutations
            then Inl KeyOutsideTabletRange
          else Inr (apply_mutations sequence mutations t))"

definition read_at :: "MemoryTablet \<Rightarrow> bytes \<Rightarrow> u64 \<Rightarrow> TabletError + bytes option" where
  "read_at t key snapshot =
     (if snapshot > mt_sequence t then Inl (SnapshotAhead (mt_sequence t) snapshot)
      else if \<not> range_contains (td_range (mt_descriptor t)) key then Inl KeyOutsideTabletRange
      else Inr (Option.bind (map_of (mt_rows t) key)
        (\<lambda>versions. Option.bind (find (\<lambda>v. vv_sequence v \<le> snapshot) (rev versions)) vv_value)))"

definition read_latest :: "MemoryTablet \<Rightarrow> bytes \<Rightarrow> bytes option" where
  "read_latest t key = (case read_at t key (mt_sequence t) of Inl _ \<Rightarrow> None | Inr v \<Rightarrow> v)"

subsection \<open>Ordered maps: lemmas\<close>

lemma map_of_btree_insert [simp]: "map_of (btree_insert k v m) = (map_of m)(k \<mapsto> v)"
  by (induction k v m rule: btree_insert.induct) (auto simp: fun_eq_iff)

lemma keys_btree_insert: "fst ` set (btree_insert k v m) = insert k (fst ` set m)"
  by (induction k v m rule: btree_insert.induct) auto

lemma btree_wf_insert [simp]: "btree_wf m \<Longrightarrow> btree_wf (btree_insert k v m)"
proof (induction k v m rule: btree_insert.induct)
  case (2 k v k' v' m)
  have "k' < a" if "a \<in> fst ` set (btree_insert k v m)" "k' < k" for a
    using that "2.prems" by (auto simp: keys_btree_insert)
  with 2 show ?case by (auto dest: order_less_trans)
qed simp

lemma btree_insert_last: "\<lbrakk>\<forall>k' \<in> fst ` set m. k' < k\<rbrakk> \<Longrightarrow> btree_insert k v m = m @ [(k, v)]"
  by (induction k v m rule: btree_insert.induct) (auto dest: order_less_imp_not_less)

lemma map_of_btree_push: "map_of (btree_push k v m) = (map_of m)(k \<mapsto> (case map_of m k of None \<Rightarrow> [] | Some vs \<Rightarrow> vs) @ [v])"
  by (simp add: btree_push_def)

lemma btree_wf_push [simp]: "btree_wf m \<Longrightarrow> btree_wf (btree_push k v m)"
  by (simp add: btree_push_def)

lemma keys_btree_push: "fst ` set (btree_push k v m) = insert k (fst ` set m)"
  by (simp add: btree_push_def keys_btree_insert)

lemma btree_wf_distinct: "btree_wf m \<Longrightarrow> distinct (map fst m)"
  by (simp add: strict_sorted_iff)

subsection \<open>Splits\<close>


end
