(* ===== verification/Db_Wal.thy ===== *)
theory Db_Wal
  imports Db_Tablet
begin

text \<open>
  The write-ahead log of \<open>src/database/wal.rs\<close>: the frame format, opening a log with the truncation of a torn tail,
  appending, replay and reclamation. A file is its content; an operation that writes takes the content at the path and
  returns the content it leaves. A \<open>fault\<close> names the first system call that fails and, for a write, how many bytes it
  wrote before. The hash function of blake3 and the JSON encoding of serde are arguments.
\<close>

subsection \<open>Input and output\<close>

datatype io_point =
    IoOpen | IoRead | IoSeek | IoHeader | IoPayload | IoChecksum | IoSync | IoSetLen | IoTempOpen | IoTempHeader | IoTempSync
  | IoRename | IoDirSync | IoReopen | IoCkRead | IoCkOpen | IoCkWrite | IoCkSync | IoCkRename | IoCkDirSync

type_synonym fault = "(io_point \<times> nat) option"

definition fails :: "fault \<Rightarrow> io_point \<Rightarrow> bool" where
  "fails fault p \<longleftrightarrow> (case fault of Some (q, _) \<Rightarrow> q = p | None \<Rightarrow> False)"

text \<open>\<open>write_all\<close> at the end of a file: whether it succeeds, and the content after it.\<close>

definition write_all :: "fault \<Rightarrow> io_point \<Rightarrow> bytes \<Rightarrow> bytes \<Rightarrow> bool \<times> bytes" where
  "write_all fault p data file =
     (case fault of Some (q, k) \<Rightarrow> if q = p then (False, file @ take k data) else (True, file @ data)
      | None \<Rightarrow> (True, file @ data))"

subsection \<open>Records\<close>

definition WAL_MAGIC :: bytes where "WAL_MAGIC = [0x4E, 0x55, 0x44, 0x42, 0x57, 0x41, 0x4C, 0x33]"
definition WAL_FRAME_MAGIC :: bytes where "WAL_FRAME_MAGIC = [0x4E, 0x52, 0x45, 0x43]"
definition WAL_HEADER_PREFIX_BYTES :: nat where "WAL_HEADER_PREFIX_BYTES = 32"
definition WAL_HEADER_BYTES :: nat where "WAL_HEADER_BYTES = 64"
definition WAL_FRAME_VERSION :: u16 where "WAL_FRAME_VERSION = 1"
definition WAL_RECORD_VERSION :: u16 where "WAL_RECORD_VERSION = 1"
definition WAL_FRAME_PREFIX_BYTES :: nat where "WAL_FRAME_PREFIX_BYTES = 10"
definition WAL_FRAME_HEADER_BYTES :: nat where "WAL_FRAME_HEADER_BYTES = 42"
definition MAX_WAL_RECORD_BYTES :: nat where "MAX_WAL_RECORD_BYTES = 64 * 1024 * 1024"

record DiskWalRecord =
  dr_version :: u16
  dr_tablet_id :: u64
  dr_epoch :: u64
  dr_sequence :: u64
  dr_previous :: u64
  dr_mutations :: "TabletMutation list"

record WalRecord =
  wr_tablet_id :: TabletId
  wr_epoch :: u64
  wr_sequence :: u64
  wr_previous :: u64
  wr_mutations :: "TabletMutation list"

datatype WalError =
    WalIo
  | InvalidHeader
  | WalHeaderChecksumMismatch
  | InvalidFrameHeader u64
  | UnsupportedFrameVersion u64 u16
  | HeaderChecksumMismatch u64
  | UnsupportedRecordVersion u64 u16
  | InvalidRecord u64
  | RecordTooLarge u64 nat
  | ChecksumMismatch u64
  | TabletMismatch TabletId TabletId
  | StaleOwnershipEpoch u64 u64
  | WalSequenceMismatch u64 u64
  | WalSequenceOverflow
  | ReplayRejected u64
  | CheckpointRequired u64
  | CheckpointTooOld u64 u64
  | CheckpointAheadOfWal u64 u64
  | InvalidReclaimSequence u64 u64
  | WalSerialization
  | Poisoned

definition from_write :: "TabletWrite \<Rightarrow> WalRecord" where
  "from_write w = \<lparr>wr_tablet_id = tw_tablet_id w, wr_epoch = tw_epoch w, wr_sequence = tw_sequence w,
     wr_previous = tw_previous w, wr_mutations = tw_mutations w\<rparr>"

definition from_disk :: "DiskWalRecord \<Rightarrow> u64 \<Rightarrow> WalError + WalRecord" where
  "from_disk disk offset =
     (if dr_version disk \<noteq> WAL_RECORD_VERSION then Inl (UnsupportedRecordVersion offset (dr_version disk))
      else case TabletId_new (dr_tablet_id disk) of
        Inl _ \<Rightarrow> Inl (InvalidRecord offset)
      | Inr tablet_id \<Rightarrow>
          if dr_epoch disk = 0 then Inl (InvalidRecord offset)
          else Inr \<lparr>wr_tablet_id = tablet_id, wr_epoch = dr_epoch disk, wr_sequence = dr_sequence disk,
            wr_previous = dr_previous disk, wr_mutations = dr_mutations disk\<rparr>)"

definition to_disk :: "WalRecord \<Rightarrow> DiskWalRecord" where
  "to_disk r = \<lparr>dr_version = WAL_RECORD_VERSION, dr_tablet_id = wr_tablet_id r, dr_epoch = wr_epoch r,
     dr_sequence = wr_sequence r, dr_previous = wr_previous r, dr_mutations = wr_mutations r\<rparr>"

subsection \<open>Headers\<close>

definition encode_wal_header :: "(bytes \<Rightarrow> bytes) \<Rightarrow> u64 \<Rightarrow> TabletId option \<Rightarrow> u64 option \<Rightarrow> bytes" where
  "encode_wal_header H base_sequence tablet_id ownership_epoch =
     (let prefix = WAL_MAGIC @ to_le 8 base_sequence @ to_le 8 (case tablet_id of Some i \<Rightarrow> i | None \<Rightarrow> 0) @
        to_le 8 (case ownership_epoch of Some e \<Rightarrow> e | None \<Rightarrow> 0)
      in prefix @ H prefix)"

definition decode_wal_header :: "(bytes \<Rightarrow> bytes) \<Rightarrow> bytes \<Rightarrow> WalError + u64 \<times> TabletId option \<times> u64 option" where
  "decode_wal_header H header =
     (if take 8 header \<noteq> WAL_MAGIC then Inl InvalidHeader
      else if drop WAL_HEADER_PREFIX_BYTES header \<noteq> H (take WAL_HEADER_PREFIX_BYTES header) then Inl WalHeaderChecksumMismatch
      else
        let base_sequence = from_le (take 8 (drop 8 header));
            tablet_raw = from_le (take 8 (drop 16 header));
            epoch_raw = from_le (take 8 (drop 24 header));
            tablet_id = (if tablet_raw = 0 then None else Some tablet_raw);
            ownership_epoch = (if epoch_raw = 0 then None else Some epoch_raw)
        in if base_sequence > 0 \<and> (tablet_id = None \<or> ownership_epoch = None) then Inl InvalidHeader
           else Inr (base_sequence, tablet_id, ownership_epoch))"

definition encode_frame_header :: "(bytes \<Rightarrow> bytes) \<Rightarrow> u32 \<Rightarrow> bytes" where
  "encode_frame_header H payload_len =
     (let prefix = WAL_FRAME_MAGIC @ to_le 2 WAL_FRAME_VERSION @ to_le 4 payload_len in prefix @ H prefix)"

definition decode_frame_header :: "(bytes \<Rightarrow> bytes) \<Rightarrow> bytes \<Rightarrow> u64 \<Rightarrow> WalError + nat" where
  "decode_frame_header H header offset =
     (if take 4 header \<noteq> WAL_FRAME_MAGIC then Inl (InvalidFrameHeader offset)
      else
        let version = from_le (take 2 (drop 4 header)) in
        if version \<noteq> WAL_FRAME_VERSION then Inl (UnsupportedFrameVersion offset version)
        else if drop WAL_FRAME_PREFIX_BYTES header \<noteq> H (take WAL_FRAME_PREFIX_BYTES header)
          then Inl (HeaderChecksumMismatch offset)
        else
          let payload_len = unat (from_le (take 4 (drop 6 header)) :: u32) in
          if payload_len > MAX_WAL_RECORD_BYTES then Inl (RecordTooLarge offset payload_len) else Inr payload_len)"

definition validate_record_chain :: "WalRecord \<Rightarrow> TabletId option \<Rightarrow> u64 option \<Rightarrow> u64 \<Rightarrow> u64 \<Rightarrow> WalError + unit" where
  "validate_record_chain r expected_tablet latest_epoch last_sequence offset =
     (if expected_tablet \<noteq> None \<and> wr_tablet_id r \<noteq> the expected_tablet
        then Inl (TabletMismatch (the expected_tablet) (wr_tablet_id r))
      else if latest_epoch \<noteq> None \<and> wr_epoch r < the latest_epoch
        then Inl (StaleOwnershipEpoch (the latest_epoch) (wr_epoch r))
      else if wr_previous r \<noteq> last_sequence then Inl (WalSequenceMismatch last_sequence (wr_previous r))
      else case checked_succ last_sequence of
        None \<Rightarrow> Inl WalSequenceOverflow
      | Some expected \<Rightarrow> if wr_sequence r \<noteq> expected then Inl (InvalidRecord offset) else Inr ())"

subsection \<open>Opening a log\<close>

record FileWal =
  fw_records :: "WalRecord list"
  fw_ends :: "u64 list"
  fw_base :: u64
  fw_tablet :: "TabletId option"
  fw_epoch :: "u64 option"
  fw_poisoned :: bool

definition last_sequence :: "FileWal \<Rightarrow> u64" where
  "last_sequence w = (if fw_records w = [] then fw_base w else wr_sequence (last (fw_records w)))"

definition record_end_offset :: "FileWal \<Rightarrow> nat \<Rightarrow> u64 option" where
  "record_end_offset w index = nth_opt (fw_ends w) index"

text \<open>
  The loop of \<open>open\<close> over the rest of the file from a position. Its result carries the position where an incomplete
  frame starts, if there is one. \<open>fj\<close> is \<open>serde_json::from_slice\<close>.
\<close>

function scan :: "(bytes \<Rightarrow> bytes) \<Rightarrow> (bytes \<Rightarrow> DiskWalRecord option) \<Rightarrow> bytes \<Rightarrow> nat \<Rightarrow> FileWal \<Rightarrow> WalError + FileWal \<times> nat option" where
  "scan H fj rest record_start w =
     (if rest = [] then Inr (w, None)
      else if length rest < WAL_FRAME_HEADER_BYTES then Inr (w, Some record_start)
      else case decode_frame_header H (take WAL_FRAME_HEADER_BYTES rest) (of_nat record_start) of
        Inl e \<Rightarrow> Inl e
      | Inr payload_len \<Rightarrow>
          let after = drop WAL_FRAME_HEADER_BYTES rest; payload = take payload_len after;
              behind = drop payload_len after; stored = take 32 behind in
          if length payload \<noteq> payload_len then Inr (w, Some record_start)
          else if length stored \<noteq> 32 then Inr (w, Some record_start)
          else if stored \<noteq> H payload then Inl (ChecksumMismatch (of_nat record_start))
          else case fj payload of
            None \<Rightarrow> Inl (InvalidRecord (of_nat record_start))
          | Some disk \<Rightarrow>
              (case from_disk disk (of_nat record_start) of
                 Inl e \<Rightarrow> Inl e
               | Inr r \<Rightarrow>
                   (case validate_record_chain r (fw_tablet w) (fw_epoch w) (last_sequence w) (of_nat record_start) of
                      Inl e \<Rightarrow> Inl e
                    | Inr _ \<Rightarrow>
                        let fin = record_start + WAL_FRAME_HEADER_BYTES + payload_len + 32 in
                        scan H fj (drop 32 behind) fin
                          (w\<lparr>fw_tablet := Some (wr_tablet_id r), fw_epoch := Some (wr_epoch r),
                             fw_records := fw_records w @ [r], fw_ends := fw_ends w @ [of_nat fin]\<rparr>))))"
  by pat_completeness auto
termination
  by (relation "measure (\<lambda>(H, fj, rest, record_start, w). length rest)")
    (auto simp: WAL_FRAME_HEADER_BYTES_def neq_Nil_conv)

declare scan.simps [simp del]

text \<open>
  \<open>truncate_crash_tail\<close>: whether it succeeds, and the content. Then \<open>open\<close>, on the content at the path, which is empty
  when the file did not exist.
\<close>

definition truncate_crash_tail :: "fault \<Rightarrow> nat \<Rightarrow> bytes \<Rightarrow> bool \<times> bytes" where
  "truncate_crash_tail fault valid_end file =
     (if fails fault IoSetLen then (False, file) else (\<not> fails fault IoSync, take valid_end file))"

definition open_existing :: "(bytes \<Rightarrow> bytes) \<Rightarrow> (bytes \<Rightarrow> DiskWalRecord option) \<Rightarrow> fault \<Rightarrow> bytes \<Rightarrow> (WalError + FileWal) \<times> bytes" where
  "open_existing H fj fault file =
     (if fails fault IoRead then (Inl WalIo, file)
      else if length file < WAL_HEADER_BYTES then (Inl InvalidHeader, file)
      else case decode_wal_header H (take WAL_HEADER_BYTES file) of
        Inl e \<Rightarrow> (Inl e, file)
      | Inr (base_sequence, tablet_id, ownership_epoch) \<Rightarrow>
          (case scan H fj (drop WAL_HEADER_BYTES file) WAL_HEADER_BYTES
               \<lparr>fw_records = [], fw_ends = [], fw_base = base_sequence, fw_tablet = tablet_id, fw_epoch = ownership_epoch,
                 fw_poisoned = False\<rparr> of
             Inl e \<Rightarrow> (Inl e, file)
           | Inr (w, None) \<Rightarrow> (Inr w, file)
           | Inr (w, Some valid_end) \<Rightarrow>
               (case truncate_crash_tail fault valid_end file of (ok, file') \<Rightarrow> (if ok then Inr w else Inl WalIo, file'))))"

definition wal_open :: "(bytes \<Rightarrow> bytes) \<Rightarrow> (bytes \<Rightarrow> DiskWalRecord option) \<Rightarrow> fault \<Rightarrow> bool \<Rightarrow> bytes \<Rightarrow> (WalError + FileWal) \<times> bytes" where
  "wal_open H fj fault file_existed file =
     (if fails fault IoOpen then (Inl WalIo, file)
      else if file = [] then
        (case write_all fault IoHeader (encode_wal_header H 0 None None) file of
           (ok, file') \<Rightarrow>
             if \<not> ok \<or> fails fault IoSync \<or> \<not> file_existed \<and> fails fault IoDirSync then (Inl WalIo, file')
             else open_existing H fj fault file')
      else open_existing H fj fault file)"

subsection \<open>Replay\<close>

fun replay_records :: "WalRecord list \<Rightarrow> MemoryTablet \<Rightarrow> WalError + MemoryTablet" where
  "replay_records [] t = Inr t"
| "replay_records (r # rs) t =
     (case replay_committed (wr_sequence r) (wr_previous r) (wr_mutations r) t of
        Inl _ \<Rightarrow> Inl (ReplayRejected (wr_sequence r))
      | Inr t' \<Rightarrow> replay_records rs t')"

definition recover_memory_tablet :: "FileWal \<Rightarrow> TabletDescriptor \<Rightarrow> WalError + MemoryTablet" where
  "recover_memory_tablet w d =
     (if fw_tablet w \<noteq> None \<and> the (fw_tablet w) \<noteq> td_id d then Inl (TabletMismatch (td_id d) (the (fw_tablet w)))
      else if fw_epoch w \<noteq> None \<and> td_epoch d < the (fw_epoch w)
        then Inl (StaleOwnershipEpoch (the (fw_epoch w)) (td_epoch d))
      else if fw_base w \<noteq> 0 then Inl (CheckpointRequired (fw_base w))
      else replay_records (fw_records w) (MemoryTablet_new d))"

definition replay_after_checkpoint :: "FileWal \<Rightarrow> MemoryTablet \<Rightarrow> WalError + MemoryTablet" where
  "replay_after_checkpoint w t =
     (let d = mt_descriptor t in
      if mt_sequence t < fw_base w then Inl (CheckpointTooOld (mt_sequence t) (fw_base w))
      else if mt_sequence t > last_sequence w then Inl (CheckpointAheadOfWal (mt_sequence t) (last_sequence w))
      else if fw_tablet w \<noteq> None \<and> the (fw_tablet w) \<noteq> td_id d then Inl (TabletMismatch (td_id d) (the (fw_tablet w)))
      else if fw_epoch w \<noteq> None \<and> td_epoch d < the (fw_epoch w)
        then Inl (StaleOwnershipEpoch (the (fw_epoch w)) (td_epoch d))
      else replay_records (filter (\<lambda>r. wr_sequence r > mt_sequence t) (fw_records w)) t)"

subsection \<open>Appending and reclaiming\<close>

text \<open>The checks before the first byte is written, and the frame. \<open>tj\<close> is \<open>serde_json::to_vec\<close>.\<close>

definition append_frame :: "(bytes \<Rightarrow> bytes) \<Rightarrow> bytes \<Rightarrow> bytes" where
  "append_frame H payload = encode_frame_header H (of_nat (length payload)) @ payload @ H payload"

definition append_checks :: "(DiskWalRecord \<Rightarrow> bytes option) \<Rightarrow> TabletWrite \<Rightarrow> FileWal \<Rightarrow> u64 \<Rightarrow> WalError + WalRecord \<times> bytes" where
  "append_checks tj write w offset =
     (let r = from_write write; last_seq = last_sequence w in
      if fw_poisoned w then Inl Poisoned
      else if wr_previous r \<noteq> last_seq then Inl (WalSequenceMismatch last_seq (wr_previous r))
      else case checked_succ last_seq of
        None \<Rightarrow> Inl WalSequenceOverflow
      | Some expected \<Rightarrow>
          if wr_sequence r \<noteq> expected then Inl (InvalidRecord offset)
          else if fw_tablet w \<noteq> None \<and> wr_tablet_id r \<noteq> the (fw_tablet w)
            then Inl (TabletMismatch (the (fw_tablet w)) (wr_tablet_id r))
          else if fw_epoch w \<noteq> None \<and> wr_epoch r < the (fw_epoch w)
            then Inl (StaleOwnershipEpoch (the (fw_epoch w)) (wr_epoch r))
          else case tj (to_disk r) of
            None \<Rightarrow> Inl WalSerialization
          | Some payload \<Rightarrow>
              if length payload > MAX_WAL_RECORD_BYTES then Inl (RecordTooLarge offset (length payload))
              else Inr (r, payload))"

definition append_write :: "(bytes \<Rightarrow> bytes) \<Rightarrow> (DiskWalRecord \<Rightarrow> bytes option) \<Rightarrow> fault \<Rightarrow> TabletWrite \<Rightarrow> FileWal \<Rightarrow> bytes
    \<Rightarrow> (WalError + unit) \<times> FileWal \<times> bytes" where
  "append_write H tj fault write w file =
     (case append_checks tj write w (of_nat (length file)) of
        Inl e \<Rightarrow> (Inl e, w, file)
      | Inr (r, payload) \<Rightarrow>
          if fails fault IoSeek then (Inl WalIo, w, file)
          else
            let bad = w\<lparr>fw_poisoned := True\<rparr>;
                (ok1, file1) = write_all fault IoHeader (encode_frame_header H (of_nat (length payload))) file in
            if \<not> ok1 then (Inl WalIo, bad, file1)
            else let (ok2, file2) = write_all fault IoPayload payload file1 in
            if \<not> ok2 then (Inl WalIo, bad, file2)
            else let (ok3, file3) = write_all fault IoChecksum (H payload) file2 in
            if \<not> ok3 then (Inl WalIo, bad, file3)
            else if fails fault IoSync then (Inl WalIo, bad, file3)
            else (Inr (), w\<lparr>fw_tablet := Some (wr_tablet_id r), fw_epoch := Some (wr_epoch r),
                    fw_records := fw_records w @ [r], fw_ends := fw_ends w @ [of_nat (length file3)]\<rparr>, file3))"

text \<open>
  \<open>reclaim_through\<close>, with the content at the path and that of the replacement file (\<open>None\<close> when there is none). After the
  rename the handle belongs to the file that is gone, and it is not used again.
\<close>

definition reclaim_through :: "(bytes \<Rightarrow> bytes) \<Rightarrow> (bytes \<Rightarrow> DiskWalRecord option) \<Rightarrow> fault \<Rightarrow> u64 \<Rightarrow> FileWal \<Rightarrow> bytes \<Rightarrow> bytes option
    \<Rightarrow> (WalError + unit) \<times> FileWal \<times> bytes \<times> bytes option" where
  "reclaim_through H fj fault base_sequence w file temp =
     (if fw_poisoned w then (Inl Poisoned, w, file, temp)
      else if base_sequence \<noteq> last_sequence w then (Inl (InvalidReclaimSequence (last_sequence w) base_sequence), w, file, temp)
      else
        let bad = w\<lparr>fw_poisoned := True\<rparr> in
        if fails fault IoTempOpen then (Inl WalIo, bad, file, temp)
        else let (ok, temp1) = write_all fault IoTempHeader (encode_wal_header H base_sequence (fw_tablet w) (fw_epoch w)) [] in
        if \<not> ok \<or> fails fault IoTempSync \<or> fails fault IoRename then (Inl WalIo, bad, file, Some temp1)
        else if fails fault IoDirSync then (Inl WalIo, bad, temp1, None)
        else (case wal_open H fj (if fails fault IoReopen then Some (IoRead, 0) else None) True temp1 of
            (Inl e, file') \<Rightarrow> (Inl e, bad, file', None)
          | (Inr w', file') \<Rightarrow> (Inr (), w', file', None)))"

end
