(* ===== verification/Db_Store.thy ===== *)
theory Db_Store
  imports Db_Wal
begin

text \<open>
  Checkpoints (\<open>src/database/checkpoint.rs\<close>) and the tablet on top of its log (\<open>src/database/store.rs\<close>): opening from the
  files, committing through the log, and checkpointing with reclamation of the log. The files of a tablet are the log,
  the checkpoint and the temporary files that replace them by a rename.
\<close>

subsection \<open>Checkpoints\<close>

definition CHECKPOINT_MAGIC :: bytes where "CHECKPOINT_MAGIC = [0x4E, 0x55, 0x44, 0x42, 0x43, 0x4B, 0x50, 0x31]"
definition CHECKPOINT_VERSION :: u16 where "CHECKPOINT_VERSION = 1"
definition MAX_CHECKPOINT_BYTES :: nat where "MAX_CHECKPOINT_BYTES = 256 * 1024 * 1024"

record DiskCheckpoint =
  dc_version :: u16
  dc_tablet_id :: u64
  dc_epoch :: u64
  dc_start :: bytes
  dc_end :: "bytes option"
  dc_state :: TabletSnapshotState

text \<open>What the code calls of other libraries: the hash of blake3 and the JSON encoders and decoders of serde.\<close>

record externals =
  ex_hash :: "bytes \<Rightarrow> bytes"
  ex_record_to_json :: "DiskWalRecord \<Rightarrow> bytes option"
  ex_record_from_json :: "bytes \<Rightarrow> DiskWalRecord option"
  ex_checkpoint_to_json :: "DiskCheckpoint \<Rightarrow> bytes option"
  ex_checkpoint_from_json :: "bytes \<Rightarrow> DiskCheckpoint option"

datatype CheckpointError =
    CkIo
  | CkInvalidHeader
  | UnsupportedVersion u16
  | TooLarge nat
  | CkChecksumMismatch
  | TrailingBytes
  | DescriptorMismatch
  | StaleDescriptorEpoch u64 u64
  | InvalidState TabletError
  | CkSerialization

definition disk_checkpoint :: "MemoryTablet \<Rightarrow> DiskCheckpoint" where
  "disk_checkpoint t = (let d = mt_descriptor t in
     \<lparr>dc_version = CHECKPOINT_VERSION, dc_tablet_id = td_id d, dc_epoch = td_epoch d, dc_start = kr_start (td_range d),
      dc_end = kr_end (td_range d), dc_state = snapshot_state t\<rparr>)"

definition checkpoint_bytes :: "(bytes \<Rightarrow> bytes) \<Rightarrow> bytes \<Rightarrow> bytes" where
  "checkpoint_bytes H payload = CHECKPOINT_MAGIC @ to_le 4 (of_nat (length payload) :: u32) @ payload @ H payload"

text \<open>The content of the checkpoint and of its temporary file are passed and returned.\<close>

definition write_checkpoint :: "externals \<Rightarrow> fault \<Rightarrow> MemoryTablet \<Rightarrow> bytes option \<Rightarrow> bytes option
    \<Rightarrow> (CheckpointError + unit) \<times> bytes option \<times> bytes option" where
  "write_checkpoint X fault t ckpt temp =
     (case ex_checkpoint_to_json X (disk_checkpoint t) of
        None \<Rightarrow> (Inl CkSerialization, ckpt, temp)
      | Some payload \<Rightarrow>
          if length payload > MAX_CHECKPOINT_BYTES then (Inl (TooLarge (length payload)), ckpt, temp)
          else if fails fault IoCkOpen then (Inl CkIo, ckpt, temp)
          else
            let (ok, temp1) = write_all fault IoCkWrite (checkpoint_bytes (ex_hash X) payload) [] in
            if \<not> ok \<or> fails fault IoCkSync \<or> fails fault IoCkRename then (Inl CkIo, ckpt, Some temp1)
            else if fails fault IoCkDirSync then (Inl CkIo, Some temp1, None)
            else (Inr (), Some temp1, None))"

definition check_descriptor :: "DiskCheckpoint \<Rightarrow> TabletDescriptor \<Rightarrow> CheckpointError + MemoryTablet" where
  "check_descriptor disk d =
     (if dc_version disk \<noteq> CHECKPOINT_VERSION then Inl (UnsupportedVersion (dc_version disk))
      else if dc_tablet_id disk \<noteq> td_id d then Inl DescriptorMismatch
      else if td_epoch d < dc_epoch disk then Inl (StaleDescriptorEpoch (dc_epoch disk) (td_epoch d))
      else if dc_start disk \<noteq> kr_start (td_range d) \<or> dc_end disk \<noteq> kr_end (td_range d) then Inl DescriptorMismatch
      else case restore_snapshot d (dc_state disk) of Inl e \<Rightarrow> Inl (InvalidState e) | Inr t \<Rightarrow> Inr t)"

definition load_checkpoint :: "externals \<Rightarrow> fault \<Rightarrow> bytes option \<Rightarrow> TabletDescriptor \<Rightarrow> CheckpointError + MemoryTablet option" where
  "load_checkpoint X fault ckpt d =
     (case ckpt of
        None \<Rightarrow> Inr None
      | Some file \<Rightarrow>
          if fails fault IoCkRead \<or> length file < 8 then Inl CkIo
          else if take 8 file \<noteq> CHECKPOINT_MAGIC then Inl CkInvalidHeader
          else if length file < 12 then Inl CkIo
          else
            let payload_len = unat (from_le (take 4 (drop 8 file)) :: u32) in
            if payload_len > MAX_CHECKPOINT_BYTES then Inl (TooLarge payload_len)
            else if length file < 12 + payload_len + 32 then Inl CkIo
            else
              let payload = take payload_len (drop 12 file); checksum = take 32 (drop (12 + payload_len) file) in
              if checksum \<noteq> ex_hash X payload then Inl CkChecksumMismatch
              else if length file > 12 + payload_len + 32 then Inl TrailingBytes
              else case ex_checkpoint_from_json X payload of
                None \<Rightarrow> Inl CkSerialization
              | Some disk \<Rightarrow> (case check_descriptor disk d of Inl e \<Rightarrow> Inl e | Inr t \<Rightarrow> Inr (Some t)))"

subsection \<open>The tablet on its log\<close>

record disk =
  dk_wal_exists :: bool
  dk_wal :: bytes
  dk_wal_tmp :: "bytes option"
  dk_ckpt :: "bytes option"
  dk_ckpt_tmp :: "bytes option"

record WalBackedTablet =
  wb_tablet :: MemoryTablet
  wb_wal :: FileWal

datatype WalBackedError = BackedTablet TabletError | BackedWal WalError | BackedCheckpoint CheckpointError

text \<open>The state in memory from the opened log and the checkpoint.\<close>

definition recover :: "externals \<Rightarrow> fault \<Rightarrow> TabletDescriptor \<Rightarrow> FileWal \<Rightarrow> bytes option \<Rightarrow> WalBackedError + WalBackedTablet" where
  "recover X fault d w ckpt =
     (case load_checkpoint X fault ckpt d of
        Inl e \<Rightarrow> Inl (BackedCheckpoint e)
      | Inr loaded \<Rightarrow>
          (case (case loaded of Some t \<Rightarrow> Inr t | None \<Rightarrow> recover_memory_tablet w d) of
             Inl e \<Rightarrow> Inl (BackedWal e)
           | Inr t \<Rightarrow>
               (case replay_after_checkpoint w t of
                  Inl e \<Rightarrow> Inl (BackedWal e)
                | Inr t' \<Rightarrow> Inr \<lparr>wb_tablet = t', wb_wal = w\<rparr>)))"

definition store_open :: "externals \<Rightarrow> fault \<Rightarrow> TabletDescriptor \<Rightarrow> disk \<Rightarrow> (WalBackedError + WalBackedTablet) \<times> disk" where
  "store_open X fault d dk =
     (case wal_open (ex_hash X) (ex_record_from_json X) fault (dk_wal_exists dk) (dk_wal dk) of
        (Inl e, file) \<Rightarrow> (Inl (BackedWal e), dk\<lparr>dk_wal := file, dk_wal_exists := dk_wal_exists dk \<or> \<not> fails fault IoOpen\<rparr>)
      | (Inr w, file) \<Rightarrow> (recover X fault d w (dk_ckpt dk), dk\<lparr>dk_wal := file, dk_wal_exists := True\<rparr>))"

definition store_prepare_write :: "WalBackedTablet \<Rightarrow> u64 \<Rightarrow> u64 \<Rightarrow> TabletMutation list \<Rightarrow> TabletError + TabletWrite" where
  "store_prepare_write s presented_epoch expected_previous mutations =
     prepare_write (wb_tablet s) presented_epoch expected_previous mutations"

definition store_commit :: "externals \<Rightarrow> fault \<Rightarrow> TabletWrite \<Rightarrow> WalBackedTablet \<Rightarrow> disk
    \<Rightarrow> (WalBackedError + u64) \<times> WalBackedTablet \<times> disk" where
  "store_commit X fault write s dk =
     (case validate_write (wb_tablet s) write of
        Inl e \<Rightarrow> (Inl (BackedTablet e), s, dk)
      | Inr _ \<Rightarrow>
          (case append_write (ex_hash X) (ex_record_to_json X) fault write (wb_wal s) (dk_wal dk) of
             (Inl e, w, file) \<Rightarrow> (Inl (BackedWal e), s\<lparr>wb_wal := w\<rparr>, dk\<lparr>dk_wal := file\<rparr>)
           | (Inr _, w, file) \<Rightarrow>
               (case publish_validated write (wb_tablet s) of
                  (sequence, t) \<Rightarrow> (Inr sequence, s\<lparr>wb_wal := w, wb_tablet := t\<rparr>, dk\<lparr>dk_wal := file\<rparr>))))"

definition store_read_at :: "WalBackedTablet \<Rightarrow> bytes \<Rightarrow> u64 \<Rightarrow> TabletError + bytes option" where
  "store_read_at s key snapshot = read_at (wb_tablet s) key snapshot"

definition publish_checkpoint :: "externals \<Rightarrow> fault \<Rightarrow> WalBackedTablet \<Rightarrow> disk \<Rightarrow> (WalBackedError + unit) \<times> disk" where
  "publish_checkpoint X fault s dk =
     (case write_checkpoint X fault (wb_tablet s) (dk_ckpt dk) (dk_ckpt_tmp dk) of
        (r, ckpt, temp) \<Rightarrow>
          (case r of Inl e \<Rightarrow> Inl (BackedCheckpoint e) | Inr _ \<Rightarrow> Inr (), dk\<lparr>dk_ckpt := ckpt, dk_ckpt_tmp := temp\<rparr>))"

definition store_checkpoint :: "externals \<Rightarrow> fault \<Rightarrow> WalBackedTablet \<Rightarrow> disk \<Rightarrow> (WalBackedError + unit) \<times> WalBackedTablet \<times> disk" where
  "store_checkpoint X fault s dk =
     (case publish_checkpoint X fault s dk of
        (Inl e, dk') \<Rightarrow> (Inl e, s, dk')
      | (Inr _, dk') \<Rightarrow>
          (case reclaim_through (ex_hash X) (ex_record_from_json X) fault (mt_sequence (wb_tablet s)) (wb_wal s) (dk_wal dk') (dk_wal_tmp dk') of
             (r, w, file, temp) \<Rightarrow>
               (case r of Inl e \<Rightarrow> Inl (BackedWal e) | Inr _ \<Rightarrow> Inr (), s\<lparr>wb_wal := w\<rparr>,
                dk'\<lparr>dk_wal := file, dk_wal_tmp := temp\<rparr>)))"

end
