(* ===== verification/Db_Mvcc.thy ===== *)
theory Db_Mvcc
  imports Db_Store
begin

text \<open>
  The multi-version state against a plain map: the state after a sequence of batches, what a read at a snapshot returns,
  and which states a snapshot restores.
\<close>

subsection \<open>The state after a sequence of batches\<close>

definition tablet_of :: "TabletDescriptor \<Rightarrow> TabletMutation list list \<Rightarrow> MemoryTablet" where
  "tablet_of d bs = fold (\<lambda>b t. apply_mutations (mt_sequence t + 1) b t) bs (MemoryTablet_new d)"

lemma tablet_of_Nil [simp]: "tablet_of d [] = MemoryTablet_new d"
  by (simp add: tablet_of_def)

lemma tablet_of_snoc: "tablet_of d (bs @ [b]) = apply_mutations (mt_sequence (tablet_of d bs) + 1) b (tablet_of d bs)"
  by (simp add: tablet_of_def)

lemma tablet_of_fields [simp]:
  "mt_descriptor (tablet_of d bs) = d" "mt_sequence (tablet_of d bs) = of_nat (length bs)"
  by (induction bs rule: rev_induct) (auto simp: tablet_of_snoc apply_mutations_def MemoryTablet_new_def)

definition in_range :: "TabletDescriptor \<Rightarrow> TabletMutation list \<Rightarrow> bool" where
  "in_range d b \<longleftrightarrow> (\<forall>m \<in> set b. range_contains (td_range d) (mutation_key m))"

lemma in_range_check: "list_ex (\<lambda>m. \<not> range_contains (td_range d) (mutation_key m)) b \<longleftrightarrow> \<not> in_range d b"
  by (auto simp: in_range_def list_ex_iff)

lemma neg1_iff: "(x :: u64) = - 1 \<longleftrightarrow> x + 1 = 0"
  by (simp add: eq_neg_iff_add_eq_0)

lemma of_nat_Suc_zero: "n < 2 ^ 64 \<Longrightarrow> (of_nat n :: u64) + 1 = 0 \<longleftrightarrow> Suc n = 2 ^ 64"
proof -
  assume n: "n < 2 ^ 64"
  have "(of_nat n :: u64) + 1 = 0 \<longleftrightarrow> of_nat (Suc n) = (0 :: u64)" by (simp only: of_nat_Suc add.commute)
  also have "\<dots> \<longleftrightarrow> 2 ^ 64 dvd Suc n" by (simp only: word_of_nat_eq_0_iff) simp
  also have "\<dots> \<longleftrightarrow> Suc n = 2 ^ 64" using n by (auto dest!: dvd_imp_le)
  finally show ?thesis .
qed

lemma checked_succ_length: "Suc n < 2 ^ 64 \<Longrightarrow> checked_succ (of_nat n) = Some (of_nat (Suc n))"
  using of_nat_Suc_zero [of n] by (simp add: checked_succ_def neg1_iff add.commute)

lemma checked_succ_fits: "\<lbrakk>checked_succ (of_nat n) = Some s; n < 2 ^ 64\<rbrakk> \<Longrightarrow> Suc n < 2 ^ 64 \<and> s = of_nat (Suc n)"
  using of_nat_Suc_zero [of n] by (auto simp: checked_succ_def neg1_iff add.commute split: if_splits)

text \<open>Replay of the next batch, and commit of a write that is accepted, both give the state after one more batch.\<close>

lemma replay_next:
  assumes "Suc (length bs) < 2 ^ 64" "in_range d b"
  shows "replay_committed (of_nat (Suc (length bs))) (of_nat (length bs)) b (tablet_of d bs) = Inr (tablet_of d (bs @ [b]))"
  using assms by (simp add: replay_committed_def checked_succ_length in_range_check tablet_of_snoc add.commute)

lemma validate_next:
  assumes "validate_write (tablet_of d bs) w = Inr u" "length bs < 2 ^ 64"
  shows "Suc (length bs) < 2 ^ 64 \<and> in_range d (tw_mutations w) \<and> tw_tablet_id w = td_id d \<and> tw_epoch w = td_epoch d
    \<and> tw_previous w = of_nat (length bs) \<and> tw_sequence w = of_nat (Suc (length bs))"
proof -
  obtain s where s: "checked_succ (of_nat (length bs)) = Some s" "tw_sequence w = s"
    using assms(1) by (auto simp: validate_write_def Let_def split: if_splits option.splits)
  show ?thesis using assms(1) checked_succ_fits [OF s(1) assms(2)] s(2)
    by (auto simp: validate_write_def Let_def in_range_check not_less split: if_splits option.splits)
qed

lemma publish_next:
  "tw_sequence w = of_nat (Suc (length bs)) \<Longrightarrow> publish_validated w (tablet_of d bs) = (tw_sequence w, tablet_of d (bs @ [tw_mutations w]))"
  by (simp add: publish_validated_def tablet_of_snoc add.commute)

subsection \<open>Versions\<close>

fun mutation_value :: "TabletMutation \<Rightarrow> bytes option" where
  "mutation_value (Put _ value) = Some value"
| "mutation_value (Delete _) = None"

definition versions_at :: "(bytes \<times> VersionedValue list) list \<Rightarrow> bytes \<Rightarrow> VersionedValue list" where
  "versions_at rows key = (case map_of rows key of None \<Rightarrow> [] | Some vs \<Rightarrow> vs)"

definition batch_versions :: "u64 \<Rightarrow> TabletMutation list \<Rightarrow> bytes \<Rightarrow> VersionedValue list" where
  "batch_versions s b key =
     map (\<lambda>m. \<lparr>vv_sequence = s, vv_value = mutation_value m\<rparr>) (filter (\<lambda>m. mutation_key m = key) b)"

lemma apply_mutation_push: "apply_mutation s m rows = btree_push (mutation_key m) \<lparr>vv_sequence = s, vv_value = mutation_value m\<rparr> rows"
  by (cases m) auto

lemma versions_at_apply: "versions_at (fold (apply_mutation s) b rows) key = versions_at rows key @ batch_versions s b key"
proof (induction b arbitrary: rows)
  case (Cons m b)
  then show ?case
    by (auto simp: versions_at_def batch_versions_def apply_mutation_push map_of_btree_push split: option.split)
qed (simp add: batch_versions_def)

lemma versions_at_snoc:
  "versions_at (mt_rows (tablet_of d (bs @ [b]))) key =
   versions_at (mt_rows (tablet_of d bs)) key @ batch_versions (of_nat (Suc (length bs))) b key"
  by (simp add: tablet_of_snoc apply_mutations_def versions_at_apply add.commute)

lemma versions_at_Nil [simp]: "versions_at (mt_rows (MemoryTablet_new d)) key = []"
  by (simp add: versions_at_def MemoryTablet_new_def)

lemma versions_bounded:
  assumes "length bs < 2 ^ 64" "v \<in> set (versions_at (mt_rows (tablet_of d bs)) key)"
  shows "0 < unat (vv_sequence v) \<and> unat (vv_sequence v) \<le> length bs"
  using assms
proof (induction bs rule: rev_induct)
  case (snoc b bs)
  then show ?case by (auto simp: versions_at_snoc batch_versions_def unat_of_nat simp del: of_nat_Suc)
qed simp

subsection \<open>Reading\<close>

text \<open>The plain map after a sequence of mutations.\<close>

fun mutate :: "TabletMutation \<Rightarrow> (bytes \<Rightarrow> bytes option) \<Rightarrow> (bytes \<Rightarrow> bytes option)" where
  "mutate (Put key value) m = m(key \<mapsto> value)"
| "mutate (Delete key) m = m(key := None)"

definition contents :: "TabletMutation list \<Rightarrow> bytes \<Rightarrow> bytes option" where
  "contents ms = fold mutate ms (\<lambda>_. None)"

definition version_read :: "nat \<Rightarrow> VersionedValue list \<Rightarrow> bytes option" where
  "version_read s vs = Option.bind (find (\<lambda>v. unat (vv_sequence v) \<le> s) (rev vs)) vv_value"

lemma version_read_Nil [simp]: "version_read s [] = None"
  by (simp add: version_read_def)

lemma version_read_snoc:
  "version_read s (vs @ [v]) = (if unat (vv_sequence v) \<le> s then vv_value v else version_read s vs)"
  by (simp add: version_read_def)

lemma version_read_later:
  assumes "\<not> unat q \<le> s"
  shows "version_read s (vs @ batch_versions q b key) = version_read s vs"
  using assms by (induction b rule: rev_induct) (auto simp: batch_versions_def version_read_snoc append_assoc [symmetric] simp del: append_assoc)

lemma mutate_value: "mutate m f key = (if mutation_key m = key then mutation_value m else f key)"
  by (cases m) auto

lemma version_read_batch:
  assumes "unat q \<le> s"
  shows "version_read s (vs @ batch_versions q b key) = fold mutate b (\<lambda>_. version_read s vs) key"
proof (induction b rule: rev_induct)
  case (snoc m b)
  then show ?case using assms
    by (auto simp: batch_versions_def mutate_value version_read_snoc append_assoc [symmetric] simp del: append_assoc)
qed (simp add: batch_versions_def)

lemma fold_mutate_cong: "f key = g key \<Longrightarrow> fold mutate b f key = fold mutate b g key"
proof (induction b rule: rev_induct)
  case (snoc m b)
  then show ?case by (simp add: mutate_value)
qed simp

lemma version_read_contents:
  assumes "length bs < 2 ^ 64"
  shows "version_read s (versions_at (mt_rows (tablet_of d bs)) key) = contents (concat (take s bs)) key"
  using assms
proof (induction bs arbitrary: s rule: rev_induct)
  case (snoc b bs)
  let ?q = "of_nat (Suc (length bs)) :: u64"
  have q: "unat ?q = Suc (length bs)" using snoc.prems by (simp add: unat_of_nat del: of_nat_Suc)
  show ?case
  proof (cases "Suc (length bs) \<le> s")
    case False
    then show ?thesis using snoc version_read_later [of ?q s] q by (simp add: versions_at_snoc del: of_nat_Suc)
  next
    case True
    then have "version_read s (versions_at (mt_rows (tablet_of d (bs @ [b]))) key)
        = fold mutate b (\<lambda>_. version_read s (versions_at (mt_rows (tablet_of d bs)) key)) key"
      using version_read_batch [of ?q s] q by (simp add: versions_at_snoc del: of_nat_Suc)
    also have "\<dots> = fold mutate b (contents (concat bs)) key"
      by (rule fold_mutate_cong) (use snoc True in simp)
    finally show ?thesis using True by (simp add: contents_def)
  qed
qed (simp add: contents_def)

text \<open>
  After any sequence of batches, a read at a snapshot that is committed returns for every key of the tablet what the plain
  map holds after the first so many batches; later batches do not change it.
\<close>

lemma read_at_tablet_of:
  assumes "length bs < 2 ^ 64"
  shows "read_at (tablet_of d bs) key snapshot =
    (if unat snapshot > length bs then Inl (SnapshotAhead (of_nat (length bs)) snapshot)
     else if \<not> range_contains (td_range d) key then Inl KeyOutsideTabletRange
     else Inr (contents (concat (take (unat snapshot) bs)) key))"
proof -
  have "snapshot > of_nat (length bs) \<longleftrightarrow> unat snapshot > length bs"
    using assms by (simp add: word_less_nat_alt unat_of_nat)
  moreover have "Option.bind (map_of (mt_rows (tablet_of d bs)) key)
      (\<lambda>vs. Option.bind (find (\<lambda>v. vv_sequence v \<le> snapshot) (rev vs)) vv_value)
      = version_read (unat snapshot) (versions_at (mt_rows (tablet_of d bs)) key)"
    by (auto simp: versions_at_def version_read_def word_le_nat_alt split: option.split)
  ultimately show ?thesis using version_read_contents [OF assms] by (simp add: read_at_def)
qed

subsection \<open>Restoring a snapshot\<close>

definition single_keys :: "TabletMutation list list \<Rightarrow> bool" where
  "single_keys bs \<longleftrightarrow> (\<forall>b \<in> set bs. distinct (map mutation_key b))"

lemma versions_ok_iff:
  "versions_ok c p vs \<longleftrightarrow> sorted_wrt (<) (map vv_sequence vs)
     \<and> (\<forall>v \<in> set vs. vv_sequence v \<noteq> 0 \<and> vv_sequence v \<le> c \<and> p < vv_sequence v)"
  by (induction c p vs rule: versions_ok.induct) (auto simp: not_le not_less dest: order_less_trans)

lemma batch_versions_single:
  "distinct (map mutation_key b) \<Longrightarrow> length (batch_versions q b key) \<le> 1"
  by (induction b) (auto simp: batch_versions_def filter_empty_conv image_iff)

lemma versions_sorted:
  assumes "length bs < 2 ^ 64" "single_keys bs"
  shows "sorted_wrt (<) (map vv_sequence (versions_at (mt_rows (tablet_of d bs)) key))"
  using assms
proof (induction bs rule: rev_induct)
  case (snoc b bs)
  let ?q = "of_nat (Suc (length bs)) :: u64" and ?vs = "versions_at (mt_rows (tablet_of d bs)) key"
  have q: "unat ?q = Suc (length bs)" using snoc.prems by (simp add: unat_of_nat del: of_nat_Suc)
  have "vv_sequence v < ?q" if "v \<in> set ?vs" for v
    using versions_bounded [OF _ that] snoc.prems(1) q by (simp add: word_less_nat_alt del: of_nat_Suc)
  moreover have "batch_versions ?q b key = [] \<or> (\<exists>v. batch_versions ?q b key = [v] \<and> vv_sequence v = ?q)"
    using batch_versions_single [of b ?q key] snoc.prems(2)
    by (cases "batch_versions ?q b key") (auto simp: batch_versions_def single_keys_def simp del: of_nat_Suc)
  moreover have "sorted_wrt (<) (map vv_sequence ?vs)" using snoc by (simp add: single_keys_def)
  ultimately show ?case by (auto simp: versions_at_snoc sorted_wrt_append simp del: of_nat_Suc)
qed simp

lemma rows_wf: "btree_wf (mt_rows (tablet_of d bs))"
proof (induction bs rule: rev_induct)
  case (snoc b bs)
  have "btree_wf rows \<Longrightarrow> btree_wf (fold (apply_mutation s) b rows)" for s rows
    by (induction b arbitrary: rows) (simp_all add: apply_mutation_push)
  with snoc show ?case by (simp add: tablet_of_snoc apply_mutations_def)
qed (simp add: MemoryTablet_new_def)

lemma rows_keys: "fst ` set (mt_rows (tablet_of d bs)) = (\<Union>b \<in> set bs. mutation_key ` set b)"
proof (induction bs rule: rev_induct)
  case (snoc b bs)
  have "fst ` set (fold (apply_mutation s) b rows) = fst ` set rows \<union> mutation_key ` set b" for s rows
    by (induction b arbitrary: rows) (auto simp: apply_mutation_push keys_btree_push)
  with snoc show ?case by (auto simp: tablet_of_snoc apply_mutations_def)
qed (simp add: MemoryTablet_new_def)

lemma restore_rows_sorted:
  assumes "btree_wf (rows @ m)" "\<forall>(key, vs) \<in> set m. range_contains (td_range d) key \<and> versions_ok c 0 vs"
  shows "restore_rows d c (map (\<lambda>(key, vs). \<lparr>sr_key = key, sr_versions = vs\<rparr>) m) rows = Inr (rows @ m)"
  using assms
proof (induction m arbitrary: rows)
  case (Cons kv m)
  obtain key vs where kv: "kv = (key, vs)" by (cases kv)
  have below: "\<forall>k' \<in> fst ` set rows. k' < key" using Cons.prems(1) kv by (auto simp: sorted_wrt_append)
  then have "map_of rows key = None" by (auto simp: map_of_eq_None_iff)
  with Cons.IH [of "rows @ [kv]"] Cons.prems kv below show ?case by (simp add: btree_insert_last)
qed simp

lemma versions_at_row: "\<lbrakk>btree_wf m; (key, vs) \<in> set m\<rbrakk> \<Longrightarrow> versions_at m key = vs"
  by (simp add: versions_at_def btree_wf_distinct)

lemma restore_tablet:
  assumes "length bs < 2 ^ 64" "single_keys bs" "\<forall>b \<in> set bs. in_range d b"
  shows "restore_snapshot d (snapshot_state (tablet_of d' bs)) = Inr (tablet_of d bs)"
proof -
  have same: "mt_rows (tablet_of d' bs) = mt_rows (tablet_of d bs)"
    by (induction bs rule: rev_induct) (simp_all add: tablet_of_snoc apply_mutations_def MemoryTablet_new_def)
  let ?m = "mt_rows (tablet_of d bs)"
  have "range_contains (td_range d) key \<and> versions_ok (of_nat (length bs)) 0 vs" if "(key, vs) \<in> set ?m" for key vs
  proof -
    have vs: "vs = versions_at ?m key" using versions_at_row [OF rows_wf that] by simp
    have "key \<in> fst ` set ?m" using that by force
    then have "range_contains (td_range d) key" using assms(3) by (auto simp: rows_keys in_range_def)
    moreover have "vv_sequence v \<noteq> 0 \<and> vv_sequence v \<le> of_nat (length bs) \<and> 0 < vv_sequence v" if "v \<in> set vs" for v
      using versions_bounded [OF assms(1), of v d key] that vs assms(1)
      by (auto simp: word_le_nat_alt word_less_nat_alt unat_of_nat)
    ultimately show ?thesis using versions_sorted [OF assms(1,2), of d key] vs by (simp add: versions_ok_iff)
  qed
  then have "restore_rows d (of_nat (length bs)) (map (\<lambda>(key, vs). \<lparr>sr_key = key, sr_versions = vs\<rparr>) ?m) [] = Inr ?m"
    using restore_rows_sorted [of "[]" ?m d "of_nat (length bs)"] rows_wf [of d bs] by auto
  then show ?thesis by (simp add: restore_snapshot_def snapshot_state_def same)
qed

text \<open>A batch that names a key twice leaves two versions with one sequence number, which no snapshot restores.\<close>

lemma versions_repeated:
  assumes "b \<in> set bs" "\<not> distinct (map mutation_key b)"
  shows "\<exists>key. \<not> distinct (map vv_sequence (versions_at (mt_rows (tablet_of d bs)) key))"
  using assms(1)
proof (induction bs rule: rev_induct)
  case (snoc b' bs)
  show ?case
  proof (cases "b \<in> set bs")
    case True
    then show ?thesis using snoc by (force simp: versions_at_snoc simp del: of_nat_Suc)
  next
    case False
    with snoc.prems have "b' = b" by simp
    obtain xs ys zs key where "map mutation_key b = xs @ [key] @ ys @ [key] @ zs"
      using not_distinct_decomp [OF assms(2)] by blast
    then have "2 \<le> length (filter (\<lambda>k. k = key) (map mutation_key b))" by simp
    then have "2 \<le> length (filter (\<lambda>m. mutation_key m = key) b)" by (simp add: filter_map comp_def)
    then have "\<not> distinct (map vv_sequence (batch_versions q b key))" for q
      by (cases "filter (\<lambda>m. mutation_key m = key) b" rule: remdups_adj.cases) (auto simp: batch_versions_def)
    then show ?thesis using \<open>b' = b\<close> by (auto simp: versions_at_snoc simp del: of_nat_Suc)
  qed
qed simp

lemma restore_rows_bad:
  assumes "\<forall>row \<in> set rs. range_contains (td_range d) (sr_key row)" "\<exists>row \<in> set rs. \<not> versions_ok c 0 (sr_versions row)"
  shows "restore_rows d c rs rows = Inl InvalidSnapshotHistory"
  using assms by (induction d c rs rows rule: restore_rows.induct) auto

lemma restore_repeated:
  assumes "b \<in> set bs" "\<not> distinct (map mutation_key b)" "\<forall>b \<in> set bs. in_range d b"
  shows "restore_snapshot d (snapshot_state (tablet_of d' bs)) = Inl InvalidSnapshotHistory"
proof -
  let ?m = "mt_rows (tablet_of d' bs)"
  obtain key where key: "\<not> distinct (map vv_sequence (versions_at ?m key))" using versions_repeated [OF assms(1,2)] by blast
  then obtain vs where vs: "map_of ?m key = Some vs" "versions_at ?m key = vs"
    by (cases "map_of ?m key") (auto simp: versions_at_def)
  have "\<not> versions_ok c 0 vs" for c
    using key vs by (auto simp: versions_ok_iff strict_sorted_iff)
  moreover have "(key, vs) \<in> set ?m" using vs(1) by (rule map_of_SomeD)
  moreover have "range_contains (td_range d) k" if "k \<in> fst ` set ?m" for k
    using that assms(3) by (auto simp: rows_keys in_range_def)
  ultimately have "restore_rows d (mt_sequence (tablet_of d' bs)) (map (\<lambda>(key, vs). \<lparr>sr_key = key, sr_versions = vs\<rparr>) ?m) []
      = Inl InvalidSnapshotHistory"
    by (intro restore_rows_bad) force+
  then show ?thesis by (simp add: restore_snapshot_def snapshot_state_def)
qed

end
