(* ===== verification/Db_Recovery.thy ===== *)
theory Db_Recovery
  imports Db_Mvcc "HOL-Library.Sublist"
begin

text \<open>
  What the files of a tablet hold, and that opening them finds it: decoding of headers and frames, the scan of a log that
  ends in a torn frame, loading a checkpoint, and recovery from both.
\<close>

subsection \<open>The external libraries\<close>

text \<open>What is relied on: a hash has 32 bytes, and decoding what was encoded gives the value back.\<close>

definition codec_ok :: "externals \<Rightarrow> bool" where
  "codec_ok X \<longleftrightarrow> (\<forall>x. length (ex_hash X x) = 32)
     \<and> (\<forall>r p. ex_record_to_json X r = Some p \<longrightarrow> ex_record_from_json X p = Some r)
     \<and> (\<forall>c p. ex_checkpoint_to_json X c = Some p \<longrightarrow> ex_checkpoint_from_json X p = Some c)"

named_theorems db_sizes

declare WAL_MAGIC_def [db_sizes] WAL_FRAME_MAGIC_def [db_sizes] WAL_HEADER_PREFIX_BYTES_def [db_sizes]
  WAL_HEADER_BYTES_def [db_sizes] WAL_FRAME_PREFIX_BYTES_def [db_sizes] WAL_FRAME_HEADER_BYTES_def [db_sizes]
  CHECKPOINT_MAGIC_def [db_sizes]

lemma take_drop_app:
  "length xs = n \<Longrightarrow> take n (xs @ ys) = xs" "length xs = n \<Longrightarrow> drop n (xs @ ys) = ys"
  by auto

lemma unat_length_u32: "n < 2 ^ 32 \<Longrightarrow> unat (of_nat n :: u32) = n"
  by (simp add: unat_of_nat)

subsection \<open>Frames\<close>

lemma length_frame_header: "length (H (WAL_FRAME_MAGIC @ to_le 2 WAL_FRAME_VERSION @ to_le 4 n)) = 32 \<Longrightarrow>
  length (encode_frame_header H n) = WAL_FRAME_HEADER_BYTES"
  by (simp add: encode_frame_header_def Let_def db_sizes)

lemma decode_encode_frame_header:
  assumes "n \<le> MAX_WAL_RECORD_BYTES"
  shows "decode_frame_header H (encode_frame_header H (of_nat n)) offset = Inr n"
proof -
  let ?p = "WAL_FRAME_MAGIC @ to_le 2 WAL_FRAME_VERSION @ to_le 4 (of_nat n :: u32)"
  have m: "length WAL_FRAME_MAGIC = 4" and p: "length ?p = 10" by (simp_all add: db_sizes)
  have e: "encode_frame_header H (of_nat n) = ?p @ H ?p" by (simp add: encode_frame_header_def)
  have "take 4 (?p @ H ?p) = WAL_FRAME_MAGIC" using m by simp
  moreover have "take 2 (drop 4 (?p @ H ?p)) = to_le 2 WAL_FRAME_VERSION" using m by simp
  moreover have "take 4 (drop 6 (?p @ H ?p)) = to_le 4 (of_nat n :: u32)" using m by simp
  moreover have "take 10 (?p @ H ?p) = ?p" "drop 10 (?p @ H ?p) = H ?p" using p by (simp_all only: take_drop_app)
  moreover have "unat (of_nat n :: u32) = n" using assms by (intro unat_length_u32) (simp add: MAX_WAL_RECORD_BYTES_def)
  ultimately show ?thesis using assms
    by (simp only: e decode_frame_header_def Let_def WAL_FRAME_PREFIX_BYTES_def from_le_to_le) simp
qed

text \<open>The frame of a record, and the records that have one.\<close>

definition frame :: "externals \<Rightarrow> WalRecord \<Rightarrow> bytes" where
  "frame X r = (case ex_record_to_json X (to_disk r) of Some p \<Rightarrow> append_frame (ex_hash X) p | None \<Rightarrow> [])"

definition fits :: "externals \<Rightarrow> WalRecord \<Rightarrow> bool" where
  "fits X r \<longleftrightarrow> (\<exists>p. ex_record_to_json X (to_disk r) = Some p \<and> length p \<le> MAX_WAL_RECORD_BYTES)"

definition frames :: "externals \<Rightarrow> WalRecord list \<Rightarrow> bytes" where
  "frames X rs = concat (map (frame X) rs)"

lemma frames_simps [simp]:
  "frames X [] = []" "frames X (r # rs) = frame X r @ frames X rs" "frames X (rs @ rs') = frames X rs @ frames X rs'"
  by (simp_all add: frames_def)

lemma from_disk_to_disk:
  "\<lbrakk>wr_tablet_id r \<noteq> 0; wr_epoch r \<noteq> 0\<rbrakk> \<Longrightarrow> from_disk (to_disk r) offset = Inr r"
  by (simp add: from_disk_def to_disk_def TabletId_new_def)

text \<open>The state of a log opened with a header and records.\<close>

definition wal_of :: "externals \<Rightarrow> u64 \<Rightarrow> TabletId option \<Rightarrow> u64 option \<Rightarrow> WalRecord list \<Rightarrow> FileWal" where
  "wal_of X base tab ep rs =
     \<lparr>fw_records = rs, fw_ends = map (\<lambda>i. of_nat (WAL_HEADER_BYTES + length (frames X (take (Suc i) rs)))) [0..<length rs],
      fw_base = base, fw_tablet = (if rs = [] then tab else Some (wr_tablet_id (last rs))),
      fw_epoch = (if rs = [] then ep else Some (wr_epoch (last rs))), fw_poisoned = False\<rparr>"

definition log_end :: "externals \<Rightarrow> WalRecord list \<Rightarrow> nat" where
  "log_end X rs = WAL_HEADER_BYTES + length (frames X rs)"

lemma wal_of_snoc:
  "wal_of X base tab ep (rs @ [r]) = (wal_of X base tab ep rs)\<lparr>fw_tablet := Some (wr_tablet_id r), fw_epoch := Some (wr_epoch r),
     fw_records := fw_records (wal_of X base tab ep rs) @ [r],
     fw_ends := fw_ends (wal_of X base tab ep rs) @ [of_nat (log_end X (rs @ [r]))]\<rparr>"
  by (simp add: wal_of_def log_end_def)

lemma frame_parts:
  assumes "codec_ok X" "fits X r"
  obtains p where "ex_record_to_json X (to_disk r) = Some p" "ex_record_from_json X p = Some (to_disk r)"
    "length p \<le> MAX_WAL_RECORD_BYTES" "length (ex_hash X p) = 32"
    "frame X r = encode_frame_header (ex_hash X) (of_nat (length p)) @ p @ ex_hash X p"
    "length (encode_frame_header (ex_hash X) (of_nat (length p))) = WAL_FRAME_HEADER_BYTES"
  using assms by (auto simp: fits_def codec_ok_def frame_def append_frame_def length_frame_header)

lemma length_frame: "\<lbrakk>codec_ok X; fits X r\<rbrakk> \<Longrightarrow> 74 \<le> length (frame X r)"
  by (erule (1) frame_parts) (simp add: db_sizes)

text \<open>The scan takes a complete record in, and stops at one that is torn.\<close>

lemma scan_record:
  assumes X: "codec_ok X" "fits X r" and r: "wr_tablet_id r \<noteq> 0" "wr_epoch r \<noteq> 0"
    and chain: "validate_record_chain r (fw_tablet w) (fw_epoch w) (last_sequence w) (of_nat n) = Inr ()"
  shows "scan (ex_hash X) (ex_record_from_json X) (frame X r @ rest) n w =
    scan (ex_hash X) (ex_record_from_json X) rest (n + length (frame X r))
      (w\<lparr>fw_tablet := Some (wr_tablet_id r), fw_epoch := Some (wr_epoch r), fw_records := fw_records w @ [r],
         fw_ends := fw_ends w @ [of_nat (n + length (frame X r))]\<rparr>)"
proof -
  obtain p where p: "ex_record_from_json X p = Some (to_disk r)" "length p \<le> MAX_WAL_RECORD_BYTES" "length (ex_hash X p) = 32"
    and f: "frame X r = encode_frame_header (ex_hash X) (of_nat (length p)) @ p @ ex_hash X p"
    and h: "length (encode_frame_header (ex_hash X) (of_nat (length p))) = WAL_FRAME_HEADER_BYTES"
    using X by (rule frame_parts)
  let ?rest = "encode_frame_header (ex_hash X) (of_nat (length p)) @ p @ ex_hash X p @ rest"
  have "take WAL_FRAME_HEADER_BYTES ?rest = encode_frame_header (ex_hash X) (of_nat (length p))"
    and "drop WAL_FRAME_HEADER_BYTES ?rest = p @ ex_hash X p @ rest"
    using h by (simp_all only: take_drop_app)
  moreover have "ex_hash X p \<noteq> []" using p(3) by auto
  moreover have "\<not> length ?rest < WAL_FRAME_HEADER_BYTES" using h by simp
  moreover have "n + length (frame X r) = n + WAL_FRAME_HEADER_BYTES + length p + 32" using f h p(3) by simp
  ultimately show ?thesis
    using p r chain f by (subst scan.simps) (simp add: decode_encode_frame_header from_disk_to_disk Let_def add.assoc)
qed

definition torn :: "externals \<Rightarrow> bytes \<Rightarrow> bool" where
  "torn X tail \<longleftrightarrow> tail = [] \<or> (\<exists>r. fits X r \<and> strict_prefix tail (frame X r))"

lemma scan_torn_frame:
  assumes X: "codec_ok X" "fits X r" and tail: "strict_prefix tail (frame X r)"
  shows "scan (ex_hash X) (ex_record_from_json X) tail n w = Inr (w, if tail = [] then None else Some n)"
proof -
  obtain p where p: "length p \<le> MAX_WAL_RECORD_BYTES" "length (ex_hash X p) = 32"
    and f: "frame X r = encode_frame_header (ex_hash X) (of_nat (length p)) @ p @ ex_hash X p"
    and h: "length (encode_frame_header (ex_hash X) (of_nat (length p))) = WAL_FRAME_HEADER_BYTES"
    using X by (rule frame_parts)
  have len: "length tail < WAL_FRAME_HEADER_BYTES + length p + 32" using prefix_length_less [OF tail] f h p(2) by simp
  show ?thesis
  proof (cases "length tail < WAL_FRAME_HEADER_BYTES")
    case True
    then show ?thesis by (subst scan.simps) simp
  next
    case False
    have "take WAL_FRAME_HEADER_BYTES tail = take WAL_FRAME_HEADER_BYTES (frame X r)"
      using tail False by (auto simp: strict_prefix_def prefix_def)
    then have "take WAL_FRAME_HEADER_BYTES tail = encode_frame_header (ex_hash X) (of_nat (length p))"
      using f h by simp
    with False p len show ?thesis
      by (subst scan.simps) (auto simp: decode_encode_frame_header Let_def min_def WAL_FRAME_HEADER_BYTES_def)
  qed
qed

lemma scan_torn:
  "\<lbrakk>codec_ok X; torn X tail\<rbrakk> \<Longrightarrow> scan (ex_hash X) (ex_record_from_json X) tail n w = Inr (w, if tail = [] then None else Some n)"
  using scan_torn_frame [of X _ tail n w] scan.simps [of _ _ "[]"] by (auto simp: torn_def)

subsection \<open>Logs\<close>

text \<open>
  Records that follow a header with a base sequence number \<open>n\<close> and an epoch \<open>e\<close>, for the owner of the descriptor: numbered
  without a gap, epochs not decreasing and at most the owner's.
\<close>

fun log_ok :: "externals \<Rightarrow> TabletDescriptor \<Rightarrow> u64 \<Rightarrow> nat \<Rightarrow> WalRecord list \<Rightarrow> bool" where
  "log_ok X d e n [] \<longleftrightarrow> e \<le> td_epoch d"
| "log_ok X d e n (r # rs) \<longleftrightarrow> fits X r \<and> wr_tablet_id r = td_id d \<and> wr_epoch r \<noteq> 0 \<and> e \<le> wr_epoch r
     \<and> wr_previous r = of_nat n \<and> wr_sequence r = of_nat (Suc n) \<and> Suc n < 2 ^ 64 \<and> in_range d (wr_mutations r)
     \<and> log_ok X d (wr_epoch r) (Suc n) rs"

definition head_ok :: "TabletDescriptor \<Rightarrow> nat \<Rightarrow> TabletId option \<Rightarrow> u64 option \<Rightarrow> bool" where
  "head_ok d n tab ep \<longleftrightarrow> td_id d \<noteq> 0 \<and> td_epoch d \<noteq> 0 \<and> n < 2 ^ 64 \<and> (tab = None \<or> tab = Some (td_id d)) \<and> ep \<noteq> Some 0
     \<and> (n = 0 \<or> tab \<noteq> None \<and> ep \<noteq> None)"

definition epoch_or_0 :: "u64 option \<Rightarrow> u64" where
  "epoch_or_0 ep = (case ep of Some e \<Rightarrow> e | None \<Rightarrow> 0)"

definition last_epoch :: "u64 \<Rightarrow> WalRecord list \<Rightarrow> u64" where
  "last_epoch e rs = (if rs = [] then e else wr_epoch (last rs))"

lemma log_ok_epoch: "log_ok X d e n rs \<Longrightarrow> e \<le> td_epoch d"
  by (induction X d e n rs rule: log_ok.induct) auto

lemma log_ok_append:
  "log_ok X d e n (rs @ rs') \<longleftrightarrow> log_ok X d e n rs \<and> log_ok X d (last_epoch e rs) (n + length rs) rs'"
proof (induction rs arbitrary: e n)
  case Nil
  show ?case using log_ok_epoch [of X d e n rs'] by (auto simp: last_epoch_def)
next
  case (Cons r rs)
  then show ?case by (auto simp: last_epoch_def)
qed

lemma wal_of_fields [simp]:
  "fw_base (wal_of X base tab ep rs) = base" "fw_records (wal_of X base tab ep rs) = rs" "\<not> fw_poisoned (wal_of X base tab ep rs)"
  by (simp_all add: wal_of_def)

lemma log_ok_last:
  "\<lbrakk>log_ok X d e n rs; rs \<noteq> []\<rbrakk> \<Longrightarrow> wr_sequence (last rs) = of_nat (n + length rs) \<and> wr_tablet_id (last rs) = td_id d \<and> wr_epoch (last rs) \<noteq> 0
    \<and> wr_epoch (last rs) \<le> td_epoch d"
  by (cases rs rule: rev_cases) (auto simp: log_ok_append last_epoch_def add.commute)

lemma last_sequence_wal_of:
  "log_ok X d e n rs \<Longrightarrow> last_sequence (wal_of X (of_nat n) tab ep rs) = of_nat (n + length rs)"
  using log_ok_last [of X d e n rs] by (auto simp: last_sequence_def)

lemma wal_of_tablet: "\<lbrakk>head_ok d n tab ep; log_ok X d e n rs\<rbrakk> \<Longrightarrow> fw_tablet (wal_of X base tab ep rs) \<in> {None, Some (td_id d)}"
  using log_ok_last [of X d e n rs] by (auto simp: wal_of_def head_ok_def)

lemma wal_of_epoch: "epoch_or_0 (fw_epoch (wal_of X base tab ep rs)) = last_epoch (epoch_or_0 ep) rs"
  by (simp add: wal_of_def last_epoch_def epoch_or_0_def)

lemma log_ok_chain:
  assumes "head_ok d n tab ep" "log_ok X d (epoch_or_0 ep) n (rs @ [r])"
  shows "validate_record_chain r (fw_tablet (wal_of X (of_nat n) tab ep rs)) (fw_epoch (wal_of X (of_nat n) tab ep rs))
    (last_sequence (wal_of X (of_nat n) tab ep rs)) offset = Inr ()"
proof -
  let ?w = "wal_of X (of_nat n) tab ep rs"
  have rs: "log_ok X d (epoch_or_0 ep) n rs" and r: "wr_tablet_id r = td_id d" "last_epoch (epoch_or_0 ep) rs \<le> wr_epoch r"
    "wr_previous r = of_nat (n + length rs)" "wr_sequence r = of_nat (Suc (n + length rs))" "Suc (n + length rs) < 2 ^ 64"
    using assms(2) by (simp_all add: log_ok_append del: of_nat_add of_nat_Suc)
  have "fw_tablet ?w \<in> {None, Some (td_id d)}" using assms(1) rs by (rule wal_of_tablet)
  moreover have "fw_epoch ?w \<noteq> None \<longrightarrow> \<not> wr_epoch r < the (fw_epoch ?w)"
    using wal_of_epoch [of X "of_nat n" tab ep rs] r(2) by (auto simp: epoch_or_0_def not_less split: option.splits)
  ultimately show ?thesis
    using r last_sequence_wal_of [OF rs] checked_succ_length [OF r(5)]
    by (auto simp: validate_record_chain_def simp del: of_nat_Suc of_nat_add)
qed

lemma scan_log:
  assumes "codec_ok X" "head_ok d n tab ep" "log_ok X d (epoch_or_0 ep) n (rs @ rs')" "torn X tail"
  shows "scan (ex_hash X) (ex_record_from_json X) (frames X rs' @ tail) (log_end X rs) (wal_of X (of_nat n) tab ep rs) =
    Inr (wal_of X (of_nat n) tab ep (rs @ rs'), if tail = [] then None else Some (log_end X (rs @ rs')))"
  using assms(3)
proof (induction rs' arbitrary: rs)
  case Nil
  show ?case using scan_torn [OF assms(1,4)] by simp
next
  case (Cons q rs')
  have ok: "log_ok X d (epoch_or_0 ep) n (rs @ [q])"
    using Cons.prems log_ok_append [of X d _ n "rs @ [q]" rs'] by simp
  then have q: "fits X q" "wr_tablet_id q \<noteq> 0" "wr_epoch q \<noteq> 0"
    using assms(2) by (simp_all add: log_ok_append head_ok_def)
  have "log_end X rs + length (frame X q) = log_end X (rs @ [q])" by (simp add: log_end_def)
  with scan_record [OF assms(1) q log_ok_chain [OF assms(2) ok], of "frames X rs' @ tail" "log_end X rs"]
    Cons.IH [of "rs @ [q]"] Cons.prems
  show ?case by (simp add: wal_of_snoc)
qed

subsection \<open>Opening\<close>

definition header :: "externals \<Rightarrow> nat \<Rightarrow> TabletId option \<Rightarrow> u64 option \<Rightarrow> bytes" where
  "header X n tab ep = encode_wal_header (ex_hash X) (of_nat n) tab ep"

lemma length_header: "codec_ok X \<Longrightarrow> length (header X n tab ep) = WAL_HEADER_BYTES"
  by (simp add: header_def encode_wal_header_def Let_def codec_ok_def db_sizes)

lemma four_slices:
  assumes "length m = 8" "length a = 8" "length b = 8" "length c = 8"
  shows "take 8 ((m @ a @ b @ c) @ h) = m" "take 8 (drop 8 ((m @ a @ b @ c) @ h)) = a"
    "take 8 (drop 16 ((m @ a @ b @ c) @ h)) = b" "take 8 (drop 24 ((m @ a @ b @ c) @ h)) = c"
    "take 32 ((m @ a @ b @ c) @ h) = m @ a @ b @ c" "drop 32 ((m @ a @ b @ c) @ h) = h"
  using assms by simp_all

lemma decode_header:
  assumes "codec_ok X" "head_ok d n tab ep"
  shows "decode_wal_header (ex_hash X) (header X n tab ep) = Inr (of_nat n, tab, ep)"
proof -
  let ?t = "case tab of Some i \<Rightarrow> i | None \<Rightarrow> 0" and ?e = "case ep of Some e \<Rightarrow> e | None \<Rightarrow> 0"
  let ?p = "WAL_MAGIC @ to_le 8 (of_nat n :: u64) @ to_le 8 ?t @ to_le 8 ?e"
  have e: "header X n tab ep = ?p @ ex_hash X ?p" by (simp add: header_def encode_wal_header_def)
  have m: "length WAL_MAGIC = 8" by (simp add: db_sizes)
  note sl = four_slices [OF m length_to_le length_to_le length_to_le]
  have "(if ?t = 0 then None else Some ?t) = tab" "(if ?e = 0 then None else Some ?e) = ep"
    using assms(2) by (auto simp: head_ok_def split: option.splits)
  moreover have "\<not> (of_nat n > (0 :: u64) \<and> (tab = None \<or> ep = None))" using assms(2) by (auto simp: head_ok_def)
  ultimately show ?thesis
    by (simp only: e decode_wal_header_def Let_def WAL_HEADER_PREFIX_BYTES_def sl from_le_to_le if_False simp_thms)
qed

lemma open_log:
  assumes "codec_ok X" "head_ok d n tab ep" "log_ok X d (epoch_or_0 ep) n rs" "torn X tail"
  shows "wal_open (ex_hash X) (ex_record_from_json X) fault existed (header X n tab ep @ frames X rs @ tail) =
    (if fails fault IoOpen \<or> fails fault IoRead then (Inl WalIo, header X n tab ep @ frames X rs @ tail)
     else if tail = [] then (Inr (wal_of X (of_nat n) tab ep rs), header X n tab ep @ frames X rs)
     else if fails fault IoSetLen then (Inl WalIo, header X n tab ep @ frames X rs @ tail)
     else if fails fault IoSync then (Inl WalIo, header X n tab ep @ frames X rs)
     else (Inr (wal_of X (of_nat n) tab ep rs), header X n tab ep @ frames X rs))"
proof -
  let ?f = "header X n tab ep @ frames X rs @ tail"
  have l: "length (header X n tab ep) = WAL_HEADER_BYTES" using assms(1) by (rule length_header)
  have t: "take WAL_HEADER_BYTES ?f = header X n tab ep" "drop WAL_HEADER_BYTES ?f = frames X rs @ tail"
    using l by (simp_all only: take_drop_app)
  have "?f \<noteq> []" using l by (auto simp: db_sizes)
  have s: "scan (ex_hash X) (ex_record_from_json X) (frames X rs @ tail) WAL_HEADER_BYTES
      \<lparr>fw_records = [], fw_ends = [], fw_base = of_nat n, fw_tablet = tab, fw_epoch = ep, fw_poisoned = False\<rparr>
    = Inr (wal_of X (of_nat n) tab ep rs, if tail = [] then None else Some (log_end X rs))"
    using scan_log [of X d n tab ep "[]" rs tail] assms by (simp add: wal_of_def log_end_def)
  have e: "take (log_end X rs) ?f = header X n tab ep @ frames X rs" using l by (simp add: log_end_def)
  show ?thesis
    unfolding wal_open_def open_existing_def t decode_header [OF assms(1,2)]
    using l \<open>?f \<noteq> []\<close> s e by (auto simp: truncate_crash_tail_def)
qed

subsection \<open>Replay\<close>

lemma log_ok_bound: "\<lbrakk>log_ok X d e n rs; n < 2 ^ 64\<rbrakk> \<Longrightarrow> n + length rs < 2 ^ 64"
  by (induction X d e n rs rule: log_ok.induct) auto

lemma replay_log:
  assumes "log_ok X d e (length bs) rs"
  shows "replay_records rs (tablet_of d bs) = Inr (tablet_of d (bs @ map wr_mutations rs))"
  using assms
proof (induction rs arbitrary: e bs)
  case (Cons r rs)
  then have "replay_committed (wr_sequence r) (wr_previous r) (wr_mutations r) (tablet_of d bs) = Inr (tablet_of d (bs @ [wr_mutations r]))"
    by (simp add: replay_next del: of_nat_Suc)
  with Cons.IH [of "wr_epoch r" "bs @ [wr_mutations r]"] Cons.prems show ?case by simp
qed simp

lemma log_ok_sequences:
  "\<lbrakk>log_ok X d e n rs; r \<in> set rs\<rbrakk> \<Longrightarrow> n < unat (wr_sequence r) \<and> unat (wr_sequence r) \<le> n + length rs"
proof (induction X d e n rs rule: log_ok.induct)
  case (2 X d e n q rs)
  then have "unat (wr_sequence q) = Suc n" by (simp add: unat_of_nat del: of_nat_Suc)
  with 2 show ?case by auto
qed simp

lemma log_ok_split:
  assumes "log_ok X d e n rs" "n \<le> k" "k \<le> n + length rs"
  shows "log_ok X d e n (take (k - n) rs)" "\<exists>e'. log_ok X d e' k (drop (k - n) rs)"
proof -
  have "n + length (take (k - n) rs) = k" using assms(2,3) by simp
  with log_ok_append [of X d e n "take (k - n) rs" "drop (k - n) rs"] assms(1)
  show "log_ok X d e n (take (k - n) rs)" "\<exists>e'. log_ok X d e' k (drop (k - n) rs)" by auto
qed

lemma filter_newer:
  assumes "log_ok X d e n rs" "n \<le> k" "k \<le> n + length rs" "k < 2 ^ 64"
  shows "filter (\<lambda>r. wr_sequence r > of_nat k) rs = drop (k - n) rs"
proof -
  have k: "wr_sequence r > of_nat k \<longleftrightarrow> unat (wr_sequence r) > k" for r
    using assms(4) by (simp add: word_less_nat_alt unat_of_nat)
  have "filter (\<lambda>r. wr_sequence r > of_nat k) (take (k - n) rs) = []"
    using log_ok_sequences [OF log_ok_split(1) [OF assms(1-3)]] assms(2,3) by (auto simp: k filter_empty_conv not_less)
  moreover have "filter (\<lambda>r. wr_sequence r > of_nat k) (drop (k - n) rs) = drop (k - n) rs"
    using log_ok_split(2) [OF assms(1-3)] log_ok_sequences by (fastforce simp: k filter_id_conv)
  ultimately show ?thesis by (metis append_take_drop_id filter_append append_Nil)
qed

subsection \<open>The files of a tablet\<close>

text \<open>
  A log with the batches after the first \<open>n\<close>; and a checkpoint of a prefix of the batches that has at least the first
  \<open>n\<close>, taken by an owner of the same tablet at this epoch or before.
\<close>

definition log_holds :: "externals \<Rightarrow> TabletDescriptor \<Rightarrow> nat \<Rightarrow> TabletId option \<Rightarrow> u64 option \<Rightarrow> WalRecord list \<Rightarrow> TabletMutation list list \<Rightarrow> bool" where
  "log_holds X d n tab ep rs bs \<longleftrightarrow> head_ok d n tab ep \<and> log_ok X d (epoch_or_0 ep) n rs \<and> n \<le> length bs
     \<and> drop n bs = map wr_mutations rs \<and> (\<forall>b \<in> set bs. in_range d b) \<and> single_keys bs"

definition takes_over :: "TabletDescriptor \<Rightarrow> TabletDescriptor \<Rightarrow> bool" where
  "takes_over d d' \<longleftrightarrow> td_id d' = td_id d \<and> td_range d' = td_range d \<and> td_epoch d \<le> td_epoch d'"

definition ckpt_holds :: "externals \<Rightarrow> TabletDescriptor \<Rightarrow> nat \<Rightarrow> bytes option \<Rightarrow> TabletMutation list list \<Rightarrow> bool" where
  "ckpt_holds X d n ckpt bs \<longleftrightarrow> (case ckpt of None \<Rightarrow> n = 0
     | Some file \<Rightarrow> \<exists>k d0 p. n \<le> k \<and> k \<le> length bs \<and> takes_over d0 d \<and> length p \<le> MAX_CHECKPOINT_BYTES
         \<and> ex_checkpoint_to_json X (disk_checkpoint (tablet_of d0 (take k bs))) = Some p \<and> file = checkpoint_bytes (ex_hash X) p)"

lemma log_holds_length: "log_holds X d n tab ep rs bs \<Longrightarrow> length bs = n + length rs \<and> length bs < 2 ^ 64"
  using log_ok_bound [of X d "epoch_or_0 ep" n rs] length_drop [of n bs] by (auto simp: log_holds_def head_ok_def)

lemma load_bytes:
  assumes "codec_ok X" "ex_checkpoint_to_json X c = Some p" "length p \<le> MAX_CHECKPOINT_BYTES"
  shows "load_checkpoint X fault (Some (checkpoint_bytes (ex_hash X) p)) d =
    (if fails fault IoCkRead then Inl CkIo else case check_descriptor c d of Inl e \<Rightarrow> Inl e | Inr t \<Rightarrow> Inr (Some t))"
proof -
  let ?m = CHECKPOINT_MAGIC and ?l = "to_le 4 (of_nat (length p) :: u32)" and ?h = "ex_hash X p"
  have len: "length ?m = 8" "length ?l = 4" "length ?h = 32" using assms(1) by (simp_all add: db_sizes codec_ok_def)
  define f where "f = ?m @ ?l @ p @ ?h"
  have "unat (of_nat (length p) :: u32) = length p" using assms(3) by (intro unat_length_u32) (simp add: MAX_CHECKPOINT_BYTES_def)
  moreover have "take 8 f = ?m" "take 4 (drop 8 f) = ?l" "take (length p) (drop 12 f) = p" "take 32 (drop (12 + length p) f) = ?h"
    "length f = 12 + length p + 32"
    using len by (simp_all add: f_def)
  moreover have "ex_checkpoint_from_json X p = Some c" using assms(1,2) by (simp add: codec_ok_def)
  ultimately show ?thesis using assms(3) len(3) by (simp add: load_checkpoint_def checkpoint_bytes_def f_def [symmetric] Let_def)
qed

lemma load_holds:
  assumes "codec_ok X" "ckpt_holds X d n (Some file) bs" "log_holds X d n tab ep rs bs"
  shows "\<exists>k. n \<le> k \<and> k \<le> length bs \<and> load_checkpoint X fault (Some file) d =
    (if fails fault IoCkRead then Inl CkIo else Inr (Some (tablet_of d (take k bs))))"
proof -
  obtain k d0 p where k: "n \<le> k" "k \<le> length bs" and d0: "takes_over d0 d" and p: "length p \<le> MAX_CHECKPOINT_BYTES"
    "ex_checkpoint_to_json X (disk_checkpoint (tablet_of d0 (take k bs))) = Some p" "file = checkpoint_bytes (ex_hash X) p"
    using assms(2) by (auto simp: ckpt_holds_def)
  have "restore_snapshot d (snapshot_state (tablet_of d0 (take k bs))) = Inr (tablet_of d (take k bs))"
    using assms(3) log_holds_length [OF assms(3)]
    by (intro restore_tablet) (auto simp: log_holds_def single_keys_def dest: in_set_takeD)
  then have "check_descriptor (disk_checkpoint (tablet_of d0 (take k bs))) d = Inr (tablet_of d (take k bs))"
    using d0 by (simp add: check_descriptor_def disk_checkpoint_def Let_def takes_over_def not_less)
  then show ?thesis using load_bytes [OF assms(1) p(2,1)] p(3) k by auto
qed

text \<open>Replay after a checkpoint, and recovery from both files.\<close>

lemma replay_after_holds:
  assumes "log_holds X d n tab ep rs bs" "n \<le> k" "k \<le> length bs"
  shows "replay_after_checkpoint (wal_of X (of_nat n) tab ep rs) (tablet_of d (take k bs)) = Inr (tablet_of d bs)"
proof -
  let ?w = "wal_of X (of_nat n) tab ep rs"
  note h = assms(1) [unfolded log_holds_def]
  have len: "length bs = n + length rs" "length bs < 2 ^ 64" using log_holds_length [OF assms(1)] by auto
  have tab: "fw_tablet ?w \<in> {None, Some (td_id d)}" using h wal_of_tablet by blast
  have ep: "fw_epoch ?w \<noteq> None \<Longrightarrow> \<not> td_epoch d < the (fw_epoch ?w)"
    using h wal_of_epoch [of X "of_nat n" tab ep rs] log_ok_epoch [of X d _ n rs] log_ok_last [of X d _ n rs]
    by (auto simp: epoch_or_0_def last_epoch_def not_less split: option.splits if_splits)
  have seq: "mt_sequence (tablet_of d (take k bs)) = of_nat k" "last_sequence ?w = of_nat (length bs)"
    using assms(3) last_sequence_wal_of [of X d "epoch_or_0 ep" n rs tab ep] h len by (simp_all add: min_def)
  have "\<not> of_nat k < (of_nat n :: u64)" "\<not> of_nat (length bs) < (of_nat k :: u64)"
    using assms(2,3) len(2) by (simp_all add: word_less_nat_alt unat_of_nat)
  moreover have "filter (\<lambda>r. wr_sequence r > of_nat k) rs = drop (k - n) rs"
    using filter_newer [of X d "epoch_or_0 ep" n rs k] h assms(2,3) len by simp
  moreover have "replay_records (drop (k - n) rs) (tablet_of d (take k bs)) = Inr (tablet_of d bs)"
  proof -
    obtain e' where "log_ok X d e' k (drop (k - n) rs)" using log_ok_split(2) [of X d _ n rs k] h assms(2,3) len by auto
    then have "replay_records (drop (k - n) rs) (tablet_of d (take k bs)) = Inr (tablet_of d (take k bs @ map wr_mutations (drop (k - n) rs)))"
      using replay_log [of X d e' "take k bs"] assms(3) by (simp add: min_def)
    also have "map wr_mutations (drop (k - n) rs) = drop (k - n) (drop n bs)" using h by (simp add: drop_map)
    finally show ?thesis using assms(2) by simp
  qed
  ultimately show ?thesis using tab ep seq by (auto simp: replay_after_checkpoint_def Let_def)
qed

lemma recover_holds:
  assumes "codec_ok X" "log_holds X d n tab ep rs bs" "ckpt_holds X d n ckpt bs"
  shows "recover X fault d (wal_of X (of_nat n) tab ep rs) ckpt =
    (if ckpt \<noteq> None \<and> fails fault IoCkRead then Inl (BackedCheckpoint CkIo)
     else Inr \<lparr>wb_tablet = tablet_of d bs, wb_wal = wal_of X (of_nat n) tab ep rs\<rparr>)"
proof (cases ckpt)
  case None
  let ?w = "wal_of X (of_nat n) tab ep rs"
  have n: "n = 0" using None assms(3) by (simp add: ckpt_holds_def)
  have len: "length bs = n + length rs" using log_holds_length [OF assms(2)] by simp
  have "recover_memory_tablet ?w d = replay_after_checkpoint ?w (MemoryTablet_new d)"
    using n replay_after_holds [OF assms(2), of 0] assms(2) filter_newer [of X d "epoch_or_0 ep" 0 rs 0]
    by (auto simp: recover_memory_tablet_def replay_after_checkpoint_def MemoryTablet_new_def Let_def log_holds_def split: if_splits)
  then have "recover_memory_tablet ?w d = Inr (tablet_of d bs)" using n replay_after_holds [OF assms(2), of 0] by simp
  moreover have "replay_after_checkpoint ?w (tablet_of d bs) = Inr (tablet_of d bs)"
    using replay_after_holds [OF assms(2), of "length bs"] len by simp
  ultimately show ?thesis using None by (simp add: recover_def load_checkpoint_def)
next
  case (Some f)
  then obtain k where "n \<le> k" "k \<le> length bs" "load_checkpoint X fault ckpt d =
    (if fails fault IoCkRead then Inl CkIo else Inr (Some (tablet_of d (take k bs))))"
    using load_holds [of X d n f bs] assms by blast
  then show ?thesis using Some replay_after_holds [OF assms(2)] by (simp add: recover_def)
qed

end
