(* ===== verification/Db_Durable.thy ===== *)
theory Db_Durable
  imports Db_Recovery
begin

text \<open>
  Durability of the tablet on its log: a run of opens, commits, checkpoints and crashes, with a failing system call at
  any point of any of them, and what the next open finds.
\<close>

subsection \<open>Runs\<close>

definition new_disk :: disk where
  "new_disk = \<lparr>dk_wal_exists = False, dk_wal = [], dk_wal_tmp = None, dk_ckpt = None, dk_ckpt_tmp = None\<rparr>"


subsection \<open>What the files hold\<close>







lemma torn_Nil [simp]: "torn X []"
  by (simp add: torn_def)







subsection \<open>Opening\<close>


subsection \<open>Committing\<close>







subsection \<open>Checkpointing\<close>

lemma publish_cases:
  assumes "publish_checkpoint X fault s dk = (r, dk')"
  obtains e where "r = Inl e" "dk_wal dk' = dk_wal dk" "dk_wal_tmp dk' = dk_wal_tmp dk" "dk_ckpt dk' = dk_ckpt dk"
  | p where "ex_checkpoint_to_json X (disk_checkpoint (wb_tablet s)) = Some p" "length p \<le> MAX_CHECKPOINT_BYTES"
    "dk_wal dk' = dk_wal dk" "dk_wal_tmp dk' = dk_wal_tmp dk" "dk_ckpt dk' = Some (checkpoint_bytes (ex_hash X) p)"
proof (cases "ex_checkpoint_to_json X (disk_checkpoint (wb_tablet s))")
  case None
  then show ?thesis using assms that(1) by (auto simp: publish_checkpoint_def write_checkpoint_def)
next
  case (Some p)
  show ?thesis using assms that(1) that(2) [OF Some] Some
    by (auto simp: publish_checkpoint_def write_checkpoint_def write_all_def fails_def Let_def
        split: if_splits option.splits prod.splits)
qed






subsection \<open>The invariant of a run\<close>











subsection \<open>A sample\<close>

text \<open>One batch, committed and checkpointed, with encoders for its record and its checkpoint.\<close>

definition sample_tablet :: TabletDescriptor where
  "sample_tablet = \<lparr>td_id = 1, td_range = \<lparr>kr_start = [], kr_end = None\<rparr>, td_epoch = 1\<rparr>"

definition sample_write :: "TabletMutation list \<Rightarrow> TabletWrite" where
  "sample_write b = \<lparr>tw_tablet_id = 1, tw_epoch = 1, tw_sequence = 1, tw_previous = 0, tw_mutations = b\<rparr>"

definition sample_externals :: "TabletMutation list \<Rightarrow> externals" where
  "sample_externals b =
     (let r0 = to_disk (from_write (sample_write b)); c0 = disk_checkpoint (tablet_of sample_tablet [b]) in
      \<lparr>ex_hash = (\<lambda>_. replicate 32 0),
       ex_record_to_json = (\<lambda>r. if r = r0 then Some [1] else None), ex_record_from_json = (\<lambda>p. if p = [1] then Some r0 else None),
       ex_checkpoint_to_json = (\<lambda>c. if c = c0 then Some [2] else None), ex_checkpoint_from_json = (\<lambda>p. if p = [2] then Some c0 else None)\<rparr>)"

lemma sample_codec: "codec_ok (sample_externals b)"
  by (simp add: codec_ok_def sample_externals_def Let_def)

definition sample_opened :: "TabletMutation list \<Rightarrow> WalBackedTablet" where
  "sample_opened b = \<lparr>wb_tablet = MemoryTablet_new sample_tablet, wb_wal = wal_of (sample_externals b) 0 None None []\<rparr>"

definition sample_disk :: "TabletMutation list \<Rightarrow> disk" where
  "sample_disk b = new_disk\<lparr>dk_wal_exists := True, dk_wal := header (sample_externals b) 0 None None\<rparr>"


lemma sample_commit:
  obtains s dk where "store_commit (sample_externals b) None (sample_write b) (sample_opened b) (sample_disk b) = (Inr 1, s, dk)"
    "wb_tablet s = tablet_of sample_tablet [b]" "\<not> fw_poisoned (wb_wal s)" "last_sequence (wb_wal s) = 1"
    "fw_tablet (wb_wal s) = Some 1" "fw_epoch (wb_wal s) = Some 1"
proof -
  let ?X = "sample_externals b" and ?w = "sample_write b"
  have v: "validate_write (MemoryTablet_new sample_tablet) ?w = Inr ()"
    by (simp add: validate_write_def sample_tablet_def sample_write_def MemoryTablet_new_def checked_succ_def range_contains_def list_ex_iff)
  have c: "append_checks (ex_record_to_json ?X) ?w (wal_of ?X 0 None None []) offset = Inr (from_write ?w, [1])" for offset
    by (simp add: append_checks_def sample_write_def from_write_def wal_of_def last_sequence_def checked_succ_def MAX_WAL_RECORD_BYTES_def
        sample_externals_def Let_def)
  have t: "apply_mutations 1 b (MemoryTablet_new sample_tablet) = tablet_of sample_tablet [b]"
    by (simp add: tablet_of_def MemoryTablet_new_def)
  have w: "tw_sequence ?w = 1" "tw_mutations ?w = b" "from_write ?w = \<lparr>wr_tablet_id = 1, wr_epoch = 1, wr_sequence = 1, wr_previous = 0, wr_mutations = b\<rparr>"
    by (simp_all add: sample_write_def from_write_def)
  obtain r s dk where e: "store_commit ?X None ?w (sample_opened b) (sample_disk b) = (r, s, dk)" by (rule prod_cases3)
  have "r = Inr 1 \<and> wb_tablet s = tablet_of sample_tablet [b] \<and> \<not> fw_poisoned (wb_wal s) \<and> last_sequence (wb_wal s) = 1
      \<and> fw_tablet (wb_wal s) = Some 1 \<and> fw_epoch (wb_wal s) = Some 1"
    using e v c by (auto simp: store_commit_def append_write_def write_all_def fails_def publish_validated_def sample_opened_def w t
        last_sequence_def)
  with e that show thesis by blast
qed

lemma sample_checkpoint:
  assumes "wb_tablet s = tablet_of sample_tablet [b]" "\<not> fw_poisoned (wb_wal s)" "last_sequence (wb_wal s) = 1"
    "fw_tablet (wb_wal s) = Some 1" "fw_epoch (wb_wal s) = Some 1"
  shows "fst (store_checkpoint (sample_externals b) None s dk) = Inr ()"
proof -
  let ?X = "sample_externals b"
  have p: "fst (publish_checkpoint ?X None s dk) = Inr ()"
    using assms(1) by (simp add: publish_checkpoint_def write_checkpoint_def write_all_def fails_def sample_externals_def Let_def MAX_CHECKPOINT_BYTES_def)
  have h: "head_ok sample_tablet 1 (Some 1) (Some 1)" "log_ok ?X sample_tablet (epoch_or_0 (Some 1)) 1 []"
    by (simp_all add: head_ok_def sample_tablet_def epoch_or_0_def)
  have o: "wal_open (ex_hash ?X) (ex_record_from_json ?X) None True (encode_wal_header (ex_hash ?X) 1 (Some 1) (Some 1))
      = (Inr (wal_of ?X 1 (Some 1) (Some 1) []), header ?X 1 (Some 1) (Some 1))"
    using open_log [OF sample_codec h, of "[]" None True] by (simp add: header_def fails_def torn_def)
  show ?thesis using p assms o
    by (auto simp: store_checkpoint_def reclaim_through_def write_all_def fails_def Let_def split: prod.splits sum.splits)
qed


subsection \<open>Properties\<close>





text \<open>
  C35: A batch that names a key twice is committed, and a checkpoint after it succeeds and reclaims the log; from then on
  no owner can open the tablet again, since the snapshot is refused.
\<close>

theorem checkpoint_repeated_key:
  assumes "codec_ok X" "wb_tablet s = tablet_of d bs" "b \<in> set bs" "\<not> distinct (map mutation_key b)" "\<forall>b \<in> set bs. in_range d b"
    "store_checkpoint X fault s dk = (Inr (), s', dk')" "takes_over d d'"
  shows "\<exists>e. fst (store_open X fault' d' dk') = Inl e"
proof -
  obtain r1 dk1 where u: "publish_checkpoint X fault s dk = (r1, dk1)" by (rule prod.exhaust)
  then have "r1 = Inr ()" and k: "dk_ckpt dk' = dk_ckpt dk1"
    using assms(6) by (auto simp: store_checkpoint_def split: sum.splits prod.splits)
  with u obtain p where p: "ex_checkpoint_to_json X (disk_checkpoint (tablet_of d bs)) = Some p" "length p \<le> MAX_CHECKPOINT_BYTES"
    "dk_ckpt dk' = Some (checkpoint_bytes (ex_hash X) p)"
    by (cases rule: publish_cases) (auto simp: assms(2))
  have "in_range d' b" if "b \<in> set bs" for b using assms(5,7) that by (auto simp: in_range_def takes_over_def)
  then have "restore_snapshot d' (snapshot_state (tablet_of d bs)) = Inl InvalidSnapshotHistory"
    using restore_repeated [OF assms(3,4)] by blast
  then have "check_descriptor (disk_checkpoint (tablet_of d bs)) d' = Inl (InvalidState InvalidSnapshotHistory)"
    using assms(7) by (simp add: check_descriptor_def disk_checkpoint_def Let_def takes_over_def not_less)
  then have "\<exists>e. recover X fault' d' w (dk_ckpt dk') = Inl e" for w
    using load_bytes [OF assms(1) p(1,2), of fault' d'] p(3) by (simp add: recover_def)
  then show ?thesis by (auto simp: store_open_def split: prod.split sum.split)
qed

theorem checkpoint_repeated_key_witness:
  "\<exists>s dk s' dk'. let b = [Put [1] [7], Put [1] [8]]; X = sample_externals b; d = sample_tablet in codec_ok X
    \<and> store_commit X None (sample_write b) (sample_opened b) (sample_disk b) = (Inr 1, s, dk)
    \<and> wb_tablet s = tablet_of d [b] \<and> \<not> distinct (map mutation_key b) \<and> in_range d b
    \<and> store_checkpoint X None s dk = (Inr (), s', dk') \<and> takes_over d d \<and> (\<exists>e. fst (store_open X None d dk') = Inl e)"
proof -
  let ?b = "[Put [1] [7], Put [1] [8]]"
  let ?X = "sample_externals ?b" and ?d = sample_tablet
  obtain s dk where c: "store_commit ?X None (sample_write ?b) (sample_opened ?b) (sample_disk ?b) = (Inr 1, s, dk)"
    "wb_tablet s = tablet_of ?d [?b]" "\<not> fw_poisoned (wb_wal s)" "last_sequence (wb_wal s) = 1"
    "fw_tablet (wb_wal s) = Some 1" "fw_epoch (wb_wal s) = Some 1" by (rule sample_commit)
  obtain s' dk' where k: "store_checkpoint ?X None s dk = (Inr (), s', dk')"
    using sample_checkpoint [OF c(2-6), of dk] by (metis prod.collapse)
  have i: "in_range ?d ?b" by (simp add: in_range_def range_contains_def sample_tablet_def)
  have t: "takes_over ?d ?d" by (simp add: takes_over_def)
  show ?thesis
    using checkpoint_repeated_key [OF sample_codec c(2) _ _ _ k t, of ?b None] sample_codec c(1,2) k i t by (auto simp: Let_def)
qed
text \<open>
  C36: A log whose first header is torn. When the write of the header of a new log stops after some bytes but not all, the
  open fails, and every later open, by any owner, fails as well and leaves the file as it is: the tail that is cut off
  after a crash is one of a record, not one of the header.
\<close>

theorem torn_new_header:
  assumes "codec_ok X" "0 < k" "k < WAL_HEADER_BYTES" "store_open X (Some (IoHeader, k)) d new_disk = (r, dk)"
  shows "r = Inl (BackedWal WalIo) \<and> (\<forall>fault d'. \<exists>e. store_open X fault d' dk = (Inl (BackedWal e), dk))"
proof -
  let ?f = "take k (header X 0 None None)"
  have l: "length ?f = k" using assms(3) length_header [OF assms(1), of 0 None None] by simp
  have dk: "r = Inl (BackedWal WalIo)" "dk = new_disk\<lparr>dk_wal_exists := True, dk_wal := ?f\<rparr>"
    using assms(4) by (auto simp: store_open_def wal_open_def new_disk_def write_all_def fails_def header_def)
  have "?f \<noteq> []" using l assms(2) by auto
  then have "\<exists>e. wal_open (ex_hash X) (ex_record_from_json X) fault True ?f = (Inl e, ?f)" for fault
    using l assms(3) by (simp add: wal_open_def open_existing_def)
  then obtain e where e: "wal_open (ex_hash X) (ex_record_from_json X) fault True ?f = (Inl (e fault), ?f)" for fault by metis
  have "store_open X fault d' dk = (Inl (BackedWal (e fault)), dk)" for fault d'
    using e [of fault] by (simp add: store_open_def dk(2) new_disk_def)
  with dk(1) show ?thesis by blast
qed

theorem torn_new_header_witness:
  "codec_ok (sample_externals []) \<and> (0 :: nat) < 10 \<and> 10 < WAL_HEADER_BYTES
    \<and> (\<exists>r dk. store_open (sample_externals []) (Some (IoHeader, 10)) sample_tablet new_disk = (r, dk) \<and> r = Inl (BackedWal WalIo)
      \<and> (\<exists>e. store_open (sample_externals []) None sample_tablet dk = (Inl (BackedWal e), dk)))"
proof -
  obtain r dk where o: "store_open (sample_externals []) (Some (IoHeader, 10)) sample_tablet new_disk = (r, dk)" by (rule prod.exhaust)
  have b: "(10 :: nat) < WAL_HEADER_BYTES" by (simp add: db_sizes)
  show ?thesis using torn_new_header [OF sample_codec _ b o] sample_codec b o by auto
qed

end
