(* ===== verification/Spec2Isabelle.thy ===== *)
theory Spec2Isabelle
  imports Core_VM_Frames Crdt_Registers Timer_Wheel Resp Mailbox_Receive Mailbox_Slots Cache_Expiry Cache_Pipeline
    Type_Canonical Type_Unify_Sound Db_Durable
begin

text \<open>
  A verification library for Nulang, an actor language with a typed front end, a bytecode machine and a distributed
  runtime. Paths below are under \<open>src/src/\<close> of the repository.

  \<^bold>\<open>The program.\<close> The front end parses a program, checks its types and effects and lowers it to a \<open>CodeModule\<close> of 32-bit
  instructions. A machine runs the instructions on tagged 64-bit values. The runtime gives every actor a mailbox, fires
  timers, replicates state between nodes with convergent data types, serves a Redis-compatible cache, and stores tablets
  of keys in a write-ahead log. The library models these parts from the values up to the services; each part is a group
  of theories.

  \<^bold>\<open>Shared.\<close> \<open>Nulang_Prelude\<close> names the machine integers and the byte encodings, \<open>Rust_Std\<close> what the sources use of the
  standard library. A struct is a record with prefixed fields, an enum a datatype, a \<open>u64\<close> a 64-bit word, a \<open>Vec\<close> a
  list, a \<open>HashMap\<close> an association list with distinct keys in any order, a \<open>BTreeMap\<close> one in the order of the keys.
  \<open>&mut self\<close> is a state passed and returned; \<open>Err\<close> is \<open>Inl\<close>; a panic is \<open>None\<close> or an error value of its own.

  \<^bold>\<open>Values and code.\<close> \<open>Value_Layout\<close> (\<open>value_layout.rs\<close>): boxing is a bijection on the 48-bit integers, and no float has
  the bits of another kind of value. \<open>Bytecode\<close> and \<open>Code_Module\<close> (\<open>bytecode.rs\<close>): the opcodes, the encoding of
  instructions, which decodes to what was encoded, and the module tables.

  \<^bold>\<open>Core machine.\<close> \<open>Core_VM\<close> (\<open>core_vm/mod.rs\<close>): frames, closures, string pool, handler stack, every instruction and the
  run loop. \<open>Core_VM_Safety\<close>: whatever the bytecode, no index goes out of range, so the machine ends with a value or an
  error it reports and never panics. \<open>Core_VM_Frames\<close>: a call returns to its caller with the frames below unchanged. The
  run loop may not end; its fuel is the number of iterations, and more fuel does not change a result.

  \<^bold>\<open>Replicated data.\<close> \<open>Crdt_Lattice\<close> has the locales \<open>crdt\<close> and \<open>delta_crdt\<close>: a merge that is a join on what a state
  stands for, from which convergence of replicas follows once. \<open>Crdt_Counters\<close>, \<open>Crdt_Sets\<close> and \<open>Crdt_Clocks\<close>
  (\<open>runtime/crdt.rs\<close>) and \<open>Crdt_Registers\<close> (\<open>runtime/crdt_reg.rs\<close>) interpret them for every type that satisfies
  them. The lemmas also show exact counts, observed removal, that adds win over concurrent removals, that collected
  tombstones do not bring elements back, and the exact watermark. \<open>Wire_Codec\<close> has the locale \<open>codec\<close> of the push and
  read helpers, from which the round trips of all wire formats follow. The theorems of kind error show where a type
  does not keep its promise: \<open>AWORSet\<close> and \<open>RGA\<close> stamp with the wrong clock, \<open>RGA\<close> depends on the order of merges, and
  the wire format of \<open>LWWRegister\<close> changes the tie-break.

  \<^bold>\<open>Mailbox and timers.\<close> \<open>Mailbox\<close> (\<open>runtime/mailbox.rs\<close>) and \<open>Mailbox_Receive\<close>: three lanes, staging and the indexed
  selective receive, which offers each message once in order and finds what a linear scan finds. \<open>Mailbox_Slots\<close>: the
  capacity counter as atomic steps of any number of threads, which never exceeds the capacity. The lock-free queue of
  crossbeam is an argument with its FIFO contract \<open>fifo_queue\<close>. \<open>Timer_Wheel\<close> (\<open>runtime/timer.rs\<close>): a tick fires
  exactly the timers that are due.

  \<^bold>\<open>Cache.\<close> \<open>Cache_Arena\<close> (locale \<open>byte_storage\<close>), \<open>Cache_Index\<close> (locale \<open>slot_index\<close>) and \<open>Cache_Store\<close>
  (\<open>runtime/cache.rs\<close>): size-class arena, open addressing with tombstones, slots with generations, expiration wheel.
  \<open>Cache_Refinement\<close> and \<open>Cache_Spec\<close>: in every history the store answers as a finite map with deadlines does.
  \<open>Cache_Expiry\<close>: a purge drops expired entries only, and all of them when its budget covers them. \<open>Resp\<close>
  (\<open>runtime/resp.rs\<close>): the incremental parser gives the same command however the bytes are split, and parses what is
  written. \<open>Resp_Cache\<close> (\<open>runtime/resp_cache.rs\<close>) puts both together: from the bytes of a request to the bytes of the reply
  each command acts on the map of the entries that are not expired, and only in the slot it is routed to. \<open>Cache_Routing\<close>
  (\<open>runtime/cache_routing.rs\<close>): a placement update is all or nothing, and the reported ranges are the table.
  \<open>Cache_Cluster\<close> (\<open>runtime/cache_cluster.rs\<close>): the topology commands, whose replies are whole or absent, and node
  identifiers, which differ for different shards. \<open>Cache_Dispatch\<close> (\<open>runtime/cache_dispatch.rs\<close>): the queues between
  shards as state, the dispatch of a frame to its owner, and \<open>channel_step\<close>, any call of any connection or shard owner; a
  queued request is answered as if it were executed directly. \<open>Cache_Pipeline\<close> (\<open>runtime/cache_pipeline.rs\<close>): in all
  histories of a connection among others the replies leave in the order of the requests, and a drain flushes all that are
  answered; a history keeps where each reply comes from and what was sent. The hash function of rustc-hash is an argument.

  \<^bold>\<open>Types.\<close> \<open>Type_Rows\<close>, \<open>Type_Core\<close> and \<open>Type_Canonical\<close> (\<open>types.rs\<close>), \<open>Type_Ntir\<close> (\<open>type_ir.rs\<close>), \<open>Type_Subst\<close> and
  \<open>Type_Unify\<close> (\<open>typechecker.rs\<close>): capabilities form a semilattice, canonical bytes identify types up to the order of
  fields and effects, generalisation keeps the variables of the context and of mutable storage. \<open>apply_subst\<close>, \<open>mgu\<close> and
  \<open>compose_subst\<close> need not end: their first argument is a depth, and \<open>settles\<close> says that from some depth on the result is
  the same. \<open>Type_Unify_Sound\<close>: on the structural fragment unification always returns, and the substitution it returns
  makes the types agree. The theorems of kind error show the gaps: the occurs check skips variants, ground types with one
  structural hash unify, a substitution reveals hidden names, a join with \<open>tag\<close> gains rights.

  \<^bold>\<open>Database.\<close> \<open>Db_Tablet\<close>, \<open>Db_Wal\<close> and \<open>Db_Store\<close> (\<open>database/tablet.rs\<close>, \<open>wal.rs\<close>, \<open>checkpoint.rs\<close>, \<open>store.rs\<close>): splits,
  the multi-version state, the log with checksums, checkpoints and reclamation. A file is its content, and every operation
  takes a \<open>fault\<close>: the first system call that fails and the number of bytes a write wrote before it. \<open>Db_Mvcc\<close>: a read at
  a snapshot is a read of the plain map after so many batches. \<open>Db_Recovery\<close>: opening finds what the files hold, with a
  torn frame at the end of the log or without. \<open>Db_Durable\<close>: runs of opens, commits, checkpoints and crashes with faults
  anywhere, of owners with growing epochs; acknowledged commits survive all of them, and readers see acknowledged
  commits only. A batch that names a key twice breaks this after a checkpoint, and a torn first header locks the file.
  blake3 and serde_json are arguments; \<open>codec_ok\<close> is what is relied on. The content of a file after a failed sync is taken
  to be what was written.

  \<^bold>\<open>Not modelled.\<close> The lexer, parser, formatter and the passes between the syntax tree, the intermediate representations
  and the instructions, with type inference over the tree: their data is the full syntax tree of the language, which no
  part of the library needs. The full machine, the heap and the garbage collector work on raw memory; the core machine has
  the same instructions without it. The native and WebAssembly back ends emit code through other libraries. The scheduler,
  the supervisor and the actor runtime are callbacks into the full machine under threads. Sockets, cluster membership,
  package commands, web adapters, foreign calls and the tools are input and output around the parts above.
\<close>

end
